(* ===== verification/Prelude.thy ===== *)
theory Prelude
  imports Main "HOL-Library.Word" "HOL-Library.Multiset" "HOL-Library.Sublist"
begin

text \<open>
  Shared vocabulary of the development: the C types the sources use, outcomes of kernel code that
  may panic, C strings, the outcomes of the memory allocator, and generic facts about lists and
  option values that the component theories rely on.
\<close>

unbundle bit_operations_syntax

named_theorems defs \<open>definitions a component proof unfolds\<close>

section \<open>Machine integers\<close>

type_synonym u8 = "8 word"
type_synonym u16 = "16 word"
type_synonym u32 = "32 word"
type_synonym u64 = "64 word"

lemma sint_of_nat32: "t < 2 ^ 31 \<Longrightarrow> sint (of_nat t :: u32) = int t"
  by (simp add: signed_of_nat signed_take_bit_int_eq_self)

section \<open>Code that may panic\<close>

text \<open>
  \<open>panic(s)\<close> never returns: a kernel routine that may call it yields a value of this type, and
  callers pass the panic on.
\<close>

datatype 'a res = Ok 'a | Panic string

fun bind_res :: "'a res \<Rightarrow> ('a \<Rightarrow> 'b res) \<Rightarrow> 'b res" where
  "bind_res (Ok a) f = f a"
| "bind_res (Panic m) f = Panic m"

fun is_ok :: "'a res \<Rightarrow> bool" where
  "is_ok (Ok _) = True"
| "is_ok (Panic _) = False"

lemma bind_res_assoc: "bind_res (bind_res r f) g = bind_res r (\<lambda>x. bind_res (f x) g)"
  by (cases r) auto

lemma bind_res_eq_Ok [simp]:
  "bind_res r f = Ok b \<longleftrightarrow> (\<exists>a. r = Ok a \<and> f a = Ok b)"
  by (cases r) auto

text \<open>A loop over a list whose body may panic.\<close>

fun fold_res :: "('a \<Rightarrow> 's \<Rightarrow> 's res) \<Rightarrow> 'a list \<Rightarrow> 's \<Rightarrow> 's res" where
  "fold_res f [] s = Ok s"
| "fold_res f (x # xs) s = bind_res (f x s) (fold_res f xs)"

lemma fold_res_append: "fold_res f (xs @ ys) s = bind_res (fold_res f xs s) (fold_res f ys)"
proof (induction xs arbitrary: s)
  case (Cons x xs)
  then show ?case by (cases "f x s") auto
qed simp

lemma is_ok_iff: "is_ok r \<longleftrightarrow> (\<exists>a. r = Ok a)"
  by (cases r) auto

section \<open>C strings\<close>

text \<open>
  A C string is the part of a character array before its first NUL. Functions of the shell take
  their argument through \<open>cstr\<close>, so a list with an embedded NUL means what it means in C.
\<close>

abbreviation NUL :: char where "NUL \<equiv> CHR 0x00"
abbreviation TAB :: char where "TAB \<equiv> CHR 0x09"
abbreviation NL :: char where "NL \<equiv> CHR 0x0A"
abbreviation CR :: char where "CR \<equiv> CHR 0x0D"
abbreviation SPC :: char where "SPC \<equiv> CHR 0x20"
abbreviation DQUOTE :: char where "DQUOTE \<equiv> CHR 0x22"
abbreviation SQUOTE :: char where "SQUOTE \<equiv> CHR 0x27"
abbreviation BSLASH :: char where "BSLASH \<equiv> CHR 0x5C"

definition cstr :: "string \<Rightarrow> string" where
  "cstr s = takeWhile (\<lambda>c. c \<noteq> NUL) s"

lemma cstr_id: "NUL \<notin> set s \<Longrightarrow> cstr s = s"
  unfolding cstr_def by (rule takeWhile_eq_all_conv [THEN iffD2]) auto

lemma cstr_no_NUL: "NUL \<notin> set (cstr s)"
  unfolding cstr_def by (auto dest: set_takeWhileD)

section \<open>The allocator of the C library\<close>

text \<open>
  Whether \<open>malloc\<close>, \<open>realloc\<close> or \<open>strdup\<close> succeeds is not determined by the program. An
  oracle gives the outcome of the n-th allocation; code that allocates threads the number of
  allocations made so far.
\<close>

type_synonym alloc_oracle = "nat \<Rightarrow> bool"

abbreviation always :: alloc_oracle where "always \<equiv> \<lambda>_. True"

section \<open>Lists\<close>

lemma nth_append_upd:
  "length xs = n \<Longrightarrow> 0 < m \<Longrightarrow> take (Suc n) ((xs @ replicate m d)[n := c]) = xs @ [c]"
  by (cases m) (auto simp: list_update_append)

lemma take_Suc_upd: "n < length xs \<Longrightarrow> take (Suc n) (xs[n := c]) = take n xs @ [c]"
  by (simp add: take_Suc_conv_app_nth)

end
