(* ===== verification/Lexer.thy ===== *)
theory Lexer
  imports Prelude
begin

text \<open>
  The tokenizer of the shell, \<open>c-shell/src/lexer.c\<close> with the types of
  \<open>c-shell/include/lexer.h\<close>. The first part translates the C code: growing word and token
  buffers, allocations that may fail, and the main loop over the rest of the line. The second
  part states what the tokenizer computes as a character automaton, proves that the code
  refines it, and derives the round trip through quoting and the exact set of rejected lines.
\<close>

section \<open>Data\<close>

datatype TokenType =
    TOKEN_WORD | TOKEN_OP_PIPE | TOKEN_OP_AMP | TOKEN_OP_SEMI | TOKEN_OP_LT | TOKEN_OP_GT
  | TOKEN_OP_GTGT

record Token =
  tok_type :: TokenType
  tok_text :: string

abbreviation word :: "string \<Rightarrow> Token" where "word t \<equiv> \<lparr>tok_type = TOKEN_WORD, tok_text = t\<rparr>"

text \<open>
  The first \<open>count\<close> entries of \<open>items\<close> are the list; \<open>capacity\<close> is the number of entries
  allocated.
\<close>

record TokenList =
  tl_items :: "Token list"
  tl_capacity :: nat

text \<open>
  \<open>wb_data\<close> is the allocated array (the empty list is the null pointer), of which the first
  \<open>wb_len\<close> characters are the word; what lies beyond is left over from earlier words or
  not yet written.
\<close>

record WordBuffer =
  wb_data :: string
  wb_len :: nat
  wb_cap :: nat

definition is_space :: "char \<Rightarrow> bool" where
  "is_space c \<longleftrightarrow> c = SPC \<or> c = TAB \<or> c = NL \<or> c = CR"

definition is_special :: "char \<Rightarrow> bool" where
  "is_special c \<longleftrightarrow> c = CHR ''|'' \<or> c = CHR ''&'' \<or> c = CHR '';'' \<or> c = CHR ''<'' \<or> c = CHR ''>''"

section \<open>Buffers\<close>

text \<open>Each operation takes the allocation oracle and the number of allocations made so far;
  \<open>None\<close> is the return value -1, after which \<open>lex_line\<close> gives up.\<close>

definition add_char :: "alloc_oracle \<Rightarrow> nat \<Rightarrow> WordBuffer \<Rightarrow> char \<Rightarrow> (nat \<times> WordBuffer) option" where
  "add_char ok k w c =
     (if wb_len w = wb_cap w then
        (let new_cap = (if wb_cap w = 0 then 16 else wb_cap w * 2) in
         if \<not> ok k then None
         else Some (Suc k, w\<lparr>wb_data := (wb_data w @ replicate (new_cap - wb_cap w) NUL)[wb_len w := c],
                             wb_cap := new_cap, wb_len := Suc (wb_len w)\<rparr>))
      else Some (k, w\<lparr>wb_data := (wb_data w)[wb_len w := c], wb_len := Suc (wb_len w)\<rparr>))"

definition token_list_init :: TokenList where
  "token_list_init = \<lparr>tl_items = [], tl_capacity = 0\<rparr>"

definition token_list_destroy :: "TokenList \<Rightarrow> TokenList" where
  "token_list_destroy tlist = \<lparr>tl_items = [], tl_capacity = 0\<rparr>"

definition token_list_push ::
    "alloc_oracle \<Rightarrow> nat \<Rightarrow> TokenList \<Rightarrow> TokenType \<Rightarrow> string \<Rightarrow> nat \<Rightarrow> (nat \<times> TokenList) option" where
  "token_list_push ok k tlist ty txt n =
     (case (if length (tl_items tlist) = tl_capacity tlist then
              (if ok k
               then Some (Suc k, tlist\<lparr>tl_capacity := (if tl_capacity tlist = 0 then 8 else tl_capacity tlist * 2)\<rparr>)
               else None)
            else Some (k, tlist)) of
        None \<Rightarrow> None
      | Some (k', tlist') \<Rightarrow>
          if \<not> ok k' then None
          else Some (Suc k', tlist'\<lparr>tl_items := tl_items tlist' @ [\<lparr>tok_type = ty, tok_text = take n txt\<rparr>]\<rparr>))"

text \<open>The state of the loop of \<open>lex_line\<close>: its local variables and the token list.\<close>

record lex_state =
  lx_mem :: nat
  lx_tokens :: TokenList
  lx_word :: WordBuffer
  lx_has_word :: bool

definition save_word :: "alloc_oracle \<Rightarrow> lex_state \<Rightarrow> lex_state option" where
  "save_word ok s =
     (if \<not> lx_has_word s then Some s
      else case token_list_push ok (lx_mem s) (lx_tokens s) TOKEN_WORD
                  (if wb_data (lx_word s) = [] then [] else wb_data (lx_word s))
                  (if wb_data (lx_word s) = [] then 0 else wb_len (lx_word s)) of
          None \<Rightarrow> None
        | Some (k, tlist) \<Rightarrow>
            Some (s\<lparr>lx_mem := k, lx_tokens := tlist, lx_word := (lx_word s)\<lparr>wb_len := 0\<rparr>,
                    lx_has_word := False\<rparr>))"

definition put_char :: "alloc_oracle \<Rightarrow> lex_state \<Rightarrow> char \<Rightarrow> lex_state option" where
  "put_char ok s c =
     (case add_char ok (lx_mem s) (lx_word s) c of
        None \<Rightarrow> None
      | Some (k, w) \<Rightarrow> Some (s\<lparr>lx_mem := k, lx_word := w\<rparr>))"

section \<open>The main loop\<close>

text \<open>The loop over \<open>'...'\<close>: the state and the rest of the line after the closing quote.\<close>

fun lex_squote :: "alloc_oracle \<Rightarrow> string \<Rightarrow> lex_state \<Rightarrow> (lex_state \<times> string) option" where
  "lex_squote ok [] s = None"
| "lex_squote ok (c # cs) s =
     (if c = SQUOTE then Some (s, cs)
      else case put_char ok s c of None \<Rightarrow> None | Some s' \<Rightarrow> lex_squote ok cs s')"

text \<open>The loop over \<open>"..."\<close>, where a backslash protects a double quote or a backslash and stays
  in the word before any other character.\<close>

fun lex_dquote :: "alloc_oracle \<Rightarrow> string \<Rightarrow> lex_state \<Rightarrow> (lex_state \<times> string) option" where
  "lex_dquote ok [] s = None"
| "lex_dquote ok (c # cs) s =
     (if c = DQUOTE then Some (s, cs)
      else if c = BSLASH then
        (case cs of
           [] \<Rightarrow> None
         | d # ds \<Rightarrow>
             (case (if d \<noteq> DQUOTE \<and> d \<noteq> BSLASH then put_char ok s BSLASH else Some s) of
                None \<Rightarrow> None
              | Some s1 \<Rightarrow> (case put_char ok s1 d of None \<Rightarrow> None | Some s2 \<Rightarrow> lex_dquote ok ds s2)))
      else case put_char ok s c of None \<Rightarrow> None | Some s' \<Rightarrow> lex_dquote ok cs s')"

definition op_token :: "char \<Rightarrow> string \<Rightarrow> TokenType \<times> nat" where
  "op_token c rest =
     (if c = CHR ''|'' then (TOKEN_OP_PIPE, 1)
      else if c = CHR ''&'' then (TOKEN_OP_AMP, 1)
      else if c = CHR '';'' then (TOKEN_OP_SEMI, 1)
      else if c = CHR ''<'' then (TOKEN_OP_LT, 1)
      else if c = CHR ''>'' then
        (case rest of d # _ \<Rightarrow> if d = CHR ''>'' then (TOKEN_OP_GTGT, 2) else (TOKEN_OP_GT, 1)
                    | [] \<Rightarrow> (TOKEN_OP_GT, 1))
      else (TOKEN_WORD, 1))"

lemma op_token_len_pos: "0 < snd (op_token c rest)"
  by (simp add: op_token_def split: list.split)

lemma lex_squote_length: "lex_squote ok cs s = Some (s', rest) \<Longrightarrow> length rest < length cs"
  by (induction ok cs s rule: lex_squote.induct) (fastforce split: if_splits option.splits)+

lemma lex_dquote_length: "lex_dquote ok cs s = Some (s', rest) \<Longrightarrow> length rest < length cs"
  by (induction ok cs s rule: lex_dquote.induct)
     (fastforce split: if_splits option.splits list.splits)+

function (sequential) lex_loop :: "alloc_oracle \<Rightarrow> string \<Rightarrow> lex_state \<Rightarrow> lex_state option" where
  "lex_loop ok [] s = Some s"
| "lex_loop ok (c # cs) s =
     (if is_space c then
        (case save_word ok s of None \<Rightarrow> None | Some s' \<Rightarrow> lex_loop ok cs s')
      else if is_special c then
        (case save_word ok s of
           None \<Rightarrow> None
         | Some s' \<Rightarrow>
             (case token_list_push ok (lx_mem s') (lx_tokens s') (fst (op_token c cs)) (c # cs)
                     (snd (op_token c cs)) of
                None \<Rightarrow> None
              | Some (k, tlist) \<Rightarrow>
                  lex_loop ok (drop (snd (op_token c cs)) (c # cs))
                    (s'\<lparr>lx_mem := k, lx_tokens := tlist\<rparr>)))
      else
        (let s1 = s\<lparr>lx_has_word := True\<rparr> in
         if c = BSLASH then
           (case cs of
              [] \<Rightarrow> None
            | d # ds \<Rightarrow> (case put_char ok s1 d of None \<Rightarrow> None | Some s2 \<Rightarrow> lex_loop ok ds s2))
         else if c = SQUOTE then
           (case lex_squote ok cs s1 of None \<Rightarrow> None | Some (s2, rest) \<Rightarrow> lex_loop ok rest s2)
         else if c = DQUOTE then
           (case lex_dquote ok cs s1 of None \<Rightarrow> None | Some (s2, rest) \<Rightarrow> lex_loop ok rest s2)
         else
           (case put_char ok s1 c of None \<Rightarrow> None | Some s2 \<Rightarrow> lex_loop ok cs s2)))"
  by pat_completeness auto
termination
  by (relation "measure (\<lambda>(ok, cs, s). length cs)")
     (auto dest: lex_squote_length lex_dquote_length simp: op_token_len_pos)

declare lex_loop.simps(2) [simp del]

definition lex_line :: "alloc_oracle \<Rightarrow> string \<Rightarrow> TokenList option" where
  "lex_line ok line =
     (case lex_loop ok (cstr line)
             \<lparr>lx_mem = 0, lx_tokens = token_list_init,
              lx_word = \<lparr>wb_data = [], wb_len = 0, wb_cap = 0\<rparr>, lx_has_word = False\<rparr> of
        None \<Rightarrow> None
      | Some s \<Rightarrow> map_option lx_tokens (save_word ok s))"

definition token_type_name :: "TokenType \<Rightarrow> string" where
  "token_type_name ty =
     (case ty of TOKEN_WORD \<Rightarrow> ''WORD'' | TOKEN_OP_PIPE \<Rightarrow> ''OP_PIPE'' | TOKEN_OP_AMP \<Rightarrow> ''OP_AMP''
      | TOKEN_OP_SEMI \<Rightarrow> ''OP_SEMI'' | TOKEN_OP_LT \<Rightarrow> ''OP_LT'' | TOKEN_OP_GT \<Rightarrow> ''OP_GT''
      | TOKEN_OP_GTGT \<Rightarrow> ''OP_GTGT'')"


section \<open>Memory safety of the buffers\<close>

text \<open>
  What the loop keeps true: the word lies inside the allocated array, the token list inside its
  capacity, and a word buffer is empty whenever no word has been started.
\<close>

definition lex_inv :: "lex_state \<Rightarrow> bool" where
  "lex_inv s \<longleftrightarrow>
     wb_len (lx_word s) \<le> wb_cap (lx_word s) \<and> wb_cap (lx_word s) = length (wb_data (lx_word s))
     \<and> length (tl_items (lx_tokens s)) \<le> tl_capacity (lx_tokens s)
     \<and> (\<not> lx_has_word s \<longrightarrow> wb_len (lx_word s) = 0)"

text \<open>The word read so far and the tokens saved so far.\<close>

definition lex_cur :: "lex_state \<Rightarrow> string" where
  "lex_cur s = take (wb_len (lx_word s)) (wb_data (lx_word s))"

abbreviation lex_items :: "lex_state \<Rightarrow> Token list" where
  "lex_items s \<equiv> tl_items (lx_tokens s)"

abbreviation word_tok :: "string \<Rightarrow> Token" where
  "word_tok w \<equiv> \<lparr>tok_type = TOKEN_WORD, tok_text = w\<rparr>"

definition flush :: "bool \<Rightarrow> string \<Rightarrow> Token list" where
  "flush hw w = (if hw then [word_tok w] else [])"

lemma token_list_push_Some:
  assumes "token_list_push ok k tlist ty txt n = Some (k', tlist')"
    and "length (tl_items tlist) \<le> tl_capacity tlist"
  shows "tl_items tlist' = tl_items tlist @ [\<lparr>tok_type = ty, tok_text = take n txt\<rparr>]"
    and "length (tl_items tlist') \<le> tl_capacity tlist'"
  using assms by (auto simp: token_list_push_def split: if_splits)

lemma token_list_push_always: "token_list_push always k tlist ty txt n \<noteq> None"
  by (simp add: token_list_push_def)

lemma add_char_Some:
  assumes "add_char ok k w c = Some (k', w')"
    and "wb_len w \<le> wb_cap w" and "wb_cap w = length (wb_data w)"
  shows "take (wb_len w') (wb_data w') = take (wb_len w) (wb_data w) @ [c]"
    and "0 < wb_len w'" and "wb_len w' \<le> wb_cap w'" and "wb_cap w' = length (wb_data w')"
  using assms
  by (auto simp: add_char_def Let_def nth_append_upd take_Suc_upd Suc_le_eq split: if_splits)

lemma add_char_always: "add_char always k w c \<noteq> None"
  by (simp add: add_char_def Let_def)

lemma put_char_Some:
  assumes "put_char ok s c = Some s'" and "lex_inv s" and "lx_has_word s"
  shows "lex_inv s' \<and> lx_has_word s' \<and> lex_items s' = lex_items s \<and> lex_cur s' = lex_cur s @ [c]"
  using assms add_char_Some [of ok "lx_mem s" "lx_word s" c]
  by (auto simp: put_char_def lex_inv_def lex_cur_def split: option.splits)

lemma put_char_always: "put_char always s c \<noteq> None"
  using add_char_always [of "lx_mem s" "lx_word s" c] by (auto simp: put_char_def split: option.split)

lemma save_word_Some:
  assumes "save_word ok s = Some s'" and "lex_inv s"
  shows "lex_inv s' \<and> \<not> lx_has_word s' \<and> lex_cur s' = []
    \<and> lex_items s' = lex_items s @ flush (lx_has_word s) (lex_cur s)"
proof (cases "lx_has_word s")
  case False
  with assms show ?thesis by (auto simp: save_word_def lex_inv_def lex_cur_def flush_def)
next
  case True
  with assms(1) obtain k tlist where
    push: "token_list_push ok (lx_mem s) (lx_tokens s) TOKEN_WORD
             (if wb_data (lx_word s) = [] then [] else wb_data (lx_word s))
             (if wb_data (lx_word s) = [] then 0 else wb_len (lx_word s)) = Some (k, tlist)"
    and s': "s' = s\<lparr>lx_mem := k, lx_tokens := tlist, lx_word := (lx_word s)\<lparr>wb_len := 0\<rparr>,
                    lx_has_word := False\<rparr>"
    by (auto simp: save_word_def split: option.splits)
  from assms(2) have cap: "length (lex_items s) \<le> tl_capacity (lx_tokens s)"
    by (simp add: lex_inv_def)
  from token_list_push_Some [OF push cap] True assms(2) show ?thesis
    by (auto simp: s' lex_inv_def lex_cur_def flush_def)
qed

lemma save_word_always: "save_word always s \<noteq> None"
  by (auto simp: save_word_def token_list_push_def split: option.split)

section \<open>Specification: a character automaton\<close>

datatype qstate = Plain | Esc | SQ | DQ | DQEsc

definition op_tok :: "char \<Rightarrow> string \<Rightarrow> Token" where
  "op_tok c rest = \<lparr>tok_type = fst (op_token c rest), tok_text = take (snd (op_token c rest)) (c # rest)\<rparr>"

text \<open>
  \<open>lex_spec q hw w cs\<close>: the tokens of the rest \<open>cs\<close> of a line when the automaton is in state
  \<open>q\<close>, \<open>w\<close> is the word read so far and \<open>hw\<close> says whether a word has been started.
\<close>

fun lex_spec :: "qstate \<Rightarrow> bool \<Rightarrow> string \<Rightarrow> string \<Rightarrow> Token list option" where
  "lex_spec q hw w [] = (if q = Plain then Some (flush hw w) else None)"
| "lex_spec Plain hw w (c # cs) =
     (if is_space c then map_option (append (flush hw w)) (lex_spec Plain False [] cs)
      else if is_special c then
        map_option (append (flush hw w @ [op_tok c cs]))
          (case cs of d # ds \<Rightarrow> if c = CHR ''>'' \<and> d = CHR ''>'' then lex_spec Plain False [] ds
                                else lex_spec Plain False [] cs
                    | [] \<Rightarrow> lex_spec Plain False [] cs)
      else if c = BSLASH then lex_spec Esc True w cs
      else if c = SQUOTE then lex_spec SQ True w cs
      else if c = DQUOTE then lex_spec DQ True w cs
      else lex_spec Plain True (w @ [c]) cs)"
| "lex_spec Esc hw w (c # cs) = lex_spec Plain hw (w @ [c]) cs"
| "lex_spec SQ hw w (c # cs) =
     (if c = SQUOTE then lex_spec Plain hw w cs else lex_spec SQ hw (w @ [c]) cs)"
| "lex_spec DQ hw w (c # cs) =
     (if c = DQUOTE then lex_spec Plain hw w cs
      else if c = BSLASH then lex_spec DQEsc hw w cs
      else lex_spec DQ hw (w @ [c]) cs)"
| "lex_spec DQEsc hw w (c # cs) =
     lex_spec DQ hw (if c = DQUOTE \<or> c = BSLASH then w @ [c] else w @ [BSLASH, c]) cs"

definition tokens_of :: "string \<Rightarrow> Token list option" where
  "tokens_of line = lex_spec Plain False [] (cstr line)"

lemma op_rest:
  "is_special c \<Longrightarrow>
   lex_spec Plain False [] (drop (snd (op_token c cs)) (c # cs)) =
     (case cs of d # ds \<Rightarrow> if c = CHR ''>'' \<and> d = CHR ''>'' then lex_spec Plain False [] ds
                           else lex_spec Plain False [] cs
               | [] \<Rightarrow> lex_spec Plain False [] cs)"
  by (auto simp: op_token_def is_special_def split: list.split)


section \<open>The code refines the automaton\<close>

text \<open>
  A run of the code that returns a token list returns the automaton's; a run that fails although
  every allocation succeeded fails because the automaton rejects. \<open>loop_agrees\<close> is this
  relation for the loop state, with the word in progress flushed.
\<close>

definition loop_agrees :: "alloc_oracle \<Rightarrow> lex_state \<Rightarrow> lex_state option \<Rightarrow> Token list option \<Rightarrow> bool" where
  "loop_agrees ok s r spec =
     (case r of
        None \<Rightarrow> ok = always \<longrightarrow> spec = None
      | Some s' \<Rightarrow> lex_inv s' \<and>
          (\<exists>ts. spec = Some ts \<and> lex_items s @ ts = lex_items s' @ flush (lx_has_word s') (lex_cur s')))"

definition quote_agrees :: "alloc_oracle \<Rightarrow> lex_state \<Rightarrow> (lex_state \<times> string) option \<Rightarrow> Token list option \<Rightarrow> bool" where
  "quote_agrees ok s r spec =
     (case r of
        None \<Rightarrow> ok = always \<longrightarrow> spec = None
      | Some (s', rest) \<Rightarrow> lex_inv s' \<and> lx_has_word s' \<and> lex_items s' = lex_items s
          \<and> spec = lex_spec Plain True (lex_cur s') rest)"

lemma quote_agrees_trans:
  "quote_agrees ok s' r spec \<Longrightarrow> lex_items s' = lex_items s \<Longrightarrow> quote_agrees ok s r spec"
  by (auto simp: quote_agrees_def split: option.splits)

lemma put_char_cases:
  assumes "lex_inv s" and "lx_has_word s"
  obtains (fail) "put_char ok s c = None" "ok \<noteq> always"
  | (put) s' where "put_char ok s c = Some s'" "lex_inv s'" "lx_has_word s'"
      "lex_items s' = lex_items s" "lex_cur s' = lex_cur s @ [c]"
  using put_char_Some [OF _ assms] put_char_always by (cases "put_char ok s c") fastforce+

lemma lex_squote_agrees:
  "lex_inv s \<Longrightarrow> lx_has_word s \<Longrightarrow>
   quote_agrees ok s (lex_squote ok cs s) (lex_spec SQ True (lex_cur s) cs)"
proof (induction ok cs s rule: lex_squote.induct)
  case (1 ok s)
  show ?case by (simp add: quote_agrees_def)
next
  case (2 ok c cs s)
  show ?case
  proof (cases "c = SQUOTE")
    case True
    with 2 show ?thesis by (simp add: quote_agrees_def)
  next
    case False
    from 2(2,3) show ?thesis
    proof (cases rule: put_char_cases [where ok = ok and c = c])
      case fail
      with False show ?thesis by (simp add: quote_agrees_def)
    next
      case (put s')
      with False 2(1) [OF False put(1)] show ?thesis by (auto intro: quote_agrees_trans)
    qed
  qed
qed

lemma lex_dquote_agrees:
  "lex_inv s \<Longrightarrow> lx_has_word s \<Longrightarrow>
   quote_agrees ok s (lex_dquote ok cs s) (lex_spec DQ True (lex_cur s) cs)"
proof (induction ok cs s rule: lex_dquote.induct)
  case (1 ok s)
  show ?case by (simp add: quote_agrees_def)
next
  case (2 ok c cs s)
  consider (close) "c = DQUOTE" | (esc) "c = BSLASH" | (plain) "c \<noteq> DQUOTE" "c \<noteq> BSLASH" by blast
  then show ?case
  proof cases
    case close
    with 2 show ?thesis by (simp add: quote_agrees_def)
  next
    case esc
    show ?thesis
    proof (cases cs)
      case Nil
      with esc show ?thesis by (simp add: quote_agrees_def)
    next
      case (Cons d ds)
      let ?keep = "d \<noteq> DQUOTE \<and> d \<noteq> BSLASH"
      show ?thesis
      proof (cases "(if ?keep then put_char ok s BSLASH else Some s)")
        case None
        with put_char_always [of s BSLASH] have "ok \<noteq> always" by (auto split: if_splits)
        with esc Cons None show ?thesis by (simp add: quote_agrees_def)
      next
        case (Some s1)
        with put_char_Some [of ok s BSLASH s1] 2(3,4)
        have s1: "lex_inv s1" "lx_has_word s1" "lex_items s1 = lex_items s"
          "lex_cur s1 = lex_cur s @ (if ?keep then [BSLASH] else [])"
          by (auto split: if_splits)
        from s1(1,2) show ?thesis
        proof (cases rule: put_char_cases [where ok = ok and c = d])
          case fail
          with esc Cons Some show ?thesis by (simp add: quote_agrees_def)
        next
          case (put s2)
          with 2(1) [OF _ esc Cons Some put(1)] esc
          have "quote_agrees ok s2 (lex_dquote ok ds s2) (lex_spec DQ True (lex_cur s2) ds)" by simp
          then have "quote_agrees ok s (lex_dquote ok ds s2) (lex_spec DQ True (lex_cur s2) ds)"
            by (rule quote_agrees_trans) (simp add: put(4) s1(3))
          moreover have "lex_cur s2 = (if d = DQUOTE \<or> d = BSLASH then lex_cur s @ [d] else lex_cur s @ [BSLASH, d])"
            using put(5) s1(4) by auto
          ultimately show ?thesis using esc Cons Some put(1) by simp
        qed
      qed
    qed
  next
    case plain
    from 2(3,4) show ?thesis
    proof (cases rule: put_char_cases [where ok = ok and c = c])
      case fail
      with plain show ?thesis by (simp add: quote_agrees_def)
    next
      case (put s')
      with 2(2) [OF plain put(1)] plain show ?thesis by (auto intro: quote_agrees_trans)
    qed
  qed
qed


lemma loop_agrees_trans:
  assumes "loop_agrees ok s' r spec'" and "lex_items s' = lex_items s @ us"
    and "spec = map_option (append us) spec'"
  shows "loop_agrees ok s r spec"
  using assms by (auto simp: loop_agrees_def split: option.splits)

lemma loop_agrees_same:
  "loop_agrees ok s' r spec \<Longrightarrow> lex_items s' = lex_items s \<Longrightarrow> loop_agrees ok s r spec"
  by (auto simp: loop_agrees_def split: option.splits)

lemma lex_inv_start_word: "lex_inv s \<Longrightarrow> lex_inv (s\<lparr>lx_has_word := True\<rparr>)"
  by (simp add: lex_inv_def)

lemma lex_cur_start_word [simp]: "lex_cur (s\<lparr>lx_has_word := True\<rparr>) = lex_cur s"
  by (simp add: lex_cur_def)

lemma save_word_cases:
  assumes "lex_inv s"
  obtains (fail) "save_word ok s = None" "ok \<noteq> always"
  | (save) s' where "save_word ok s = Some s'" "lex_inv s'" "\<not> lx_has_word s'" "lex_cur s' = []"
      "lex_items s' = lex_items s @ flush (lx_has_word s) (lex_cur s)"
  using save_word_Some [OF _ assms] save_word_always by (cases "save_word ok s") fastforce+

lemma push_op_cases:
  assumes "lex_inv s" and "\<not> lx_has_word s" and "lex_cur s = []"
  obtains (fail) "token_list_push ok (lx_mem s) (lx_tokens s) ty str n = None" "ok \<noteq> always"
  | (push) k tlist where "token_list_push ok (lx_mem s) (lx_tokens s) ty str n = Some (k, tlist)"
      "lex_inv (s\<lparr>lx_mem := k, lx_tokens := tlist\<rparr>)"
      "lex_cur (s\<lparr>lx_mem := k, lx_tokens := tlist\<rparr>) = []"
      "tl_items tlist = lex_items s @ [\<lparr>tok_type = ty, tok_text = take n str\<rparr>]"
proof (cases "token_list_push ok (lx_mem s) (lx_tokens s) ty str n")
  case None
  moreover have "ok \<noteq> always"
    using None token_list_push_always by (rule_tac notI) simp
  ultimately show ?thesis by (rule that(1))
next
  case (Some r)
  obtain k tlist where r: "r = (k, tlist)" by (cases r)
  from assms(1) have "length (lex_items s) \<le> tl_capacity (lx_tokens s)" by (simp add: lex_inv_def)
  from token_list_push_Some [OF Some [unfolded r] this] that(2) [OF Some [unfolded r]] assms
  show ?thesis by (auto simp: lex_inv_def lex_cur_def)
qed

lemma lex_loop_quote:
  assumes q: "quote_agrees ok s qr qspec" and inv: "lex_inv s"
    and IH: "\<And>s2 rest. qr = Some (s2, rest) \<Longrightarrow> lex_inv s2 \<Longrightarrow>
        loop_agrees ok s2 (lex_loop ok rest s2) (lex_spec Plain (lx_has_word s2) (lex_cur s2) rest)"
  shows "loop_agrees ok s (case qr of None \<Rightarrow> None | Some (s2, rest) \<Rightarrow> lex_loop ok rest s2) qspec"
proof (cases qr)
  case None
  with q show ?thesis by (simp add: quote_agrees_def loop_agrees_def)
next
  case (Some p)
  obtain s2 rest where p: "p = (s2, rest)" by (cases p)
  with q Some have "lex_inv s2" "lx_has_word s2" "lex_items s2 = lex_items s"
    "qspec = lex_spec Plain True (lex_cur s2) rest"
    by (auto simp: quote_agrees_def)
  with IH [of s2 rest] Some p show ?thesis
    by (auto intro: loop_agrees_same)
qed

lemma lex_loop_put:
  assumes inv: "lex_inv s" and hw: "lx_has_word s"
    and IH: "\<And>s2. put_char ok s d = Some s2 \<Longrightarrow> lex_inv s2 \<Longrightarrow>
        loop_agrees ok s2 (lex_loop ok ds s2) (lex_spec Plain (lx_has_word s2) (lex_cur s2) ds)"
  shows "loop_agrees ok s (case put_char ok s d of None \<Rightarrow> None | Some s2 \<Rightarrow> lex_loop ok ds s2)
    (lex_spec Plain True (lex_cur s @ [d]) ds)"
  using inv hw
proof (cases rule: put_char_cases [where ok = ok and c = d])
  case fail
  then show ?thesis by (simp add: loop_agrees_def)
next
  case (put s')
  with IH [OF put(1,2)] show ?thesis
    by (auto intro: loop_agrees_same)
qed

lemma loop_agrees_start_word:
  "loop_agrees ok (s\<lparr>lx_has_word := True\<rparr>) r spec \<Longrightarrow> loop_agrees ok s r spec"
  by (erule loop_agrees_same) simp

lemma lex_loop_agrees:
  "lex_inv s \<Longrightarrow>
   loop_agrees ok s (lex_loop ok cs s) (lex_spec Plain (lx_has_word s) (lex_cur s) cs)"
proof (induction ok cs s rule: lex_loop.induct)
  case (1 ok s)
  then show ?case by (simp add: loop_agrees_def)
next
  case (2 ok c cs s)
  let ?s1 = "s\<lparr>lx_has_word := True\<rparr>"
  have inv1: "lex_inv ?s1" by (rule lex_inv_start_word [OF 2(7)])
  consider (space) "is_space c" | (op) "\<not> is_space c" "is_special c"
    | (word) "\<not> is_space c" "\<not> is_special c" by blast
  then show ?case
  proof cases
    case space
    from 2(7) show ?thesis
    proof (cases rule: save_word_cases [where ok = ok])
      case fail
      with space show ?thesis by (simp add: loop_agrees_def lex_loop.simps(2))
    next
      case (save s')
      have "loop_agrees ok s (lex_loop ok cs s')
          (map_option (append (flush (lx_has_word s) (lex_cur s))) (lex_spec Plain False [] cs))"
        by (rule loop_agrees_trans [OF 2(1) [OF space save(1,2)] save(5)]) (simp add: save(3,4))
      with space save(1) show ?thesis by (simp add: lex_loop.simps(2))
    qed
  next
    case op
    from 2(7) show ?thesis
    proof (cases rule: save_word_cases [where ok = ok])
      case fail
      with op show ?thesis by (simp add: loop_agrees_def lex_loop.simps(2))
    next
      case (save s')
      let ?ty = "fst (op_token c cs)" and ?n = "snd (op_token c cs)"
      from save(2,3,4) show ?thesis
      proof (cases rule: push_op_cases [where ok = ok and ty = "?ty" and str = "c # cs" and n = "?n"])
        case fail
        with op save show ?thesis by (simp add: loop_agrees_def lex_loop.simps(2))
      next
        case (push k tlist)
        let ?s2 = "s'\<lparr>lx_mem := k, lx_tokens := tlist\<rparr>"
        have "loop_agrees ok ?s2 (lex_loop ok (drop ?n (c # cs)) ?s2)
                (lex_spec Plain False [] (drop ?n (c # cs)))"
          using 2(2) [OF op save(1) push(1) refl push(2)] push(3) save(3) by simp
        then have "loop_agrees ok s (lex_loop ok (drop ?n (c # cs)) ?s2)
                     (map_option (append (flush (lx_has_word s) (lex_cur s) @ [op_tok c cs]))
                       (lex_spec Plain False [] (drop ?n (c # cs))))"
          by (rule loop_agrees_trans) (simp_all add: push(4) save(5) op_tok_def)
        then show ?thesis
          unfolding op_rest [OF op(2)] using op save(1) push(1) by (simp add: lex_loop.simps(2))
      qed
    qed
  next
    case word
    note IH = 2(3-6) [OF word refl]
    consider (bs) "c = BSLASH" | (sq) "c = SQUOTE" | (dq) "c = DQUOTE"
      | (other) "c \<noteq> BSLASH" "c \<noteq> SQUOTE" "c \<noteq> DQUOTE" by blast
    then have "loop_agrees ok ?s1 (lex_loop ok (c # cs) s) (lex_spec Plain (lx_has_word s) (lex_cur s) (c # cs))"
    proof cases
      case bs
      then show ?thesis
      proof (cases cs)
        case Nil
        with bs word show ?thesis by (simp add: loop_agrees_def lex_loop.simps(2))
      next
        case (Cons d ds)
        have "loop_agrees ok ?s1 (case put_char ok ?s1 d of None \<Rightarrow> None | Some s2 \<Rightarrow> lex_loop ok ds s2)
            (lex_spec Plain True (lex_cur ?s1 @ [d]) ds)"
          using inv1 by (rule lex_loop_put) (use IH(1) [OF bs Cons] in simp_all)
        with bs word Cons show ?thesis by (simp add: lex_loop.simps(2))
      qed
    next
      case sq
      then have nbs: "c \<noteq> BSLASH" by simp
      have "loop_agrees ok ?s1 (case lex_squote ok cs ?s1 of None \<Rightarrow> None | Some (s2, rest) \<Rightarrow> lex_loop ok rest s2)
          (lex_spec SQ True (lex_cur ?s1) cs)"
        by (rule lex_loop_quote [OF lex_squote_agrees [OF inv1] inv1]) (use IH(2) [OF nbs sq] in simp_all)
      with sq word show ?thesis by (simp add: lex_loop.simps(2))
    next
      case dq
      then have ne: "c \<noteq> BSLASH" "c \<noteq> SQUOTE" by simp_all
      have "loop_agrees ok ?s1 (case lex_dquote ok cs ?s1 of None \<Rightarrow> None | Some (s2, rest) \<Rightarrow> lex_loop ok rest s2)
          (lex_spec DQ True (lex_cur ?s1) cs)"
        by (rule lex_loop_quote [OF lex_dquote_agrees [OF inv1] inv1]) (use IH(3) [OF ne dq] in simp_all)
      with dq word show ?thesis by (simp add: lex_loop.simps(2))
    next
      case other
      have "loop_agrees ok ?s1 (case put_char ok ?s1 c of None \<Rightarrow> None | Some s2 \<Rightarrow> lex_loop ok cs s2)
          (lex_spec Plain True (lex_cur ?s1 @ [c]) cs)"
        using inv1 by (rule lex_loop_put) (use IH(4) [OF other] in simp_all)
      with other word show ?thesis by (simp add: lex_loop.simps(2))
    qed
    then show ?thesis by (rule loop_agrees_start_word)
  qed
qed


abbreviation lex_start :: lex_state where
  "lex_start \<equiv> \<lparr>lx_mem = 0, lx_tokens = token_list_init,
     lx_word = \<lparr>wb_data = [], wb_len = 0, wb_cap = 0\<rparr>, lx_has_word = False\<rparr>"

lemma lex_line_agrees:
  "case lex_line ok line of
     None \<Rightarrow> ok = always \<longrightarrow> tokens_of line = None
   | Some tlist \<Rightarrow> tokens_of line = Some (tl_items tlist) \<and> length (tl_items tlist) \<le> tl_capacity tlist"
proof -
  have inv: "lex_inv lex_start" and cur: "lex_cur lex_start = []" and items: "lex_items lex_start = []"
    by (simp_all add: lex_inv_def lex_cur_def token_list_init_def)
  have agrees: "loop_agrees ok lex_start (lex_loop ok (cstr line) lex_start) (tokens_of line)"
    using lex_loop_agrees [OF inv, of ok "cstr line"] cur by (simp add: tokens_of_def)
  show ?thesis
  proof (cases "lex_loop ok (cstr line) lex_start")
    case None
    with agrees show ?thesis by (simp add: lex_line_def loop_agrees_def)
  next
    case (Some s)
    with agrees items have s: "lex_inv s" "tokens_of line = Some (lex_items s @ flush (lx_has_word s) (lex_cur s))"
      by (auto simp: loop_agrees_def)
    from s(1) show ?thesis
    proof (cases rule: save_word_cases [where ok = ok])
      case fail
      with Some show ?thesis by (simp add: lex_line_def)
    next
      case (save s')
      with Some s show ?thesis by (simp add: lex_line_def lex_inv_def)
    qed
  qed
qed

lemma lex_line_always: "map_option tl_items (lex_line always line) = tokens_of line"
  using lex_line_agrees [of always line] by (auto split: option.splits)

section \<open>Rejected lines\<close>

text \<open>The quoting state alone: which lines end inside a quotation or after a backslash.\<close>

fun quote_step :: "qstate \<Rightarrow> char \<Rightarrow> qstate" where
  "quote_step Plain c = (if c = BSLASH then Esc else if c = SQUOTE then SQ else if c = DQUOTE then DQ else Plain)"
| "quote_step Esc c = Plain"
| "quote_step SQ c = (if c = SQUOTE then Plain else SQ)"
| "quote_step DQ c = (if c = DQUOTE then Plain else if c = BSLASH then DQEsc else DQ)"
| "quote_step DQEsc c = DQ"

lemma lex_spec_None_iff: "lex_spec q hw w cs = None \<longleftrightarrow> foldl quote_step q cs \<noteq> Plain"
proof (induction q hw w cs rule: lex_spec.induct)
  case (2 hw w c cs)
  have "is_space c \<or> is_special c \<Longrightarrow> quote_step Plain c = Plain"
    by (auto simp: is_space_def is_special_def)
  moreover have "c = CHR ''>'' \<Longrightarrow> quote_step Plain c = Plain" by simp
  ultimately show ?case using 2 by (cases cs) (simp_all del: quote_step.simps, simp_all)
qed (simp_all split: if_splits)

section \<open>Quoting\<close>

text \<open>A word may be written as several pieces, each bare, backslash-escaped or quoted.\<close>

datatype style = Bare | Escaped | Single | Double

fun quote_piece :: "style \<times> string \<Rightarrow> string" where
  "quote_piece (Bare, t) = t"
| "quote_piece (Escaped, t) = concat (map (\<lambda>c. [BSLASH, c]) t)"
| "quote_piece (Single, t) = SQUOTE # t @ [SQUOTE]"
| "quote_piece (Double, t) =
     DQUOTE # concat (map (\<lambda>c. if c = DQUOTE \<or> c = BSLASH then [BSLASH, c] else [c]) t) @ [DQUOTE]"

definition bare_char :: "char \<Rightarrow> bool" where
  "bare_char c \<longleftrightarrow> \<not> is_space c \<and> \<not> is_special c \<and> c \<noteq> BSLASH \<and> c \<noteq> SQUOTE \<and> c \<noteq> DQUOTE"

fun piece_ok :: "style \<times> string \<Rightarrow> bool" where
  "piece_ok (Bare, t) = (t \<noteq> [] \<and> list_all bare_char t)"
| "piece_ok (Escaped, t) = (t \<noteq> [])"
| "piece_ok (Single, t) = (SQUOTE \<notin> set t)"
| "piece_ok (Double, t) = True"

datatype item = Word_item "(style \<times> string) list" | Op_item TokenType

fun op_text :: "TokenType \<Rightarrow> string" where
  "op_text TOKEN_WORD = []"
| "op_text TOKEN_OP_PIPE = ''|''"
| "op_text TOKEN_OP_AMP = ''&''"
| "op_text TOKEN_OP_SEMI = '';''"
| "op_text TOKEN_OP_LT = ''<''"
| "op_text TOKEN_OP_GT = ''>''"
| "op_text TOKEN_OP_GTGT = ''>>''"

fun item_ok :: "item \<Rightarrow> bool" where
  "item_ok (Word_item ps) = (ps \<noteq> [] \<and> list_all piece_ok ps)"
| "item_ok (Op_item ty) = (ty \<noteq> TOKEN_WORD)"

fun render_item :: "item \<Rightarrow> string" where
  "render_item (Word_item ps) = concat (map quote_piece ps)"
| "render_item (Op_item ty) = op_text ty"

fun item_tok :: "item \<Rightarrow> Token" where
  "item_tok (Word_item ps) = word_tok (concat (map snd ps))"
| "item_tok (Op_item ty) = \<lparr>tok_type = ty, tok_text = op_text ty\<rparr>"

definition render :: "item list \<Rightarrow> string" where
  "render is = concat (map (\<lambda>i. render_item i @ [SPC]) is)"

lemma append_Cons_fun: "append [x] = Cons x"
  by (rule ext) simp

lemma lex_spec_bare:
  "list_all bare_char t \<Longrightarrow> t \<noteq> [] \<Longrightarrow> lex_spec Plain hw w (t @ rest) = lex_spec Plain True (w @ t) rest"
proof (induction t arbitrary: hw w)
  case (Cons c t)
  then show ?case by (cases "t = []") (auto simp: bare_char_def)
qed simp

lemma lex_spec_escaped:
  "t \<noteq> [] \<Longrightarrow> lex_spec Plain hw w (concat (map (\<lambda>c. [BSLASH, c]) t) @ rest) = lex_spec Plain True (w @ t) rest"
proof (induction t arbitrary: hw w)
  case (Cons c t)
  have "\<not> is_space BSLASH" "\<not> is_special BSLASH" by (simp_all add: is_space_def is_special_def)
  with Cons show ?case by (cases "t = []") auto
qed simp

lemma lex_spec_single:
  "SQUOTE \<notin> set t \<Longrightarrow> lex_spec SQ hw w (t @ SQUOTE # rest) = lex_spec Plain hw (w @ t) rest"
  by (induction t arbitrary: w) auto

lemma lex_spec_double:
  "lex_spec DQ hw w (concat (map (\<lambda>c. if c = DQUOTE \<or> c = BSLASH then [BSLASH, c] else [c]) t) @ DQUOTE # rest)
   = lex_spec Plain hw (w @ t) rest"
  by (induction t arbitrary: w) auto

lemma lex_spec_piece:
  "piece_ok p \<Longrightarrow> lex_spec Plain hw w (quote_piece p @ rest) = lex_spec Plain True (w @ snd p) rest"
  by (cases p rule: quote_piece.cases)
     (auto simp: lex_spec_bare lex_spec_escaped lex_spec_single lex_spec_double is_space_def is_special_def)

lemma lex_spec_pieces:
  "list_all piece_ok ps \<Longrightarrow> ps \<noteq> [] \<Longrightarrow>
   lex_spec Plain hw w (concat (map quote_piece ps) @ rest) = lex_spec Plain True (w @ concat (map snd ps)) rest"
proof (induction ps arbitrary: hw w)
  case (Cons p ps)
  then show ?case by (cases "ps = []") (auto simp: lex_spec_piece)
qed simp

lemma lex_spec_item:
  "item_ok i \<Longrightarrow>
   lex_spec Plain False [] (render_item i @ SPC # rest) = map_option (Cons (item_tok i)) (lex_spec Plain False [] rest)"
proof (cases i)
  case (Word_item ps)
  moreover assume "item_ok i"
  ultimately show ?thesis
    by (simp add: lex_spec_pieces flush_def is_space_def append_Cons_fun)
next
  case (Op_item ty)
  moreover assume "item_ok i"
  ultimately show ?thesis
    by (cases ty) (simp_all add: flush_def is_space_def is_special_def op_tok_def op_token_def append_Cons_fun
        option.map_comp comp_def)
qed

lemma lex_spec_render:
  "list_all item_ok is \<Longrightarrow> lex_spec Plain False [] (render is) = Some (map item_tok is)"
  by (induction "is") (auto simp: render_def lex_spec_item flush_def)

section \<open>Properties\<close>

text \<open>C8. Whatever allocations fail, a token list returned by the tokenizer is the one the character
  automaton assigns to the line and fits its allocated capacity; if no allocation fails the
  tokenizer returns exactly the automaton's answer, acceptance or rejection.\<close>

theorem lex_line_refines_automaton:
  "(case lex_line ok line of
      None \<Rightarrow> True
    | Some tlist \<Rightarrow> tokens_of line = Some (tl_items tlist) \<and> length (tl_items tlist) \<le> tl_capacity tlist)
   \<and> map_option tl_items (lex_line always line) = tokens_of line"
  using lex_line_agrees [of ok line] lex_line_always [of line] by (auto split: option.splits)

text \<open>C11. Round trip: writing words with any mixture of bare, escaped, single-quoted and double-quoted
  pieces and operators between them, and tokenizing the line, gives back the words and operators.\<close>

theorem lex_line_render_roundtrip:
  assumes "list_all item_ok is" and "NUL \<notin> set (render is)"
  shows "map_option tl_items (lex_line always (render is)) = Some (map item_tok is)"
  using assms by (simp add: lex_line_always tokens_of_def cstr_id lex_spec_render)

theorem lex_line_render_roundtrip_witness:
  "map_option tl_items (lex_line always
     (render [Word_item [(Bare, ''a''), (Single, ''b|c''), (Double, [DQUOTE])], Op_item TOKEN_OP_GTGT, Word_item [(Escaped, ''>'')]]))
   = Some [word_tok (''ab|c'' @ [DQUOTE]), \<lparr>tok_type = TOKEN_OP_GTGT, tok_text = ''>>''\<rparr>, word_tok ''>'']"
proof -
  let ?is = "[Word_item [(Bare, ''a''), (Single, ''b|c''), (Double, [DQUOTE])], Op_item TOKEN_OP_GTGT, Word_item [(Escaped, ''>'')]]"
  have ok: "list_all item_ok ?is" by (simp add: bare_char_def is_space_def is_special_def)
  have no_NUL: "NUL \<notin> set (render ?is)" by (simp add: render_def)
  show ?thesis using lex_line_render_roundtrip [OF ok no_NUL] by (simp only: list.map item_tok.simps concat.simps snd_conv op_text.simps append.simps)
qed

text \<open>C12. With enough memory the tokenizer rejects a line exactly when the line ends inside a
  quotation or right after an escaping backslash.\<close>

theorem lex_line_rejects_iff:
  "lex_line always line = None \<longleftrightarrow> foldl quote_step Plain (cstr line) \<noteq> Plain"
  using lex_line_always [of line] lex_spec_None_iff [of Plain False "[]" "cstr line"]
  by (cases "lex_line always line") (auto simp: tokens_of_def)

end
