(* ===== verification/Parser.thy ===== *)
theory Parser
  imports Lexer
begin

text \<open>
  The syntax check of the shell, \<open>c-shell/src/parser.c\<close>, and how \<open>c-shell/src/d1d2.c\<close> cuts a
  checked line into commands (\<open>has_pipe\<close>, \<open>has_redirect\<close>, \<open>run_tokens\<close>). The check is
  proved equivalent to an inductive grammar of command lines, and every piece that \<open>run_tokens\<close>
  hands on is proved to be a pipeline of that grammar.
\<close>

section \<open>parse\_tokens\<close>

definition is_redirection :: "TokenType \<Rightarrow> bool" where
  "is_redirection ty \<longleftrightarrow> ty = TOKEN_OP_LT \<or> ty = TOKEN_OP_GT \<or> ty = TOKEN_OP_GTGT"

definition is_separator :: "TokenType \<Rightarrow> bool" where
  "is_separator ty \<longleftrightarrow> ty = TOKEN_OP_PIPE \<or> ty = TOKEN_OP_SEMI \<or> ty = TOKEN_OP_AMP"

text \<open>The loop, over the token types from position \<open>i\<close> on; 0 and -1 as in the code.\<close>

fun parse_loop :: "bool \<Rightarrow> TokenType list \<Rightarrow> int" where
  "parse_loop want_command [] = (if \<not> want_command then 0 else - 1)"
| "parse_loop want_command (ty # rest) =
     (if want_command then (if ty \<noteq> TOKEN_WORD then - 1 else parse_loop False rest)
      else if ty = TOKEN_WORD then parse_loop False rest
      else if is_redirection ty then
        (case rest of [] \<Rightarrow> - 1
         | ty' # rest' \<Rightarrow> if ty' \<noteq> TOKEN_WORD then - 1 else parse_loop False rest')
      else if is_separator ty then
        (if rest = [] then (if ty = TOKEN_OP_AMP then 0 else - 1) else parse_loop True rest)
      else - 1)"

definition parse_tokens :: "Token list \<Rightarrow> int" where
  "parse_tokens tokens = (if tokens = [] then 0 else parse_loop True (map tok_type tokens))"

section \<open>Grammar\<close>

text \<open>
  A simple command is a word followed by words and redirections, each redirection with the word
  it redirects to or from. A pipeline is simple commands joined by \<open>|\<close>. A line is pipelines
  joined by \<open>;\<close> and \<open>&\<close>, possibly with a final \<open>&\<close>.
\<close>

inductive simple_command :: "TokenType list \<Rightarrow> bool" where
  sc_word: "simple_command [TOKEN_WORD]"
| sc_arg: "simple_command c \<Longrightarrow> simple_command (c @ [TOKEN_WORD])"
| sc_redirect: "simple_command c \<Longrightarrow> is_redirection r \<Longrightarrow> simple_command (c @ [r, TOKEN_WORD])"

inductive pipeline_of :: "TokenType list \<Rightarrow> bool" where
  pl_single: "simple_command c \<Longrightarrow> pipeline_of c"
| pl_pipe: "pipeline_of p \<Longrightarrow> simple_command c \<Longrightarrow> pipeline_of (p @ TOKEN_OP_PIPE # c)"

definition is_terminator :: "TokenType \<Rightarrow> bool" where
  "is_terminator ty \<longleftrightarrow> ty = TOKEN_OP_SEMI \<or> ty = TOKEN_OP_AMP"

inductive command_line :: "TokenType list \<Rightarrow> bool" where
  cl_single: "pipeline_of p \<Longrightarrow> command_line p"
| cl_seq: "command_line l \<Longrightarrow> is_terminator t \<Longrightarrow> pipeline_of p \<Longrightarrow> command_line (l @ t # p)"

definition accepted :: "TokenType list \<Rightarrow> bool" where
  "accepted tys \<longleftrightarrow> tys = [] \<or> command_line tys \<or> (\<exists>l. tys = l @ [TOKEN_OP_AMP] \<and> command_line l)"

subsection \<open>Joining commands by any separator\<close>

text \<open>The code does not tell \<open>|\<close> from \<open>;\<close> and \<open>&\<close>: the same language, with one kind of
  separator.\<close>

inductive sep_line :: "TokenType list \<Rightarrow> bool" where
  sl_single: "simple_command c \<Longrightarrow> sep_line c"
| sl_seq: "sep_line l \<Longrightarrow> is_separator s \<Longrightarrow> simple_command c \<Longrightarrow> sep_line (l @ s # c)"

lemma sep_line_arg: "sep_line l \<Longrightarrow> sep_line (l @ [TOKEN_WORD])"
proof (induction rule: sep_line.induct)
  case (sl_single c)
  then show ?case by (intro sep_line.sl_single sc_arg)
next
  case (sl_seq l s c)
  then show ?case using sep_line.sl_seq [of l s "c @ [TOKEN_WORD]"] by (simp add: sc_arg)
qed

lemma sep_line_redirect: "sep_line l \<Longrightarrow> is_redirection r \<Longrightarrow> sep_line (l @ [r, TOKEN_WORD])"
proof (induction rule: sep_line.induct)
  case (sl_single c)
  then show ?case by (intro sep_line.sl_single sc_redirect)
next
  case (sl_seq l s c)
  then show ?case using sep_line.sl_seq [of l s "c @ [r, TOKEN_WORD]"] by (simp add: sc_redirect)
qed

lemma sep_line_join: "sep_line p \<Longrightarrow> sep_line l \<Longrightarrow> is_separator t \<Longrightarrow> sep_line (l @ t # p)"
proof (induction rule: sep_line.induct)
  case (sl_single c)
  then show ?case by (intro sep_line.sl_seq)
next
  case (sl_seq p s c)
  then show ?case using sep_line.sl_seq [of "l @ t # p" s c] by simp
qed

lemma pipeline_sep_line: "pipeline_of p \<Longrightarrow> sep_line p"
  by (induction rule: pipeline_of.induct) (auto intro: sep_line.intros simp: is_separator_def)

lemma command_line_sep_line: "command_line l \<Longrightarrow> sep_line l"
  by (induction rule: command_line.induct)
     (auto intro: pipeline_sep_line sep_line_join simp: is_separator_def is_terminator_def)

lemma command_line_pipe: "command_line l \<Longrightarrow> simple_command c \<Longrightarrow> command_line (l @ TOKEN_OP_PIPE # c)"
proof (induction rule: command_line.induct)
  case (cl_single p)
  then show ?case by (intro command_line.cl_single pl_pipe)
next
  case (cl_seq l t p)
  then show ?case using command_line.cl_seq [of l t "p @ TOKEN_OP_PIPE # c"] by (simp add: pl_pipe)
qed

lemma sep_line_command_line: "sep_line l \<Longrightarrow> command_line l"
proof (induction rule: sep_line.induct)
  case (sl_single c)
  then show ?case by (intro cl_single pl_single)
next
  case (sl_seq l s c)
  then show ?case
    by (cases "s = TOKEN_OP_PIPE")
       (auto intro: command_line_pipe cl_seq pl_single simp: is_separator_def is_terminator_def)
qed

lemma command_line_iff_sep_line: "command_line l \<longleftrightarrow> sep_line l"
  using command_line_sep_line sep_line_command_line by blast

subsection \<open>The check accepts the grammar\<close>

lemma parse_loop_word: "parse_loop False (TOKEN_WORD # rest) = parse_loop False rest"
  by simp

lemma parse_loop_redirect:
  "is_redirection r \<Longrightarrow> parse_loop False (r # TOKEN_WORD # rest) = parse_loop False rest"
  by (auto simp: is_redirection_def)

lemma parse_loop_simple_command:
  "simple_command c \<Longrightarrow> parse_loop True (c @ rest) = parse_loop False rest"
  by (induction arbitrary: rest rule: simple_command.induct) (auto simp: parse_loop_redirect)

lemma parse_loop_separator:
  "is_separator s \<Longrightarrow> rest \<noteq> [] \<Longrightarrow> parse_loop False (s # rest) = parse_loop True rest"
  by (auto simp: is_separator_def is_redirection_def)

lemma simple_command_nonempty: "simple_command c \<Longrightarrow> c \<noteq> []"
  by (induction rule: simple_command.induct) auto

lemma parse_loop_sep_line: "sep_line l \<Longrightarrow> parse_loop True (l @ rest) = parse_loop False rest"
proof (induction arbitrary: rest rule: sep_line.induct)
  case (sl_single c)
  then show ?case by (rule parse_loop_simple_command)
next
  case (sl_seq l s c)
  then show ?case
    by (simp add: parse_loop_separator parse_loop_simple_command simple_command_nonempty del: parse_loop.simps)
qed

subsection \<open>and nothing else\<close>

text \<open>The tokens read so far, for both values of \<open>want_command\<close>.\<close>

definition parse_prefix :: "bool \<Rightarrow> TokenType list \<Rightarrow> bool" where
  "parse_prefix want pre \<longleftrightarrow>
     (if want then pre = [] \<or> (\<exists>l s. pre = l @ [s] \<and> sep_line l \<and> is_separator s) else sep_line pre)"

definition parse_good :: "TokenType list \<Rightarrow> bool" where
  "parse_good tys \<longleftrightarrow> sep_line tys \<or> (\<exists>l. tys = l @ [TOKEN_OP_AMP] \<and> sep_line l)"

lemma parse_prefix_word: "parse_prefix True pre \<Longrightarrow> parse_prefix False (pre @ [TOKEN_WORD])"
  by (auto simp: parse_prefix_def sl_single [OF sc_word] sl_seq [OF _ _ sc_word])

lemma parse_loop_sound:
  "parse_loop want tys = 0 \<Longrightarrow> parse_prefix want pre \<Longrightarrow> parse_good (pre @ tys)"
proof (induction want tys arbitrary: pre rule: parse_loop.induct)
  case (1 want)
  then show ?case by (auto simp: parse_good_def parse_prefix_def split: if_splits)
next
  case (2 want ty rest)
  consider (cmd) "want" | (word) "\<not> want" "ty = TOKEN_WORD"
    | (redir) "\<not> want" "ty \<noteq> TOKEN_WORD" "is_redirection ty"
    | (sep) "\<not> want" "ty \<noteq> TOKEN_WORD" "\<not> is_redirection ty" by blast
  then show ?case
  proof cases
    case cmd
    with 2 show ?thesis using parse_prefix_word [of pre] by (fastforce split: if_splits)
  next
    case word
    with 2 sep_line_arg [of pre] show ?thesis by (fastforce simp: parse_prefix_def)
  next
    case redir
    with 2(5) obtain rest' where rest: "rest = TOKEN_WORD # rest'" "parse_loop False rest' = 0"
      by (auto split: list.splits if_splits)
    have "parse_prefix False (pre @ [ty, TOKEN_WORD])"
      using 2(6) redir by (simp add: parse_prefix_def sep_line_redirect)
    with 2(3) [OF redir(1,2,3) rest(1) _ rest(2)] rest(1) show ?thesis by fastforce
  next
    case sep
    with 2(5) have s: "is_separator ty" by (auto split: if_splits)
    show ?thesis
    proof (cases "rest = []")
      case True
      with 2(5,6) sep s show ?thesis by (auto simp: parse_good_def parse_prefix_def split: if_splits)
    next
      case False
      have "parse_prefix True (pre @ [ty])" using 2(6) sep s by (auto simp: parse_prefix_def)
      moreover from 2(5) sep s False have "parse_loop True rest = 0" by simp
      ultimately show ?thesis using 2(4) [OF sep s False] by fastforce
    qed
  qed
qed

lemma parse_tokens_iff: "parse_tokens ts = 0 \<longleftrightarrow> accepted (map tok_type ts)"
proof
  assume p: "parse_tokens ts = 0"
  show "accepted (map tok_type ts)"
  proof (cases "ts = []")
    case False
    with p have "parse_loop True (map tok_type ts) = 0" by (simp add: parse_tokens_def)
    then have "parse_good (map tok_type ts)"
      using parse_loop_sound [of True "map tok_type ts" "[]"] by (simp add: parse_prefix_def)
    then show ?thesis by (auto simp: parse_good_def accepted_def command_line_iff_sep_line)
  qed (simp add: accepted_def)
next
  assume "accepted (map tok_type ts)"
  then consider "ts = []" | "sep_line (map tok_type ts)"
    | l where "map tok_type ts = l @ [TOKEN_OP_AMP]" "sep_line l"
    by (auto simp: accepted_def command_line_iff_sep_line)
  then show "parse_tokens ts = 0"
  proof cases
    case 2
    with parse_loop_sep_line [of "map tok_type ts" "[]"] show ?thesis by (simp add: parse_tokens_def)
  next
    case (3 l)
    with parse_loop_sep_line [of l "[TOKEN_OP_AMP]"] show ?thesis
      by (simp add: parse_tokens_def is_redirection_def is_separator_def)
  qed (simp add: parse_tokens_def)
qed

section \<open>Cutting a line into commands\<close>

definition has_pipe :: "Token list \<Rightarrow> bool" where
  "has_pipe tokens \<longleftrightarrow> list_ex (\<lambda>t. tok_type t = TOKEN_OP_PIPE) tokens"

definition has_redirect :: "Token list \<Rightarrow> bool" where
  "has_redirect tokens \<longleftrightarrow> list_ex (\<lambda>t. is_redirection (tok_type t)) tokens"

text \<open>
  \<open>run_tokens\<close> threads the state of the shell through its calls; \<open>sh_blocked\<close> says whether
  SIGCHLD is blocked, which \<open>run_tokens\<close> arranges around a foreground command with
  \<open>sigprocmask\<close>. The two ways to start a command, \<open>runbuff\<close> (background) and \<open>runcomm\<close>
  (foreground, returning -1 for a command that was not found), are its arguments.
\<close>

record 's shell =
  sh_blocked :: bool
  sh_rest :: 's

fun run_tokens_loop ::
    "('s shell \<Rightarrow> Token list \<Rightarrow> 's shell) \<Rightarrow> ('s shell \<Rightarrow> Token list \<Rightarrow> 's shell \<times> int) \<Rightarrow>
     's shell \<Rightarrow> Token list \<Rightarrow> Token list \<Rightarrow> 's shell" where
  "run_tokens_loop runbuff runcomm st subl [] =
     (if subl \<noteq> [] then
        (fst (runcomm (st\<lparr>sh_blocked := True\<rparr>) subl))\<lparr>sh_blocked := sh_blocked st\<rparr>
      else st)"
| "run_tokens_loop runbuff runcomm st subl (t # rest) =
     (if is_terminator (tok_type t) then
        (if subl \<noteq> [] then
           (if tok_type t = TOKEN_OP_AMP
            then run_tokens_loop runbuff runcomm (runbuff st subl) [] rest
            else
              (let (st', result) = runcomm (st\<lparr>sh_blocked := True\<rparr>) subl;
                   st'' = st'\<lparr>sh_blocked := sh_blocked st\<rparr>
               in if result < 0 then st'' else run_tokens_loop runbuff runcomm st'' [] rest))
         else run_tokens_loop runbuff runcomm st [] rest)
      else run_tokens_loop runbuff runcomm st (subl @ [t]) rest)"

definition run_tokens ::
    "('s shell \<Rightarrow> Token list \<Rightarrow> 's shell) \<Rightarrow> ('s shell \<Rightarrow> Token list \<Rightarrow> 's shell \<times> int) \<Rightarrow>
     's shell \<Rightarrow> Token list \<Rightarrow> 's shell" where
  "run_tokens runbuff runcomm st tokens = run_tokens_loop runbuff runcomm st [] tokens"

text \<open>The line cut at its terminators: each command with the terminator that follows it.\<close>

fun split_line :: "Token list \<Rightarrow> Token list \<Rightarrow> (Token list \<times> Token list) list" where
  "split_line cur [] = (if cur \<noteq> [] then [(cur, [])] else [])"
| "split_line cur (t # rest) =
     (if is_terminator (tok_type t) then (cur, [t]) # split_line [] rest
      else split_line (cur @ [t]) rest)"

text \<open>Running the commands one after another: a background command is started and left, the
  foreground ones run with SIGCHLD blocked, and one that is not found stops the line.\<close>

fun run_pieces ::
    "('s shell \<Rightarrow> Token list \<Rightarrow> 's shell) \<Rightarrow> ('s shell \<Rightarrow> Token list \<Rightarrow> 's shell \<times> int) \<Rightarrow>
     's shell \<Rightarrow> (Token list \<times> Token list) list \<Rightarrow> 's shell" where
  "run_pieces runbuff runcomm st [] = st"
| "run_pieces runbuff runcomm st ((p, term) # ps) =
     (if map tok_type term = [TOKEN_OP_AMP] then run_pieces runbuff runcomm (runbuff st p) ps
      else
        (let (st', result) = runcomm (st\<lparr>sh_blocked := True\<rparr>) p;
             st'' = st'\<lparr>sh_blocked := sh_blocked st\<rparr>
         in if result < 0 then st'' else run_pieces runbuff runcomm st'' ps))"

lemma split_line_concat: "concat (map (\<lambda>(p, t). p @ t) (split_line cur ts)) = cur @ ts"
  by (induction cur ts rule: split_line.induct) auto

lemma run_tokens_loop_pieces:
  "list_all (\<lambda>(p, t). p \<noteq> []) (split_line cur ts) \<Longrightarrow>
   run_tokens_loop rb rc st cur ts = run_pieces rb rc st (split_line cur ts)"
  by (induction rb rc st cur ts rule: run_tokens_loop.induct)
     (auto simp: Let_def is_terminator_def split: prod.splits if_splits)

lemma split_line_append:
  "is_terminator (tok_type x) \<Longrightarrow>
   split_line cur (ls @ x # ps) = split_line cur (ls @ [x]) @ split_line [] ps"
  by (induction ls arbitrary: cur) auto

lemma split_line_no_terminator:
  "list_all (\<lambda>t. \<not> is_terminator (tok_type t)) ts \<Longrightarrow> split_line cur (ts @ rest) = split_line (cur @ ts) rest"
  by (induction ts arbitrary: cur) auto

lemma pipeline_no_terminator: "pipeline_of p \<Longrightarrow> p \<noteq> [] \<and> list_all (\<lambda>ty. \<not> is_terminator ty) p"
proof -
  have sc: "simple_command c \<Longrightarrow> c \<noteq> [] \<and> list_all (\<lambda>ty. \<not> is_terminator ty) c" for c
    by (induction rule: simple_command.induct) (auto simp: is_terminator_def is_redirection_def)
  show "pipeline_of p \<Longrightarrow> p \<noteq> [] \<and> list_all (\<lambda>ty. \<not> is_terminator ty) p"
  proof (induction rule: pipeline_of.induct)
    case (pl_pipe p c)
    with sc show ?case by (simp add: is_terminator_def)
  qed (rule sc)
qed

lemma split_line_pipeline:
  assumes "pipeline_of (map tok_type ts)"
  shows "split_line [] ts = [(ts, [])]"
    and "is_terminator (tok_type x) \<Longrightarrow> split_line [] (ts @ [x]) = [(ts, [x])]"
  using pipeline_no_terminator [OF assms] split_line_no_terminator [of ts "[]" "[]"]
    split_line_no_terminator [of ts "[]" "[x]"]
  by (auto simp: list_all_iff)

definition good_piece :: "Token list \<times> Token list \<Rightarrow> bool" where
  "good_piece pt \<longleftrightarrow> pipeline_of (map tok_type (fst pt)) \<and> (snd pt = [] \<or> (\<exists>x. snd pt = [x] \<and> is_terminator (tok_type x)))"

lemma split_line_command_line:
  "command_line (map tok_type ts) \<Longrightarrow>
   \<exists>xs q. split_line [] ts = xs @ [(q, [])] \<and> list_all good_piece (xs @ [(q, [])])
     \<and> (\<forall>x. is_terminator (tok_type x) \<longrightarrow> split_line [] (ts @ [x]) = xs @ [(q, [x])])"
proof (induction "map tok_type ts" arbitrary: ts rule: command_line.induct)
  case cl_single
  then show ?case by (intro exI [of _ "[]"] exI [of _ ts]) (simp add: split_line_pipeline good_piece_def)
next
  case (cl_seq l t p)
  from cl_seq.hyps(5) [symmetric] obtain ls r where r: "ts = ls @ r" "map tok_type ls = l" "map tok_type r = t # p"
    by (auto simp: map_eq_append_conv)
  from r(3) obtain y ps where "r = y # ps" "tok_type y = t" "map tok_type ps = p"
    by (auto simp: map_eq_Cons_conv)
  with r have ts: "ts = ls @ y # ps" "l = map tok_type ls" "t = tok_type y" "p = map tok_type ps" by auto
  with cl_seq(2) obtain xs q where IH: "split_line [] ls = xs @ [(q, [])]" "list_all good_piece (xs @ [(q, [])])"
    "\<forall>x. is_terminator (tok_type x) \<longrightarrow> split_line [] (ls @ [x]) = xs @ [(q, [x])]"
    by blast
  have y: "is_terminator (tok_type y)" and p: "pipeline_of (map tok_type ps)" using cl_seq ts by auto
  have "split_line [] ts = (xs @ [(q, [y])]) @ [(ps, [])]"
    using split_line_append [OF y, of "[]" ls ps] IH(3) y split_line_pipeline(1) [OF p] ts(1) by simp
  moreover have "split_line [] (ts @ [x]) = (xs @ [(q, [y])]) @ [(ps, [x])]" if "is_terminator (tok_type x)" for x
    using split_line_append [OF y, of "[]" ls "ps @ [x]"] IH(3) y split_line_pipeline(2) [OF p that] ts(1) by simp
  moreover have "list_all good_piece ((xs @ [(q, [y])]) @ [(ps, [])])"
    using IH(2) y p by (auto simp: good_piece_def)
  ultimately show ?case by blast
qed

lemma split_line_accepted:
  assumes "parse_tokens tokens = 0"
  shows "list_all good_piece (split_line [] tokens)"
proof -
  from assms consider "tokens = []" | "command_line (map tok_type tokens)"
    | l where "map tok_type tokens = l @ [TOKEN_OP_AMP]" "command_line l"
    unfolding parse_tokens_iff by (auto simp: accepted_def)
  then show ?thesis
  proof cases
    case 2
    then show ?thesis using split_line_command_line by fastforce
  next
    case (3 l)
    then obtain ls x where "tokens = ls @ [x]" "command_line (map tok_type ls)" "is_terminator (tok_type x)"
      by (auto simp: map_eq_append_conv is_terminator_def)
    then show ?thesis using split_line_command_line [of ls] by (auto simp: good_piece_def)
  qed simp
qed

section \<open>Properties\<close>

text \<open>C9. The syntax check accepts exactly the command lines of the grammar: pipelines of simple
  commands joined by \<open>;\<close> and \<open>&\<close>, with an optional final \<open>&\<close>, and the empty line.\<close>

theorem parse_tokens_accepts_grammar: "parse_tokens ts = 0 \<longleftrightarrow> accepted (map tok_type ts)"
  by (rule parse_tokens_iff)

text \<open>C10. For a line that passed the syntax check, \<open>run_tokens\<close> cuts the line at its terminators
  into non-empty pipelines that together are the whole line, and runs them in order: the ones
  followed by \<open>&\<close> in the background, the others in the foreground with SIGCHLD blocked, stopping
  at the first that is not found.\<close>

theorem run_tokens_runs_pipelines:
  assumes "parse_tokens tokens = 0"
  shows "run_tokens rb rc st tokens = run_pieces rb rc st (split_line [] tokens)
    \<and> concat (map (\<lambda>(p, t). p @ t) (split_line [] tokens)) = tokens
    \<and> list_all good_piece (split_line [] tokens)"
proof -
  have good: "list_all good_piece (split_line [] tokens)" by (rule split_line_accepted [OF assms])
  then have "list_all (\<lambda>(p, t). p \<noteq> []) (split_line [] tokens)"
    by (rule list.pred_mono_strong) (auto simp: good_piece_def dest: pipeline_no_terminator)
  then show ?thesis
    using good by (simp add: run_tokens_def run_tokens_loop_pieces split_line_concat)
qed

theorem run_tokens_runs_pipelines_witness:
  "(let tokens = [word_tok ''a'', \<lparr>tok_type = TOKEN_OP_AMP, tok_text = ''&''\<rparr>, word_tok ''b'']
    in run_tokens (\<lambda>st p. st\<lparr>sh_rest := sh_rest st @ [(True, p)]\<rparr>) (\<lambda>st p. (st\<lparr>sh_rest := sh_rest st @ [(False, p)]\<rparr>, 1))
         \<lparr>sh_blocked = False, sh_rest = []\<rparr> tokens
       = \<lparr>sh_blocked = False, sh_rest = [(True, [word_tok ''a'']), (False, [word_tok ''b''])]\<rparr>)"
proof -
  let ?ts = "[word_tok ''a'', \<lparr>tok_type = TOKEN_OP_AMP, tok_text = ''&''\<rparr>, word_tok ''b'']"
  have "parse_tokens ?ts = 0" by (simp add: parse_tokens_def is_redirection_def is_separator_def)
  from run_tokens_runs_pipelines [OF this, of "\<lambda>st p. st\<lparr>sh_rest := sh_rest st @ [(True, p)]\<rparr>"
      "\<lambda>st p. (st\<lparr>sh_rest := sh_rest st @ [(False, p)]\<rparr>, 1)" "\<lparr>sh_blocked = False, sh_rest = []\<rparr>"]
  show ?thesis by (simp add: is_terminator_def Let_def)
qed

end
