(* ===== verification/Decimal.thy ===== *)
theory Decimal
  imports Lexer
begin

text \<open>
  Decimal numbers as the C library prints and reads them: the conversions \<open>%d\<close> and \<open>%lld\<close>, and the functions \<open>strtol\<close> and
  \<open>strtoll\<close> with their end pointer and range error. The shell prints process ids, job numbers and the history of directories with
  them and reads them back.
\<close>

section \<open>Printing\<close>

definition digit :: "nat \<Rightarrow> char" where
  "digit d = char_of (48 + d)"

fun dec :: "nat \<Rightarrow> string" where
  "dec n = (if n < 10 then [digit n] else dec (n div 10) @ [digit (n mod 10)])"

definition lld :: "int \<Rightarrow> string" where
  "lld i = (if i < 0 then CHR ''-'' # dec (nat (- i)) else dec (nat i))"

declare dec.simps [simp del]

section \<open>Reading\<close>

definition is_digit :: "char \<Rightarrow> bool" where
  "is_digit c \<longleftrightarrow> (48::nat) \<le> of_char c \<and> (of_char c :: nat) \<le> 57"

definition digit_val :: "char \<Rightarrow> nat" where
  "digit_val c = of_char c - 48"

text \<open>The value of the leading digits, after the value \<open>acc\<close> of the digits before, and what follows them.\<close>

fun num_prefix :: "nat \<Rightarrow> string \<Rightarrow> nat \<times> string" where
  "num_prefix acc [] = (acc, [])"
| "num_prefix acc (c # cs) = (if is_digit c then num_prefix (acc * 10 + digit_val c) cs else (acc, c # cs))"

definition LONG_MAX :: int where "LONG_MAX = 2 ^ 63 - 1"
definition LONG_MIN :: int where "LONG_MIN = - (2 ^ 63)"

text \<open>White space in the sense of \<open>isspace\<close>.\<close>

definition is_white :: "char \<Rightarrow> bool" where
  "is_white c \<longleftrightarrow> c = CHR '' '' \<or> (9::nat) \<le> of_char c \<and> (of_char c :: nat) \<le> 13"

text \<open>The value, the rest at the end pointer, and whether \<open>errno\<close> is set because the value is out of range. Without digits
  the value is 0 and the end pointer is the text.\<close>

definition strtol :: "string \<Rightarrow> int \<times> string \<times> bool" where
  "strtol text =
     (let s = dropWhile is_white text;
          neg = (take 1 s = ''-'');
          s1 = (if neg \<or> take 1 s = ''+'' then tl s else s)
      in if s1 \<noteq> [] \<and> is_digit (hd s1) then
           (let (n, rest) = num_prefix 0 s1;
                v = (if neg then - int n else int n)
            in if v > LONG_MAX then (LONG_MAX, rest, True) else if v < LONG_MIN then (LONG_MIN, rest, True) else (v, rest, False))
         else (0, text, False))"

section \<open>Reading what was printed\<close>

lemma of_char_digit: "d < 10 \<Longrightarrow> (of_char (digit d) :: nat) = 48 + d"
  by (simp add: digit_def)

lemma digit_is [simp]: "d < 10 \<Longrightarrow> is_digit (digit d)" "d < 10 \<Longrightarrow> digit_val (digit d) = d"
  by (simp_all add: is_digit_def digit_val_def of_char_digit)

lemma digit_not [simp]: "d < 10 \<Longrightarrow> \<not> is_white (digit d)" "d < 10 \<Longrightarrow> digit d \<noteq> CHR ''-''" "d < 10 \<Longrightarrow> digit d \<noteq> CHR ''+''"
  using digit_is(1) [of d] by (auto simp: is_white_def is_digit_def)

lemma dec_digits: "c \<in> set (dec n) \<Longrightarrow> is_digit c"
proof (induction n rule: dec.induct)
  case (1 n)
  then show ?case by (subst (asm) (2) dec.simps) (auto split: if_splits)
qed

lemma dec_Cons: obtains c cs where "dec n = c # cs" "is_digit c"
  using dec_digits [of "hd (dec n)" n] by (cases "dec n") (auto simp: dec.simps [of n] split: if_splits)

lemma num_prefix_dec: "num_prefix acc (dec n @ s) = num_prefix (acc * 10 ^ length (dec n) + n) s"
proof (induction n arbitrary: acc s rule: dec.induct)
  case (1 n)
  show ?case
  proof (cases "n < 10")
    case True
    then show ?thesis by (simp add: dec.simps)
  next
    case False
    have d: "dec n = dec (n div 10) @ [digit (n mod 10)]" using False by (simp add: dec.simps)
    have e: "(acc * 10 ^ length (dec (n div 10)) + n div 10) * 10 + n mod 10 = acc * 10 ^ length (dec n) + n" unfolding d by (simp add: algebra_simps)
    show ?thesis using 1 [OF False, of acc "digit (n mod 10) # s"] by (simp only: d append.assoc append.simps num_prefix.simps digit_is if_True e [unfolded d] mod_less_divisor)
  qed
qed

lemma num_prefix_stop: "s = [] \<or> \<not> is_digit (hd s) \<Longrightarrow> num_prefix acc s = (acc, s)"
  by (cases s) auto

lemma num_prefix_printed: "s = [] \<or> \<not> is_digit (hd s) \<Longrightarrow> num_prefix 0 (dec n @ s) = (n, s)"
  by (simp add: num_prefix_dec num_prefix_stop)

lemma strtol_lld:
  assumes "LONG_MIN \<le> i" "i \<le> LONG_MAX" "s = [] \<or> \<not> is_digit (hd s)"
  shows "strtol (lld i @ s) = (i, s, False)"
proof -
  obtain c cs where c: "dec (nat \<bar>i\<bar>) = c # cs" "is_digit c" by (rule dec_Cons)
  have n: "num_prefix 0 (c # (cs @ s)) = (nat \<bar>i\<bar>, s)" using num_prefix_printed [OF assms(3), of "nat \<bar>i\<bar>"] unfolding c(1) append_Cons .
  have w: "\<not> is_white c" "c \<noteq> CHR ''-''" "c \<noteq> CHR ''+''" using c(2) by (auto simp: is_digit_def is_white_def)
  have m: "\<not> is_white (CHR ''-'')" by (simp add: is_white_def)
  show ?thesis using assms(1,2) c w m n unfolding strtol_def lld_def
    by (cases "i < 0") (auto simp: Let_def simp del: num_prefix.simps)
qed

lemma length_dec: "n < 10 ^ k \<Longrightarrow> k > 0 \<Longrightarrow> length (dec n) \<le> k"
proof (induction n arbitrary: k rule: dec.induct)
  case (1 n)
  show ?case
  proof (cases "n < 10")
    case False
    then have "k \<noteq> 1" using "1.prems"(1) by auto
    then obtain k' where k: "k = Suc k'" "k' > 0" using "1.prems"(2) by (cases k) auto
    have "n div 10 < 10 ^ k'" using "1.prems"(1) k by (simp add: less_mult_imp_div_less mult.commute)
    then show ?thesis using "1.IH" [OF False, of k'] k False by (simp add: dec.simps [of n])
  qed (use "1.prems" in \<open>simp add: dec.simps\<close>)
qed

end
