(* ===== verification/Peek.thy ===== *)
theory Peek
  imports Decimal
begin

text \<open>
  The built-in command \<open>peek\<close> of the shell, \<open>c-shell/src/func.c\<close>: printing files forwards and backwards, with line numbers.
  Reading is by chunks of at most \<open>PEEK_CHUNK\<close> bytes, lines are collected in a growing buffer whose allocations may fail.
  What the command prints is compared with the list of lines of the file.
\<close>

section \<open>Lines\<close>

definition PEEK_CHUNK :: nat where "PEEK_CHUNK = 4096"

text \<open>The buffer's \<open>len\<close> bytes in use are \<open>pl_data\<close>.\<close>

record PeekLine =
  pl_data :: string
  pl_cap :: nat
  pl_newline :: bool

record PeekLines =
  pls_items :: "PeekLine list"
  pls_cap :: nat

abbreviation line0 :: PeekLine where "line0 \<equiv> \<lparr>pl_data = [], pl_cap = 0, pl_newline = False\<rparr>"
abbreviation lines0 :: PeekLines where "lines0 \<equiv> \<lparr>pls_items = [], pls_cap = 0\<rparr>"

definition add_line_char :: "alloc_oracle \<Rightarrow> PeekLine \<Rightarrow> char \<Rightarrow> nat \<Rightarrow> (PeekLine \<times> nat) option" where
  "add_line_char ok line c n =
     (if length (pl_data line) = pl_cap line then
        if ok n then Some (line\<lparr>pl_cap := (if pl_cap line = 0 then 64 else pl_cap line * 2), pl_data := pl_data line @ [c]\<rparr>, Suc n)
        else None
      else Some (line\<lparr>pl_data := pl_data line @ [c]\<rparr>, n))"

definition add_line :: "alloc_oracle \<Rightarrow> PeekLines \<Rightarrow> PeekLine \<Rightarrow> bool \<Rightarrow> nat \<Rightarrow> (PeekLines \<times> PeekLine \<times> nat) option" where
  "add_line ok lines line newline n =
     (let add = (\<lambda>ls. ls\<lparr>pls_items := pls_items ls @ [line\<lparr>pl_newline := newline\<rparr>]\<rparr>) in
      if length (pls_items lines) = pls_cap lines then
        if ok n then Some (add (lines\<lparr>pls_cap := (if pls_cap lines = 0 then 16 else pls_cap lines * 2)\<rparr>), line0, Suc n)
        else None
      else Some (add lines, line0, n))"

text \<open>The loop of \<open>print_line\<close> that exchanges the bytes from both ends.\<close>

definition swap_ends :: "string \<Rightarrow> string" where
  "swap_ends d = fold (\<lambda>i d. d[i := d ! (length d - 1 - i), length d - 1 - i := d ! i]) [0..<length d div 2] d"

text \<open>What \<open>print_line\<close> prints.\<close>

definition print_line :: "PeekLine \<Rightarrow> bool \<Rightarrow> int \<Rightarrow> bool \<Rightarrow> string" where
  "print_line line numbered number backwards =
     (let d = (if backwards then swap_ends (pl_data line) else pl_data line) in
      (if numbered \<and> length d > 0 then lld number @ '' '' else []) @ d @ (if pl_newline line then [NL] else []))"

section \<open>Forwards\<close>

text \<open>
  The loop over the bytes of one chunk. The result has no line when an allocation failed and \<open>print_forward\<close>
  returned; the other components are the allocations made, the last line number and the output.
\<close>

fun forward_chunk :: "alloc_oracle \<Rightarrow> bool \<Rightarrow> string \<Rightarrow> PeekLine \<Rightarrow> nat \<Rightarrow> int \<Rightarrow> string \<Rightarrow> PeekLine option \<times> nat \<times> int \<times> string" where
  "forward_chunk ok numbered [] line n ln out = (Some line, n, ln, out)"
| "forward_chunk ok numbered (c # cs) line n ln out =
     (if c = NL then
        (let ln1 = (if numbered \<and> length (pl_data line) > 0 then ln + 1 else ln);
             number = (if numbered \<and> length (pl_data line) > 0 then ln1 else 0)
         in forward_chunk ok numbered cs (line\<lparr>pl_data := [], pl_newline := False\<rparr>) n ln1
              (out @ print_line (line\<lparr>pl_newline := True\<rparr>) numbered number False))
      else
        (case add_line_char ok line c n of
           None \<Rightarrow> (None, n, ln, out)
         | Some (line1, n1) \<Rightarrow> forward_chunk ok numbered cs line1 n1 ln out))"

text \<open>
  \<open>chunks\<close> are the results of the successive calls of \<open>read\<close>; an empty one, or none, is the end of the file or an error.
  The results are the last line number, the output and what has not been read.
\<close>

definition forward_end :: "bool \<Rightarrow> PeekLine \<Rightarrow> int \<Rightarrow> string \<Rightarrow> int \<times> string" where
  "forward_end numbered line ln out =
     (if length (pl_data line) > 0 then
        (let ln1 = (if numbered then ln + 1 else ln) in (ln1, out @ print_line line numbered (if numbered then ln1 else 0) False))
      else (ln, out))"

fun print_forward :: "alloc_oracle \<Rightarrow> bool \<Rightarrow> string list \<Rightarrow> PeekLine \<Rightarrow> nat \<Rightarrow> int \<Rightarrow> string \<Rightarrow> (int \<times> string) \<times> string list" where
  "print_forward ok numbered [] line n ln out = (forward_end numbered line ln out, [])"
| "print_forward ok numbered (chunk # chunks) line n ln out =
     (if chunk = [] then (forward_end numbered line ln out, chunks)
      else
        (case forward_chunk ok numbered chunk line n ln out of
           (None, _, ln1, out1) \<Rightarrow> ((ln1, out1), chunks)
         | (Some line1, n1, ln1, out1) \<Rightarrow> print_forward ok numbered chunks line1 n1 ln1 out1))"

section \<open>Backwards\<close>

fun count_chunk :: "string \<Rightarrow> nat \<Rightarrow> int \<Rightarrow> nat \<times> int" where
  "count_chunk [] len cnt = (len, cnt)"
| "count_chunk (c # cs) len cnt =
     (if c = NL then count_chunk cs 0 (if len > 0 then cnt + 1 else cnt) else count_chunk cs (len + 1) cnt)"

definition count_nonempty :: "string list \<Rightarrow> int" where
  "count_nonempty chunks =
     (let (len, cnt) = fold (\<lambda>chunk (len, cnt). count_chunk chunk len cnt) chunks (0, 0)
      in if len > 0 then cnt + 1 else cnt)"

text \<open>The variables of \<open>print_reverse_regular\<close>: the line, allocations, number, \<open>first_newline\<close> and the output.\<close>

type_synonym rev_state = "PeekLine \<times> nat \<times> int \<times> bool \<times> string"

text \<open>One byte; \<open>None\<close> with the output when an allocation fails.\<close>

definition reverse_byte :: "alloc_oracle \<Rightarrow> bool \<Rightarrow> char \<Rightarrow> rev_state \<Rightarrow> string + rev_state" where
  "reverse_byte ok numbered c st =
     (case st of (line, n, number, first, out) \<Rightarrow>
        if c = NL then
          if first \<and> length (pl_data line) = 0 then Inr (line\<lparr>pl_newline := True\<rparr>, n, number, False, out)
          else
            (let line1 = line\<lparr>pl_newline := True\<rparr>; num = (numbered \<and> length (pl_data line) > 0) in
             Inr (line1\<lparr>pl_data := []\<rparr>, n, if num then number - 1 else number, False,
                  out @ (if num then print_line line1 True number True else print_line line1 False 0 True)))
        else
          (case add_line_char ok line c n of
             None \<Rightarrow> Inl out
           | Some (line1, n1) \<Rightarrow> Inr (line1, n1, number, first, out)))"

fun reverse_bytes :: "alloc_oracle \<Rightarrow> bool \<Rightarrow> string \<Rightarrow> rev_state \<Rightarrow> string + rev_state" where
  "reverse_bytes ok numbered [] st = Inr st"
| "reverse_bytes ok numbered (c # cs) st =
     (case reverse_byte ok numbered c st of Inl out \<Rightarrow> Inl out | Inr st1 \<Rightarrow> reverse_bytes ok numbered cs st1)"

text \<open>The loop over the chunks of the regular file with contents \<open>s\<close>, from \<open>position\<close> down; \<open>off\<close> is the offset of the descriptor.\<close>

function reverse_loop :: "alloc_oracle \<Rightarrow> bool \<Rightarrow> string \<Rightarrow> nat \<Rightarrow> nat \<Rightarrow> rev_state \<Rightarrow> (string + rev_state) \<times> nat" where
  "reverse_loop ok numbered s position off st =
     (if position > 0 then
        (let start = (if position > PEEK_CHUNK then position - PEEK_CHUNK else 0);
             buffer = take (position - start) (drop start s)
         in case reverse_bytes ok numbered (rev buffer) st of
              Inl out \<Rightarrow> (Inl out, position)
            | Inr st1 \<Rightarrow> reverse_loop ok numbered s start position st1)
      else (Inr st, off))"
  by pat_completeness auto
termination
  by (relation "measure (\<lambda>(ok, numbered, s, position, off, st). position)") (auto simp: PEEK_CHUNK_def)

text \<open>\<open>count_nonempty\<close> has read the file to its end.\<close>

definition print_reverse_regular :: "alloc_oracle \<Rightarrow> bool \<Rightarrow> string \<Rightarrow> int \<Rightarrow> (int \<times> string) \<times> nat" where
  "print_reverse_regular ok numbered s ln =
     (let remaining = count_nonempty [s] in
      case reverse_loop ok numbered s (length s) (length s) (line0, 0, ln + remaining, True, []) of
        (Inl out, off) \<Rightarrow> ((ln, out), off)
      | (Inr (line, n, number, first, out), off) \<Rightarrow>
          ((ln + remaining,
            if length (pl_data line) > 0
            then out @ (if numbered then print_line line True number True else print_line line False 0 True)
            else out), off))"

text \<open>A pipe or terminal cannot be read backwards: all lines are collected first.\<close>

fun collect_chunk :: "alloc_oracle \<Rightarrow> string \<Rightarrow> PeekLines \<Rightarrow> PeekLine \<Rightarrow> nat \<Rightarrow> (PeekLines \<times> PeekLine \<times> nat) option" where
  "collect_chunk ok [] lines line n = Some (lines, line, n)"
| "collect_chunk ok (c # cs) lines line n =
     (if c = NL then
        (case add_line ok lines line True n of None \<Rightarrow> None | Some (lines1, line1, n1) \<Rightarrow> collect_chunk ok cs lines1 line1 n1)
      else
        (case add_line_char ok line c n of None \<Rightarrow> None | Some (line1, n1) \<Rightarrow> collect_chunk ok cs lines line1 n1))"

definition collect_end :: "alloc_oracle \<Rightarrow> PeekLines \<Rightarrow> PeekLine \<Rightarrow> nat \<Rightarrow> PeekLines option" where
  "collect_end ok lines line n =
     (if length (pl_data line) > 0 then map_option fst (add_line ok lines line False n) else Some lines)"

fun read_all_lines :: "alloc_oracle \<Rightarrow> string list \<Rightarrow> PeekLines \<Rightarrow> PeekLine \<Rightarrow> nat \<Rightarrow> PeekLines option \<times> string list" where
  "read_all_lines ok [] lines line n = (collect_end ok lines line n, [])"
| "read_all_lines ok (chunk # chunks) lines line n =
     (if chunk = [] then (collect_end ok lines line n, chunks)
      else
        (case collect_chunk ok chunk lines line n of
           None \<Rightarrow> (None, chunks)
         | Some (lines1, line1, n1) \<Rightarrow> read_all_lines ok chunks lines1 line1 n1))"

fun reverse_items :: "bool \<Rightarrow> PeekLine list \<Rightarrow> int \<Rightarrow> string" where
  "reverse_items numbered [] number = []"
| "reverse_items numbered (line # lines) number =
     (if numbered \<and> length (pl_data line) > 0
      then print_line line True number False @ reverse_items numbered lines (number - 1)
      else print_line line False 0 False @ reverse_items numbered lines number)"

definition print_reverse_lines :: "PeekLines \<Rightarrow> bool \<Rightarrow> int \<Rightarrow> int \<times> string" where
  "print_reverse_lines lines numbered ln =
     (let remaining = int (length (filter (\<lambda>line. length (pl_data line) > 0) (pls_items lines)))
      in (ln + remaining, reverse_items numbered (rev (pls_items lines)) (ln + remaining)))"

section \<open>The command\<close>

text \<open>What a descriptor leads to: nothing that could be opened, a file whose status cannot be read, a directory, a regular file with its
  contents and the offset of the descriptor, or something that is read as a stream, with what the coming calls of \<open>read\<close> return.\<close>

datatype peek_input = Missing | No_status | Directory | Regular string nat | Stream "string list"

function chunks_of :: "string \<Rightarrow> string list" where
  "chunks_of s = (if s = [] then [] else take PEEK_CHUNK s # chunks_of (drop PEEK_CHUNK s))"
  by pat_completeness auto
termination
  by (relation "measure length") (auto simp: PEEK_CHUNK_def)

text \<open>What is printed for a descriptor, on standard output and standard error, and what is left of the input.\<close>

definition peek_fd :: "alloc_oracle \<Rightarrow> peek_input \<Rightarrow> bool \<Rightarrow> bool \<Rightarrow> int \<Rightarrow> (int \<times> string \<times> string) \<times> peek_input" where
  "peek_fd ok inp numbered backwards ln =
     (case inp of
        Missing \<Rightarrow> ((ln, [], ''peek: no such file or directory'' @ [NL]), inp)
      | No_status \<Rightarrow> ((ln, [], ''peek: no such file or directory'' @ [NL]), inp)
      | Directory \<Rightarrow> ((ln, [], ''peek: is a directory'' @ [NL]), inp)
      | Regular s off \<Rightarrow>
          (if backwards then (case print_reverse_regular ok numbered s ln of ((l, out), off1) \<Rightarrow> ((l, out, []), Regular s off1))
           else (case print_forward ok numbered (chunks_of (drop off s)) line0 0 ln [] of
                   ((l, out), rest) \<Rightarrow> ((l, out, []), Regular s (off + length (drop off s) - length (concat rest)))))
      | Stream chunks \<Rightarrow>
          (if backwards then
             (case read_all_lines ok chunks lines0 line0 0 of
                (None, rest) \<Rightarrow> ((ln, [], []), Stream rest)
              | (Some lines, rest) \<Rightarrow> (case print_reverse_lines lines numbered ln of (l, out) \<Rightarrow> ((l, out, []), Stream rest)))
           else (case print_forward ok numbered chunks line0 0 ln [] of ((l, out), rest) \<Rightarrow> ((l, out, []), Stream rest))))"

text \<open>
  \<open>env\<close> says what \<open>open\<close> finds under a name at this moment. Standard input stays open from one operand to the next, so what is left
  of it is a result.
\<close>

definition peek_one :: "alloc_oracle \<Rightarrow> (string \<Rightarrow> peek_input) \<Rightarrow> peek_input \<Rightarrow> string \<Rightarrow> bool \<Rightarrow> bool \<Rightarrow> int \<Rightarrow> (int \<times> string \<times> string) \<times> peek_input" where
  "peek_one ok env stdin name numbered backwards ln =
     (if name = ''-'' then peek_fd ok stdin numbered backwards ln
      else (fst (peek_fd ok (env name) numbered backwards ln), stdin))"

text \<open>The letters of one option word; \<open>None\<close> for one that is not known.\<close>

fun peek_letters :: "string \<Rightarrow> bool \<Rightarrow> bool \<Rightarrow> (bool \<times> bool) option" where
  "peek_letters [] numbered backwards = Some (numbered, backwards)"
| "peek_letters (c # cs) numbered backwards =
     (if c = CHR ''n'' then peek_letters cs True backwards
      else if c = CHR ''r'' then peek_letters cs numbered True
      else None)"

fun peek_options :: "Token list \<Rightarrow> bool \<Rightarrow> bool \<Rightarrow> (Token list \<times> bool \<times> bool) option" where
  "peek_options [] numbered backwards = Some ([], numbered, backwards)"
| "peek_options (t # ts) numbered backwards =
     (if tok_type t = TOKEN_WORD \<and> take 1 (tok_text t) = ''-'' \<and> length (tok_text t) > 1 then
        (case peek_letters (tl (tok_text t)) numbered backwards of
           None \<Rightarrow> None
         | Some (nb, bw) \<Rightarrow> peek_options ts nb bw)
      else Some (t # ts, numbered, backwards))"

text \<open>\<open>env i\<close> is what \<open>open\<close> finds when operand \<open>i\<close> is opened.\<close>

fun peek_files :: "alloc_oracle \<Rightarrow> (nat \<Rightarrow> string \<Rightarrow> peek_input) \<Rightarrow> nat \<Rightarrow> peek_input \<Rightarrow> string list \<Rightarrow> bool \<Rightarrow> bool \<Rightarrow> int \<Rightarrow> string \<times> string" where
  "peek_files ok env i stdin [] numbered backwards ln = ([], [])"
| "peek_files ok env i stdin (f # fs) numbered backwards ln =
     (let ((ln1, out, err), stdin1) = peek_one ok (env i) stdin f numbered backwards ln;
          (out2, err2) = peek_files ok env (Suc i) stdin1 fs numbered backwards ln1
      in (out @ out2, err @ err2))"

text \<open>The result, and what goes to standard output and standard error.\<close>

definition run_peek :: "alloc_oracle \<Rightarrow> (nat \<Rightarrow> string \<Rightarrow> peek_input) \<Rightarrow> peek_input \<Rightarrow> Token list \<Rightarrow> int \<times> string \<times> string" where
  "run_peek ok env stdin tokens =
     (if tokens = [] \<or> tok_type (hd tokens) \<noteq> TOKEN_WORD \<or> tok_text (hd tokens) \<noteq> ''peek'' then (0, [], [])
      else
        (case peek_options (tl tokens) False False of
           None \<Rightarrow> (1, [], ''peek: invalid syntax'' @ [NL])
         | Some (rest, numbered, backwards) \<Rightarrow>
             if list_ex (\<lambda>t. tok_type t \<noteq> TOKEN_WORD) rest then (1, [], ''peek: invalid syntax'' @ [NL])
             else (1, peek_files ok env 0 stdin (if rest = [] then [''-''] else map tok_text rest) numbered backwards 0)))"

declare reverse_loop.simps [simp del] chunks_of.simps [simp del]


section \<open>Lines of a text\<close>

text \<open>The lines of a text, each with the information whether a newline ends it.\<close>

fun plines :: "string \<Rightarrow> (string \<times> bool) list" where
  "plines [] = []"
| "plines (c # s) =
     (if c = NL then ([], True) # plines s
      else (case plines s of [] \<Rightarrow> [([c], False)] | (t, nl) # ls \<Rightarrow> (c # t, nl) # ls))"

lemma plines_Nil [simp]: "plines s = [] \<longleftrightarrow> s = []"
  by (cases s) (auto split: list.splits)

lemma plines_line: "NL \<notin> set d \<Longrightarrow> plines (d @ NL # s) = (d, True) # plines s" "NL \<notin> set d \<Longrightarrow> plines d = (if d = [] then [] else [(d, False)])"
  by (induction d) auto

lemma plines_last: "plines s \<noteq> [] \<Longrightarrow> snd (last (plines s)) = (last s = NL)"
proof (induction s)
  case (Cons c s)
  show ?case
  proof (cases "plines s")
    case Nil
    then show ?thesis by auto
  next
    case (Cons a ls)
    then show ?thesis using Cons.IH by (cases a; cases ls) auto
  qed
qed simp

lemma plines_butlast: "(t, nl) \<in> set (butlast (plines s)) \<Longrightarrow> nl"
proof (induction s arbitrary: t nl)
  case (Cons c s)
  show ?case
  proof (cases "plines s")
    case Nil
    then show ?thesis using Cons.prems by (auto split: if_splits)
  next
    case p: (Cons a ls)
    obtain u b where a: "a = (u, b)" by fastforce
    have "ls \<noteq> [] \<Longrightarrow> b" "(v, nl) \<in> set (butlast ls) \<Longrightarrow> ls \<noteq> [] \<Longrightarrow> nl" for v
      using Cons.IH [of v nl] Cons.IH [of u b] p a by auto
    then show ?thesis using Cons.prems p a by (auto split: if_splits)
  qed
qed simp

lemma plines_newlines:
  assumes "last s = NL" "x \<in> set (plines s)"
  shows "snd x"
proof -
  have ne: "plines s \<noteq> []" using assms(2) by auto
  have "x \<in> set (butlast (plines s) @ [last (plines s)])" using assms(2) append_butlast_last_id [OF ne] by simp
  then show ?thesis using plines_butlast [of "fst x" "snd x" s] plines_last [OF ne] assms(1) by auto
qed

lemma swap_ends_steps:
  assumes "k \<le> length d div 2"
  defines "r \<equiv> fold (\<lambda>i d. d[i := d ! (length d - 1 - i), length d - 1 - i := d ! i]) [0..<k] d"
  shows "length r = length d \<and> (\<forall>i < length d. r ! i = (if i < k \<or> length d - k \<le> i then d ! (length d - 1 - i) else d ! i))"
  using assms(1) unfolding r_def
proof (induction k)
  case (Suc k)
  let ?f = "\<lambda>i d. d[i := d ! (length d - 1 - i), length d - 1 - i := d ! i]"
  let ?r = "fold ?f [0..<k] d"
  have IH: "length ?r = length d" "\<And>i. i < length d \<Longrightarrow> ?r ! i = (if i < k \<or> length d - k \<le> i then d ! (length d - 1 - i) else d ! i)" using Suc by simp_all
  have k: "k < length d" "length d - 1 - k < length d" "k < length d - 1 - k" using Suc.prems by linarith+
  have "?r ! k = d ! k" "?r ! (length d - 1 - k) = d ! (length d - 1 - k)" using IH(2) [OF k(1)] IH(2) [OF k(2)] k by auto
  then have e: "fold ?f [0..<Suc k] d = ?r[k := d ! (length d - 1 - k), length d - 1 - k := d ! k]" using IH(1) by simp
  have "?r[k := d ! (length d - 1 - k), length d - 1 - k := d ! k] ! i = (if i < Suc k \<or> length d - Suc k \<le> i then d ! (length d - 1 - i) else d ! i)"
    if i: "i < length d" for i
  proof (cases "i = k \<or> i = length d - 1 - k")
    case True
    then show ?thesis using k IH(1) by (auto simp: nth_list_update)
  next
    case False
    then have "i < Suc k \<or> length d - Suc k \<le> i \<longleftrightarrow> i < k \<or> length d - k \<le> i" using i k by linarith
    then show ?thesis using False IH(2) [OF i] by auto
  qed
  then show ?case unfolding e using IH(1) by simp
qed simp

lemma swap_ends_rev: "swap_ends d = rev d"
proof (rule nth_equalityI)
  note s = swap_ends_steps [OF order_refl, of d, folded swap_ends_def]
  then show "length (swap_ends d) = length (rev d)" by simp
  fix i assume "i < length (swap_ends d)"
  then have i: "i < length d" using s by simp
  have "\<not> (i < length d div 2 \<or> length d - length d div 2 \<le> i) \<Longrightarrow> length d - 1 - i = i" using i by linarith
  then show "swap_ends d ! i = rev d ! i" using s i by (auto simp: rev_nth)
qed

lemma add_line_char_always:
  obtains cap n' where "add_line_char always line c n = Some (line\<lparr>pl_cap := cap, pl_data := pl_data line @ [c]\<rparr>, n')"
  by (cases "length (pl_data line) = pl_cap line") (auto simp: add_line_char_def intro: that [of "pl_cap line"])

section \<open>Printing forwards\<close>

definition show_line :: "bool \<Rightarrow> int \<Rightarrow> string \<Rightarrow> bool \<Rightarrow> string" where
  "show_line numbered k t nl = (if numbered \<and> t \<noteq> [] then lld k @ '' '' else []) @ t @ (if nl then [NL] else [])"

text \<open>The lines one after the other; those that are not empty are counted from \<open>k\<close> on.\<close>

fun show_lines :: "bool \<Rightarrow> int \<Rightarrow> (string \<times> bool) list \<Rightarrow> int \<times> string" where
  "show_lines numbered k [] = (k, [])"
| "show_lines numbered k ((t, nl) # ls) =
     (let k1 = (if numbered \<and> t \<noteq> [] then k + 1 else k); (k2, out) = show_lines numbered k1 ls
      in (k2, show_line numbered k1 t nl @ out))"

lemma forward_chunk_lines:
  assumes "NL \<notin> set (pl_data line)" "\<not> pl_newline line"
  shows "\<exists>line1 n1 ln1 o1. forward_chunk always numbered cs line n ln out = (Some line1, n1, ln1, out @ o1) \<and> NL \<notin> set (pl_data line1) \<and> \<not> pl_newline line1
    \<and> (\<forall>rest. show_lines numbered ln (plines (pl_data line @ cs @ rest)) = (case show_lines numbered ln1 (plines (pl_data line1 @ rest)) of (k, o2) \<Rightarrow> (k, o1 @ o2)))"
  using assms
proof (induction cs arbitrary: line n ln out)
  case (Cons c cs)
  show ?case
  proof (cases "c = NL")
    case True
    let ?d = "pl_data line"
    define k where "k = (if numbered \<and> ?d \<noteq> [] then ln + 1 else ln)"
    have p: "print_line (line\<lparr>pl_newline := True\<rparr>) numbered (if numbered \<and> length ?d > 0 then k else 0) False = show_line numbered k ?d True"
      by (auto simp: print_line_def show_line_def Let_def)
    obtain line1 n1 ln1 o1 where IH: "forward_chunk always numbered cs (line\<lparr>pl_data := [], pl_newline := False\<rparr>) n k (out @ show_line numbered k ?d True) = (Some line1, n1, ln1, (out @ show_line numbered k ?d True) @ o1)"
      "NL \<notin> set (pl_data line1)" "\<not> pl_newline line1"
      "\<forall>rest. show_lines numbered k (plines (cs @ rest)) = (case show_lines numbered ln1 (plines (pl_data line1 @ rest)) of (k, o2) \<Rightarrow> (k, o1 @ o2))"
      using Cons.IH [of "line\<lparr>pl_data := [], pl_newline := False\<rparr>" n k "out @ show_line numbered k ?d True"] by auto
    have "forward_chunk always numbered (c # cs) line n ln out = (Some line1, n1, ln1, out @ show_line numbered k ?d True @ o1)"
      using True IH(1) p by (cases "numbered \<and> ?d \<noteq> []") (auto simp: k_def Let_def)
    moreover have "show_lines numbered ln (plines (?d @ (c # cs) @ rest)) = (case show_lines numbered ln1 (plines (pl_data line1 @ rest)) of (k, o2) \<Rightarrow> (k, (show_line numbered k' ?d True @ o1) @ o2))" if "k' = k" for rest k'
      using True IH(4) Cons.prems(1) that by (simp add: plines_line k_def Let_def split: prod.splits)
    ultimately show ?thesis using IH(2,3) by (intro exI [of _ line1] exI [of _ n1] exI [of _ ln1] exI [of _ "show_line numbered k ?d True @ o1"]) simp
  next
    case False
    obtain cap n1 where a: "add_line_char always line c n = Some (line\<lparr>pl_cap := cap, pl_data := pl_data line @ [c]\<rparr>, n1)" by (rule add_line_char_always)
    show ?thesis using Cons.IH [of "line\<lparr>pl_cap := cap, pl_data := pl_data line @ [c]\<rparr>" n1 ln out] Cons.prems False a by simp
  qed
qed (auto split: prod.splits)

text \<open>What one pass over a stream reads, and what it leaves: everything up to the first empty read.\<close>

definition read_now :: "string list \<Rightarrow> string" where
  "read_now chunks = concat (takeWhile (\<lambda>c. c \<noteq> []) chunks)"

definition left_over :: "string list \<Rightarrow> string list" where
  "left_over chunks = tl (dropWhile (\<lambda>c. c \<noteq> []) chunks)"

lemma read_now_simps [simp]:
  "read_now [] = []" "read_now ([] # cs) = []" "c \<noteq> [] \<Longrightarrow> read_now (c # cs) = c @ read_now cs"
  "left_over [] = []" "left_over ([] # cs) = cs" "c \<noteq> [] \<Longrightarrow> left_over (c # cs) = left_over cs"
  by (simp_all add: read_now_def left_over_def)

lemma read_now_all: "[] \<notin> set chunks \<Longrightarrow> read_now chunks = concat chunks" "[] \<notin> set chunks \<Longrightarrow> left_over chunks = []"
  by (induction chunks) auto

lemma forward_end_lines:
  assumes "NL \<notin> set (pl_data line)" "\<not> pl_newline line"
  shows "forward_end numbered line ln out = (case show_lines numbered ln (plines (pl_data line)) of (k, o1) \<Rightarrow> (k, out @ o1))"
  using assms by (auto simp: forward_end_def plines_line print_line_def show_line_def Let_def)

lemma print_forward_lines:
  assumes "NL \<notin> set (pl_data line)" "\<not> pl_newline line"
  shows "print_forward always numbered chunks line n ln out
    = (case show_lines numbered ln (plines (pl_data line @ read_now chunks)) of (k, o1) \<Rightarrow> (k, out @ o1), left_over chunks)"
  using assms
proof (induction chunks arbitrary: line n ln out)
  case Nil
  then show ?case by (simp add: forward_end_lines)
next
  case (Cons chunk chunks)
  show ?case
  proof (cases "chunk = []")
    case True
    then show ?thesis using Cons.prems by (simp add: forward_end_lines)
  next
    case False
    obtain line1 n1 ln1 o1 where c: "forward_chunk always numbered chunk line n ln out = (Some line1, n1, ln1, out @ o1)" "NL \<notin> set (pl_data line1)" "\<not> pl_newline line1"
      "\<forall>rest. show_lines numbered ln (plines (pl_data line @ chunk @ rest)) = (case show_lines numbered ln1 (plines (pl_data line1 @ rest)) of (k, o2) \<Rightarrow> (k, o1 @ o2))"
      using forward_chunk_lines [OF Cons.prems] by blast
    show ?thesis using c Cons.IH [OF c(2,3)] False by (auto split: prod.splits)
  qed
qed

lemma show_lines_unnumbered: "show_lines False k (plines s) = (k, s)"
proof (induction s)
  case (Cons c s)
  then show ?case by (cases "plines s") (auto simp: show_line_def split: prod.splits if_splits)
qed simp

lemma concat_chunks_of: "concat (chunks_of s) = s" "c \<in> set (chunks_of s) \<Longrightarrow> c \<noteq> []"
proof (induction s rule: chunks_of.induct)
  case (1 s)
  {
    case 1
    then show ?case using "1.IH"(1) by (subst chunks_of.simps) simp
  next
    case 2
    then show ?case using "1.IH"(2) by (subst (asm) chunks_of.simps) (auto simp: PEEK_CHUNK_def split: if_splits)
  }
qed


section \<open>Printing backwards\<close>

text \<open>The reference: lines with their newlines in the order given, those that are not empty counted down from \<open>k\<close>.\<close>

fun show_down :: "bool \<Rightarrow> int \<Rightarrow> (string \<times> bool) list \<Rightarrow> string" where
  "show_down numbered k [] = []"
| "show_down numbered k ((t, nl) # ls) = show_line numbered k t nl @ show_down numbered (if numbered \<and> t \<noteq> [] then k - 1 else k) ls"

definition nonempty :: "(string \<times> bool) list \<Rightarrow> int" where
  "nonempty ls = int (length (filter (\<lambda>(t, nl). t \<noteq> []) ls))"

lemma nonempty_simps [simp]: "nonempty [] = 0" "nonempty ((t, nl) # ls) = (if t \<noteq> [] then 1 else 0) + nonempty ls" "nonempty (ls @ ms) = nonempty ls + nonempty ms" "nonempty (rev ls) = nonempty ls"
  by (simp_all add: nonempty_def rev_filter [symmetric])

lemma nonempty_map: "nonempty (map (\<lambda>(t, _). (t, True)) ls) = nonempty ls"
  by (induction ls) (auto simp: nonempty_def)

lemma show_down_append: "show_down numbered k (ls @ ms) = show_down numbered k ls @ show_down numbered (if numbered then k - nonempty ls else k) ms"
  by (induction ls arbitrary: k) (auto simp: algebra_simps)

lemma count_chunk_lines:
  assumes "NL \<notin> set d"
  shows "case count_chunk s (length d) m of (len, k) \<Rightarrow> (if len > 0 then k + 1 else k) = m + nonempty (plines (d @ s))"
  using assms
proof (induction s arbitrary: d m)
  case Nil
  then show ?case by (simp add: plines_line)
next
  case (Cons c s)
  show ?case
  proof (cases "c = NL")
    case True
    then show ?thesis using Cons.IH [where d = "[]" and m = "if d \<noteq> [] then m + 1 else m"] Cons.prems by (auto simp: plines_line split: prod.splits if_splits)
  next
    case False
    then show ?thesis using Cons.IH [where d = "d @ [c]" and m = m] Cons.prems by simp
  qed
qed

lemma count_nonempty_lines: "count_nonempty [s] = nonempty (plines s)"
  using count_chunk_lines [where d = "[]" and s = s and m = 0] by (auto simp: count_nonempty_def split: prod.splits if_splits)

lemma reverse_bytes_append: "reverse_bytes ok numbered (cs @ ds) st = (case reverse_bytes ok numbered cs st of Inl out \<Rightarrow> Inl out | Inr st1 \<Rightarrow> reverse_bytes ok numbered ds st1)"
  by (induction cs arbitrary: st) (auto split: sum.splits)

text \<open>The size of the chunks does not matter.\<close>

lemma reverse_loop_bytes: "position \<le> length s \<Longrightarrow> fst (reverse_loop ok numbered s position off st) = reverse_bytes ok numbered (rev (take position s)) st"
proof (induction ok numbered s position off st rule: reverse_loop.induct)
  case (1 ok numbered s position off st)
  show ?case
  proof (cases "position > 0")
    case True
    define start where "start = (if position > PEEK_CHUNK then position - PEEK_CHUNK else 0)"
    have le: "start \<le> position" "start \<le> length s" using "1.prems" by (auto simp: start_def)
    have "take position s = take start s @ take (position - start) (drop start s)" using le by (metis le_add_diff_inverse take_add)
    then have "reverse_bytes ok numbered (rev (take position s)) st = (case reverse_bytes ok numbered (rev (take (position - start) (drop start s))) st of
        Inl out \<Rightarrow> Inl out | Inr st1 \<Rightarrow> reverse_bytes ok numbered (rev (take start s)) st1)" by (simp add: reverse_bytes_append)
    then show ?thesis using True "1.IH" [OF True start_def refl] le(2) by (subst reverse_loop.simps) (auto simp: Let_def start_def [symmetric] split: sum.splits)
  qed (subst reverse_loop.simps, simp)
qed

text \<open>After the bytes of the end part \<open>u\<close> of the file: its first line is in the buffer, the others are printed.\<close>

lemma reverse_bytes_lines:
  assumes "u \<noteq> []"
  shows "\<exists>cap n t nl ls. plines u = (t, nl) # ls \<and>
    reverse_bytes always numbered (rev u) (line0, 0, k, True, []) =
      Inr (\<lparr>pl_data = rev t, pl_cap = cap, pl_newline = NL \<in> set u\<rparr>, n, if numbered then k - nonempty ls else k, NL \<notin> set u, show_down numbered k (map (\<lambda>(t, _). (t, True)) (rev ls)))"
  using assms
proof (induction u)
  case (Cons c u)
  show ?case
  proof (cases "u = []")
    case True
    then show ?thesis by (auto simp: reverse_byte_def add_line_char_def)
  next
    case False
    then obtain cap n t nl ls where u: "plines u = (t, nl) # ls"
      "reverse_bytes always numbered (rev u) (line0, 0, k, True, []) =
        Inr (\<lparr>pl_data = rev t, pl_cap = cap, pl_newline = NL \<in> set u\<rparr>, n, if numbered then k - nonempty ls else k, NL \<notin> set u, show_down numbered k (map (\<lambda>(t, _). (t, True)) (rev ls)))"
      using Cons.IH by blast
    let ?line = "\<lparr>pl_data = rev t, pl_cap = cap, pl_newline = NL \<in> set u\<rparr>"
    let ?k = "if numbered then k - nonempty ls else k"
    have step: "reverse_bytes always numbered (rev (c # u)) (line0, 0, k, True, []) = reverse_byte always numbered c (?line, n, ?k, NL \<notin> set u, show_down numbered k (map (\<lambda>(t, _). (t, True)) (rev ls)))"
      by (simp add: reverse_bytes_append u(2) split: sum.splits)
    show ?thesis
    proof (cases "c = NL")
      case True
      have "NL \<notin> set u \<Longrightarrow> t \<noteq> []" using u(1) plines_line(2) [of u] False by (auto split: if_splits)
      then have p: "\<not> (NL \<notin> set u \<and> length (rev t) = 0)" by auto
      have pl: "(if numbered \<and> t \<noteq> [] then print_line (?line\<lparr>pl_newline := True\<rparr>) True ?k True else print_line (?line\<lparr>pl_newline := True\<rparr>) False 0 True) = show_line numbered ?k t True"
        by (auto simp: print_line_def swap_ends_rev show_line_def)
      show ?thesis unfolding step using True p pl
        by (auto simp: reverse_byte_def u(1) Let_def show_down_append nonempty_map)
    next
      case False
      obtain cap1 n1 where a: "add_line_char always ?line c n = Some (?line\<lparr>pl_cap := cap1, pl_data := rev t @ [c]\<rparr>, n1)"
        using add_line_char_always [of ?line c n] by auto
      show ?thesis unfolding step using False a by (auto simp: reverse_byte_def u(1))
    qed
  qed
qed simp


lemma plines_first: "plines s = (t, nl) # ls \<Longrightarrow> t = [] \<longleftrightarrow> hd s = NL"
  by (cases s) (auto split: if_splits list.splits prod.splits)

lemma plines_several: "plines s = x # y # ls \<Longrightarrow> NL \<in> set s"
  using plines_line(2) [of s] by (cases "NL \<in> set s"; cases "s = []") auto

lemma print_reverse_regular_lines:
  "fst (print_reverse_regular always numbered s ln) =
    (ln + nonempty (plines s),
     show_down numbered (ln + nonempty (plines s)) (map (\<lambda>(t, _). (t, NL \<in> set s)) (rev (if s \<noteq> [] \<and> hd s = NL then tl (plines s) else plines s))))"
proof (cases "plines s")
  case Nil
  then show ?thesis by (simp add: print_reverse_regular_def count_nonempty_def reverse_loop.simps [of _ _ _ 0])
next
  case (Cons a ls)
  obtain t nl where a: "a = (t, nl)" by fastforce
  have p: "plines s = (t, nl) # ls" using Cons a by simp
  have s: "s \<noteq> []" using p by auto
  let ?k = "ln + nonempty (plines s)"
  from reverse_bytes_lines [OF s, of numbered ?k] p obtain cap n where
    b: "reverse_bytes always numbered (rev s) (line0, 0, ?k, True, []) =
      Inr (\<lparr>pl_data = rev t, pl_cap = cap, pl_newline = NL \<in> set s\<rparr>, n, if numbered then ?k - nonempty ls else ?k, NL \<notin> set s, show_down numbered ?k (map (\<lambda>(t, _). (t, True)) (rev ls)))"
    by auto
  obtain off where r: "reverse_loop always numbered s (length s) (length s) (line0, 0, ?k, True, []) = (reverse_bytes always numbered (rev s) (line0, 0, ?k, True, []), off)"
    using reverse_loop_bytes [of "length s" s always numbered "length s"] by (metis order_refl prod.collapse take_all)
  have "fst (print_reverse_regular always numbered s ln) = (?k, show_down numbered ?k (map (\<lambda>(t, _). (t, True)) (rev ls) @ (if t = [] then [] else [(t, NL \<in> set s)])))"
    using r b by (auto simp: print_reverse_regular_def count_nonempty_lines Let_def show_down_append nonempty_map print_line_def swap_ends_rev show_line_def)
  moreover have "map (\<lambda>(t, _). (t, True)) (rev ls) = map (\<lambda>(t, _). (t, NL \<in> set s)) (rev ls)"
    using plines_several [of s a] Cons by (cases ls) auto
  ultimately show ?thesis using plines_first [OF p] p s by auto
qed

abbreviation line_of :: "PeekLine \<Rightarrow> string \<times> bool" where "line_of line \<equiv> (pl_data line, pl_newline line)"

lemma add_line_always:
  obtains cap n' where "add_line always lines line newline n = Some (lines\<lparr>pls_cap := cap, pls_items := pls_items lines @ [line\<lparr>pl_newline := newline\<rparr>]\<rparr>, line0, n')"
  by (cases "length (pls_items lines) = pls_cap lines") (auto simp: add_line_def Let_def intro: that [of "pls_cap lines"])

lemma collect_chunk_lines:
  assumes "NL \<notin> set (pl_data line)"
  shows "\<exists>lines1 line1 n1. collect_chunk always cs lines line n = Some (lines1, line1, n1) \<and> NL \<notin> set (pl_data line1)
    \<and> (\<forall>rest. map line_of (pls_items lines) @ plines (pl_data line @ cs @ rest) = map line_of (pls_items lines1) @ plines (pl_data line1 @ rest))"
  using assms
proof (induction cs arbitrary: lines line n)
  case (Cons c cs)
  show ?case
  proof (cases "c = NL")
    case True
    obtain cap n' where a: "add_line always lines line True n = Some (lines\<lparr>pls_cap := cap, pls_items := pls_items lines @ [line\<lparr>pl_newline := True\<rparr>]\<rparr>, line0, n')"
      by (rule add_line_always)
    show ?thesis using Cons.IH [of line0 "lines\<lparr>pls_cap := cap, pls_items := pls_items lines @ [line\<lparr>pl_newline := True\<rparr>]\<rparr>" n'] Cons.prems True a
      by (simp add: plines_line)
  next
    case False
    obtain cap n1 where a: "add_line_char always line c n = Some (line\<lparr>pl_cap := cap, pl_data := pl_data line @ [c]\<rparr>, n1)" by (rule add_line_char_always)
    show ?thesis using Cons.IH [of "line\<lparr>pl_cap := cap, pl_data := pl_data line @ [c]\<rparr>" lines n1] Cons.prems False a by simp
  qed
qed auto

lemma collect_end_lines:
  assumes "NL \<notin> set (pl_data line)"
  shows "\<exists>lines1. collect_end always lines line n = Some lines1 \<and> map line_of (pls_items lines1) = map line_of (pls_items lines) @ plines (pl_data line)"
proof -
  obtain cap n' where "add_line always lines line False n = Some (lines\<lparr>pls_cap := cap, pls_items := pls_items lines @ [line\<lparr>pl_newline := False\<rparr>]\<rparr>, line0, n')"
    by (rule add_line_always)
  with assms show ?thesis by (auto simp: collect_end_def plines_line)
qed

lemma read_all_lines_lines:
  assumes "NL \<notin> set (pl_data line)"
  shows "\<exists>lines1. read_all_lines always chunks lines line n = (Some lines1, left_over chunks)
    \<and> map line_of (pls_items lines1) = map line_of (pls_items lines) @ plines (pl_data line @ read_now chunks)"
  using assms
proof (induction chunks arbitrary: lines line n)
  case Nil
  then show ?case using collect_end_lines [of line lines n] by simp
next
  case (Cons chunk chunks)
  show ?case
  proof (cases "chunk = []")
    case True
    then show ?thesis using collect_end_lines [of line lines n] Cons.prems by simp
  next
    case False
    obtain lines1 line1 n1 where c: "collect_chunk always chunk lines line n = Some (lines1, line1, n1)" "NL \<notin> set (pl_data line1)"
      "map line_of (pls_items lines) @ plines (pl_data line @ chunk @ read_now chunks) = map line_of (pls_items lines1) @ plines (pl_data line1 @ read_now chunks)"
      using collect_chunk_lines [OF Cons.prems] by blast
    show ?thesis using c Cons.IH [OF c(2), of lines1 n1] False by simp
  qed
qed

lemma reverse_items_lines: "reverse_items numbered items k = show_down numbered k (map line_of items)"
  by (induction items arbitrary: k) (auto simp: print_line_def show_line_def)

lemma print_reverse_lines_lines:
  assumes "map line_of (pls_items lines) = ls"
  shows "print_reverse_lines lines numbered ln = (ln + nonempty ls, show_down numbered (ln + nonempty ls) (rev ls))"
proof -
  have "int (length (filter (\<lambda>line. length (pl_data line) > 0) (pls_items lines))) = nonempty ls"
    by (simp add: nonempty_def filter_map comp_def flip: assms)
  then show ?thesis unfolding print_reverse_lines_def reverse_items_lines rev_map [symmetric] assms by (simp only: Let_def)
qed

section \<open>The command\<close>

text \<open>The text an input gives when it is read to its end, and the input afterwards.\<close>

fun text_of :: "peek_input \<Rightarrow> string option" where
  "text_of (Regular s off) = Some (drop off s)"
| "text_of (Stream chunks) = Some (read_now chunks)"
| "text_of _ = None"

fun drained :: "peek_input \<Rightarrow> peek_input" where
  "drained (Regular s off) = Regular s (max off (length s))"
| "drained (Stream chunks) = Stream (left_over chunks)"
| "drained inp = inp"

fun complaint :: "peek_input \<Rightarrow> string" where
  "complaint Missing = ''peek: no such file or directory'' @ [NL]"
| "complaint No_status = ''peek: no such file or directory'' @ [NL]"
| "complaint Directory = ''peek: is a directory'' @ [NL]"
| "complaint _ = []"

lemma peek_fd_forward:
  "text_of inp = Some s \<Longrightarrow> peek_fd always inp numbered False ln = (case show_lines numbered ln (plines s) of (k, out) \<Rightarrow> (k, out, []), drained inp)"
  "text_of inp = None \<Longrightarrow> peek_fd always inp numbered backwards ln = ((ln, [], complaint inp), drained inp)"
proof -
  have e: "[] \<notin> set (chunks_of u)" for u using concat_chunks_of(2) by blast
  show "text_of inp = Some s \<Longrightarrow> peek_fd always inp numbered False ln = (case show_lines numbered ln (plines s) of (k, out) \<Rightarrow> (k, out, []), drained inp)"
    by (cases inp) (auto simp: peek_fd_def print_forward_lines read_now_all [OF e] concat_chunks_of(1) split: prod.splits)
  show "text_of inp = None \<Longrightarrow> peek_fd always inp numbered backwards ln = ((ln, [], complaint inp), drained inp)"
    by (cases inp) (simp_all add: peek_fd_def)
qed

lemma peek_fd_reverse_stream:
  fixes chunks :: "string list"
  defines "ls \<equiv> plines (read_now chunks)"
  shows "peek_fd always (Stream chunks) numbered True ln
    = ((ln + nonempty ls, show_down numbered (ln + nonempty ls) (rev ls), []), Stream (left_over chunks))"
proof -
  obtain lines1 where "read_all_lines always chunks lines0 line0 0 = (Some lines1, left_over chunks)" "map line_of (pls_items lines1) = ls"
    using read_all_lines_lines [of line0 chunks lines0 0] by (auto simp: ls_def)
  then show ?thesis by (simp add: peek_fd_def print_reverse_lines_lines)
qed

lemma peek_fd_reverse_regular:
  "fst (peek_fd always (Regular s off) numbered True ln) =
    (ln + nonempty (plines s),
     show_down numbered (ln + nonempty (plines s)) (map (\<lambda>(t, _). (t, NL \<in> set s)) (rev (if s \<noteq> [] \<and> hd s = NL then tl (plines s) else plines s))), [])"
  using print_reverse_regular_lines [of numbered s ln] by (auto simp: peek_fd_def split: prod.splits)

text \<open>The descriptor an operand names.\<close>

definition source :: "(string \<Rightarrow> peek_input) \<Rightarrow> peek_input \<Rightarrow> string \<Rightarrow> peek_input" where
  "source env stdin f = (if f = ''-'' then stdin else env f)"

lemma peek_one_source: "fst (peek_one ok env stdin f numbered backwards ln) = fst (peek_fd ok (source env stdin f) numbered backwards ln)"
  by (simp add: peek_one_def source_def)

text \<open>
  What the operands give, with the messages for those that cannot be read. A file is opened anew for each operand; standard input goes
  on where the operand before stopped.
\<close>

fun operand_texts :: "(nat \<Rightarrow> string \<Rightarrow> peek_input) \<Rightarrow> nat \<Rightarrow> peek_input \<Rightarrow> string list \<Rightarrow> (string \<times> string) list" where
  "operand_texts env i stdin [] = []"
| "operand_texts env i stdin (f # fs) =
     (let inp = source (env i) stdin f
      in (case text_of inp of Some s \<Rightarrow> s | None \<Rightarrow> [], complaint inp)
         # operand_texts env (Suc i) (if f = ''-'' then drained stdin else stdin) fs)"

lemma peek_fd_copy:
  "peek_fd always inp False False ln = ((ln, case text_of inp of Some s \<Rightarrow> s | None \<Rightarrow> [], complaint inp), drained inp)"
proof (cases "text_of inp")
  case None
  then show ?thesis by (simp add: peek_fd_forward(2))
next
  case (Some s)
  then have "complaint inp = []" by (cases inp) simp_all
  with Some show ?thesis by (simp add: peek_fd_forward(1) show_lines_unnumbered)
qed

lemma peek_files_copy:
  "peek_files always env i stdin names False False ln
    = (concat (map fst (operand_texts env i stdin names)), concat (map snd (operand_texts env i stdin names)))"
proof (induction names arbitrary: i stdin ln)
  case (Cons f names)
  show ?case by (cases "f = ''-''") (simp_all add: peek_one_def peek_fd_copy Cons source_def Let_def)
qed simp

text \<open>C24. Without options, the command \<open>peek\<close> prints the texts of its operands, one after the other and unchanged, whatever the sizes in
  which they are read, and a message on standard error for each that cannot be read. The operand \<open>-\<close> is standard input, which is read
  to its end the first time; a later \<open>-\<close> gives only what comes after that end.\<close>

theorem peek_copies_files:
  assumes "names \<noteq> []" "take 1 (hd names) \<noteq> ''-'' \<or> hd names = ''-''"
  shows "run_peek always env stdin (word ''peek'' # map word names)
    = (1, concat (map fst (operand_texts env 0 stdin names)), concat (map snd (operand_texts env 0 stdin names)))"
proof -
  have "peek_options (map word names) False False = Some (map word names, False, False)" using assms by (cases names) auto
  moreover have "\<not> list_ex (\<lambda>t. tok_type t \<noteq> TOKEN_WORD) (map word names)" "map tok_text (map word names) = names" by (induction names) auto
  ultimately show ?thesis using assms(1) peek_files_copy [of env 0 stdin names 0] by (simp add: run_peek_def)
qed

theorem peek_copies_files_witness:
  "run_peek always (\<lambda>i f. if f = ''f'' then Regular (''d'' @ [NL, NL]) 0 else Missing) (Stream [''ab'', ''c'' @ [NL]]) (word ''peek'' # map word [''f'', ''-'', ''x'', ''-'', ''f'']) =
    (1, ''d'' @ [NL, NL] @ ''abc'' @ [NL] @ ''d'' @ [NL, NL], ''peek: no such file or directory'' @ [NL])"
  using peek_copies_files [of "[''f'', ''-'', ''x'', ''-'', ''f'']" "\<lambda>i f. if f = ''f'' then Regular (''d'' @ [NL, NL]) 0 else Missing" "Stream [''ab'', ''c'' @ [NL]]"]
  by (simp add: source_def Let_def)

text \<open>C25. Backwards, a regular file is read from its end and a stream is collected in memory. For a text whose first line is
  not empty and whose last line is ended by a newline both print the same: the lines in reverse order, those that are not empty numbered downwards when
  asked, and both advance the line number by the number of lines that are not empty.\<close>

theorem peek_reverse_is_tac:
  assumes "s = [] \<or> hd s \<noteq> NL \<and> last s = NL" "source env stdin f = Regular s off" "source env stdin g = Stream chunks" "text_of (Stream chunks) = Some s"
  shows "fst (peek_one always env stdin f numbered True ln) = (ln + nonempty (plines s), show_down numbered (ln + nonempty (plines s)) (rev (plines s)), [])
    \<and> fst (peek_one always env stdin g numbered True ln) = fst (peek_one always env stdin f numbered True ln)"
proof -
  have "map (\<lambda>(t, _). (t, NL \<in> set s)) (rev (plines s)) = rev (plines s)"
  proof (rule map_idI)
    fix x assume "x \<in> set (rev (plines s))"
    then have "x \<in> set (plines s)" "s \<noteq> []" by auto
    then show "(case x of (t, _) \<Rightarrow> (t, NL \<in> set s)) = x"
      using assms(1) plines_newlines [of s x] last_in_set [of s] by (auto simp: case_prod_unfold prod_eq_iff)
  qed
  then show ?thesis using assms by (auto simp: peek_one_source peek_fd_reverse_regular peek_fd_reverse_stream)
qed

theorem peek_reverse_is_tac_witness:
  "fst (peek_one always (\<lambda>f. if f = ''f'' then Regular (''a'' @ [NL, NL] @ ''b'' @ [NL]) 0 else Stream [''a'' @ [NL], [NL] @ ''b'' @ [NL]]) Missing ''g'' True True 4) =
    (6, ''6 b'' @ [NL, NL] @ ''5 a'' @ [NL], [])"
  using peek_reverse_is_tac [of "''a'' @ [NL, NL] @ ''b'' @ [NL]" "\<lambda>f. if f = ''f'' then Regular (''a'' @ [NL, NL] @ ''b'' @ [NL]) 0 else Stream [''a'' @ [NL], [NL] @ ''b'' @ [NL]]" Missing "''f''" 0 "''g''" "[''a'' @ [NL], [NL] @ ''b'' @ [NL]]" True 4]
  by (simp add: source_def show_line_def lld_def dec.simps digit_def char_of_def bit_0)

lemma show_down_length:
  "length (show_down numbered k ls) = length (show_down numbered k (map (\<lambda>(t, _). (t, False)) ls)) + length (filter snd ls)"
  by (induction ls arbitrary: k) (auto simp: show_line_def)

lemma plines_flags: "length (filter snd (plines s)) + (if s \<noteq> [] \<and> last s \<noteq> NL then 1 else 0) = length (plines s)"
proof (induction s)
  case (Cons c s)
  then show ?case by (cases "plines s") (auto split: if_splits)
qed simp

text \<open>C26. The two ways differ otherwise, in two points. For a stream the lines are printed as they are, so that a last line without
  newline is joined to the one before it; for a regular file of several lines each line gets a newline. And an empty line at the beginning is printed for a
  stream, but not for a regular file. The lengths of the outputs differ accordingly.\<close>

theorem peek_reverse_paths_differ:
  fixes numbered :: bool and ln :: int
  assumes "s \<noteq> []" "source env stdin f = Regular s off" "source env stdin g = Stream chunks" "text_of (Stream chunks) = Some s"
  defines "regular \<equiv> fst (snd (fst (peek_one always env stdin f numbered True ln)))"
  defines "stream \<equiv> fst (snd (fst (peek_one always env stdin g numbered True ln)))"
  shows "regular = show_down numbered (ln + nonempty (plines s))
      (map (\<lambda>(t, _). (t, NL \<in> set s)) (rev (if hd s = NL then tl (plines s) else plines s)))
    \<and> stream = show_down numbered (ln + nonempty (plines s)) (rev (plines s))
    \<and> length regular + (if hd s = NL then 1 else 0) = length stream + (if NL \<in> set s \<and> last s \<noteq> NL then 1 else 0)"
proof -
  let ?k = "ln + nonempty (plines s)" and ?ls = "if hd s = NL then tl (plines s) else plines s"
  have r: "regular = show_down numbered ?k (map (\<lambda>(t, _). (t, NL \<in> set s)) (rev ?ls))"
    and t: "stream = show_down numbered ?k (rev (plines s))"
    using assms by (simp_all add: regular_def stream_def peek_one_source peek_fd_reverse_regular peek_fd_reverse_stream)
  obtain u nl ls where p: "plines s = (u, nl) # ls" using assms(1) by (cases "plines s") auto
  have base: "show_down numbered ?k (map (\<lambda>(t, _). (t, False)) (rev ?ls)) = show_down numbered ?k (map (\<lambda>(t, _). (t, False)) (rev (plines s)))"
    using plines_first [OF p] by (auto simp: p show_down_append show_line_def)
  have "length (filter snd (map (\<lambda>(t, _). (t, b)) xs)) = (if b then length xs else 0)" for b and xs :: "(string \<times> bool) list"
    by (induction xs) (auto simp: case_prod_unfold comp_def)
  then have "length regular = length (show_down numbered ?k (map (\<lambda>(t, _). (t, False)) (rev ?ls))) + (if NL \<in> set s then length ?ls else 0)"
    unfolding r by (subst show_down_length) (simp add: comp_def case_prod_unfold)
  moreover have "length stream = length (show_down numbered ?k (map (\<lambda>(t, _). (t, False)) (rev (plines s)))) + length (filter snd (plines s))"
    unfolding t by (subst show_down_length) (simp flip: rev_filter)
  moreover have "NL \<notin> set s \<Longrightarrow> plines s = [(s, False)] \<and> hd s \<noteq> NL" using plines_line(2) [of s] assms(1) by (cases s) auto
  moreover have "hd s = NL \<Longrightarrow> NL \<in> set s" using assms(1) by (cases s) auto
  ultimately have "length regular + (if hd s = NL then 1 else 0) = length stream + (if NL \<in> set s \<and> last s \<noteq> NL then 1 else 0)"
    using plines_flags [of s] assms(1) base by (auto simp: p split: if_splits)
  with r t show ?thesis by blast
qed

theorem peek_reverse_paths_differ_witness:
  "fst (snd (fst (peek_one always (\<lambda>f. Regular ([NL] @ ''a'' @ [NL] @ ''b'') 0) (Stream [[NL] @ ''a'' @ [NL] @ ''b'']) ''f'' False True 0))) = ''b'' @ [NL] @ ''a'' @ [NL] \<and>
   fst (snd (fst (peek_one always (\<lambda>f. Regular ([NL] @ ''a'' @ [NL] @ ''b'') 0) (Stream [[NL] @ ''a'' @ [NL] @ ''b'']) ''-'' False True 0))) = ''ba'' @ [NL, NL]"
  using peek_reverse_paths_differ [where s = "[NL] @ ''a'' @ [NL] @ ''b''" and env = "\<lambda>f. Regular ([NL] @ ''a'' @ [NL] @ ''b'') 0" and stdin = "Stream [[NL] @ ''a'' @ [NL] @ ''b'']" and f = "''f''" and off = 0
      and g = "''-''" and chunks = "[[NL] @ ''a'' @ [NL] @ ''b'']" and numbered = False and ln = 0]
  by (simp add: source_def show_line_def)

end
