(* ===== verification/Jobs.thy ===== *)
theory Jobs
  imports Decimal Parser
begin

text \<open>
  The job table of the shell, \<open>c-shell/src/d1d2.c\<close>, with the commands that work on it: \<open>resume\<close> (\<open>resume.c\<close>), \<open>ping\<close> (\<open>ping.c\<close>)
  and \<open>activities\<close> (\<open>activities.c\<close>). What the host's kernel answers is given: the statuses that \<open>waitpid\<close> returns, whether a
  process group still exists, what a signal finds. The table is shown to stay well formed, an exit that a signal announces to be reported
  once, and the texts to stay within their arrays.
\<close>

section \<open>State\<close>

definition MAX_JOBS :: nat where "MAX_JOBS = 1024"

text \<open>One entry of the arrays \<open>job_pid\<close>, \<open>job_name\<close>, \<open>job_live\<close>, \<open>job_stopped\<close>, \<open>job_leader_done\<close>, \<open>job_command\<close>; the table
  is the list of the first \<open>job_count\<close> entries.\<close>

record job =
  job_pid :: int
  job_name :: string
  job_live :: bool
  job_stopped :: bool
  job_leader_done :: bool
  job_command :: string

datatype wstatus = Exited int | Signaled int | WStopped | WContinued

definition SIGHUP :: int where "SIGHUP = 1"
definition SIGINT :: int where "SIGINT = 2"
definition SIGTERM :: int where "SIGTERM = 15"
definition SIGCONT :: int where "SIGCONT = 18"

text \<open>What the shell does to the outside: text on standard output and standard error, exit reports, signals to a process or (negative) a
  group, and the process group that gets the terminal; \<open>Perror\<close> is followed by the host's text for the error.\<close>

datatype effect = Out string | Err string | Perror string | Reported string int bool | Kill int int | Terminal int

text \<open>The static variables of \<open>d1d2.c\<close>, and the effects so far.\<close>

record job_state =
  sh_jobs :: "job list"
  sh_background :: bool
  sh_effects :: "effect list"

definition emit :: "effect list \<Rightarrow> job_state \<Rightarrow> job_state" where
  "emit es s = s\<lparr>sh_effects := sh_effects s @ es\<rparr>"

definition set_background_child :: "bool \<Rightarrow> job_state \<Rightarrow> job_state" where
  "set_background_child v s = s\<lparr>sh_background := v\<rparr>"

section \<open>Reports\<close>

text \<open>The digits of a number, least first, as the loop of \<open>report\<close> stores them.\<close>

fun report_digits :: "nat \<Rightarrow> string" where
  "report_digits value = (if value > 0 then digit (value mod 10) # report_digits (value div 10) else [])"

declare report_digits.simps [simp del]

definition report :: "string \<Rightarrow> int \<Rightarrow> bool \<Rightarrow> string" where
  "report name pid normal =
     (let value = unat (word_of_int pid :: u64);
          digits = (if value = 0 then ''0'' else report_digits value)
      in take 32 name @ '' with pid '' @ rev digits @ (if normal then '' exited normally'' else '' exited abnormally'') @ [NL])"

fun wifexited :: "wstatus \<Rightarrow> bool" where
  "wifexited (Exited c) = True"
| "wifexited st = False"

section \<open>Signals from children\<close>

text \<open>The loop over the table for one status.\<close>

fun sigchld_status :: "int \<Rightarrow> wstatus \<Rightarrow> job list \<Rightarrow> job list \<times> effect list" where
  "sigchld_status pid st [] = ([], [])"
| "sigchld_status pid st (j # js) =
     (if job_live j \<and> job_pid j = pid then
        (case st of
           WStopped \<Rightarrow> (j\<lparr>job_stopped := True\<rparr> # js, [])
         | WContinued \<Rightarrow> (j\<lparr>job_stopped := False\<rparr> # js, [])
         | _ \<Rightarrow> if \<not> job_leader_done j then (j\<lparr>job_leader_done := True\<rparr> # js, [Reported (job_name j) pid (wifexited st)]) else (j # js, []))
      else (case sigchld_status pid st js of (js1, es) \<Rightarrow> (j # js1, es)))"

text \<open>The second loop: a job ends when its leader has and its group is empty.\<close>

definition sweep :: "(int \<Rightarrow> bool) \<Rightarrow> job \<Rightarrow> job" where
  "sweep group_exists j = (if job_live j \<and> job_leader_done j \<and> \<not> group_exists (job_pid j) then j\<lparr>job_live := False, job_stopped := False\<rparr> else j)"

definition handle_sigchld :: "(int \<times> wstatus) list \<Rightarrow> (int \<Rightarrow> bool) \<Rightarrow> job_state \<Rightarrow> job_state" where
  "handle_sigchld statuses group_exists s =
     (let (js, es) = fold (\<lambda>(pid, st) (js, es). case sigchld_status pid st js of (js1, es1) \<Rightarrow> (js1, es @ es1)) statuses (sh_jobs s, [])
      in emit es (s\<lparr>sh_jobs := map (sweep group_exists) js\<rparr>))"

section \<open>Adding jobs\<close>

text \<open>One turn of the loop of \<open>save_command\<close>; \<open>cmd\<close> is the text up to \<open>pos\<close>.\<close>

definition save_word_of :: "Token \<Rightarrow> string \<Rightarrow> string" where
  "save_word_of t cmd =
     (if length cmd < 255 then
        (let cmd1 = (if cmd \<noteq> [] then cmd @ '' '' else cmd) in cmd1 @ take (255 - length cmd1) (tok_text t))
      else cmd)"

definition save_command :: "Token list \<Rightarrow> string" where
  "save_command tokens = fold save_word_of tokens []"

definition job_title :: "string \<Rightarrow> string" where
  "job_title name = take 31 (if take 1 name = ''%'' then tl name else name)"

definition add_stopped_job :: "int \<Rightarrow> Token list \<Rightarrow> job_state \<Rightarrow> int \<times> job_state" where
  "add_stopped_job pgid tokens s =
     (if length (sh_jobs s) = MAX_JOBS then (- 1, emit [Err (''cshell: too many jobs'' @ [NL])] s)
      else
        (let j = \<lparr>job_pid = pgid, job_name = job_title (if tokens \<noteq> [] then tok_text (hd tokens) else ''unknown''),
                  job_live = True, job_stopped = True, job_leader_done = False, job_command = save_command tokens\<rparr>
         in (int (length (sh_jobs s)) + 1, s\<lparr>sh_jobs := sh_jobs s @ [j]\<rparr>)))"

definition print_stopped :: "int \<Rightarrow> job_state \<Rightarrow> job_state" where
  "print_stopped number s =
     (if number < 1 \<or> number > int (length (sh_jobs s)) then s
      else emit [Out ([NL] @ ''['' @ lld number @ ''] + Stopped   '' @ job_command (sh_jobs s ! nat (number - 1)) @ [NL])] s)"

text \<open>The last part of \<open>runbuff\<close> in the shell itself: the child is entered as a job.\<close>

definition enter_background :: "int \<Rightarrow> Token list \<Rightarrow> job_state \<Rightarrow> job_state" where
  "enter_background child tokens s =
     (let j = \<lparr>job_pid = child, job_name = job_title (tok_text (hd tokens)), job_live = True, job_stopped = False,
               job_leader_done = False, job_command = save_command tokens\<rparr>
      in emit [Out (''['' @ lld (int (length (sh_jobs s)) + 1) @ ''] '' @ lld child @ [NL])] (s\<lparr>sh_jobs := sh_jobs s @ [j]\<rparr>))"

text \<open>\<open>child\<close> is what \<open>fork\<close> or \<open>launch_background_pipeline\<close> returned to the shell.\<close>

definition runbuff :: "int \<Rightarrow> Token list \<Rightarrow> job_state \<Rightarrow> job_state" where
  "runbuff child tokens s =
     (if length (sh_jobs s) = MAX_JOBS then emit [Err (''cshell: too many background jobs'' @ [NL])] s
      else if child < 0 then (if \<not> has_pipe tokens then emit [Perror ''cshell: fork failed''] s else s)
      else enter_background child tokens s)"

section \<open>Looking at and changing jobs\<close>

definition has_stopped_jobs :: "job_state \<Rightarrow> bool" where
  "has_stopped_jobs s \<longleftrightarrow> list_ex (\<lambda>j. job_live j \<and> job_stopped j) (sh_jobs s)"

definition shutdown_jobs :: "job_state \<Rightarrow> job_state" where
  "shutdown_jobs s = emit (concat (map (\<lambda>j. if job_live j then [Kill (- job_pid j) SIGHUP, Kill (- job_pid j) SIGCONT] else []) (sh_jobs s))) s"

definition getjobinfo :: "int \<Rightarrow> job_state \<Rightarrow> (int \<times> string \<times> bool) option" where
  "getjobinfo index s =
     (if index < 0 \<or> index \<ge> int (length (sh_jobs s)) then None
      else (let j = sh_jobs s ! nat index in Some (job_pid j, take 31 (job_name j), job_live j)))"

text \<open>The index and the process group.\<close>

definition find_job :: "int \<Rightarrow> job_state \<Rightarrow> (nat \<times> int) option" where
  "find_job number s =
     (let index = number - 1 in
      if index < 0 \<or> index \<ge> int (length (sh_jobs s)) \<or> \<not> job_live (sh_jobs s ! nat index) then None
      else Some (nat index, job_pid (sh_jobs s ! nat index)))"

definition upd_job :: "nat \<Rightarrow> (job \<Rightarrow> job) \<Rightarrow> job_state \<Rightarrow> job_state" where
  "upd_job i f s = (if i < length (sh_jobs s) then s\<lparr>sh_jobs := (sh_jobs s)[i := f (sh_jobs s ! i)]\<rparr> else s)"

definition set_job_stopped :: "nat \<Rightarrow> bool \<Rightarrow> job_state \<Rightarrow> job_state" where
  "set_job_stopped i v = upd_job i (\<lambda>j. j\<lparr>job_stopped := v\<rparr>)"

definition finish_job :: "nat \<Rightarrow> job_state \<Rightarrow> job_state" where
  "finish_job i = upd_job i (\<lambda>j. j\<lparr>job_live := False, job_stopped := False\<rparr>)"

definition job_command_text :: "nat \<Rightarrow> job_state \<Rightarrow> string" where
  "job_command_text i s = (if i < length (sh_jobs s) then job_command (sh_jobs s ! i) else [])"

text \<open>\<open>getpgid\<close> gives the group of a process, or nothing when there is none.\<close>

definition is_tracked_pid :: "(int \<Rightarrow> int option) \<Rightarrow> int \<Rightarrow> job_state \<Rightarrow> bool" where
  "is_tracked_pid getpgid pid s =
     (case getpgid pid of None \<Rightarrow> False | Some pgrp \<Rightarrow> list_ex (\<lambda>j. job_live j \<and> job_pid j = pgrp) (sh_jobs s))"

fun traced_exit :: "int \<Rightarrow> wstatus \<Rightarrow> (int \<Rightarrow> bool) \<Rightarrow> job list \<Rightarrow> job list \<times> effect list" where
  "traced_exit pid st group_exists [] = ([], [])"
| "traced_exit pid st group_exists (j # js) =
     (if job_live j \<and> job_pid j = pid \<and> \<not> job_leader_done j then
        ((if \<not> group_exists (job_pid j) then j\<lparr>job_leader_done := True, job_live := False, job_stopped := False\<rparr> else j\<lparr>job_leader_done := True\<rparr>) # js,
         [Reported (job_name j) pid (wifexited st)])
      else (case traced_exit pid st group_exists js of (js1, es) \<Rightarrow> (j # js1, es)))"

definition note_traced_exit :: "int \<Rightarrow> wstatus \<Rightarrow> (int \<Rightarrow> bool) \<Rightarrow> job_state \<Rightarrow> job_state" where
  "note_traced_exit pid st group_exists s =
     (case traced_exit pid st group_exists (sh_jobs s) of (js, es) \<Rightarrow> emit es (s\<lparr>sh_jobs := js\<rparr>))"


section \<open>The command resume\<close>

definition parse_number :: "string \<Rightarrow> int option" where
  "parse_number text =
     (if text = [] \<or> \<not> is_digit (hd text) then None
      else (case strtol text of (v, rest, erange) \<Rightarrow> if erange \<or> rest \<noteq> [] then None else Some v))"

datatype waited = Reaped wstatus | Interrupted | No_child

datatype outcome = WAIT_DONE | WAIT_STOPPED | WAIT_TIMEOUT

text \<open>The loop of \<open>wait_group\<close>. Each turn is given by whether the timer has fired and by what \<open>waitpid\<close> returned. The result is missing
  while the shell still waits.\<close>

fun wait_group :: "int \<Rightarrow> int \<Rightarrow> (bool \<times> waited) list \<Rightarrow> bool \<Rightarrow> (outcome \<times> effect list) option" where
  "wait_group pgid timeout [] interrupted = None"
| "wait_group pgid timeout ((fired, w) # turns) interrupted =
     (if timeout > 0 \<and> fired then Some (WAIT_TIMEOUT, [Kill (- pgid) SIGTERM])
      else
        (case w of
           Reaped st \<Rightarrow>
             if st = WStopped then Some (WAIT_STOPPED, [])
             else wait_group pgid timeout turns (interrupted \<or> st = Signaled SIGINT)
         | Interrupted \<Rightarrow> wait_group pgid timeout turns interrupted
         | No_child \<Rightarrow> Some (WAIT_DONE, if interrupted then [Out [NL]] else [])))"

text \<open>What the arguments ask for: the number of the job, foreground, and the timeout (0 for none).\<close>

definition resume_args :: "Token list \<Rightarrow> (int \<times> bool \<times> int) option" where
  "resume_args tokens =
     (if list_ex (\<lambda>t. tok_type t \<noteq> TOKEN_WORD) tokens then None
      else if length tokens \<noteq> 3 \<and> length tokens \<noteq> 5 \<or> take 1 (tok_text (tokens ! 1)) \<noteq> ''%'' then None
      else
        (case parse_number (tl (tok_text (tokens ! 1))) of
           None \<Rightarrow> None
         | Some number \<Rightarrow>
             let mode = tok_text (tokens ! 2) in
             if mode \<noteq> ''fg'' \<and> mode \<noteq> ''bg'' then None
             else if length tokens = 5 then
               if mode = ''bg'' \<or> tok_text (tokens ! 3) \<noteq> ''--timeout'' then None
               else (case parse_number (tok_text (tokens ! 4)) of
                       None \<Rightarrow> None
                     | Some timeout \<Rightarrow> if timeout \<le> 0 then None else Some (number, True, timeout))
             else Some (number, mode = ''fg'', 0)))"

text \<open>In the foreground: the job gets the terminal and the shell waits for it. \<open>shell_pgid\<close> is the group of the shell; there is no result
  while it waits.\<close>

definition resume_fg :: "int \<Rightarrow> (bool \<times> waited) list \<Rightarrow> nat \<Rightarrow> int \<Rightarrow> int \<Rightarrow> job_state \<Rightarrow> job_state option" where
  "resume_fg shell_pgid turns index pgid timeout s =
     (let s1 = emit [Kill (- pgid) SIGCONT] (set_job_stopped index False (emit [Out (job_command_text index s @ [NL]), Terminal pgid] s))
      in case wait_group pgid timeout turns False of
           None \<Rightarrow> None
         | Some (outcome, es) \<Rightarrow>
             let s2 = emit [Terminal shell_pgid] (emit es s1) in
             if outcome = WAIT_STOPPED then Some (print_stopped (int index + 1) (set_job_stopped index True s2))
             else if outcome = WAIT_TIMEOUT then Some (emit [Err (''resume: job timed out'' @ [NL])] (finish_job index s2))
             else Some (finish_job index s2))"

text \<open>The whole command: the return value and the state.\<close>

definition run_resume :: "int \<Rightarrow> (bool \<times> waited) list \<Rightarrow> Token list \<Rightarrow> job_state \<Rightarrow> (int \<times> job_state) option" where
  "run_resume shell_pgid turns tokens s =
     (if tokens = [] \<or> tok_type (hd tokens) \<noteq> TOKEN_WORD \<or> tok_text (hd tokens) \<noteq> ''resume'' then Some (0, s)
      else
        (case resume_args tokens of
           None \<Rightarrow> Some (1, emit [Err (''resume: invalid syntax'' @ [NL])] s)
         | Some (number, foreground, timeout) \<Rightarrow>
             (case (if 0 < number \<and> number \<le> 100000 then find_job number s else None) of
                None \<Rightarrow> Some (1, emit [Err (''resume: no such job'' @ [NL])] s)
              | Some (index, pgid) \<Rightarrow>
                  if \<not> foreground then
                    Some (1, emit [Kill (- pgid) SIGCONT, Out (''['' @ lld (int index + 1) @ ''] + Running   '' @ job_command_text index s @ [NL])]
                               (set_job_stopped index False s))
                  else if sh_background s then Some (1, emit [Err (''resume: invalid syntax'' @ [NL])] s)
                  else map_option (\<lambda>s1. (1, s1)) (resume_fg shell_pgid turns index pgid timeout s))))"

section \<open>The command ping\<close>

fun signal_loop :: "int \<Rightarrow> string \<Rightarrow> int option" where
  "signal_loop result [] = Some result"
| "signal_loop result (c # cs) = (if is_digit c then signal_loop ((result * 10 + int (digit_val c)) mod 64) cs else None)"

definition parse_signal :: "string \<Rightarrow> int option" where
  "parse_signal text = (if text = [] then None else signal_loop 0 text)"

text \<open>\<open>kill_ok\<close> says whether \<open>kill\<close> succeeds; a signal that fails reaches nobody.\<close>

definition run_ping :: "(int \<Rightarrow> int \<Rightarrow> bool) \<Rightarrow> (int \<Rightarrow> int option) \<Rightarrow> Token list \<Rightarrow> job_state \<Rightarrow> int \<times> job_state" where
  "run_ping kill_ok getpgid tokens s =
     (if tokens = [] \<or> tok_type (hd tokens) \<noteq> TOKEN_WORD \<or> tok_text (hd tokens) \<noteq> ''ping'' then (0, s)
      else if length tokens \<noteq> 3 \<or> tok_type (tokens ! 1) \<noteq> TOKEN_WORD \<or> tok_type (tokens ! 2) \<noteq> TOKEN_WORD
      then (1, emit [Err (''ping: invalid syntax'' @ [NL])] s)
      else
        (let target = tok_text (tokens ! 1); number = tok_text (tokens ! 2); none = (1, emit [Err (''ping: no such process found'' @ [NL])] s) in
         case parse_signal number of
           None \<Rightarrow> (1, emit [Err (''ping: invalid syntax'' @ [NL])] s)
         | Some sig \<Rightarrow>
             (case (if take 1 target = ''%'' then
                      (case parse_number (tl target) of
                         None \<Rightarrow> None
                       | Some i \<Rightarrow> if i \<le> 0 \<or> i > 100000 then None else map_option (\<lambda>(_, pgid). - pgid) (find_job i s))
                    else
                      (case parse_number target of
                         None \<Rightarrow> None
                       | Some i \<Rightarrow> if i \<le> 0 \<or> i > 100000000 \<or> \<not> is_tracked_pid getpgid i s then None else Some i)) of
                None \<Rightarrow> none
              | Some to \<Rightarrow>
                  if kill_ok to sig then (1, emit [Kill to sig, Out (''Sent signal '' @ number @ '' to '' @ target @ [NL])] s)
                  else none)))"


section \<open>The command activities\<close>

record member =
  m_pid :: int
  m_name :: string
  m_state :: char

text \<open>\<open>fgets\<close> with room for \<open>n\<close> characters: up to and with the first newline.\<close>

definition fgets :: "nat \<Rightarrow> string \<Rightarrow> string" where
  "fgets n s = (let l = takeWhile (\<lambda>c. c \<noteq> NL) s in take (n - 1) (if length l < length s then l @ [NL] else l))"

text \<open>The conversion \<open>%d\<close> of \<open>sscanf\<close>.\<close>

definition scan_int :: "string \<Rightarrow> (int \<times> string) option" where
  "scan_int s = (case strtol s of (v, rest, _) \<Rightarrow> if rest = s then None else Some (v, rest))"

text \<open>\<open>proc_stat\<close> gives the contents of \<open>/proc/<pid>/stat\<close>. The name stands between the first opening and the last closing
  parenthesis; the result is the name, the state and the process group.\<close>

definition readstat :: "(int \<Rightarrow> string option) \<Rightarrow> int \<Rightarrow> nat \<Rightarrow> (string \<times> char \<times> int) option" where
  "readstat proc_stat pid sz =
     (case proc_stat pid of
        None \<Rightarrow> None
      | Some contents \<Rightarrow>
          let buffer = fgets 512 contents;
              start = length (takeWhile (\<lambda>c. c \<noteq> CHR ''('') buffer);
              end_pos = length buffer - Suc (length (takeWhile (\<lambda>c. c \<noteq> CHR '')'') (rev buffer)))
          in if buffer = [] \<or> CHR ''('' \<notin> set buffer \<or> CHR '')'' \<notin> set buffer \<or> end_pos \<le> start then None
             else
               (let len = end_pos - start - 1; name = take (if len \<ge> sz then sz - 1 else len) (drop (start + 1) buffer) in
                case drop (end_pos + 2) buffer of
                  [] \<Rightarrow> None
                | st # rest \<Rightarrow>
                    (case scan_int (dropWhile is_white rest) of
                       None \<Rightarrow> None
                     | Some (_, rest1) \<Rightarrow>
                         (case scan_int (dropWhile is_white rest1) of
                            None \<Rightarrow> None
                          | Some (pgrp, _) \<Rightarrow> Some (name, st, pgrp)))))"

definition member_of :: "(int \<Rightarrow> string option) \<Rightarrow> int \<Rightarrow> string \<Rightarrow> string \<Rightarrow> member option" where
  "member_of proc_stat grp self d_name =
     (if d_name = [] \<or> \<not> is_digit (hd d_name) then None
      else
        (let pid = fst (strtol d_name) in
         case readstat proc_stat pid 64 of
           None \<Rightarrow> None
         | Some (name, st, pgrp) \<Rightarrow>
             if pgrp \<noteq> grp \<or> st = CHR ''Z'' \<or> pid = grp \<and> name = self then None
             else Some \<lparr>m_pid = pid, m_name = name, m_state = st\<rparr>))"

text \<open>The loop over the entries of \<open>/proc\<close>, with room for \<open>room\<close> members.\<close>

fun collect_loop :: "(int \<Rightarrow> string option) \<Rightarrow> int \<Rightarrow> string \<Rightarrow> nat \<Rightarrow> string list \<Rightarrow> member list" where
  "collect_loop proc_stat grp self room [] = []"
| "collect_loop proc_stat grp self room (d # ds) =
     (if room = 0 then []
      else (case member_of proc_stat grp self d of
              None \<Rightarrow> collect_loop proc_stat grp self room ds
            | Some m \<Rightarrow> m # collect_loop proc_stat grp self (room - 1) ds))"

definition collectgrp :: "(int \<Rightarrow> string option) \<Rightarrow> string list option \<Rightarrow> int \<Rightarrow> nat \<Rightarrow> string \<Rightarrow> member list" where
  "collectgrp proc_stat proc_dir grp room self =
     (case proc_dir of None \<Rightarrow> [] | Some ds \<Rightarrow> sort_key m_pid (collect_loop proc_stat grp self room ds))"

definition statename :: "char \<Rightarrow> string" where
  "statename st = (if st = CHR ''T'' \<or> st = CHR ''t'' then ''Stopped'' else ''Running'')"

definition show_job :: "(int \<Rightarrow> string option) \<Rightarrow> string list option \<Rightarrow> string \<Rightarrow> job_state \<Rightarrow> int \<Rightarrow> string" where
  "show_job proc_stat proc_dir self s i =
     (case getjobinfo i s of
        None \<Rightarrow> []
      | Some (pgid, name, live) \<Rightarrow>
          let ms = collectgrp proc_stat proc_dir pgid 128 self in
          if \<not> live \<or> ms = [] then []
          else ''['' @ lld (i + 1) @ ''] pgid '' @ lld pgid @ [NL] @
               concat (map (\<lambda>m. ''  '' @ lld (m_pid m) @ '' '' @ m_name m @ '' '' @ statename (m_state m) @ [NL]) ms))"

definition runactivity :: "int \<Rightarrow> (int \<Rightarrow> string option) \<Rightarrow> string list option \<Rightarrow> Token list \<Rightarrow> job_state \<Rightarrow> int \<times> job_state" where
  "runactivity getpid proc_stat proc_dir tokens s =
     (if tokens = [] \<or> tok_type (hd tokens) \<noteq> TOKEN_WORD \<or> tok_text (hd tokens) \<noteq> ''activities'' then (0, s)
      else if length tokens > 1 then (1, emit [Err (''activities: invalid syntax'' @ [NL])] s)
      else
        (let self = (case readstat proc_stat getpid 64 of None \<Rightarrow> [] | Some (name, _) \<Rightarrow> name) in
         (1, emit [Out (concat (map (show_job proc_stat proc_dir self s) [0..int (length (sh_jobs s)) - 1]))] s)))"


section \<open>Runs of the shell\<close>

text \<open>The operations on the table in any order, with any answers of the host. The handler of \<open>SIGCHLD\<close> runs between the others, which block
  the signal.\<close>

inductive job_step :: "job_state \<Rightarrow> job_state \<Rightarrow> bool" where
  sigchld: "job_step s (handle_sigchld statuses group_exists s)"
| stopped: "job_step s (snd (add_stopped_job pgid tokens s))"
| show_stopped: "job_step s (print_stopped number s)"
| background: "job_step s (runbuff child tokens s)"
| traced: "job_step s (note_traced_exit pid st group_exists s)"
| resume: "run_resume shell_pgid turns tokens s = Some (r, s1) \<Longrightarrow> job_step s s1"
| ping: "job_step s (snd (run_ping kill_ok getpgid tokens s))"
| activities: "job_step s (snd (runactivity getpid proc_stat proc_dir tokens s))"
| shutdown: "job_step s (shutdown_jobs s)"
| child: "job_step s (set_background_child v s)"

definition shell0 :: job_state where
  "shell0 = \<lparr>sh_jobs = [], sh_background = False, sh_effects = []\<rparr>"

subsection \<open>Small facts\<close>

lemma emit_simps [simp]: "sh_jobs (emit es s) = sh_jobs s" "sh_background (emit es s) = sh_background s" "sh_effects (emit es s) = sh_effects s @ es"
  by (simp_all add: emit_def)

lemma upd_job_simps [simp]: "length (sh_jobs (upd_job i f s)) = length (sh_jobs s)" "sh_effects (upd_job i f s) = sh_effects s" "sh_background (upd_job i f s) = sh_background s"
  by (simp_all add: upd_job_def)

lemma print_stopped_simps [simp]: "sh_jobs (print_stopped n s) = sh_jobs s" "sh_background (print_stopped n s) = sh_background s"
  by (simp_all add: print_stopped_def)

lemma find_job_Some: "find_job number s = Some (i, pgid) \<longleftrightarrow> number = int i + 1 \<and> i < length (sh_jobs s) \<and> job_live (sh_jobs s ! i) \<and> pgid = job_pid (sh_jobs s ! i)"
  by (auto simp: find_job_def Let_def)

text \<open>Each operation changes the table by a sequence of three kinds of change: the flags of one job, a job that is
  reported, or a new job at the end.\<close>

text \<open>\<open>ident\<close> is what does not change of a job.\<close>

definition ident :: "job \<Rightarrow> int \<times> string \<times> string" where
  "ident j = (job_pid j, job_name j, job_command j)"

definition job_ok :: "job \<Rightarrow> bool" where
  "job_ok j \<longleftrightarrow> length (job_name j) \<le> 31 \<and> length (job_command j) \<le> 255 \<and> (job_stopped j \<longrightarrow> job_live j)"

fun reports :: "effect list \<Rightarrow> (string \<times> int) list" where
  "reports [] = []"
| "reports (Reported n p b # es) = (n, p) # reports es"
| "reports (_ # es) = reports es"

definition ended :: "job list \<Rightarrow> (string \<times> int) list" where
  "ended js = map (\<lambda>j. (job_name j, job_pid j)) (filter job_leader_done js)"

lemma reports_append [simp]: "reports (es @ fs) = reports es @ reports fs"
  by (induction es rule: reports.induct) auto

lemma ended_simps [simp]: "ended [] = []" "ended (j # js) = (if job_leader_done j then [(job_name j, job_pid j)] else []) @ ended js" "ended (js @ ks) = ended js @ ended ks"
  by (simp_all add: ended_def)

text \<open>\<open>evolve js es js'\<close>: the table \<open>js'\<close> comes from \<open>js\<close> with the effects \<open>es\<close>; the old jobs keep their places and identities, new
  ones are well formed and not ended, and the reports in \<open>es\<close> are those of the jobs whose leader ended.\<close>

definition evolve :: "job list \<Rightarrow> effect list \<Rightarrow> job list \<Rightarrow> bool" where
  "evolve js es js' \<longleftrightarrow> (\<exists>new. map ident js' = map ident js @ new) \<and> mset (ended js') = mset (reports es) + mset (ended js)
     \<and> (list_all job_ok js \<longrightarrow> list_all job_ok js') \<and> (length js \<le> MAX_JOBS \<longrightarrow> length js' \<le> MAX_JOBS)"

lemma evolve_refl: "reports es = [] \<Longrightarrow> evolve js es js"
  by (simp add: evolve_def)

lemma evolve_trans: "evolve js es js1 \<Longrightarrow> evolve js1 fs js2 \<Longrightarrow> evolve js (es @ fs) js2"
  by (auto simp: evolve_def)

lemma evolve_Cons: "evolve js es js' \<Longrightarrow> length js' = length js \<Longrightarrow> evolve (j # js) es (j # js')"
  by (auto simp: evolve_def)

text \<open>A change of the flags of one job that does not end its leader.\<close>

lemma evolve_head:
  assumes "ident j' = ident j" "job_leader_done j' = job_leader_done j" "job_ok j \<Longrightarrow> job_ok j'" "reports es = []"
  shows "evolve (j # js) es (j' # js)"
  using assms by (auto simp: evolve_def ident_def)

lemma evolve_update:
  assumes "i < length js" "ident j' = ident (js ! i)" "job_leader_done j' = job_leader_done (js ! i)" "job_ok (js ! i) \<Longrightarrow> job_ok j'" "reports es = []"
  shows "evolve js es (js[i := j'])"
  using assms
proof (induction js arbitrary: i)
  case (Cons j js)
  show ?case
  proof (cases i)
    case 0
    then show ?thesis using Cons.prems by (simp add: evolve_head)
  next
    case (Suc k)
    then show ?thesis using Cons by (simp add: evolve_Cons)
  qed
qed simp

lemma evolve_new:
  assumes "length js \<noteq> MAX_JOBS" "job_ok j" "\<not> job_leader_done j" "reports es = []"
  shows "evolve js es (js @ [j])"
  using assms by (auto simp: evolve_def)


subsection \<open>Every operation evolves the table\<close>

lemma sigchld_status_evolve: "case sigchld_status pid st js of (js1, es) \<Rightarrow> length js1 = length js \<and> evolve js es js1"
proof (induction js)
  case (Cons j js)
  show ?case
  proof (cases "job_live j \<and> job_pid j = pid")
    case True
    have "evolve (j # js) [Reported (job_name j) pid b] (j\<lparr>job_leader_done := True\<rparr> # js)" if "\<not> job_leader_done j" for b
      using that True by (auto simp: evolve_def ident_def job_ok_def)
    moreover have "evolve (j # js) [] (j\<lparr>job_stopped := v\<rparr> # js)" for v using True by (intro evolve_head) (auto simp: ident_def job_ok_def)
    ultimately show ?thesis using True by (cases st) (auto simp: evolve_refl)
  next
    case False
    then show ?thesis using Cons.IH by (auto simp: evolve_Cons split: prod.splits)
  qed
qed (simp add: evolve_refl)

lemma sweep_evolve: "evolve js [] (map (sweep g) js)"
proof -
  have "ident (sweep g j) = ident j" "job_leader_done (sweep g j) = job_leader_done j" "job_name (sweep g j) = job_name j" "job_pid (sweep g j) = job_pid j" "job_ok j \<Longrightarrow> job_ok (sweep g j)" for j
    by (auto simp: sweep_def ident_def job_ok_def)
  then show ?thesis by (auto simp: evolve_def ended_def filter_map comp_def list.pred_set)
qed

lemma handle_sigchld_evolve:
  "\<exists>es. sh_effects (handle_sigchld statuses g s) = sh_effects s @ es \<and> evolve (sh_jobs s) es (sh_jobs (handle_sigchld statuses g s))"
proof -
  let ?f = "\<lambda>(pid, st) (js, es). case sigchld_status pid st js of (js1, es1) \<Rightarrow> (js1, es @ es1)"
  have *: "case fold ?f statuses (js, es) of (js1, es1) \<Rightarrow> \<exists>fs. es1 = es @ fs \<and> evolve js fs js1" for js es
  proof (induction statuses arbitrary: js es)
    case (Cons a as)
    obtain pid st where a: "a = (pid, st)" by fastforce
    obtain js1 es1 where c: "sigchld_status pid st js = (js1, es1)" by fastforce
    then have "evolve js es1 js1" using sigchld_status_evolve [where pid = pid and st = st and js = js] by simp
    then show ?case using Cons.IH [where js = js1 and es = "es @ es1"] a c by (fastforce dest: evolve_trans split: prod.splits)
  qed (simp add: evolve_refl)
  obtain js es where f: "fold ?f statuses (sh_jobs s, []) = (js, es)" by fastforce
  have "evolve (sh_jobs s) es js" using * [where js = "sh_jobs s" and es = "[]"] f by auto
  then have "evolve (sh_jobs s) es (map (sweep g) js)" using sweep_evolve evolve_trans by fastforce
  then show ?thesis using f by (simp add: handle_sigchld_def)
qed

lemma traced_exit_evolve: "case traced_exit pid st g js of (js1, es) \<Rightarrow> length js1 = length js \<and> evolve js es js1"
proof (induction js)
  case (Cons j js)
  show ?case
  proof (cases "job_live j \<and> job_pid j = pid \<and> \<not> job_leader_done j")
    case True
    then show ?thesis by (auto simp: evolve_def ident_def job_ok_def)
  next
    case False
    then show ?thesis using Cons.IH by (auto simp: evolve_Cons split: prod.splits)
  qed
qed (simp add: evolve_refl)

lemma save_word_of_short: "length cmd \<le> 255 \<Longrightarrow> length (save_word_of t cmd) \<le> 255"
  by (auto simp: save_word_of_def Let_def)

lemma save_command_short: "length (save_command tokens) \<le> 255"
proof -
  have "length cmd \<le> 255 \<Longrightarrow> length (fold save_word_of tokens cmd) \<le> 255" for cmd
    by (induction tokens arbitrary: cmd) (simp_all add: save_word_of_short)
  then show ?thesis by (simp add: save_command_def)
qed

lemma job_title_short: "length (job_title n) \<le> 31"
  by (simp add: job_title_def)

definition evolves :: "job_state \<Rightarrow> job_state \<Rightarrow> bool" where
  "evolves s s' \<longleftrightarrow> (\<exists>es. sh_effects s' = sh_effects s @ es \<and> evolve (sh_jobs s) es (sh_jobs s'))"

lemma evolves_same: "evolves s s"
  by (simp add: evolves_def evolve_refl)

lemma evolves_then: "evolves s s1 \<Longrightarrow> evolves s1 s2 \<Longrightarrow> evolves s s2"
  by (auto simp: evolves_def dest: evolve_trans)

lemma evolves_emit: "reports es = [] \<Longrightarrow> evolves s (emit es s)"
  by (auto simp: evolves_def evolve_refl)

lemma evolves_upd:
  assumes "\<And>j. ident (f j) = ident j \<and> job_leader_done (f j) = job_leader_done j" "i < length (sh_jobs s) \<Longrightarrow> job_ok (sh_jobs s ! i) \<Longrightarrow> job_ok (f (sh_jobs s ! i))"
  shows "evolves s (upd_job i f s)"
  using assms by (auto simp: evolves_def upd_job_def evolve_refl intro!: evolve_update)

lemma evolves_unstop: "evolves s (set_job_stopped i False s)"
  unfolding set_job_stopped_def by (rule evolves_upd) (auto simp: ident_def job_ok_def)

lemma evolves_unstop_emit: "reports es = [] \<Longrightarrow> evolves s (emit es (set_job_stopped i False s))"
  by (rule evolves_then [OF evolves_unstop evolves_emit])

lemma evolves_finish: "evolves s (finish_job i s)"
  unfolding finish_job_def by (rule evolves_upd) (auto simp: ident_def job_ok_def)

lemma evolves_stop: "i < length (sh_jobs s) \<Longrightarrow> job_live (sh_jobs s ! i) \<Longrightarrow> evolves s (set_job_stopped i True s)"
  unfolding set_job_stopped_def by (rule evolves_upd) (auto simp: ident_def job_ok_def)

lemma evolves_print: "evolves s (print_stopped n s)"
  by (simp add: print_stopped_def evolves_same evolves_emit)

lemma wait_group_silent: "wait_group pgid timeout turns i = Some (outcome, es) \<Longrightarrow> reports es = []"
  by (induction pgid timeout turns i rule: wait_group.induct) (auto split: if_splits waited.splits)


lemma resume_fg_evolves:
  assumes "resume_fg shell_pgid turns i pgid timeout s = Some s'" "find_job number s = Some (i, pgid)"
  shows "evolves s s'"
proof -
  define s1 where "s1 = emit [Kill (- pgid) SIGCONT] (set_job_stopped i False (emit [Out (job_command_text i s @ [NL]), Terminal pgid] s))"
  obtain outcome es where w: "wait_group pgid timeout turns False = Some (outcome, es)" using assms(1) by (auto simp: resume_fg_def split: option.splits)
  define s2 where "s2 = emit [Terminal shell_pgid] (emit es s1)"
  have "evolves s s1" unfolding s1_def by (intro evolves_then [OF evolves_then [OF evolves_emit evolves_unstop] evolves_emit]) simp_all
  then have e: "evolves s s2" unfolding s2_def using wait_group_silent [OF w] by (intro evolves_then [OF evolves_then [OF _ evolves_emit] evolves_emit]) simp_all
  have l: "i < length (sh_jobs s2)" "job_live (sh_jobs s2 ! i)" using assms(2) by (auto simp: find_job_Some s1_def s2_def set_job_stopped_def upd_job_def)
  have "s' = (if outcome = WAIT_STOPPED then print_stopped (int i + 1) (set_job_stopped i True s2)
      else if outcome = WAIT_TIMEOUT then emit [Err (''resume: job timed out'' @ [NL])] (finish_job i s2) else finish_job i s2)"
    using assms(1) w by (auto simp: resume_fg_def s1_def [symmetric] s2_def [symmetric] Let_def)
  then show ?thesis using e evolves_stop [OF l] evolves_finish [of s2 i]
    by (auto intro: evolves_then evolves_print intro!: evolves_then [OF _ evolves_emit] split: if_splits)
qed

lemma run_resume_evolves:
  assumes r: "run_resume shell_pgid turns tokens s = Some (r, s1)"
  shows "evolves s s1"
proof (cases "tokens = [] \<or> tok_type (hd tokens) \<noteq> TOKEN_WORD \<or> tok_text (hd tokens) \<noteq> ''resume''")
  case True
  then have "s1 = s" using r unfolding run_resume_def by (simp only: if_True option.inject prod.inject)
  then show ?thesis by (simp add: evolves_same)
next
  case False
  note r = r [unfolded run_resume_def if_not_P [OF False]]
  show ?thesis
  proof (cases "resume_args tokens")
    case None
    then show ?thesis using r by (auto simp: evolves_emit)
  next
    case (Some a)
    obtain number foreground timeout where a: "a = (number, foreground, timeout)" by (cases a)
    note r = r [unfolded Some a option.case prod.case]
    show ?thesis
    proof (cases "if 0 < number \<and> number \<le> 100000 then find_job number s else None")
      case None
      then show ?thesis using r by (simp only: option.case) (auto simp: evolves_emit)
    next
      case (Some ip)
      obtain i pgid where ip: "ip = (i, pgid)" by fastforce
      have f: "find_job number s = Some (i, pgid)" using Some ip by (auto split: if_splits)
      show ?thesis using r [unfolded Some ip option.case prod.case] f
        by (auto simp: evolves_emit evolves_unstop_emit elim: resume_fg_evolves split: if_splits)
    qed
  qed
qed

lemma run_ping_evolves: "evolves s (snd (run_ping kill_ok getpgid tokens s))"
  by (auto simp: run_ping_def Let_def evolves_same evolves_emit split: option.splits)

lemma job_step_evolves: "job_step s s' \<Longrightarrow> evolves s s'"
proof (induction rule: job_step.induct)
  case (sigchld s statuses group_exists)
  then show ?case using handle_sigchld_evolve by (simp add: evolves_def)
next
  case (stopped s pgid tokens)
  then show ?case by (auto simp: add_stopped_job_def Let_def evolves_emit evolves_def job_ok_def job_title_short save_command_short intro!: evolve_new evolve_refl)
next
  case (show_stopped s number)
  then show ?case by (rule evolves_print)
next
  case (background s child tokens)
  then show ?case by (auto simp: runbuff_def enter_background_def Let_def evolves_emit evolves_same evolves_def job_ok_def job_title_short save_command_short intro!: evolve_new evolve_refl)
next
  case (traced s pid st group_exists)
  then show ?case using traced_exit_evolve [where pid = pid and st = st and g = group_exists and js = "sh_jobs s"]
    by (auto simp: note_traced_exit_def evolves_def split: prod.splits)
next
  case (resume shell_pgid turns tokens s r s1)
  then show ?case by (rule run_resume_evolves)
next
  case (shutdown s)
  have "reports (concat (map (\<lambda>j. if job_live j then [Kill (- job_pid j) SIGHUP, Kill (- job_pid j) SIGCONT] else []) js)) = []" for js by (induction js) auto
  then show ?case unfolding shutdown_jobs_def by (rule evolves_emit)
next
  case (ping s kill_ok getpgid tokens)
  then show ?case by (rule run_ping_evolves)
next
  case (activities s getpid proc_stat proc_dir tokens)
  then show ?case by (simp add: runactivity_def Let_def evolves_same evolves_emit)
next
  case (child s v)
  then show ?case by (simp add: set_background_child_def evolves_def evolve_refl)
qed

lemma job_steps_evolve: "job_step\<^sup>*\<^sup>* s s' \<Longrightarrow> evolves s s'"
  by (induction rule: rtranclp_induct) (auto intro: evolves_same evolves_then job_step_evolves)


section \<open>Properties\<close>

text \<open>C27. Whatever commands are given and whatever signals arrive, the table has at most \<open>MAX_JOBS\<close> jobs; every name and every command line fits
  its array with the terminating zero, and only a live job is marked stopped.\<close>

theorem job_table_well_formed:
  assumes "job_step\<^sup>*\<^sup>* shell0 s"
  shows "length (sh_jobs s) \<le> MAX_JOBS \<and> list_all job_ok (sh_jobs s)"
  using job_steps_evolve [OF assms] by (auto simp: evolves_def evolve_def shell0_def)

abbreviation demo_jobs :: job_state where
  "demo_jobs \<equiv> handle_sigchld [(40, WStopped), (41, Exited 0)] (\<lambda>g. g = 40) (runbuff 41 [word ''true''] (runbuff 40 [word ''%sleep'', word ''9''] shell0))"

lemma demo_jobs_reach: "job_step\<^sup>*\<^sup>* shell0 demo_jobs"
  by (rule rtranclp.rtrancl_into_rtrancl, rule rtranclp.rtrancl_into_rtrancl, rule r_into_rtranclp, rule job_step.background, rule job_step.background, rule job_step.sigchld)

theorem job_table_well_formed_witness: "length (sh_jobs demo_jobs) \<le> MAX_JOBS \<and> list_all job_ok (sh_jobs demo_jobs)"
  by (rule job_table_well_formed [OF demo_jobs_reach])

subsection \<open>A leader that ends in the background\<close>

text \<open>Entry \<open>i\<close> is the first live one of process \<open>pid\<close>.\<close>

definition first_live :: "int \<Rightarrow> job list \<Rightarrow> nat \<Rightarrow> bool" where
  "first_live pid js i \<longleftrightarrow> i < length js \<and> job_live (js ! i) \<and> job_pid (js ! i) = pid
     \<and> (\<forall>m < i. \<not> (job_live (js ! m) \<and> job_pid (js ! m) = pid))"

fun final :: "wstatus \<Rightarrow> bool" where
  "final WStopped = False"
| "final WContinued = False"
| "final st = True"

definition about :: "int \<Rightarrow> effect \<Rightarrow> bool" where
  "about pid e \<longleftrightarrow> (case e of Reported _ p _ \<Rightarrow> p = pid | _ \<Rightarrow> False)"

lemma sigchld_status_frame:
  "map (\<lambda>j. (job_live j, job_pid j, job_name j)) (fst (sigchld_status p st js)) = map (\<lambda>j. (job_live j, job_pid j, job_name j)) js"
  "pid \<noteq> p \<Longrightarrow> filter (about pid) (snd (sigchld_status p st js)) = []"
  by (induction js) (auto simp: about_def split: wstatus.splits prod.splits)

lemma sigchld_status_live:
  "length (fst (sigchld_status p st js)) = length js"
  "m < length js \<Longrightarrow> job_live (fst (sigchld_status p st js) ! m) = job_live (js ! m)"
  "m < length js \<Longrightarrow> job_pid (fst (sigchld_status p st js) ! m) = job_pid (js ! m)"
  "m < length js \<Longrightarrow> job_name (fst (sigchld_status p st js) ! m) = job_name (js ! m)"
proof -
  note f = sigchld_status_frame(1) [of p st js]
  show len: "length (fst (sigchld_status p st js)) = length js" using arg_cong [OF f, of length] by simp
  have "(job_live (fst (sigchld_status p st js) ! m), job_pid (fst (sigchld_status p st js) ! m), job_name (fst (sigchld_status p st js) ! m))
      = (job_live (js ! m), job_pid (js ! m), job_name (js ! m))" if "m < length js"
    using arg_cong [OF f, of "\<lambda>xs. xs ! m"] len that by simp
  then show "m < length js \<Longrightarrow> job_live (fst (sigchld_status p st js) ! m) = job_live (js ! m)"
    "m < length js \<Longrightarrow> job_pid (fst (sigchld_status p st js) ! m) = job_pid (js ! m)"
    "m < length js \<Longrightarrow> job_name (fst (sigchld_status p st js) ! m) = job_name (js ! m)" by simp_all
qed

lemma first_live_status: "first_live pid js i \<Longrightarrow> first_live pid (fst (sigchld_status p st js)) i"
  by (auto simp: first_live_def sigchld_status_live)

lemma first_live_Cons: "first_live pid (j # js) (Suc m) \<longleftrightarrow> \<not> (job_live j \<and> job_pid j = pid) \<and> first_live pid js m"
  unfolding first_live_def by (auto simp: less_Suc_eq_0_disj)

text \<open>A job whose leader is not named by any status keeps its flags.\<close>

lemma sigchld_status_keeps: "pid \<noteq> job_pid (js ! i) \<Longrightarrow> i < length js \<Longrightarrow> fst (sigchld_status pid st js) ! i = js ! i"
proof (induction js arbitrary: i)
  case (Cons j js)
  then show ?case by (cases i) (auto split: wstatus.splits prod.splits)
qed simp

text \<open>One status for the process: what is reported, and whether the leader counts as ended.\<close>

lemma sigchld_status_own:
  assumes "first_live pid js i"
  shows "snd (sigchld_status pid st js) = (if final st \<and> \<not> job_leader_done (js ! i) then [Reported (job_name (js ! i)) pid (wifexited st)] else [])"
    and "job_leader_done (fst (sigchld_status pid st js) ! i) = (final st \<or> job_leader_done (js ! i))"
  using assms
proof (induction js arbitrary: i)
  case (Cons j js)
  {
    case 1
    then show ?case
    proof (cases i)
      case 0
      with 1 show ?thesis by (cases st) (auto simp: first_live_def)
    next
      case (Suc m)
      with 1 Cons.IH(1) [of m] show ?thesis by (auto simp: first_live_Cons split: prod.splits)
    qed
  next
    case 2
    then show ?case
    proof (cases i)
      case 0
      with 2 show ?thesis by (cases st) (auto simp: first_live_def)
    next
      case (Suc m)
      with 2 Cons.IH(2) [of m] show ?thesis by (auto simp: first_live_Cons split: prod.splits)
    qed
  }
qed (simp_all add: first_live_def)

abbreviation take_status :: "int \<times> wstatus \<Rightarrow> job list \<times> effect list \<Rightarrow> job list \<times> effect list" where
  "take_status \<equiv> \<lambda>(pid, st) (js, es). case sigchld_status pid st js of (js1, es1) \<Rightarrow> (js1, es @ es1)"

text \<open>Statuses that do not end the process: nothing is reported of it.\<close>

lemma statuses_not_final:
  assumes "first_live pid js i" "\<forall>(p, st) \<in> set statuses. p = pid \<longrightarrow> \<not> final st"
  shows "\<exists>js1 es1. fold take_status statuses (js, es) = (js1, es @ es1) \<and> filter (about pid) es1 = []
    \<and> first_live pid js1 i \<and> job_name (js1 ! i) = job_name (js ! i) \<and> job_leader_done (js1 ! i) = job_leader_done (js ! i)"
  using assms
proof (induction statuses arbitrary: js es)
  case (Cons a as)
  obtain p st where a: "a = (p, st)" by fastforce
  obtain js1 es1 where c: "sigchld_status p st js = (js1, es1)" by fastforce
  have i: "i < length js" "job_pid (js ! i) = pid" using Cons.prems(1) by (simp_all add: first_live_def)
  have f: "first_live pid js1 i" "job_name (js1 ! i) = job_name (js ! i)"
    using first_live_status [OF Cons.prems(1), of p st] sigchld_status_live(4) [OF i(1), of p st] c by simp_all
  have e: "filter (about pid) es1 = [] \<and> job_leader_done (js1 ! i) = job_leader_done (js ! i)"
  proof (cases "p = pid")
    case True
    with Cons.prems(2) a have "\<not> final st" by auto
    with sigchld_status_own [OF Cons.prems(1), of st] True c show ?thesis by simp
  next
    case False
    with sigchld_status_frame(2) [of pid p st js] sigchld_status_keeps [of p js i st] i c show ?thesis by simp
  qed
  from Cons.IH [OF f(1), of "es @ es1"] Cons.prems(2) obtain js2 es2 where
    "fold take_status as (js1, es @ es1) = (js2, (es @ es1) @ es2)" "filter (about pid) es2 = []" "first_live pid js2 i"
    "job_name (js2 ! i) = job_name (js1 ! i)" "job_leader_done (js2 ! i) = job_leader_done (js1 ! i)" by auto
  with a c f(2) e show ?case by (intro exI [of _ js2] exI [of _ "es1 @ es2"]) simp
qed simp

lemma handler_reports:
  assumes first: "first_live pid (sh_jobs s) i" and wait: "\<not> job_leader_done (sh_jobs s ! i)" and st: "final st"
    and rest: "\<forall>(p, x) \<in> set (pre @ post). p = pid \<longrightarrow> \<not> final x"
  shows "\<exists>es. sh_effects (handle_sigchld (pre @ (pid, st) # post) g s) = sh_effects s @ es
      \<and> filter (about pid) es = [Reported (job_name (sh_jobs s ! i)) pid (wifexited st)]
    \<and> job_leader_done (sh_jobs (handle_sigchld (pre @ (pid, st) # post) g s) ! i)"
proof -
  from statuses_not_final [OF first, of pre "[]"] rest obtain js1 es1 where
    1: "fold take_status pre (sh_jobs s, []) = (js1, es1)" "filter (about pid) es1 = []" "first_live pid js1 i"
      "job_name (js1 ! i) = job_name (sh_jobs s ! i)" "\<not> job_leader_done (js1 ! i)" using wait by auto
  obtain js2 es2 where 2: "sigchld_status pid st js1 = (js2, es2)" by fastforce
  then have 3: "es2 = [Reported (job_name (sh_jobs s ! i)) pid (wifexited st)]" "job_leader_done (js2 ! i)" "first_live pid js2 i"
    using sigchld_status_own [OF 1(3), of st] first_live_status [OF 1(3), of pid st] 1(4,5) st by simp_all
  from statuses_not_final [OF 3(3), of post "es1 @ es2"] rest obtain js3 es3 where
    4: "fold take_status post (js2, es1 @ es2) = (js3, (es1 @ es2) @ es3)" "filter (about pid) es3 = []" "first_live pid js3 i"
      "job_leader_done (js3 ! i)" using 3(2) by auto
  have "fold take_status (pre @ (pid, st) # post) (sh_jobs s, []) = (js3, (es1 @ es2) @ es3)" using 1(1) 2 4(1) by simp
  then have h: "handle_sigchld (pre @ (pid, st) # post) g s = emit ((es1 @ es2) @ es3) (s\<lparr>sh_jobs := map (sweep g) js3\<rparr>)"
    unfolding handle_sigchld_def by (simp only: Let_def prod.case)
  have "i < length js3" using 4(3) by (simp add: first_live_def)
  then have "job_leader_done (sh_jobs (handle_sigchld (pre @ (pid, st) # post) g s) ! i)" using 4(4) unfolding h by (simp add: sweep_def)
  then show ?thesis unfolding h using 1(2) 3(1) 4(2) by (intro exI [of _ "(es1 @ es2) @ es3"]) (simp add: emit_def about_def)
qed

lemma ended_subset: "mset (ended js) \<subseteq># mset (map (\<lambda>j. (job_name j, job_pid j)) js)"
  unfolding ended_def by (simp add: image_mset_subseteq_mono multiset_filter_subset)

lemma reports_at_most_once:
  assumes "job_step\<^sup>*\<^sup>* shell0 s"
  shows "mset (reports (sh_effects s)) \<subseteq># mset (map (\<lambda>j. (job_name j, job_pid j)) (sh_jobs s))"
  using job_steps_evolve [OF assms] ended_subset [of "sh_jobs s"] by (auto simp: evolves_def evolve_def shell0_def)

text \<open>C28. An exit that a signal announces is reported, and once. When the handler receives, among any other statuses, the final status of the
  leader of a live job that has not been marked as ended, it prints exactly one report about that process, with the job's own name and the right kind of
  exit, and marks the leader. And whatever commands and signals come before and after, no job of the table is ever reported twice.
  (The leader of a job that is waited for in the foreground ends without a report: its status does not reach the handler.)\<close>

theorem exits_reported_once:
  fixes g :: "int \<Rightarrow> bool"
  assumes "job_step\<^sup>*\<^sup>* shell0 s"
    and "first_live pid (sh_jobs s) i" and "\<not> job_leader_done (sh_jobs s ! i)" and "final st"
    and "\<forall>(p, x) \<in> set (pre @ post). p = pid \<longrightarrow> \<not> final x"
  defines "s1 \<equiv> handle_sigchld (pre @ (pid, st) # post) g s"
  shows "(\<exists>es. sh_effects s1 = sh_effects s @ es
        \<and> filter (about pid) es = [Reported (job_name (sh_jobs s ! i)) pid (wifexited st)])
    \<and> job_leader_done (sh_jobs s1 ! i)
    \<and> (\<forall>s2. job_step\<^sup>*\<^sup>* s1 s2 \<longrightarrow>
         mset (reports (sh_effects s2)) \<subseteq># mset (map (\<lambda>j. (job_name j, job_pid j)) (sh_jobs s2)))"
proof -
  have "job_step\<^sup>*\<^sup>* shell0 s1" unfolding s1_def using assms(1) job_step.sigchld by (rule rtranclp.rtrancl_into_rtrancl)
  then have "mset (reports (sh_effects s2)) \<subseteq># mset (map (\<lambda>j. (job_name j, job_pid j)) (sh_jobs s2))" if "job_step\<^sup>*\<^sup>* s1 s2" for s2
    using that by (intro reports_at_most_once) (rule rtranclp_trans)
  with handler_reports [OF assms(2-5), of g] show ?thesis unfolding s1_def by blast
qed

theorem exits_reported_once_witness:
  "\<exists>es. sh_effects (handle_sigchld [(40, WStopped), (41, Signaled 9), (40, Exited 0)] (\<lambda>_. False) (runbuff 40 [word ''%sleep'', word ''9''] shell0)) =
      sh_effects (runbuff 40 [word ''%sleep'', word ''9''] shell0) @ es \<and> filter (about 40) es = [Reported ''sleep'' 40 True]"
proof -
  let ?s = "runbuff 40 [word ''%sleep'', word ''9''] shell0"
  have r: "job_step\<^sup>*\<^sup>* shell0 ?s" by (rule r_into_rtranclp, rule job_step.background)
  have f: "first_live 40 (sh_jobs ?s) 0" "\<not> job_leader_done (sh_jobs ?s ! 0)" "job_name (sh_jobs ?s ! 0) = ''sleep''"
    by (simp_all add: runbuff_def enter_background_def shell0_def MAX_JOBS_def first_live_def emit_def job_title_def)
  show ?thesis using exits_reported_once [OF r f(1,2), where st = "Exited 0" and pre = "[(40, WStopped), (41, Signaled 9)]" and post = "[]" and g = "\<lambda>_. False"] f(3)
    by simp
qed

text \<open>A number printed for a job means that job for ever: jobs are never moved, and keep process group, name and command line.\<close>

theorem job_number_stable:
  assumes "job_step\<^sup>*\<^sup>* s s'" "i < length (sh_jobs s)"
  shows "i < length (sh_jobs s') \<and> ident (sh_jobs s' ! i) = ident (sh_jobs s ! i)"
proof -
  obtain new where m: "map ident (sh_jobs s') = map ident (sh_jobs s) @ new" using job_steps_evolve [OF assms(1)] by (auto simp: evolves_def evolve_def)
  have "length (sh_jobs s) \<le> length (sh_jobs s')" using arg_cong [OF m, of length] by simp
  then have "i < length (sh_jobs s')" using assms(2) by simp
  moreover from this have "ident (sh_jobs s' ! i) = map ident (sh_jobs s') ! i" by simp
  ultimately show ?thesis unfolding m using assms(2) by (simp add: nth_append)
qed

lemma report_digits_dec: "n > 0 \<Longrightarrow> rev (report_digits n) = dec n"
proof (induction n rule: report_digits.induct)
  case (1 n)
  then show ?case by (cases "n < 10") (auto simp: report_digits.simps [of n] dec.simps [of n] report_digits.simps [of 0])
qed

text \<open>The line of an exit report is the name, the process id in decimal and the kind of exit. It fits the 96 bytes of its array, and the
  digits fit their 16 bytes.\<close>

theorem report_fits:
  assumes "length name \<le> 31" "0 \<le> pid" "pid < 2 ^ 31"
  shows "report name pid normal = name @ '' with pid '' @ lld pid @ (if normal then '' exited normally'' else '' exited abnormally'') @ [NL]
    \<and> length (report name pid normal) \<le> 96 \<and> length (report_digits (nat pid)) \<le> 16"
proof -
  have v: "unat (word_of_int pid :: u64) = nat pid" using assms(2,3) by (simp add: unat_eq_nat_uint word_of_int_inverse uint_word_of_int)
  have d: "rev (if nat pid = 0 then ''0'' else report_digits (nat pid)) = dec (nat pid)"
    using report_digits_dec [of "nat pid"] by (auto simp: dec.simps [of 0] digit_def char_of_def bit_0)
  have l: "length (dec (nat pid)) \<le> 10" by (rule length_dec) (use assms(2,3) in simp_all)
  have r: "report name pid normal = name @ '' with pid '' @ lld pid @ (if normal then '' exited normally'' else '' exited abnormally'') @ [NL]"
    using assms(1,2) d unfolding report_def v by (simp add: Let_def lld_def)
  moreover have "length (report_digits (nat pid)) \<le> 10" using report_digits_dec [of "nat pid"] l
    by (cases "nat pid = 0") (auto simp: report_digits.simps [of 0] dest: arg_cong [of _ _ length])
  moreover have "lld pid = dec (nat pid)" using assms(2) by (simp add: lld_def)
  ultimately show ?thesis using assms(1) l by auto
qed

theorem report_fits_witness:
  "report ''sleep'' 4711 True = ''sleep with pid 4711 exited normally'' @ [NL]"
  using report_fits [of "''sleep''" 4711 True] by (simp add: lld_def dec.simps digit_def char_of_def bit_0)

text \<open>The command line of a job is the words joined by blanks, cut after 255 characters.\<close>

definition join_words :: "Token \<Rightarrow> string \<Rightarrow> string" where
  "join_words t line = (if line = [] then tok_text t else line @ '' '' @ tok_text t)"

lemma save_command_line: "save_command tokens = take 255 (fold join_words tokens [])"
proof -
  have "save_word_of t (take 255 line) = take 255 (join_words t line)" for t line
    by (auto simp: save_word_of_def join_words_def Let_def min_def take_Cons' simp flip: One_nat_def)
  then have "fold save_word_of tokens (take 255 line) = take 255 (fold join_words tokens line)" for line
    by (induction tokens arbitrary: line) simp_all
  from this [of "[]"] show ?thesis by (simp add: save_command_def)
qed

lemma num_prefix_value: "list_all is_digit s \<Longrightarrow> snd (num_prefix acc s) = []"
  by (induction s arbitrary: acc) auto

text \<open>The signal of \<open>ping\<close> is the number modulo 64, however long it is.\<close>

lemma parse_signal_value: "parse_signal str = (if str \<noteq> [] \<and> list_all is_digit str then Some (int (fst (num_prefix 0 str)) mod 64) else None)"
proof -
  have "signal_loop (int acc mod 64) str = (if list_all is_digit str then Some (int (fst (num_prefix acc str)) mod 64) else None)" for acc
  proof (induction str arbitrary: acc)
    case (Cons c cs)
    have "(int acc mod 64 * 10 + int (digit_val c)) mod 64 = int (acc * 10 + digit_val c) mod 64"
      using mod_add_left_eq [of "int acc mod 64 * 10" 64 "int (digit_val c)"] mod_add_left_eq [of "int acc * 10" 64 "int (digit_val c)"] mod_mult_left_eq [of "int acc" 64 10] by simp
    then show ?case using Cons [of "acc * 10 + digit_val c"] by simp
  qed simp
  from this [of 0] show ?thesis by (simp add: parse_signal_def)
qed


subsection \<open>A leader that ended in the foreground\<close>

definition waiting_leader :: "nat \<Rightarrow> int \<Rightarrow> job_state \<Rightarrow> bool" where
  "waiting_leader i pgid s \<longleftrightarrow> i < length (sh_jobs s) \<and> job_pid (sh_jobs s ! i) = pgid \<and> job_live (sh_jobs s ! i) \<and> \<not> job_leader_done (sh_jobs s ! i)"

lemma handle_sigchld_keeps:
  assumes "waiting_leader i pgid s" "pgid \<notin> fst ` set statuses"
  shows "waiting_leader i pgid (handle_sigchld statuses g s)"
proof -
  let ?f = "\<lambda>(pid, st) (js, es). case sigchld_status pid st js of (js1, es1) \<Rightarrow> (js1, es @ es1)"
  have "fst (fold ?f statuses (js, es)) ! i = js ! i \<and> length (fst (fold ?f statuses (js, es))) = length js" if "i < length js" "job_pid (js ! i) = pgid" for js es
    using assms(2) that
  proof (induction statuses arbitrary: js es)
    case (Cons a as)
    obtain pid st where a: "a = (pid, st)" by fastforce
    obtain js1 es1 where c: "sigchld_status pid st js = (js1, es1)" by fastforce
    have "js1 ! i = js ! i" "length js1 = length js" using sigchld_status_keeps [of pid js i st] sigchld_status_evolve [where pid = pid and st = st and js = js] Cons.prems a c by auto
    then show ?case using Cons.IH [of js1 "es @ es1"] Cons.prems a c by simp
  qed simp
  then have "fst (fold ?f statuses (sh_jobs s, [])) ! i = sh_jobs s ! i" "length (fst (fold ?f statuses (sh_jobs s, []))) = length (sh_jobs s)"
    using assms(1) by (simp_all add: waiting_leader_def)
  then show ?thesis using assms(1) unfolding handle_sigchld_def by (cases "fold ?f statuses (sh_jobs s, [])") (simp add: waiting_leader_def sweep_def)
qed

text \<open>C29. A pipeline that is stopped in the foreground after its first process has been waited for is entered with its leader marked as
  not ended. No later signal can be about that process, and then the job stays live for ever, also when its process group
  no longer exists.\<close>

theorem stopped_job_without_leader_stays:
  assumes "add_stopped_job pgid tokens s = (n, s1)" "n > 0" "\<forall>(statuses, g) \<in> set signals. pgid \<notin> fst ` set statuses"
  shows "find_job n (fold (\<lambda>(statuses, g). handle_sigchld statuses g) signals s1) = Some (nat (n - 1), pgid)"
proof -
  have w: "waiting_leader (nat (n - 1)) pgid s1" and n: "n = int (nat (n - 1)) + 1"
    using assms(1,2) by (auto simp: add_stopped_job_def waiting_leader_def Let_def split: if_splits)
  have "waiting_leader (nat (n - 1)) pgid (fold (\<lambda>(statuses, g). handle_sigchld statuses g) signals s1)"
    using assms(3) w
  proof (induction signals arbitrary: s1)
    case (Cons a as)
    then show ?case using handle_sigchld_keeps [OF Cons.prems(2)] by (cases a) simp
  qed simp
  then show ?thesis using n by (auto simp: find_job_Some waiting_leader_def)
qed

theorem stopped_job_without_leader_stays_witness:
  "find_job 1 (fold (\<lambda>(statuses, g). handle_sigchld statuses g) [([(51, Exited 0)], \<lambda>_. False)] (snd (add_stopped_job 50 [word ''true''] shell0))) = Some (0, 50)"
  using stopped_job_without_leader_stays [of 50 "[word ''true'']" shell0 1 "snd (add_stopped_job 50 [word ''true''] shell0)" "[([(51, Exited 0)], \<lambda>_. False)]"]
  by (simp add: add_stopped_job_def shell0_def MAX_JOBS_def Let_def)

text \<open>Waiting in the foreground ends with the first turn in which the timer has fired, a process has stopped or no process is left.\<close>

lemma wait_group_returns:
  assumes "(fired, w) \<in> set turns" "timeout > 0 \<and> fired \<or> w = Reaped WStopped \<or> w = No_child"
  shows "wait_group pgid timeout turns i \<noteq> None"
  using assms by (induction pgid timeout turns i rule: wait_group.induct) (auto split: waited.splits)

text \<open>The processes that \<open>activities\<close> lists are the first \<open>room\<close> of the group.\<close>

lemma collect_loop_members: "collect_loop proc_stat grp self room ds = take room (List.map_filter (member_of proc_stat grp self) ds)"
  by (induction ds arbitrary: room) (auto simp: map_filter_simps take_Cons' split: option.splits)

end
