(* ===== verification/Spinlock.thy ===== *)
theory Spinlock
  imports Prelude
begin

text \<open>
  Spin locks and interrupt nesting, \<open>xv6/kernel/spinlock.c\<close>, with \<open>struct cpu\<close> of
  \<open>proc.h\<close> and the interrupt-enable bit of \<open>riscv.h\<close>. The first part translates the routines
  for one CPU. The second part interleaves the atomic actions of \<open>acquire\<close> and \<open>release\<close> on
  any number of CPUs and proves mutual exclusion and that \<open>holding\<close> answers exactly.
\<close>

section \<open>Data\<close>

text \<open>
  \<open>c_intr\<close> is the SIE bit of the CPU's \<open>sstatus\<close> register. The saved context of the scheduler
  thread is not represented.
\<close>

record cpu =
  c_proc :: "nat option"
  c_noff :: int
  c_intena :: bool
  c_intr :: bool

text \<open>\<open>l_cpu\<close> is the CPU that holds the lock, by its index in \<open>cpus\<close>; the name is not used.\<close>

record spinlock =
  l_locked :: bool
  l_cpu :: "nat option"

definition initlock :: spinlock where
  "initlock = \<lparr>l_locked = False, l_cpu = None\<rparr>"

section \<open>Interrupt nesting\<close>

definition intr_on :: "cpu \<Rightarrow> cpu" where
  "intr_on c = c\<lparr>c_intr := True\<rparr>"

definition intr_off :: "cpu \<Rightarrow> cpu" where
  "intr_off c = c\<lparr>c_intr := False\<rparr>"

definition intr_get :: "cpu \<Rightarrow> bool" where
  "intr_get c = c_intr c"

definition push_off :: "cpu \<Rightarrow> cpu" where
  "push_off c =
     (let old = c_intr c;
          c1 = intr_off c;
          c2 = (if c_noff c1 = 0 then c1\<lparr>c_intena := old\<rparr> else c1)
      in c2\<lparr>c_noff := c_noff c2 + 1\<rparr>)"

definition pop_off :: "cpu \<Rightarrow> cpu res" where
  "pop_off c =
     (if intr_get c then Panic ''pop_off - interruptible''
      else if c_noff c < 1 then Panic ''pop_off''
      else
        (let c1 = c\<lparr>c_noff := c_noff c - 1\<rparr>
         in Ok (if c_noff c1 = 0 \<and> c_intena c1 then intr_on c1 else c1)))"

section \<open>Locks\<close>

text \<open>\<open>me\<close> is the index of the CPU that runs the code.\<close>

definition holding :: "nat \<Rightarrow> spinlock \<Rightarrow> bool" where
  "holding me lk \<longleftrightarrow> l_locked lk \<and> l_cpu lk = Some me"

text \<open>
  The atomic exchange of \<open>acquire\<close> succeeds when the lock is free and otherwise spins;
  \<open>Ok None\<close> is a spin that has not ended.
\<close>

definition acquire :: "nat \<Rightarrow> cpu \<Rightarrow> spinlock \<Rightarrow> (cpu \<times> spinlock) option res" where
  "acquire me c lk =
     (let c1 = push_off c in
      if holding me lk then Panic ''acquire''
      else if l_locked lk then Ok None
      else Ok (Some (c1, lk\<lparr>l_locked := True, l_cpu := Some me\<rparr>)))"

definition release :: "nat \<Rightarrow> cpu \<Rightarrow> spinlock \<Rightarrow> (cpu \<times> spinlock) res" where
  "release me c lk =
     (if \<not> holding me lk then Panic ''release''
      else bind_res (pop_off c) (\<lambda>c1. Ok (c1, lk\<lparr>l_cpu := None, l_locked := False\<rparr>)))"

fun push_offs :: "nat \<Rightarrow> cpu \<Rightarrow> cpu" where
  "push_offs 0 c = c"
| "push_offs (Suc n) c = push_offs n (push_off c)"

fun pop_offs :: "nat \<Rightarrow> cpu \<Rightarrow> cpu res" where
  "pop_offs 0 c = Ok c"
| "pop_offs (Suc n) c = bind_res (pop_off c) (pop_offs n)"

lemma push_offs_nested:
  "0 < c_noff c \<Longrightarrow> \<not> c_intr c \<Longrightarrow> push_offs n c = c\<lparr>c_noff := c_noff c + int n\<rparr>"
  by (induction n arbitrary: c) (auto simp: push_off_def intr_off_def Let_def)

lemma pop_offs_nested:
  "int n < c_noff c \<Longrightarrow> \<not> c_intr c \<Longrightarrow> pop_offs n c = Ok (c\<lparr>c_noff := c_noff c - int n\<rparr>)"
proof (induction n arbitrary: c)
  case (Suc n)
  then have "pop_off c = Ok (c\<lparr>c_noff := c_noff c - 1\<rparr>)"
    by (simp add: pop_off_def intr_get_def Let_def)
  with Suc.IH [of "c\<lparr>c_noff := c_noff c - 1\<rparr>"] Suc.prems show ?case by (simp add: algebra_simps)
qed simp

lemma push_offs_Suc:
  assumes "c_noff c = 0"
  shows "push_offs (Suc n) c = c\<lparr>c_noff := 1 + int n, c_intena := c_intr c, c_intr := False\<rparr>"
  using assms push_offs_nested [of "push_off c" n]
  by (simp add: push_off_def intr_off_def Let_def)

lemma pop_offs_add: "pop_offs (n + m) c = bind_res (pop_offs n c) (pop_offs m)"
proof (induction n arbitrary: c)
  case (Suc n)
  then show ?case by (cases "pop_off c") auto
qed simp

section \<open>Several CPUs\<close>

text \<open>
  Where each CPU is in the code for one lock: outside, spinning on the exchange after
  \<open>push_off\<close> and the check, past a successful exchange but with \<open>lk->cpu\<close> not yet written,
  in its critical section, and inside \<open>release\<close> with \<open>lk->cpu\<close> cleared but \<open>lk->locked\<close> still set.
\<close>

datatype lock_pc = Outside | Spinning | Got | Critical | Releasing

record lock_sys =
  ls_lock :: spinlock
  ls_pc :: "nat \<Rightarrow> lock_pc"

inductive lock_step :: "lock_sys \<Rightarrow> lock_sys \<Rightarrow> bool" where
  enter: "ls_pc s i = Outside \<Longrightarrow> \<not> holding i (ls_lock s) \<Longrightarrow>
    lock_step s (s\<lparr>ls_pc := (ls_pc s)(i := Spinning)\<rparr>)"
| spin: "ls_pc s i = Spinning \<Longrightarrow> l_locked (ls_lock s) \<Longrightarrow>
    lock_step s (s\<lparr>ls_lock := (ls_lock s)\<lparr>l_locked := True\<rparr>\<rparr>)"
| exchange: "ls_pc s i = Spinning \<Longrightarrow> \<not> l_locked (ls_lock s) \<Longrightarrow>
    lock_step s (s\<lparr>ls_lock := (ls_lock s)\<lparr>l_locked := True\<rparr>, ls_pc := (ls_pc s)(i := Got)\<rparr>)"
| record_cpu: "ls_pc s i = Got \<Longrightarrow>
    lock_step s (s\<lparr>ls_lock := (ls_lock s)\<lparr>l_cpu := Some i\<rparr>, ls_pc := (ls_pc s)(i := Critical)\<rparr>)"
| clear_cpu: "ls_pc s i = Critical \<Longrightarrow> holding i (ls_lock s) \<Longrightarrow>
    lock_step s (s\<lparr>ls_lock := (ls_lock s)\<lparr>l_cpu := None\<rparr>, ls_pc := (ls_pc s)(i := Releasing)\<rparr>)"
| store_zero: "ls_pc s i = Releasing \<Longrightarrow>
    lock_step s (s\<lparr>ls_lock := (ls_lock s)\<lparr>l_locked := False\<rparr>, ls_pc := (ls_pc s)(i := Outside)\<rparr>)"

inductive lock_reachable :: "lock_sys \<Rightarrow> bool" where
  init: "lock_reachable \<lparr>ls_lock = initlock, ls_pc = (\<lambda>_. Outside)\<rparr>"
| step: "lock_reachable s \<Longrightarrow> lock_step s t \<Longrightarrow> lock_reachable t"

definition inside :: "lock_pc \<Rightarrow> bool" where
  "inside pc \<longleftrightarrow> pc = Got \<or> pc = Critical \<or> pc = Releasing"

definition owned_by :: "lock_sys \<Rightarrow> nat \<Rightarrow> bool" where
  "owned_by s i \<longleftrightarrow> l_locked (ls_lock s) \<and> inside (ls_pc s i)
     \<and> (\<forall>j. j \<noteq> i \<longrightarrow> \<not> inside (ls_pc s j))
     \<and> l_cpu (ls_lock s) = (if ls_pc s i = Critical then Some i else None)"

definition lock_free :: "lock_sys \<Rightarrow> bool" where
  "lock_free s \<longleftrightarrow> \<not> l_locked (ls_lock s) \<and> (\<forall>j. \<not> inside (ls_pc s j)) \<and> l_cpu (ls_lock s) = None"

definition lock_inv :: "lock_sys \<Rightarrow> bool" where
  "lock_inv s \<longleftrightarrow> lock_free s \<or> (\<exists>i. owned_by s i)"

lemma inside_simps [simp]:
  "\<not> inside Outside" "\<not> inside Spinning" "inside Got" "inside Critical" "inside Releasing"
  by (simp_all add: inside_def)

lemma lock_inv_init: "lock_inv \<lparr>ls_lock = initlock, ls_pc = (\<lambda>_. Outside)\<rparr>"
  by (simp add: lock_inv_def lock_free_def initlock_def)

lemma inside_owner:
  assumes "lock_inv s" "inside (ls_pc s i)"
  shows "owned_by s i"
proof -
  from assms obtain j where j: "owned_by s j" by (auto simp: lock_inv_def lock_free_def)
  with assms(2) have "i = j" unfolding owned_by_def by blast
  with j show ?thesis by simp
qed

lemma unlocked_free: "lock_inv s \<Longrightarrow> \<not> l_locked (ls_lock s) \<Longrightarrow> lock_free s"
  by (auto simp: lock_inv_def owned_by_def)

lemma lock_step_inv: "lock_step s t \<Longrightarrow> lock_inv s \<Longrightarrow> lock_inv t"
proof (induction rule: lock_step.induct)
  case (enter s i)
  let ?t = "s\<lparr>ls_pc := (ls_pc s)(i := Spinning)\<rparr>"
  have "lock_free s \<Longrightarrow> lock_free ?t" using enter by (simp add: lock_free_def)
  moreover have "owned_by s j \<Longrightarrow> owned_by ?t j" for j
    using enter by (cases "j = i") (simp_all add: owned_by_def)
  ultimately show ?case using enter.prems unfolding lock_inv_def by blast
next
  case (spin s i)
  then show ?case by (simp add: lock_inv_def lock_free_def owned_by_def)
next
  case (exchange s i)
  then have "lock_free s" by (simp add: unlocked_free)
  then have "owned_by (s\<lparr>ls_lock := (ls_lock s)\<lparr>l_locked := True\<rparr>, ls_pc := (ls_pc s)(i := Got)\<rparr>) i"
    by (simp add: lock_free_def owned_by_def)
  then show ?case unfolding lock_inv_def by blast
next
  case (record_cpu s i)
  then have "owned_by s i" by (simp add: inside_owner)
  then have "owned_by (s\<lparr>ls_lock := (ls_lock s)\<lparr>l_cpu := Some i\<rparr>, ls_pc := (ls_pc s)(i := Critical)\<rparr>) i"
    by (simp add: owned_by_def)
  then show ?case unfolding lock_inv_def by blast
next
  case (clear_cpu s i)
  then have "owned_by s i" by (simp add: inside_owner)
  then have "owned_by (s\<lparr>ls_lock := (ls_lock s)\<lparr>l_cpu := None\<rparr>, ls_pc := (ls_pc s)(i := Releasing)\<rparr>) i"
    by (simp add: owned_by_def)
  then show ?case unfolding lock_inv_def by blast
next
  case (store_zero s i)
  then have "owned_by s i" by (simp add: inside_owner)
  with store_zero have "lock_free (s\<lparr>ls_lock := (ls_lock s)\<lparr>l_locked := False\<rparr>, ls_pc := (ls_pc s)(i := Outside)\<rparr>)"
    by (auto simp: owned_by_def lock_free_def)
  then show ?case unfolding lock_inv_def by blast
qed

lemma lock_reachable_inv: "lock_reachable s \<Longrightarrow> lock_inv s"
  by (induction rule: lock_reachable.induct) (rule lock_inv_init, rule lock_step_inv)

section \<open>Properties\<close>

text \<open>C18. Mutual exclusion: under every interleaving of the atomic actions of \<open>acquire\<close> and
  \<open>release\<close> on any number of CPUs at most one CPU is between its successful exchange and its
  final store, and \<open>holding\<close> answers true on exactly the CPU that is in its critical section.\<close>

theorem spinlock_mutual_exclusion:
  assumes "lock_reachable s"
  shows "(inside (ls_pc s i) \<and> inside (ls_pc s j) \<longrightarrow> i = j)
    \<and> (holding i (ls_lock s) \<longleftrightarrow> ls_pc s i = Critical)"
proof -
  have inv: "lock_inv s" using assms by (rule lock_reachable_inv)
  have "i = j" if "inside (ls_pc s i)" "inside (ls_pc s j)"
    using inside_owner [OF inv that(1)] that(2) by (auto simp: owned_by_def)
  moreover have "holding i (ls_lock s) \<longleftrightarrow> ls_pc s i = Critical"
  proof
    assume "ls_pc s i = Critical"
    with inside_owner [OF inv, of i] show "holding i (ls_lock s)" by (simp add: owned_by_def holding_def)
  next
    assume h: "holding i (ls_lock s)"
    then obtain k where k: "owned_by s k" using inv by (auto simp: lock_inv_def lock_free_def holding_def)
    with h show "ls_pc s i = Critical" by (simp add: owned_by_def holding_def split: if_splits)
  qed
  ultimately show ?thesis by blast
qed

theorem spinlock_mutual_exclusion_witness:
  "holding 3 (ls_lock \<lparr>ls_lock = \<lparr>l_locked = True, l_cpu = Some 3\<rparr>, ls_pc = (\<lambda>_. Outside)(3 := Critical)\<rparr>)"
proof -
  let ?s0 = "\<lparr>ls_lock = initlock, ls_pc = (\<lambda>_. Outside)\<rparr>"
  let ?s1 = "?s0\<lparr>ls_pc := (ls_pc ?s0)(3 := Spinning)\<rparr>"
  let ?s2 = "?s1\<lparr>ls_lock := (ls_lock ?s1)\<lparr>l_locked := True\<rparr>, ls_pc := (ls_pc ?s1)(3 := Got)\<rparr>"
  let ?s3 = "?s2\<lparr>ls_lock := (ls_lock ?s2)\<lparr>l_cpu := Some 3\<rparr>, ls_pc := (ls_pc ?s2)(3 := Critical)\<rparr>"
  have "lock_reachable ?s1"
    by (rule lock_reachable.step [OF lock_reachable.init], rule lock_step.enter)
      (simp_all add: holding_def initlock_def)
  then have "lock_reachable ?s2"
    by (rule lock_reachable.step, intro lock_step.exchange) (simp_all add: initlock_def)
  then have "lock_reachable ?s3" by (rule lock_reachable.step, intro lock_step.record_cpu) simp
  from spinlock_mutual_exclusion [OF this, of 3 3] show ?thesis by (simp add: initlock_def)
qed

text \<open>\<open>push_off\<close> and \<open>pop_off\<close> nest: from a CPU that holds no lock, any number of
  \<open>push_off\<close> calls leaves interrupts off, and the same number of \<open>pop_off\<close> calls never panics,
  keeps interrupts off until the last one and then restores the interrupt state found first.\<close>

theorem push_pop_off_nest:
  assumes "c_noff c = 0" and "k \<le> n"
  shows "\<not> c_intr (push_offs (Suc n) c)
    \<and> pop_offs k (push_offs (Suc n) c) = Ok (c\<lparr>c_noff := 1 + int (n - k), c_intena := c_intr c, c_intr := False\<rparr>)
    \<and> pop_offs (Suc n) (push_offs (Suc n) c) = Ok (c\<lparr>c_noff := 0, c_intena := c_intr c\<rparr>)"
proof -
  let ?c = "c\<lparr>c_noff := 1 + int n, c_intena := c_intr c, c_intr := False\<rparr>"
  have "pop_offs k ?c = Ok (c\<lparr>c_noff := 1 + int (n - k), c_intena := c_intr c, c_intr := False\<rparr>)"
    using assms(2) pop_offs_nested [of k ?c] by (simp add: of_nat_diff algebra_simps)
  moreover have "pop_offs (n + 1) ?c = Ok (c\<lparr>c_noff := 0, c_intena := c_intr c\<rparr>)"
    unfolding pop_offs_add using pop_offs_nested [of n ?c]
    by (cases "c_intr c") (simp_all add: pop_off_def intr_get_def intr_on_def Let_def)
  ultimately show ?thesis by (simp add: push_offs_Suc [OF assms(1)] del: pop_offs.simps(2) push_offs.simps(2))
qed

theorem push_pop_off_nest_witness:
  "pop_offs 3 (push_offs 3 \<lparr>c_proc = None, c_noff = 0, c_intena = False, c_intr = True\<rparr>)
   = Ok \<lparr>c_proc = None, c_noff = 0, c_intena = True, c_intr = True\<rparr>"
  using push_pop_off_nest [of "\<lparr>c_proc = None, c_noff = 0, c_intena = False, c_intr = True\<rparr>" 1 2]
  by (simp add: numeral_3_eq_3 del: push_offs.simps pop_offs.simps)

end
