(* ===== verification/Memlayout.thy ===== *)
theory Memlayout
  imports Prelude
begin

text \<open>
  Limits of \<open>xv6/kernel/param.h\<close>, address constants of \<open>xv6/kernel/memlayout.h\<close> and the page arithmetic of \<open>riscv.h\<close>.
\<close>

section \<open>Limits\<close>

definition NPROC :: nat where [code_unfold]: "NPROC = 64"
definition NCPU :: nat where [code_unfold]: "NCPU = 8"
definition NOFILE :: nat where [code_unfold]: "NOFILE = 16"
definition NFILE :: nat where [code_unfold]: "NFILE = 100"
definition NINODE :: nat where [code_unfold]: "NINODE = 50"
definition NDEV :: nat where [code_unfold]: "NDEV = 10"
definition ROOTDEV :: u32 where [code_unfold]: "ROOTDEV = 1"
definition MAXARG :: nat where [code_unfold]: "MAXARG = 32"
definition MAXOPBLOCKS :: nat where [code_unfold]: "MAXOPBLOCKS = 10"
definition LOGBLOCKS :: nat where [code_unfold]: "LOGBLOCKS = MAXOPBLOCKS * 3"
definition NBUF :: nat where [code_unfold]: "NBUF = MAXOPBLOCKS * 3"
definition FSSIZE :: nat where [code_unfold]: "FSSIZE = 2000"
definition MAXPATH :: nat where [code_unfold]: "MAXPATH = 128"
definition USERSTACK :: nat where [code_unfold]: "USERSTACK = 1"

section \<open>Addresses\<close>

definition PGSIZE :: u64 where "PGSIZE = 4096"

definition MAXVA :: u64 where "MAXVA = push_bit 38 1"

definition PGROUNDUP :: "u64 \<Rightarrow> u64" where
  "PGROUNDUP sz = (sz + PGSIZE - 1) AND NOT (PGSIZE - 1)"

definition PGROUNDDOWN :: "u64 \<Rightarrow> u64" where
  "PGROUNDDOWN a = a AND NOT (PGSIZE - 1)"

definition UART0 :: u64 where "UART0 = 0x10000000"
definition VIRTIO0 :: u64 where "VIRTIO0 = 0x10001000"
definition PLIC :: u64 where "PLIC = 0x0c000000"
definition KERNBASE :: u64 where "KERNBASE = 0x80000000"
definition PHYSTOP :: u64 where "PHYSTOP = KERNBASE + 128 * 1024 * 1024"

definition TRAMPOLINE :: u64 where "TRAMPOLINE = MAXVA - PGSIZE"
definition TRAPFRAME :: u64 where "TRAPFRAME = TRAMPOLINE - PGSIZE"

definition KSTACK :: "nat \<Rightarrow> u64" where
  "KSTACK i = TRAMPOLINE - (of_nat i + 1) * 2 * PGSIZE"

definition page_aligned :: "u64 \<Rightarrow> bool" where
  "page_aligned a \<longleftrightarrow> a mod PGSIZE = 0"

text \<open>Rounding down clears the low twelve bits.\<close>

lemma PGROUNDDOWN_eq: "PGROUNDDOWN a = a - a mod PGSIZE"
proof -
  have mask: "PGSIZE - 1 = mask 12" by (simp add: PGSIZE_def mask_eq_decr_exp)
  have "a mod PGSIZE = take_bit 12 a" by (simp add: PGSIZE_def take_bit_eq_mod)
  then have "a mod PGSIZE = a AND mask 12" by (simp add: take_bit_eq_mask)
  moreover have "a = (a AND NOT (mask 12)) + (a AND mask 12)"
    by (subst disjunctive_add) (auto simp: bit_eq_iff bit_simps)
  ultimately show ?thesis unfolding PGROUNDDOWN_def mask by (metis add_diff_cancel_right')
qed

lemma PGROUNDDOWN_div: "PGROUNDDOWN a = a div PGSIZE * PGSIZE"
  by (simp add: PGROUNDDOWN_eq minus_mod_eq_div_mult)

lemma PGROUNDUP_eq: "PGROUNDUP a = PGROUNDDOWN (a + (PGSIZE - 1))"
  by (simp add: PGROUNDUP_def PGROUNDDOWN_def algebra_simps)

lemma unat_PGROUNDDOWN: "unat (PGROUNDDOWN a) = unat a div 4096 * 4096"
proof -
  have "unat a div 4096 * 4096 \<le> unat a" by simp
  moreover have "unat a < 2 ^ 64" using unsigned_less [of a] by simp
  ultimately have "unat a div 4096 * 4096 < 2 ^ 64" by linarith
  then show ?thesis unfolding PGROUNDDOWN_div by (simp add: PGSIZE_def unat_word_ariths unat_div_distrib)
qed

lemma PGROUNDDOWN_aligned [simp]: "page_aligned (PGROUNDDOWN a)"
proof -
  have "unat (PGROUNDDOWN a mod PGSIZE) = 0" by (simp add: unat_mod_distrib unat_PGROUNDDOWN PGSIZE_def)
  then show ?thesis unfolding unat_eq_0 page_aligned_def .
qed

lemma PGROUNDUP_aligned [simp]: "page_aligned (PGROUNDUP a)"
  by (simp add: PGROUNDUP_eq)

lemma page_aligned_iff: "page_aligned q \<longleftrightarrow> unat q mod 4096 = 0"
proof -
  have "page_aligned q \<longleftrightarrow> unat (q mod PGSIZE) = 0" by (simp add: unat_eq_0 page_aligned_def)
  also have "\<dots> \<longleftrightarrow> unat q mod 4096 = 0" by (simp add: unat_mod_distrib PGSIZE_def)
  finally show ?thesis .
qed

text \<open>Below the top page of the address space, rounding up is the least page boundary that is not less.\<close>

lemma unat_PGROUNDUP:
  assumes "unat a + 4095 < 2 ^ 64"
  shows "unat (PGROUNDUP a) = (unat a + 4095) div 4096 * 4096"
proof -
  have "unat (a + (PGSIZE - 1)) = unat a + 4095" using assms by (simp add: PGSIZE_def unat_word_ariths)
  then show ?thesis by (simp add: PGROUNDUP_eq unat_PGROUNDDOWN)
qed

end
