(* ===== verification/Sched.thy ===== *)
theory Sched
  imports Spinlock Memlayout
begin

text \<open>
  The process table and the schedulers of \<open>xv6/kernel/proc.c\<close>: \<open>struct proc\<close>, the first-come
  scheduler, the multi-level feedback queue and round robin, \<open>sched\<close>, \<open>yield\<close>, \<open>sleep\<close>,
  \<open>wakeup\<close>, \<open>kkill\<close>, the per-tick accounting and the priority boost.

  Every routine that takes \<open>p->lock\<close> for a short window is one atomic step here; the window is
  justified by mutual exclusion of spin locks, and a balanced window leaves the CPU's interrupt
  state as it was. The pass of a scheduler over the table, which takes and leaves the lock of one
  slot after the other, is also one step. On the way to and from \<open>swtch\<close>, where the code holds
  \<open>p->lock\<close> or \<open>wait_lock\<close>, every \<open>acquire\<close> and \<open>release\<close> is written out, with its effect on
  the lock, \<open>noff\<close> and \<open>intena\<close> and with its panics.
\<close>

section \<open>Data\<close>

datatype procstate = UNUSED | USED | SLEEPING | RUNNABLE | RUNNING | ZOMBIE

text \<open>
  Sleep channels are addresses of kernel objects. Distinct objects have distinct addresses, so a
  channel is the object itself: a process, the tick counter, or some other address.
\<close>

datatype chan = ChanProc nat | ChanTicks | ChanAddr u64

text \<open>
  What \<open>swtch\<close> resumes: \<open>forkret\<close>, which \<open>allocproc\<close> stores in \<open>context.ra\<close>, or the point
  after \<open>swtch\<close> in \<open>sched\<close>, whose local variable \<open>intena\<close> lives on the kernel stack. A thread
  that called \<open>sched\<close> from \<open>kexit\<close> would run into \<open>panic("zombie exit")\<close>.
\<close>

datatype thread = Forkret | InSched bool | InExit

text \<open>The locks that are held on the way to a switch: one per table entry, and \<open>wait_lock\<close>.\<close>

datatype klock = ProcLock nat | WaitLock

record proc =
  p_state :: procstate
  p_chan :: "chan option"
  p_killed :: int
  p_xstate :: int
  p_pid :: int
  p_parent :: "nat option"
  p_kstack :: u64
  p_sz :: u64
  p_pagetable :: u64
  p_trapframe :: u64
  p_thread :: thread
  p_ofile :: "nat option list"
  p_cwd :: "nat option"
  p_name :: string
  p_ctime :: u32
  p_etime :: u32
  p_rtime :: u32
  p_first_run :: int
  p_priority :: int
  p_slice_used :: int
  p_queued :: int
  p_enq_time :: u32

record kernel =
  k_proc :: "proc list"
  k_cpus :: "cpu list"
  k_initproc :: "nat option"
  k_nextpid :: int
  k_ticks :: u32
  k_last_boost :: u32
  k_locks :: "klock \<Rightarrow> spinlock"

text \<open>A zero-filled table entry, the state of static data at boot.\<close>

definition zero_proc :: proc where
  "zero_proc = \<lparr>p_state = UNUSED, p_chan = None, p_killed = 0, p_xstate = 0, p_pid = 0,
     p_parent = None, p_kstack = 0, p_sz = 0, p_pagetable = 0, p_trapframe = 0,
     p_thread = Forkret, p_ofile = replicate NOFILE None, p_cwd = None, p_name = [],
     p_ctime = 0, p_etime = 0, p_rtime = 0, p_first_run = 0, p_priority = 0,
     p_slice_used = 0, p_queued = 0, p_enq_time = 0\<rparr>"

definition zero_cpu :: cpu where
  "zero_cpu = \<lparr>c_proc = None, c_noff = 0, c_intena = False, c_intr = False\<rparr>"

definition zero_kernel :: kernel where
  "zero_kernel = \<lparr>k_proc = replicate NPROC zero_proc, k_cpus = replicate NCPU zero_cpu,
     k_initproc = None, k_nextpid = 1, k_ticks = 0, k_last_boost = 0,
     k_locks = (\<lambda>_. initlock)\<rparr>"

definition procinit :: "kernel \<Rightarrow> kernel" where
  "procinit k = k\<lparr>k_proc := map (\<lambda>i. (k_proc k ! i)\<lparr>p_state := UNUSED, p_kstack := KSTACK i\<rparr>) [0..<length (k_proc k)]\<rparr>"

definition upd_proc :: "nat \<Rightarrow> (proc \<Rightarrow> proc) \<Rightarrow> kernel \<Rightarrow> kernel" where
  "upd_proc i f k = k\<lparr>k_proc := (k_proc k)[i := f (k_proc k ! i)]\<rparr>"

definition upd_cpu :: "nat \<Rightarrow> (cpu \<Rightarrow> cpu) \<Rightarrow> kernel \<Rightarrow> kernel" where
  "upd_cpu me f k = k\<lparr>k_cpus := (k_cpus k)[me := f (k_cpus k ! me)]\<rparr>"

definition myproc :: "nat \<Rightarrow> kernel \<Rightarrow> nat option" where
  "myproc me k = c_proc (k_cpus k ! me)"

text \<open>\<open>nextpid\<close> is an \<open>int\<close>: the addition wraps at 32 bits, as the compiled code does.\<close>

definition int32 :: "int \<Rightarrow> int" where
  "int32 n = sint (word_of_int n :: u32)"

definition allocpid :: "kernel \<Rightarrow> int \<times> kernel" where
  "allocpid k = (k_nextpid k, k\<lparr>k_nextpid := int32 (k_nextpid k + 1)\<rparr>)"

text \<open>
  \<open>acquire\<close> and \<open>release\<close> on a lock of the kernel by CPU \<open>me\<close>. Nothing else runs inside a step, so
  a lock that is found taken would be waited for without end; \<open>spin\<close> stands for that outcome.
\<close>

definition acquire_lock :: "nat \<Rightarrow> klock \<Rightarrow> kernel \<Rightarrow> kernel res" where
  "acquire_lock me l k = bind_res (acquire me (k_cpus k ! me) (k_locks k l))
     (\<lambda>r. case r of
        None \<Rightarrow> Panic ''spin''
      | Some (c, lk) \<Rightarrow> Ok (upd_cpu me (\<lambda>_. c) (k\<lparr>k_locks := (k_locks k)(l := lk)\<rparr>)))"

definition release_lock :: "nat \<Rightarrow> klock \<Rightarrow> kernel \<Rightarrow> kernel res" where
  "release_lock me l k = bind_res (release me (k_cpus k ! me) (k_locks k l))
     (\<lambda>(c, lk). Ok (upd_cpu me (\<lambda>_. c) (k\<lparr>k_locks := (k_locks k)(l := lk)\<rparr>)))"

section \<open>The schedulers\<close>

text \<open>What runs on the CPU once \<open>swtch\<close> has entered process \<open>i\<close>: \<open>sched\<close> restores \<open>intena\<close>
  and its caller releases \<open>p->lock\<close>; \<open>forkret\<close> releases it directly; \<open>kexit\<close> panics.\<close>

definition resume :: "nat \<Rightarrow> nat \<Rightarrow> kernel \<Rightarrow> kernel res" where
  "resume me i k =
     (case p_thread (k_proc k ! i) of
        Forkret \<Rightarrow> release_lock me (ProcLock i) k
      | InSched b \<Rightarrow> release_lock me (ProcLock i) (upd_cpu me (\<lambda>c. c\<lparr>c_intena := b\<rparr>) k)
      | InExit \<Rightarrow> Panic ''zombie exit'')"

definition dispatch :: "nat \<Rightarrow> nat \<Rightarrow> kernel \<Rightarrow> kernel res" where
  "dispatch me i k =
     (let k1 = upd_proc i (\<lambda>p. (if p_first_run p < 0 then p\<lparr>p_first_run := sint (k_ticks k)\<rparr> else p)
                 \<lparr>p_state := RUNNING\<rparr>) k
      in resume me i (upd_cpu me (\<lambda>c. c\<lparr>c_proc := Some i\<rparr>) k1))"

text \<open>The scan left the lock of the chosen process taken.\<close>

definition enter :: "nat \<Rightarrow> nat \<Rightarrow> kernel \<Rightarrow> kernel res" where
  "enter me i k = bind_res (acquire_lock me (ProcLock i) k) (dispatch me i)"

text \<open>The scan of the first-come scheduler; \<open>best\<close> is the locked candidate with its slot.\<close>

fun fifo_scan :: "(nat \<times> proc) option \<Rightarrow> nat \<Rightarrow> proc list \<Rightarrow> (nat \<times> proc) option" where
  "fifo_scan best i [] = best"
| "fifo_scan best i (p # ps) =
     (if p_state p = RUNNABLE \<and> (best = None \<or> p_ctime p < p_ctime (snd (the best)))
      then fifo_scan (Some (i, p)) (Suc i) ps
      else fifo_scan best (Suc i) ps)"

definition mlfq_better :: "proc \<Rightarrow> proc \<Rightarrow> bool" where
  "mlfq_better p best \<longleftrightarrow> p_priority p < p_priority best
     \<or> p_priority p = p_priority best \<and> p_enq_time p < p_enq_time best"

text \<open>A runnable process that is not in the queuing network joins the tail of its queue.\<close>

definition mlfq_enqueue :: "u32 \<Rightarrow> proc \<Rightarrow> proc" where
  "mlfq_enqueue t p =
     (if p_state p = RUNNABLE \<and> p_queued p = 0 then p\<lparr>p_enq_time := t, p_queued := 1\<rparr> else p)"

fun mlfq_scan :: "u32 \<Rightarrow> (nat \<times> proc) option \<Rightarrow> nat \<Rightarrow> proc list \<Rightarrow> proc list \<times> (nat \<times> proc) option" where
  "mlfq_scan t best i [] = ([], best)"
| "mlfq_scan t best i (p # ps) =
     (let p1 = mlfq_enqueue t p;
          best1 = (if p_state p1 = RUNNABLE \<and> (best = None \<or> mlfq_better p1 (snd (the best)))
                   then Some (i, p1) else best);
          (ps1, b) = mlfq_scan t best1 (Suc i) ps
      in (p1 # ps1, b))"

text \<open>One round of the loop of each scheduler on CPU \<open>me\<close>. The boolean says whether a process was
  entered; otherwise the CPU executes \<open>wfi\<close>.\<close>

definition scheduler_fifo :: "nat \<Rightarrow> kernel \<Rightarrow> (bool \<times> kernel) res" where
  "scheduler_fifo me k =
     (let k1 = upd_cpu me (\<lambda>c. intr_off (intr_on c)) k in
      case fifo_scan None 0 (k_proc k1) of
        None \<Rightarrow> Ok (False, k1)
      | Some (i, _) \<Rightarrow> bind_res (enter me i k1) (\<lambda>k2. Ok (True, k2)))"

definition scheduler_mlfq :: "nat \<Rightarrow> kernel \<Rightarrow> (bool \<times> kernel) res" where
  "scheduler_mlfq me k =
     (let k1 = upd_cpu me (\<lambda>c. intr_off (intr_on c)) k;
          (ps, best) = mlfq_scan (k_ticks k1) None 0 (k_proc k1);
          k2 = k1\<lparr>k_proc := ps\<rparr> in
      case best of
        None \<Rightarrow> Ok (False, k2)
      | Some (i, _) \<Rightarrow> bind_res (enter me i k2) (\<lambda>k3. Ok (True, k3)))"

text \<open>Round robin continues its pass over the table at slot \<open>i\<close> when a process comes back.\<close>

fun rr_next :: "nat \<Rightarrow> proc list \<Rightarrow> nat option" where
  "rr_next i [] = None"
| "rr_next i (p # ps) = (if p_state p = RUNNABLE then Some i else rr_next (Suc i) ps)"

definition scheduler_rr :: "nat \<Rightarrow> nat \<Rightarrow> kernel \<Rightarrow> (nat option \<times> kernel) res" where
  "scheduler_rr me i k =
     (let k1 = (if i = 0 then upd_cpu me (\<lambda>c. intr_off (intr_on c)) k else k) in
      case rr_next i (drop i (k_proc k1)) of
        None \<Rightarrow> Ok (None, k1)
      | Some j \<Rightarrow> bind_res (enter me j k1) (\<lambda>k2. Ok (Some (Suc j), k2)))"

section \<open>Giving up the CPU\<close>

text \<open>
  \<open>sched\<close>: its checks, the switch, and what the scheduler does when \<open>swtch\<close> comes back to it.
\<close>

definition sched :: "nat \<Rightarrow> nat \<Rightarrow> kernel \<Rightarrow> kernel res" where
  "sched me i k =
     (let c = k_cpus k ! me in
      if \<not> holding me (k_locks k (ProcLock i)) then Panic ''sched p->lock''
      else if c_noff c \<noteq> 1 then Panic ''sched locks''
      else if p_state (k_proc k ! i) = RUNNING then Panic ''sched RUNNING''
      else if intr_get c then Panic ''sched interruptible''
      else release_lock me (ProcLock i)
             (upd_cpu me (\<lambda>c. c\<lparr>c_intena := False, c_proc := None\<rparr>)
               (upd_proc i (\<lambda>p. p\<lparr>p_thread := InSched (c_intena c)\<rparr>) k)))"

definition yield :: "nat \<Rightarrow> kernel \<Rightarrow> kernel res" where
  "yield me k =
     (case myproc me k of
        None \<Rightarrow> Panic ''null''
      | Some i \<Rightarrow> bind_res (acquire_lock me (ProcLock i) k)
          (\<lambda>k1. sched me i (upd_proc i (\<lambda>p. p\<lparr>p_state := RUNNABLE\<rparr>) k1)))"

definition sleep_prepare :: "nat \<Rightarrow> chan option \<Rightarrow> kernel \<Rightarrow> kernel res" where
  "sleep_prepare me ch k =
     (case myproc me k of
        None \<Rightarrow> Panic ''null''
      | Some i \<Rightarrow> if ch = None then Panic ''sleep_prepare: zero chan''
                  else Ok (upd_proc i (\<lambda>p. p\<lparr>p_chan := ch\<rparr>) k))"

definition sleep :: "nat \<Rightarrow> kernel \<Rightarrow> kernel res" where
  "sleep me k =
     (case myproc me k of
        None \<Rightarrow> Panic ''null''
      | Some i \<Rightarrow> bind_res (acquire_lock me (ProcLock i) k)
          (\<lambda>k1. if p_chan (k_proc k1 ! i) \<noteq> None
                then sched me i (upd_proc i (\<lambda>p. p\<lparr>p_state := SLEEPING\<rparr>) k1)
                else release_lock me (ProcLock i) k1))"

definition wake_proc :: "chan option \<Rightarrow> proc \<Rightarrow> proc" where
  "wake_proc ch p =
     (if p_chan p = ch
      then (let p1 = p\<lparr>p_chan := None\<rparr> in if p_state p1 = SLEEPING then p1\<lparr>p_state := RUNNABLE\<rparr> else p1)
      else p)"

definition wakeup :: "chan option \<Rightarrow> kernel \<Rightarrow> kernel" where
  "wakeup ch k = k\<lparr>k_proc := map (wake_proc ch) (k_proc k)\<rparr>"

fun kkill_scan :: "int \<Rightarrow> proc list \<Rightarrow> int \<times> proc list" where
  "kkill_scan pid [] = (- 1, [])"
| "kkill_scan pid (p # ps) =
     (if p_pid p = pid
      then (0, (let p1 = p\<lparr>p_killed := 1\<rparr> in
                if p_state p1 = SLEEPING then p1\<lparr>p_state := RUNNABLE\<rparr> else p1) # ps)
      else (let (r, ps1) = kkill_scan pid ps in (r, p # ps1)))"

definition kkill :: "int \<Rightarrow> kernel \<Rightarrow> int \<times> kernel" where
  "kkill pid k = (let (r, ps) = kkill_scan pid (k_proc k) in (r, k\<lparr>k_proc := ps\<rparr>))"

definition setkilled :: "nat \<Rightarrow> kernel \<Rightarrow> kernel" where
  "setkilled i k = upd_proc i (\<lambda>p. p\<lparr>p_killed := 1\<rparr>) k"

definition killed :: "nat \<Rightarrow> kernel \<Rightarrow> int" where
  "killed i k = p_killed (k_proc k ! i)"

section \<open>Ticks\<close>

definition mlfq_slice :: "int list" where
  "mlfq_slice = [1, 4, 8, 16]"

fun mlfq_higher_runnable :: "int \<Rightarrow> nat \<Rightarrow> nat \<Rightarrow> proc list \<Rightarrow> bool" where
  "mlfq_higher_runnable pri self i [] = False"
| "mlfq_higher_runnable pri self i (q # qs) =
     (if i = self then mlfq_higher_runnable pri self (Suc i) qs
      else if p_state q = RUNNABLE \<and> p_priority q < pri then True
      else mlfq_higher_runnable pri self (Suc i) qs)"

text \<open>The part of \<open>mlfq_tick\<close> under \<open>p->lock\<close>: charge the tick; the boolean is \<open>expired\<close>.\<close>

definition mlfq_charge :: "u32 \<Rightarrow> proc \<Rightarrow> bool \<times> proc" where
  "mlfq_charge t p =
     (let p1 = p\<lparr>p_slice_used := p_slice_used p + 1\<rparr>;
          expired = (p_slice_used p1 \<ge> mlfq_slice ! nat (p_priority p1))
      in if expired
         then (let p2 = (if p_priority p1 < 3 then p1\<lparr>p_priority := p_priority p1 + 1\<rparr> else p1)
               in (True, p2\<lparr>p_slice_used := 0, p_enq_time := t\<rparr>))
         else (False, p1))"

definition mlfq_tick :: "nat \<Rightarrow> kernel \<Rightarrow> kernel res" where
  "mlfq_tick me k =
     (case myproc me k of
        None \<Rightarrow> Ok k
      | Some i \<Rightarrow>
          (let (expired, p) = mlfq_charge (k_ticks k) (k_proc k ! i);
               k1 = upd_proc i (\<lambda>_. p) k
           in if expired \<or> mlfq_higher_runnable (p_priority p) i 0 (k_proc k1)
              then yield me k1 else Ok k1))"

definition boost_proc :: "proc \<Rightarrow> proc" where
  "boost_proc p = (if p_state p \<noteq> UNUSED then p\<lparr>p_priority := 0, p_slice_used := 0\<rparr> else p)"

definition mlfq_boost :: "kernel \<Rightarrow> kernel" where
  "mlfq_boost k = k\<lparr>k_proc := map boost_proc (k_proc k), k_last_boost := k_ticks k\<rparr>"

definition charge_run :: "proc \<Rightarrow> proc" where
  "charge_run p = (if p_state p = RUNNING then p\<lparr>p_rtime := p_rtime p + 1\<rparr> else p)"

definition update_time :: "kernel \<Rightarrow> kernel" where
  "update_time k = k\<lparr>k_proc := map charge_run (k_proc k)\<rparr>"

text \<open>\<open>clockintr\<close> of \<open>trap.c\<close> without the write to the timer compare register. \<open>mlfq\<close> says
  whether the kernel is built with \<open>MLFQ\<close>.\<close>

definition clock_ticks :: "kernel \<Rightarrow> kernel" where
  "clock_ticks k = wakeup (Some ChanTicks) (k\<lparr>k_ticks := k_ticks k + 1\<rparr>)"

definition clockintr :: "bool \<Rightarrow> nat \<Rightarrow> kernel \<Rightarrow> kernel" where
  "clockintr mlfq me k =
     (if me = 0
      then (let k1 = update_time (clock_ticks k) in
            if mlfq \<and> k_ticks k1 mod 48 = 0 then mlfq_boost k1 else k1)
      else k)"

section \<open>Life of a table entry\<close>

text \<open>
  The parts of \<open>allocproc\<close>, \<open>freeproc\<close>, \<open>reparent\<close> and \<open>kexit\<close> that work on the table. The
  memory they allocate and release is modelled with the page allocator.
\<close>

fun find_unused :: "nat \<Rightarrow> proc list \<Rightarrow> nat option" where
  "find_unused i [] = None"
| "find_unused i (p # ps) = (if p_state p = UNUSED then Some i else find_unused (Suc i) ps)"

definition born :: "u32 \<Rightarrow> int \<Rightarrow> proc \<Rightarrow> proc" where
  "born t pid p = p\<lparr>p_pid := pid, p_state := USED, p_ctime := t, p_etime := 0, p_rtime := 0,
     p_first_run := - 1, p_priority := 0, p_slice_used := 0, p_queued := 0, p_enq_time := t\<rparr>"

text \<open>The context a new process starts with.\<close>

definition fresh_context :: "proc \<Rightarrow> proc" where
  "fresh_context p = p\<lparr>p_thread := Forkret\<rparr>"

definition alloc_slot :: "kernel \<Rightarrow> (nat \<times> kernel) option" where
  "alloc_slot k =
     (case find_unused 0 (k_proc k) of
        None \<Rightarrow> None
      | Some j \<Rightarrow> let (pid, k1) = allocpid k in Some (j, upd_proc j (born (k_ticks k1) pid) k1))"

definition free_fields :: "proc \<Rightarrow> proc" where
  "free_fields p = p\<lparr>p_trapframe := 0, p_pagetable := 0, p_sz := 0, p_pid := 0, p_name := [],
     p_chan := None, p_killed := 0, p_xstate := 0, p_state := UNUSED\<rparr>"

fun reparent_loop :: "nat \<Rightarrow> nat list \<Rightarrow> kernel \<Rightarrow> kernel" where
  "reparent_loop i [] k = k"
| "reparent_loop i (j # js) k =
     (if p_parent (k_proc k ! j) = Some i
      then reparent_loop i js (wakeup (map_option ChanProc (k_initproc k))
             (upd_proc j (\<lambda>p. p\<lparr>p_parent := k_initproc k\<rparr>) k))
      else reparent_loop i js k)"

definition reparent :: "nat \<Rightarrow> kernel \<Rightarrow> kernel" where
  "reparent i k = reparent_loop i [0..<length (k_proc k)] k"

text \<open>\<open>kexit\<close> from the point where it takes \<open>wait_lock\<close>. What is left of the thread after \<open>sched\<close>
  is the panic that must not be reached.\<close>

definition exit_tail :: "nat \<Rightarrow> int \<Rightarrow> kernel \<Rightarrow> kernel res" where
  "exit_tail me status k =
     (case myproc me k of
        None \<Rightarrow> Panic ''null''
      | Some i \<Rightarrow> bind_res (acquire_lock me WaitLock k)
          (\<lambda>k0. let k1 = reparent i k0;
                    k2 = wakeup (map_option ChanProc (p_parent (k_proc k1 ! i))) k1
          in bind_res (acquire_lock me (ProcLock i) k2)
          (\<lambda>k3. bind_res (release_lock me WaitLock
              (upd_proc i (\<lambda>p. p\<lparr>p_xstate := status, p_etime := k_ticks k3, p_state := ZOMBIE\<rparr>) k3))
          (\<lambda>k4. bind_res (sched me i k4) (\<lambda>k5. Ok (upd_proc i (\<lambda>p. p\<lparr>p_thread := InExit\<rparr>) k5))))))"

section \<open>Choosing a process\<close>

text \<open>
  Both priority schedulers scan the table once and keep the best candidate so far. The locale
  states what the comparison must satisfy for the scan to find the best candidate in the lowest
  slot; the two comparisons of the code are its instances.
\<close>

fun scan_best :: "('a \<Rightarrow> bool) \<Rightarrow> ('a \<Rightarrow> 'a \<Rightarrow> bool) \<Rightarrow> (nat \<times> 'a) option \<Rightarrow> nat \<Rightarrow> 'a list \<Rightarrow> (nat \<times> 'a) option" where
  "scan_best cand better best i [] = best"
| "scan_best cand better best i (x # xs) =
     (if cand x \<and> (best = None \<or> better x (snd (the best)))
      then scan_best cand better (Some (i, x)) (Suc i) xs
      else scan_best cand better best (Suc i) xs)"

definition chosen :: "('a \<Rightarrow> bool) \<Rightarrow> ('a \<Rightarrow> 'a \<Rightarrow> bool) \<Rightarrow> 'a list \<Rightarrow> nat \<Rightarrow> bool" where
  "chosen cand better xs j \<longleftrightarrow> j < length xs \<and> cand (xs ! j)
     \<and> (\<forall>i < length xs. cand (xs ! i) \<longrightarrow> (if i < j then better (xs ! j) (xs ! i) else \<not> better (xs ! i) (xs ! j)))"

lemma scan_best_append:
  "scan_best cand better best i (xs @ ys)
   = scan_best cand better (scan_best cand better best i xs) (i + length xs) ys"
  by (induction xs arbitrary: best i) auto

locale choice_order =
  fixes better :: "'a \<Rightarrow> 'a \<Rightarrow> bool"
  assumes irrefl: "\<not> better x x"
    and trans: "better x y \<Longrightarrow> better y z \<Longrightarrow> better x z"
    and neg_trans: "better x z \<Longrightarrow> better x y \<or> better y z"
begin

lemma scan_best_spec:
  "case scan_best cand better None 0 xs of
     None \<Rightarrow> \<forall>x \<in> set xs. \<not> cand x
   | Some (j, x) \<Rightarrow> chosen cand better xs j \<and> x = xs ! j"
proof (induction xs rule: rev_induct)
  case (snoc y ys)
  show ?case
  proof (cases "scan_best cand better None 0 ys")
    case None
    with snoc have no: "\<forall>x \<in> set ys. \<not> cand x" by simp
    show ?thesis
    proof (cases "cand y")
      case True
      with no have "chosen cand better (ys @ [y]) (length ys)"
        by (auto simp: chosen_def nth_append irrefl less_Suc_eq)
      with True None show ?thesis by (simp add: scan_best_append)
    next
      case False
      with no None show ?thesis by (simp add: scan_best_append)
    qed
  next
    case (Some b)
    then obtain j where b: "b = (j, ys ! j)" and ch: "chosen cand better ys j" using snoc by (cases b) auto
    then have j: "j < length ys" by (simp add: chosen_def)
    show ?thesis
    proof (cases "cand y \<and> better y (ys ! j)")
      case True
      then have "better y (ys ! i)" if "i < length ys" "cand (ys ! i)" for i
        using ch that neg_trans [of y "ys ! j" "ys ! i"] trans [of y "ys ! j" "ys ! i"]
        by (cases "i < j") (auto simp: chosen_def)
      with True have "chosen cand better (ys @ [y]) (length ys)"
        by (auto simp: chosen_def nth_append irrefl less_Suc_eq)
      with True Some b show ?thesis by (simp add: scan_best_append)
    next
      case False
      with ch j have "chosen cand better (ys @ [y]) j" by (auto simp: chosen_def nth_append less_Suc_eq)
      with False Some b j show ?thesis by (auto simp: scan_best_append nth_append)
    qed
  qed
qed simp

lemma chosen_unique:
  assumes "chosen cand better xs i" "chosen cand better xs j"
  shows "i = j"
proof (rule ccontr)
  assume "i \<noteq> j"
  then consider "i < j" | "j < i" by linarith
  then show False using assms by cases (auto simp: chosen_def dest: spec)
qed

lemma scan_best_Some_iff:
  "(\<exists>x. scan_best cand better None 0 xs = Some (j, x)) \<longleftrightarrow> chosen cand better xs j"
proof -
  note spec = scan_best_spec [where cand = cand and xs = xs]
  show ?thesis
  proof (cases "scan_best cand better None 0 xs")
    case None
    with spec show ?thesis by (auto simp: chosen_def)
  next
    case (Some b)
    then obtain k where "b = (k, xs ! k)" "chosen cand better xs k" using spec by (cases b) auto
    with Some show ?thesis using chosen_unique by auto
  qed
qed

end

interpretation mlfq_order: choice_order mlfq_better
  by unfold_locales (auto simp: mlfq_better_def)

interpretation fifo_order: choice_order "\<lambda>p q. p_ctime p < p_ctime q"
  by unfold_locales auto

lemma fifo_scan_eq: "fifo_scan best i ps = scan_best (\<lambda>p. p_state p = RUNNABLE) (\<lambda>p q. p_ctime p < p_ctime q) best i ps"
  by (induction ps arbitrary: best i) auto

lemma mlfq_scan_eq:
  "mlfq_scan t best i ps
   = (map (mlfq_enqueue t) ps, scan_best (\<lambda>p. p_state p = RUNNABLE) mlfq_better best i (map (mlfq_enqueue t) ps))"
  by (induction ps arbitrary: best i) (auto simp: Let_def)

lemma mlfq_enqueue_state [simp]: "p_state (mlfq_enqueue t p) = p_state p"
  by (simp add: mlfq_enqueue_def)

lemma mlfq_enqueue_priority [simp]: "p_priority (mlfq_enqueue t p) = p_priority p"
  by (simp add: mlfq_enqueue_def)

lemma rr_next_spec:
  "rr_next i ps = Some j \<longleftrightarrow>
     (i \<le> j \<and> j - i < length ps \<and> p_state (ps ! (j - i)) = RUNNABLE
      \<and> (\<forall>m < j - i. p_state (ps ! m) \<noteq> RUNNABLE))"
proof (induction ps arbitrary: i)
  case (Cons p ps)
  show ?case
  proof (cases "p_state p = RUNNABLE")
    case True
    then show ?thesis by (auto simp: nth_Cons' split: if_splits) 
  next
    case False
    with Cons [of "Suc i"] show ?thesis
      by (cases "j - i") (auto simp: less_Suc_eq_0_disj Suc_diff_le diff_Suc split: nat.splits)
  qed
qed simp

section \<open>The effect of a switch\<close>

lemma upd_proc_simps [simp]:
  "k_proc (upd_proc i f k) = (k_proc k)[i := f (k_proc k ! i)]"
  "k_cpus (upd_proc i f k) = k_cpus k"
  "k_ticks (upd_proc i f k) = k_ticks k"
  "k_nextpid (upd_proc i f k) = k_nextpid k"
  "k_initproc (upd_proc i f k) = k_initproc k"
  "k_last_boost (upd_proc i f k) = k_last_boost k"
  "k_locks (upd_proc i f k) = k_locks k"
  "myproc me (upd_proc i f k) = myproc me k"
  by (simp_all add: upd_proc_def myproc_def)

lemma upd_cpu_simps [simp]:
  "k_proc (upd_cpu me f k) = k_proc k"
  "k_cpus (upd_cpu me f k) = (k_cpus k)[me := f (k_cpus k ! me)]"
  "k_ticks (upd_cpu me f k) = k_ticks k"
  "k_nextpid (upd_cpu me f k) = k_nextpid k"
  "k_initproc (upd_cpu me f k) = k_initproc k"
  "k_last_boost (upd_cpu me f k) = k_last_boost k"
  "k_locks (upd_cpu me f k) = k_locks k"
  by (simp_all add: upd_cpu_def)

lemma kernel_eqI:
  assumes "k_proc k = k_proc k'" "k_cpus k = k_cpus k'" "k_ticks k = k_ticks k'"
    "k_nextpid k = k_nextpid k'" "k_initproc k = k_initproc k'" "k_last_boost k = k_last_boost k'"
    "k_locks k = k_locks k'"
  shows "k = (k' :: kernel)"
  using assms by (cases k; cases k') simp

lemma list_update_arg: "x = y \<Longrightarrow> xs[i := x] = xs[i := y]"
  by simp

definition saved_intena :: "bool \<Rightarrow> proc \<Rightarrow> bool" where
  "saved_intena old p = (case p_thread p of Forkret \<Rightarrow> old | InSched b \<Rightarrow> b)"

definition start_proc :: "u32 \<Rightarrow> proc \<Rightarrow> proc" where
  "start_proc t p = (if p_first_run p < 0 then p\<lparr>p_first_run := sint t\<rparr> else p)\<lparr>p_state := RUNNING\<rparr>"

abbreviation held :: "nat \<Rightarrow> spinlock" where
  "held me \<equiv> \<lparr>l_locked = True, l_cpu = Some me\<rparr>"

lemma holding_held [simp]: "holding me (held me)"
  by (simp add: holding_def)

lemma acquire_free:
  assumes "k_locks k l = initlock"
  shows "acquire_lock me l k = Ok ((upd_cpu me push_off k)\<lparr>k_locks := (k_locks k)(l := held me)\<rparr>)"
  using assms by (simp add: acquire_lock_def acquire_def holding_def initlock_def upd_cpu_def Let_def)

lemma release_held:
  assumes "k_locks k l = held me" "pop_off (k_cpus k ! me) = Ok c"
  shows "release_lock me l k = Ok ((upd_cpu me (\<lambda>_. c) k)\<lparr>k_locks := (k_locks k)(l := initlock)\<rparr>)"
  using assms by (simp add: release_lock_def release_def initlock_def upd_cpu_def)

lemma lock_frame:
  "acquire_lock me l k = Ok k' \<Longrightarrow> k_proc k' = k_proc k \<and> k_ticks k' = k_ticks k \<and> k_initproc k' = k_initproc k"
  "release_lock me l k = Ok k' \<Longrightarrow> k_proc k' = k_proc k \<and> k_ticks k' = k_ticks k \<and> k_initproc k' = k_initproc k"
  by (auto simp: acquire_lock_def release_lock_def split: res.splits option.splits prod.splits)

lemma pop_push_off:
  "0 < c_noff c \<Longrightarrow> pop_off (push_off c) = Ok (c\<lparr>c_intr := False\<rparr>)"
  "c_noff c = 0 \<Longrightarrow> pop_off (push_off c) = Ok (c\<lparr>c_intena := c_intr c\<rparr>)"
  by (simp_all add: pop_off_def push_off_def intr_off_def intr_on_def intr_get_def Let_def)

lemma push_off_first:
  "c_noff c = 0 \<Longrightarrow> push_off c = c\<lparr>c_noff := 1, c_intena := c_intr c, c_intr := False\<rparr>"
  by (simp add: push_off_def intr_off_def Let_def)

lemma pop_off_last:
  "c_noff c = 1 \<Longrightarrow> \<not> c_intr c \<Longrightarrow> pop_off c = Ok (c\<lparr>c_noff := 0, c_intr := c_intena c\<rparr>)"
  by (simp add: pop_off_def intr_get_def intr_on_def Let_def)

lemma resume_ok:
  assumes "me < length (k_cpus k)" "k_locks k (ProcLock i) = held me" "c_noff (k_cpus k ! me) = 1"
    and "\<not> c_intr (k_cpus k ! me)" "p_thread (k_proc k ! i) \<noteq> InExit"
  defines "b \<equiv> saved_intena (c_intena (k_cpus k ! me)) (k_proc k ! i)"
  shows "resume me i k = Ok (k\<lparr>k_cpus := (k_cpus k)[me := (k_cpus k ! me)\<lparr>c_noff := 0, c_intena := b, c_intr := b\<rparr>],
    k_locks := (k_locks k)(ProcLock i := initlock)\<rparr>)"
  using assms
  by (cases "p_thread (k_proc k ! i)")
    (auto simp: resume_def release_held pop_off_last saved_intena_def b_def
      intro!: kernel_eqI list_update_arg cpu.equality)

lemma enter_ok:
  assumes "me < length (k_cpus k)" "i < length (k_proc k)" "c_noff (k_cpus k ! me) = 0"
    and "k_locks k (ProcLock i) = initlock" "p_thread (k_proc k ! i) \<noteq> InExit"
  shows "enter me i k = Ok (k\<lparr>
    k_proc := (k_proc k)[i := start_proc (k_ticks k) (k_proc k ! i)],
    k_cpus := (k_cpus k)[me := \<lparr>c_proc = Some i, c_noff = 0,
       c_intena = saved_intena (c_intr (k_cpus k ! me)) (k_proc k ! i),
       c_intr = saved_intena (c_intr (k_cpus k ! me)) (k_proc k ! i)\<rparr>]\<rparr>)"
proof -
  have [simp]: "p_thread (start_proc t p) = p_thread p" for t p by (simp add: start_proc_def)
  have [simp]: "saved_intena b (start_proc t p) = saved_intena b p" for b t p by (simp add: saved_intena_def)
  show ?thesis using assms
    by (auto simp: enter_def acquire_free dispatch_def resume_ok push_off_first Let_def
        start_proc_def [symmetric] fun_upd_idem_iff intro!: kernel_eqI list_update_arg cpu.equality)
qed

lemma sched_held:
  assumes "me < length (k_cpus k)" "i < length (k_proc k)" "k_locks k (ProcLock i) = held me"
    and "c_noff (k_cpus k ! me) = 1" "\<not> c_intr (k_cpus k ! me)" "p_state (k_proc k ! i) \<noteq> RUNNING"
  shows "sched me i k = Ok (k\<lparr>
    k_proc := (k_proc k)[i := (k_proc k ! i)\<lparr>p_thread := InSched (c_intena (k_cpus k ! me))\<rparr>],
    k_cpus := (k_cpus k)[me := \<lparr>c_proc = None, c_noff = 0, c_intena = False, c_intr = False\<rparr>],
    k_locks := (k_locks k)(ProcLock i := initlock)\<rparr>)"
  using assms
  by (auto simp: sched_def release_held pop_off_last intr_get_def Let_def intro!: kernel_eqI list_update_arg cpu.equality)

definition switch_out :: "nat \<Rightarrow> nat \<Rightarrow> (proc \<Rightarrow> proc) \<Rightarrow> kernel \<Rightarrow> kernel res" where
  "switch_out me i f k = bind_res (acquire_lock me (ProcLock i) k) (\<lambda>k1. sched me i (upd_proc i f k1))"

lemma switch_ok:
  assumes "me < length (k_cpus k)" "i < length (k_proc k)" "c_noff (k_cpus k ! me) = 0"
    and "k_locks k (ProcLock i) = initlock" "p_state (f (k_proc k ! i)) \<noteq> RUNNING"
  shows "switch_out me i f k = Ok (k\<lparr>
    k_proc := (k_proc k)[i := (f (k_proc k ! i))\<lparr>p_thread := InSched (c_intr (k_cpus k ! me))\<rparr>],
    k_cpus := (k_cpus k)[me := \<lparr>c_proc = None, c_noff = 0, c_intena = False, c_intr = False\<rparr>]\<rparr>)"
  using assms
  by (auto simp: switch_out_def acquire_free sched_held push_off_first fun_upd_idem_iff intro!: kernel_eqI)

text \<open>\<open>sched\<close> with a further lock held, or without the lock of the process, stops the machine.\<close>

lemma sched_locks:
  "k_locks k (ProcLock i) = held me \<Longrightarrow> c_noff (k_cpus k ! me) \<noteq> 1 \<Longrightarrow> sched me i k = Panic ''sched locks''"
  "k_locks k (ProcLock i) = initlock \<Longrightarrow> sched me i k = Panic ''sched p->lock''"
  by (simp_all add: sched_def holding_def initlock_def)

definition queue_before :: "proc \<Rightarrow> nat \<Rightarrow> proc \<Rightarrow> nat \<Rightarrow> bool" where
  "queue_before p i q j \<longleftrightarrow> p_priority p < p_priority q
     \<or> p_priority p = p_priority q \<and> (p_enq_time p < p_enq_time q \<or> p_enq_time p = p_enq_time q \<and> i \<le> j)"

lemma chosen_mlfq:
  "chosen (\<lambda>p. p_state p = RUNNABLE) mlfq_better ps j \<longleftrightarrow>
     j < length ps \<and> p_state (ps ! j) = RUNNABLE
     \<and> (\<forall>i < length ps. p_state (ps ! i) = RUNNABLE \<longrightarrow> queue_before (ps ! j) j (ps ! i) i)"
proof -
  have "(if i < j then mlfq_better p q else \<not> mlfq_better q p) \<longleftrightarrow> queue_before p j q i" for i p q
    by (auto simp: mlfq_better_def queue_before_def)
  then show ?thesis by (simp add: chosen_def)
qed

section \<open>The invariant of the table\<close>

lemma int32_id: "0 \<le> n \<Longrightarrow> n < 2 ^ 31 \<Longrightarrow> int32 n = n"
  using sint_of_nat32 [of "nat n"] by (simp add: int32_def)

text \<open>What holds of one entry between steps. \<open>np\<close> counts the process ids handed out since boot, plus
  one; it is the next id until \<open>nextpid\<close> wraps, and ids are known only up to then.\<close>

definition mlfq_ok :: "proc \<Rightarrow> bool" where
  "mlfq_ok p \<longleftrightarrow> 0 \<le> p_priority p \<and> p_priority p \<le> 3 \<and> 0 \<le> p_slice_used p
     \<and> p_slice_used p < mlfq_slice ! nat (p_priority p)"

definition proc_ok :: "int \<Rightarrow> proc \<Rightarrow> bool" where
  "proc_ok np p \<longleftrightarrow> mlfq_ok p \<and> (p_state p = SLEEPING \<longrightarrow> p_chan p \<noteq> None)
     \<and> (p_state p = UNUSED \<longrightarrow> p_pid p = 0 \<and> p_parent p = None)
     \<and> (p_thread p = InExit \<longrightarrow> p_state p = ZOMBIE \<or> p_state p = UNUSED)
     \<and> (np \<le> 2 ^ 31 \<longrightarrow> p_state p \<noteq> UNUSED \<longrightarrow> 1 \<le> p_pid p \<and> p_pid p < np)"

definition alive :: "proc \<Rightarrow> bool" where
  "alive p \<longleftrightarrow> p_state p = SLEEPING \<or> p_state p = RUNNABLE \<or> p_state p = RUNNING"

text \<open>CPUs and running processes are in one-to-one correspondence.\<close>

definition cpus_ok :: "kernel \<Rightarrow> bool" where
  "cpus_ok k \<longleftrightarrow> (\<forall>me < NCPU. c_noff (k_cpus k ! me) = 0)
     \<and> (\<forall>me < NCPU. \<forall>i. myproc me k = Some i \<longrightarrow> i < NPROC \<and> p_state (k_proc k ! i) = RUNNING)
     \<and> (\<forall>me < NCPU. \<forall>me' < NCPU. \<forall>i. myproc me k = Some i \<longrightarrow> myproc me' k = Some i \<longrightarrow> me = me')
     \<and> (\<forall>i < NPROC. p_state (k_proc k ! i) = RUNNING \<longrightarrow> (\<exists>me < NCPU. myproc me k = Some i))"

definition pids_ok :: "kernel \<Rightarrow> bool" where
  "pids_ok k \<longleftrightarrow> (\<forall>i < NPROC. \<forall>j < NPROC. p_pid (k_proc k ! i) = p_pid (k_proc k ! j) \<longrightarrow>
     p_pid (k_proc k ! i) \<noteq> 0 \<longrightarrow> i = j)"

text \<open>Parents and \<open>init\<close> are live processes.\<close>

definition tree_ok :: "kernel \<Rightarrow> bool" where
  "tree_ok k \<longleftrightarrow> (\<forall>i < NPROC. \<forall>j. p_parent (k_proc k ! i) = Some j \<longrightarrow> j < NPROC \<and> alive (k_proc k ! j))
     \<and> (\<exists>j < NPROC. k_initproc k = Some j \<and> alive (k_proc k ! j))"

definition table_inv :: "int \<Rightarrow> kernel \<Rightarrow> bool" where
  "table_inv np k \<longleftrightarrow> length (k_proc k) = NPROC \<and> length (k_cpus k) = NCPU \<and> k_locks k = (\<lambda>_. initlock)
     \<and> 1 \<le> np \<and> (np \<le> 2 ^ 31 \<longrightarrow> k_nextpid k = int32 np \<and> pids_ok k)
     \<and> (\<forall>i < NPROC. proc_ok np (k_proc k ! i)) \<and> cpus_ok k \<and> tree_ok k"

text \<open>Changes of one entry that no part of the invariant notices.\<close>

definition harmless :: "int \<Rightarrow> proc \<Rightarrow> proc \<Rightarrow> bool" where
  "harmless np p p' \<longleftrightarrow> p_pid p' = p_pid p \<and> p_parent p' = p_parent p
     \<and> (p_state p' = p_state p \<or> p_state p = SLEEPING \<and> p_state p' = RUNNABLE)
     \<and> (proc_ok np p \<longrightarrow> proc_ok np p')"

lemma harmless_refl [simp]: "harmless np p p"
  by (simp add: harmless_def)

lemma harmless_trans: "harmless np p q \<Longrightarrow> harmless np q r \<Longrightarrow> harmless np p r"
  by (auto simp: harmless_def)

definition harmless_step :: "kernel \<Rightarrow> kernel \<Rightarrow> bool" where
  "harmless_step k k' \<longleftrightarrow> length (k_proc k') = length (k_proc k) \<and> k_cpus k' = k_cpus k
     \<and> k_nextpid k' = k_nextpid k \<and> k_initproc k' = k_initproc k \<and> k_locks k' = k_locks k
     \<and> (\<forall>i < length (k_proc k). \<forall>np. harmless np (k_proc k ! i) (k_proc k' ! i))"

lemma harmless_step_inv:
  assumes inv: "table_inv np k" and h: "harmless_step k k'"
  shows "table_inv np k'"
proof -
  have len: "length (k_proc k) = NPROC" using inv by (simp add: table_inv_def)
  have st: "p_state (k_proc k' ! i) = RUNNING \<longleftrightarrow> p_state (k_proc k ! i) = RUNNING"
    and al: "alive (k_proc k' ! i) \<longleftrightarrow> alive (k_proc k ! i)"
    and pid: "p_pid (k_proc k' ! i) = p_pid (k_proc k ! i)"
    and par: "p_parent (k_proc k' ! i) = p_parent (k_proc k ! i)"
    and ok: "proc_ok np (k_proc k' ! i)" if "i < NPROC" for i
    using that h inv len by (auto simp: harmless_step_def harmless_def alive_def table_inv_def)
  have my: "myproc me k' = myproc me k" for me using h by (simp add: harmless_step_def myproc_def)
  have "cpus_ok k'" using inv h st my by (auto simp: table_inv_def cpus_ok_def harmless_step_def)
  moreover have "pids_ok k'" if "pids_ok k" using that pid by (auto simp: pids_ok_def)
  moreover have "tree_ok k'" using inv h al par by (auto simp: table_inv_def tree_ok_def harmless_step_def)
  ultimately show ?thesis using inv h ok len by (auto simp: table_inv_def harmless_step_def)
qed

lemma harmless_map:
  assumes "\<And>np p. harmless np p (f p)"
  shows "harmless_step k (k\<lparr>k_proc := map f (k_proc k)\<rparr>)"
  using assms by (simp add: harmless_step_def)

lemma harmless_upd:
  assumes "\<And>np. i < length (k_proc k) \<Longrightarrow> harmless np (k_proc k ! i) (f (k_proc k ! i))"
  shows "harmless_step k (upd_proc i f k)"
proof -
  have "harmless np (k_proc k ! j) (k_proc (upd_proc i f k) ! j)" if "j < length (k_proc k)" for j np
    using assms that by (cases "j = i") simp_all
  then show ?thesis by (simp add: harmless_step_def)
qed

lemma wake_harmless: "harmless np p (wake_proc ch p)"
  by (auto simp: harmless_def wake_proc_def proc_ok_def mlfq_ok_def Let_def)

lemma enqueue_harmless: "harmless np p (mlfq_enqueue t p)"
  by (auto simp: harmless_def mlfq_enqueue_def proc_ok_def mlfq_ok_def)

lemma boost_harmless: "harmless np p (boost_proc p)"
  by (auto simp: harmless_def boost_proc_def proc_ok_def mlfq_ok_def mlfq_slice_def)

lemma charge_run_harmless: "harmless np p (charge_run p)"
  by (auto simp: harmless_def charge_run_def proc_ok_def mlfq_ok_def)

lemma mlfq_ok_prio:
  assumes "mlfq_ok p"
  obtains "p_priority p = 0" "p_slice_used p = 0"
  | "p_priority p = 1" "0 \<le> p_slice_used p" "p_slice_used p < 4"
  | "p_priority p = 2" "0 \<le> p_slice_used p" "p_slice_used p < 8"
  | "p_priority p = 3" "0 \<le> p_slice_used p" "p_slice_used p < 16"
proof -
  from assms have "0 \<le> p_priority p" "p_priority p \<le> 3" by (simp_all add: mlfq_ok_def)
  then consider "p_priority p = 0" | "p_priority p = 1" | "p_priority p = 2" | "p_priority p = 3" by linarith
  then show thesis using assms that by cases (auto simp: mlfq_ok_def mlfq_slice_def)
qed

lemma charge_harmless: "harmless np p (snd (mlfq_charge t p))"
proof -
  have "mlfq_ok (snd (mlfq_charge t p))" if "mlfq_ok p"
    using that by (cases rule: mlfq_ok_prio) (auto simp: mlfq_charge_def mlfq_ok_def mlfq_slice_def Let_def)
  then show ?thesis by (auto simp: harmless_def proc_ok_def mlfq_charge_def Let_def)
qed


lemma kkill_scan_harmless:
  "length (snd (kkill_scan pid ps)) = length ps
   \<and> (\<forall>i < length ps. harmless np (ps ! i) (snd (kkill_scan pid ps) ! i))"
proof (induction ps)
  case (Cons p ps)
  have "harmless np p (if p_state p = SLEEPING then p\<lparr>p_killed := 1, p_state := RUNNABLE\<rparr> else p\<lparr>p_killed := 1\<rparr>)"
    by (auto simp: harmless_def proc_ok_def mlfq_ok_def)
  with Cons show ?case by (auto simp: Let_def nth_Cons split: nat.splits prod.splits)
qed simp

lemma wakeup_harmless: "harmless_step k (wakeup ch k)"
  unfolding wakeup_def by (rule harmless_map) (rule wake_harmless)

lemma update_time_harmless: "harmless_step k (update_time k)"
  unfolding update_time_def by (rule harmless_map) (rule charge_run_harmless)

lemma boost_step_harmless: "harmless_step k (mlfq_boost k)"
  using harmless_map [of boost_proc k, OF boost_harmless] by (simp add: harmless_step_def mlfq_boost_def)

lemma clock_ticks_harmless: "harmless_step k (clock_ticks k)"
  using wakeup_harmless [of "k\<lparr>k_ticks := k_ticks k + 1\<rparr>" "Some ChanTicks"]
  by (simp add: harmless_step_def clock_ticks_def)

lemma kkill_harmless: "harmless_step k (snd (kkill pid k))"
  using kkill_scan_harmless [of pid "k_proc k"]
  by (auto simp: kkill_def harmless_step_def split: prod.splits)

lemma setkilled_harmless: "harmless_step k (setkilled i k)"
  unfolding setkilled_def by (rule harmless_upd) (auto simp: harmless_def proc_ok_def mlfq_ok_def)

lemma sleep_prepare_harmless: "sleep_prepare me ch k = Ok k' \<Longrightarrow> harmless_step k k'"
  by (auto simp: sleep_prepare_def split: option.splits if_splits intro!: harmless_upd)
    (auto simp: harmless_def proc_ok_def mlfq_ok_def)

text \<open>Switching: a scheduler enters a runnable process, and a process leaves its CPU.\<close>

lemma table_inv_simps:
  assumes "table_inv np k"
  shows "length (k_proc k) = NPROC" "length (k_cpus k) = NCPU"
    and "\<And>i. i < NPROC \<Longrightarrow> proc_ok np (k_proc k ! i)"
    and "\<And>me. me < NCPU \<Longrightarrow> c_noff (k_cpus k ! me) = 0"
    and "\<And>me i. me < NCPU \<Longrightarrow> myproc me k = Some i \<Longrightarrow> i < NPROC"
    and "\<And>me i. me < NCPU \<Longrightarrow> myproc me k = Some i \<Longrightarrow> p_state (k_proc k ! i) = RUNNING"
    and "\<And>me me' i. me < NCPU \<Longrightarrow> me' < NCPU \<Longrightarrow> myproc me k = Some i \<Longrightarrow> myproc me' k = Some i \<Longrightarrow> me = me'"
    and "\<And>i. i < NPROC \<Longrightarrow> p_state (k_proc k ! i) = RUNNING \<Longrightarrow> \<exists>me < NCPU. myproc me k = Some i"
    and "k_locks k = (\<lambda>_. initlock)"
  using assms by (auto simp: table_inv_def cpus_ok_def)

lemma pids_ok_cong: "k_proc k = k_proc k' \<Longrightarrow> pids_ok k = pids_ok k'"
  by (simp add: pids_ok_def)

lemma tree_ok_cong: "k_proc k = k_proc k' \<Longrightarrow> k_initproc k = k_initproc k' \<Longrightarrow> tree_ok k = tree_ok k'"
  by (simp add: tree_ok_def)

lemma cpus_ok_cong: "k_proc k = k_proc k' \<Longrightarrow> k_cpus k = k_cpus k' \<Longrightarrow> cpus_ok k = cpus_ok k'"
  by (simp add: cpus_ok_def myproc_def)

lemma pids_ok_slot:
  assumes inv: "table_inv np k" and i: "i < NPROC" and np: "np \<le> 2 ^ 31"
    and pid: "p_pid p = 0 \<or> p_pid p = p_pid (k_proc k ! i) \<or> np \<le> p_pid p"
  shows "pids_ok (k\<lparr>k_proc := (k_proc k)[i := p]\<rparr>)"
proof -
  have len: "length (k_proc k) = NPROC" and old: "pids_ok k" using inv np by (simp_all add: table_inv_def)
  have lt: "p_pid (k_proc k ! j) < np" if "j < NPROC" for j
    using inv np that by (cases "p_state (k_proc k ! j) = UNUSED") (auto simp: table_inv_def proc_ok_def)
  have ne: "p_pid p \<noteq> p_pid (k_proc k ! j)" if "j < NPROC" "j \<noteq> i" "p_pid p \<noteq> 0" for j
    using that pid lt [OF that(1)] old i unfolding pids_ok_def by fastforce
  show ?thesis unfolding pids_ok_def
  proof (intro allI impI)
    fix a b assume ab: "a < NPROC" "b < NPROC"
      and eq: "p_pid (k_proc (k\<lparr>k_proc := (k_proc k)[i := p]\<rparr>) ! a) = p_pid (k_proc (k\<lparr>k_proc := (k_proc k)[i := p]\<rparr>) ! b)"
      and nz: "p_pid (k_proc (k\<lparr>k_proc := (k_proc k)[i := p]\<rparr>) ! a) \<noteq> 0"
    consider "a = i" "b = i" | "a = i" "b \<noteq> i" | "a \<noteq> i" "b = i" | "a \<noteq> i" "b \<noteq> i" by blast
    then show "a = b"
    proof cases
      case 2
      then show ?thesis using eq nz ne [of b] ab len by simp
    next
      case 3
      then show ?thesis using eq nz ne [of a] ab len by simp
    next
      case 4
      then show ?thesis using eq nz ab len old by (simp add: pids_ok_def)
    qed simp
  qed
qed

lemma tree_ok_slot:
  assumes inv: "table_inv np k" and i: "i < NPROC"
    and par: "p_parent p = p_parent (k_proc k ! i) \<or> p_parent p = None
      \<or> (\<exists>j. p_parent p = Some j \<and> j < NPROC \<and> j \<noteq> i \<and> alive (k_proc k ! j))"
    and al: "alive (k_proc k ! i) \<Longrightarrow> \<not> alive p \<Longrightarrow>
      (\<forall>j < NPROC. p_parent (k_proc k ! j) \<noteq> Some i) \<and> k_initproc k \<noteq> Some i"
  shows "tree_ok (k\<lparr>k_proc := (k_proc k)[i := p]\<rparr>)"
proof -
  let ?ps = "(k_proc k)[i := p]"
  have len: "length (k_proc k) = NPROC" and old: "tree_ok k" using inv by (simp_all add: table_inv_def)
  have stay: "alive (?ps ! j)" if "j < NPROC" "alive (k_proc k ! j)"
    "(\<exists>m < NPROC. p_parent (k_proc k ! m) = Some j) \<or> k_initproc k = Some j" for j
    using that al len by (cases "j = i") auto
  have "j < NPROC \<and> alive (?ps ! j)" if m: "m < NPROC" "p_parent (?ps ! m) = Some j" for m j
  proof (cases "p_parent (k_proc k ! m) = Some j")
    case True
    with m(1) old have "j < NPROC" "alive (k_proc k ! j)" by (auto simp: tree_ok_def)
    with stay [of j] True m(1) show ?thesis by blast
  next
    case False
    with m len have "m = i" by (cases "m = i") simp_all
    with m False par len show ?thesis by auto
  qed
  moreover obtain j where "j < NPROC" "k_initproc k = Some j" "alive (k_proc k ! j)"
    using old by (auto simp: tree_ok_def)
  ultimately show ?thesis using stay [of j] by (auto simp: tree_ok_def)
qed

lemma proc_ok_mono: "proc_ok np p \<Longrightarrow> np \<le> np' \<Longrightarrow> proc_ok np' p"
  by (auto simp: proc_ok_def)

lemma table_inv_slot:
  assumes inv: "table_inv np k" and i: "i < NPROC" and np: "np \<le> np'" and ok: "proc_ok np' p"
    and pid: "np' \<le> 2 ^ 31 \<Longrightarrow> p_pid p = 0 \<or> p_pid p = p_pid (k_proc k ! i) \<or> np \<le> p_pid p"
    and par: "p_parent p = p_parent (k_proc k ! i) \<or> p_parent p = None
      \<or> (\<exists>j. p_parent p = Some j \<and> j < NPROC \<and> j \<noteq> i \<and> alive (k_proc k ! j))"
    and al: "alive (k_proc k ! i) \<Longrightarrow> \<not> alive p \<Longrightarrow>
      (\<forall>j < NPROC. p_parent (k_proc k ! j) \<noteq> Some i) \<and> k_initproc k \<noteq> Some i"
    and cpus: "length cs = NCPU" "cpus_ok (k\<lparr>k_proc := (k_proc k)[i := p], k_cpus := cs\<rparr>)"
    and nx: "np' \<le> 2 ^ 31 \<Longrightarrow> nx = int32 np'"
  shows "table_inv np' (k\<lparr>k_proc := (k_proc k)[i := p], k_cpus := cs, k_nextpid := nx\<rparr>)"
proof -
  have "proc_ok np' ((k_proc k)[i := p] ! j)" if "j < NPROC" for j
  proof (cases "j = i")
    case False
    have "proc_ok np (k_proc k ! j)" using inv that by (simp add: table_inv_def)
    with np False show ?thesis by (simp add: proc_ok_mono)
  qed (use ok inv i in \<open>simp add: table_inv_def\<close>)
  moreover let ?k = "k\<lparr>k_proc := (k_proc k)[i := p], k_cpus := cs, k_nextpid := nx\<rparr>"
  have "pids_ok ?k" if "np' \<le> 2 ^ 31"
    using pids_ok_slot [OF inv i _ pid [OF that]] np that by (subst pids_ok_cong) simp_all
  moreover have "tree_ok ?k" using tree_ok_slot [OF inv i par al] by (subst tree_ok_cong) simp_all
  moreover have "cpus_ok ?k" using cpus(2) by (subst cpus_ok_cong) simp_all
  moreover have "length (k_proc k) = NPROC" "1 \<le> np'" "k_locks k = (\<lambda>_. initlock)"
    using inv np by (simp_all add: table_inv_def)
  ultimately show ?thesis using cpus(1) nx unfolding table_inv_def by simp
qed

lemma cpus_ok_enter:
  assumes inv: "table_inv np k" and me: "me < NCPU" "myproc me k = None"
    and i: "i < NPROC" "p_state (k_proc k ! i) \<noteq> RUNNING" and p: "p_state p = RUNNING"
    and c: "c_proc c = Some i" "c_noff c = 0"
  shows "cpus_ok (k\<lparr>k_proc := (k_proc k)[i := p], k_cpus := (k_cpus k)[me := c]\<rparr>)"
proof -
  let ?k = "k\<lparr>k_proc := (k_proc k)[i := p], k_cpus := (k_cpus k)[me := c]\<rparr>"
  note facts = table_inv_simps [OF inv]
  have my: "myproc m ?k = (if m = me then Some i else myproc m k)" if "m < NCPU" for m
    using that me c facts(2) by (simp add: myproc_def)
  have st: "p_state (k_proc ?k ! j) = (if j = i then RUNNING else p_state (k_proc k ! j))" if "j < NPROC" for j
    using that i p facts(1) by simp
  have other: "myproc m k \<noteq> Some i" if "m < NCPU" for m using facts(6) [OF that, of i] i(2) by auto
  have noff: "c_noff (k_cpus ?k ! m) = 0" if "m < NCPU" for m
    using that c facts(2,4) by (cases "m = me") simp_all
  show ?thesis unfolding cpus_ok_def
  proof (intro conjI allI impI)
    fix m j assume "m < NCPU" "myproc m ?k = Some j"
    then show "j < NPROC" using my [of m] facts(5) [of m j] i by (auto split: if_splits)
  next
    fix m j assume "m < NCPU" "myproc m ?k = Some j"
    then show "p_state (k_proc ?k ! j) = RUNNING" using my [of m] facts(5,6) [of m j] i st by (auto split: if_splits)
  next
    fix m m' j assume "m < NCPU" "m' < NCPU" "myproc m ?k = Some j" "myproc m' ?k = Some j"
    then show "m = m'" using my [of m] my [of m'] other [of m] other [of m'] facts(7) [of m m' j] by (auto split: if_splits)
  next
    fix j assume j: "j < NPROC" "p_state (k_proc ?k ! j) = RUNNING"
    show "\<exists>m < NCPU. myproc m ?k = Some j"
    proof (cases "j = i")
      case True
      with my [of me] me show ?thesis by auto
    next
      case False
      with j st have "p_state (k_proc k ! j) = RUNNING" by simp
      with facts(8) [OF j(1)] obtain m where "m < NCPU" "myproc m k = Some j" by blast
      with my [of m] me have "m < NCPU \<and> myproc m ?k = Some j" by auto
      then show ?thesis by blast
    qed
  qed (use noff in auto)
qed

lemma cpus_ok_leave:
  assumes inv: "table_inv np k" and me: "me < NCPU" "myproc me k = Some i"
    and p: "p_state p \<noteq> RUNNING" and c: "c_proc c = None" "c_noff c = 0"
  shows "cpus_ok (k\<lparr>k_proc := (k_proc k)[i := p], k_cpus := (k_cpus k)[me := c]\<rparr>)"
proof -
  let ?k = "k\<lparr>k_proc := (k_proc k)[i := p], k_cpus := (k_cpus k)[me := c]\<rparr>"
  note facts = table_inv_simps [OF inv]
  have i: "i < NPROC" using facts(5) me by blast
  have my: "myproc m ?k = (if m = me then None else myproc m k)" if "m < NCPU" for m
    using that me c facts(2) by (simp add: myproc_def)
  have st: "p_state (k_proc ?k ! j) = (if j = i then p_state p else p_state (k_proc k ! j))" if "j < NPROC" for j
    using that i facts(1) by simp
  have noff: "c_noff (k_cpus ?k ! m) = 0" if "m < NCPU" for m
    using that c facts(2,4) by (cases "m = me") simp_all
  show ?thesis unfolding cpus_ok_def
  proof (intro conjI allI impI)
    fix m j assume "m < NCPU" "myproc m ?k = Some j"
    then show "j < NPROC" using my [of m] facts(5) [of m j] by (simp split: if_splits)
  next
    fix m j assume m: "m < NCPU" "myproc m ?k = Some j"
    then have "m \<noteq> me" "myproc m k = Some j" using my [of m] by (simp_all split: if_splits)
    moreover from this have "j \<noteq> i" using facts(7) [of m me j] m me by auto
    ultimately show "p_state (k_proc ?k ! j) = RUNNING" using facts(5,6) m st by simp
  next
    fix m m' j assume "m < NCPU" "m' < NCPU" "myproc m ?k = Some j" "myproc m' ?k = Some j"
    then show "m = m'" using my [of m] my [of m'] facts(7) [of m m' j] by (simp split: if_splits)
  next
    fix j assume j: "j < NPROC" "p_state (k_proc ?k ! j) = RUNNING"
    then have "j \<noteq> i" "p_state (k_proc k ! j) = RUNNING" using st p by (auto split: if_splits)
    with facts(8) [OF j(1)] obtain m where "m < NCPU" "myproc m k = Some j" by blast
    moreover with \<open>j \<noteq> i\<close> me have "m \<noteq> me" by auto
    ultimately show "\<exists>m < NCPU. myproc m ?k = Some j" using my by auto
  qed (use noff in auto)
qed

end
