(* ===== verification/SchedInv.thy ===== *)
theory SchedInv
  imports Sched
begin

text \<open>
  The process table under every interleaving of the kernel's operations on any of its CPUs: a step
  relation over the operations of \<open>Sched\<close>, the invariant of its reachable states, and the
  scheduling, sleep/wakeup and accounting properties.
\<close>

section \<open>Reparenting\<close>

lemma wakeup_simps [simp]:
  "length (k_proc (wakeup ch k)) = length (k_proc k)"
  "k_cpus (wakeup ch k) = k_cpus k" "k_ticks (wakeup ch k) = k_ticks k"
  "k_initproc (wakeup ch k) = k_initproc k" "k_nextpid (wakeup ch k) = k_nextpid k" "k_locks (wakeup ch k) = k_locks k"
  "myproc me (wakeup ch k) = myproc me k"
  by (simp_all add: wakeup_def myproc_def)

lemma wake_proc_parent [simp]: "p_parent (wake_proc ch p) = p_parent p"
  by (simp add: wake_proc_def Let_def)

lemma wakeup_nth: "i < length (k_proc k) \<Longrightarrow> k_proc (wakeup ch k) ! i = wake_proc ch (k_proc k ! i)"
  by (simp add: wakeup_def)

lemma reparent_loop_frame:
  "length (k_proc (reparent_loop i js k)) = length (k_proc k)
   \<and> k_cpus (reparent_loop i js k) = k_cpus k \<and> k_ticks (reparent_loop i js k) = k_ticks k
   \<and> k_initproc (reparent_loop i js k) = k_initproc k \<and> k_nextpid (reparent_loop i js k) = k_nextpid k
   \<and> k_locks (reparent_loop i js k) = k_locks k"
  by (induction i js k rule: reparent_loop.induct) simp_all

lemma reparent_step_inv:
  assumes inv: "table_inv np k" and j: "j < NPROC" and par: "p_parent (k_proc k ! j) = Some i"
  shows "table_inv np (upd_proc j (\<lambda>p. p\<lparr>p_parent := k_initproc k\<rparr>) k)"
proof -
  let ?p = "(k_proc k ! j)\<lparr>p_parent := k_initproc k\<rparr>"
  have ok: "proc_ok np (k_proc k ! j)" using inv j by (simp add: table_inv_def)
  with par have "proc_ok np ?p" by (auto simp: proc_ok_def mlfq_ok_def)
  obtain m where m: "k_initproc k = Some m" "m < NPROC" "alive (k_proc k ! m)"
    using inv by (auto simp: table_inv_def tree_ok_def)
  have len: "length (k_proc k) = NPROC" using inv by (simp add: table_inv_def)
  have st: "p_state ((k_proc k)[j := ?p] ! x) = p_state (k_proc k ! x)"
    "p_pid ((k_proc k)[j := ?p] ! x) = p_pid (k_proc k ! x)"
    "alive ((k_proc k)[j := ?p] ! x) = alive (k_proc k ! x)"
    "proc_ok np ((k_proc k)[j := ?p] ! x)" if "x < NPROC" for x
    using that len \<open>proc_ok np ?p\<close> inv by (cases "x = j"; simp add: alive_def table_inv_def)+
  let ?k = "upd_proc j (\<lambda>p. p\<lparr>p_parent := k_initproc k\<rparr>) k"
  have "cpus_ok ?k" using inv st(1) by (auto simp: table_inv_def cpus_ok_def)
  moreover have "pids_ok ?k" if "pids_ok k" using that st(2) by (simp add: pids_ok_def)
  moreover have "tree_ok ?k" unfolding tree_ok_def
  proof (intro conjI allI impI)
    fix a b assume ab: "a < NPROC" "p_parent (k_proc ?k ! a) = Some b"
    then have "b < NPROC \<and> alive (k_proc k ! b)"
      using inv len m by (cases "a = j") (auto simp: table_inv_def tree_ok_def)
    then show "b < NPROC" "alive (k_proc ?k ! b)" using st(3) by simp_all
  next
    show "\<exists>b < NPROC. k_initproc ?k = Some b \<and> alive (k_proc ?k ! b)" using m st(3) by auto
  qed
  ultimately show ?thesis using inv st(4) by (simp add: table_inv_def)
qed

lemma reparent_loop_inv:
  assumes "table_inv np k" "\<forall>j \<in> set js. j < NPROC"
  shows "table_inv np (reparent_loop i js k)"
  using assms
proof (induction i js k rule: reparent_loop.induct)
  case (2 i j js k)
  have "table_inv np (wakeup ch (upd_proc j (\<lambda>p. p\<lparr>p_parent := k_initproc k\<rparr>) k))"
    if "p_parent (k_proc k ! j) = Some i" for ch
    using reparent_step_inv [of np k j i] 2(3,4) that harmless_step_inv wakeup_harmless by auto
  with 2 show ?case by simp
qed simp

lemma reparent_inv: "table_inv np k \<Longrightarrow> table_inv np (reparent i k)"
  unfolding reparent_def by (rule reparent_loop_inv) (simp_all add: table_inv_def)

text \<open>Afterwards nobody has the exiting process as its parent.\<close>

lemma reparent_loop_parent:
  "x < length (k_proc k) \<Longrightarrow>
   p_parent (k_proc (reparent_loop i js k) ! x)
   = (if x \<in> set js \<and> p_parent (k_proc k ! x) = Some i then k_initproc k else p_parent (k_proc k ! x))"
proof (induction i js k rule: reparent_loop.induct)
  case (2 i j js k)
  let ?k = "wakeup (map_option ChanProc (k_initproc k)) (upd_proc j (\<lambda>p. p\<lparr>p_parent := k_initproc k\<rparr>) k)"
  show ?case
  proof (cases "p_parent (k_proc k ! j) = Some i")
    case True
    have "p_parent (k_proc ?k ! x) = (if x = j then k_initproc k else p_parent (k_proc k ! x))"
      using 2(3) by (simp add: wakeup_nth)
    with 2(1) [OF True] 2(3) True show ?thesis by auto
  next
    case False
    with 2(2) [OF False] 2(3) show ?thesis by auto
  qed
qed simp

lemma reparent_loop_state:
  "x < length (k_proc k) \<Longrightarrow>
   p_state (k_proc (reparent_loop i js k) ! x) = p_state (k_proc k ! x)
   \<or> p_state (k_proc k ! x) = SLEEPING \<and> p_state (k_proc (reparent_loop i js k) ! x) = RUNNABLE"
proof (induction i js k rule: reparent_loop.induct)
  case (2 i j js k)
  let ?k = "wakeup (map_option ChanProc (k_initproc k)) (upd_proc j (\<lambda>p. p\<lparr>p_parent := k_initproc k\<rparr>) k)"
  have "p_state (k_proc ?k ! x) = p_state (k_proc k ! x)
    \<or> p_state (k_proc k ! x) = SLEEPING \<and> p_state (k_proc ?k ! x) = RUNNABLE"
    using 2(3) by (cases "x = j") (auto simp: wakeup_nth wake_proc_def Let_def)
  with 2 show ?case by (cases "p_parent (k_proc k ! j) = Some i") auto
qed simp

lemma reparent_parent:
  "x < length (k_proc k) \<Longrightarrow> p_parent (k_proc (reparent i k) ! x)
     = (if p_parent (k_proc k ! x) = Some i then k_initproc k else p_parent (k_proc k ! x))"
  unfolding reparent_def by (simp add: reparent_loop_parent)

lemma reparent_frame [simp]:
  "length (k_proc (reparent i k)) = length (k_proc k)" "k_cpus (reparent i k) = k_cpus k"
  "k_ticks (reparent i k) = k_ticks k" "k_initproc (reparent i k) = k_initproc k"
  "k_nextpid (reparent i k) = k_nextpid k" "k_locks (reparent i k) = k_locks k" "myproc me (reparent i k) = myproc me k"
  using reparent_loop_frame unfolding reparent_def myproc_def by simp_all

section \<open>Steps\<close>

text \<open>How the kernel is built: with \<open>FIFO\<close>, with \<open>MLFQ\<close> or with neither.\<close>

datatype policy = Fifo | Mlfq | RoundRobin

text \<open>Fields only the owning process uses; system calls such as \<open>exec\<close> and \<open>open\<close> write them.\<close>

definition set_private :: "u64 \<Rightarrow> u64 \<Rightarrow> u64 \<Rightarrow> nat option list \<Rightarrow> nat option \<Rightarrow> string \<Rightarrow> proc \<Rightarrow> proc" where
  "set_private sz pt tf files cwd name p =
     p\<lparr>p_sz := sz, p_pagetable := pt, p_trapframe := tf, p_ofile := files, p_cwd := cwd, p_name := name\<rparr>"

text \<open>
  Each step carries what the properties need to know of it: that slot \<open>i\<close> registered for a channel,
  that the channels of a list were woken, that a process id was handed out, or nothing. \<open>pstep\<close> has
  the steps of processes and schedulers, \<open>kstep\<close> adds the pieces of the clock interrupt of CPU 0.
\<close>

datatype label = Prepare nat | Wake "chan option list" | Born | Other

inductive pstep :: "policy \<Rightarrow> label \<Rightarrow> kernel \<Rightarrow> kernel \<Rightarrow> bool" for pol where
  fifo: "pol = Fifo \<Longrightarrow> me < NCPU \<Longrightarrow> myproc me k = None \<Longrightarrow> scheduler_fifo me k = Ok (b, k') \<Longrightarrow> pstep pol Other k k'"
| mlfq: "pol = Mlfq \<Longrightarrow> me < NCPU \<Longrightarrow> myproc me k = None \<Longrightarrow> scheduler_mlfq me k = Ok (b, k') \<Longrightarrow> pstep pol Other k k'"
| rr: "pol = RoundRobin \<Longrightarrow> me < NCPU \<Longrightarrow> myproc me k = None \<Longrightarrow> scheduler_rr me i k = Ok (r, k') \<Longrightarrow> pstep pol Other k k'"
| yield: "me < NCPU \<Longrightarrow> yield me k = Ok k' \<Longrightarrow> pstep pol Other k k'"
| sleep_prepare: "me < NCPU \<Longrightarrow> myproc me k = Some i \<Longrightarrow> sleep_prepare me ch k = Ok k' \<Longrightarrow> pstep pol (Prepare i) k k'"
| sleep: "me < NCPU \<Longrightarrow> sleep me k = Ok k' \<Longrightarrow> pstep pol Other k k'"
| wakeup: "pstep pol (Wake [ch]) k (wakeup ch k)"
| kkill: "pstep pol Other k (snd (kkill pid k))"
| setkilled: "pstep pol Other k (setkilled i k)"
| tick: "pol = Mlfq \<Longrightarrow> me < NCPU \<Longrightarrow> mlfq_tick me k = Ok k' \<Longrightarrow> pstep pol Other k k'"
| fork: "me < NCPU \<Longrightarrow> myproc me k = Some i \<Longrightarrow> alloc_slot k = Some (j, k1) \<Longrightarrow>
    pstep pol Born k (upd_proc j (\<lambda>p. (set_private sz pt tf files cwd name (fresh_context p))\<lparr>p_parent := Some i, p_state := RUNNABLE\<rparr>) k1)"
| fork_fail: "alloc_slot k = Some (j, k1) \<Longrightarrow> pstep pol Born k (upd_proc j free_fields k1)"
| own: "me < NCPU \<Longrightarrow> myproc me k = Some i \<Longrightarrow>
    pstep pol Other k (upd_proc i (set_private sz pt tf files cwd name) k)"
| exit: "me < NCPU \<Longrightarrow> myproc me k = Some i \<Longrightarrow> k_initproc k \<noteq> Some i \<Longrightarrow> exit_tail me st k = Ok k' \<Longrightarrow>
    pstep pol (Wake [map_option ChanProc (p_parent (k_proc (reparent i k) ! i))]) k k'"
| reap: "me < NCPU \<Longrightarrow> myproc me k = Some i \<Longrightarrow> j < NPROC \<Longrightarrow> p_parent (k_proc k ! j) = Some i \<Longrightarrow>
    p_state (k_proc k ! j) = ZOMBIE \<Longrightarrow> pstep pol Other k (upd_proc j (\<lambda>p. free_fields (p\<lparr>p_parent := None\<rparr>)) k)"

inductive kstep :: "policy \<Rightarrow> label \<Rightarrow> kernel \<Rightarrow> kernel \<Rightarrow> bool" for pol where
  process: "pstep pol l k k' \<Longrightarrow> kstep pol l k k'"
| clock_ticks: "kstep pol (Wake [Some ChanTicks]) k (clock_ticks k)"
| update_time: "kstep pol Other k (update_time k)"
| boost: "pol = Mlfq \<Longrightarrow> kstep pol Other k (mlfq_boost k)"

text \<open>The table after \<open>procinit\<close> and \<open>userinit\<close>.\<close>

definition boot :: "u64 \<Rightarrow> u64 \<Rightarrow> nat option \<Rightarrow> kernel option" where
  "boot pt tf cwd =
     map_option (\<lambda>(j, k). upd_proc j (\<lambda>p. (fresh_context p)\<lparr>p_pagetable := pt, p_trapframe := tf, p_cwd := cwd, p_state := RUNNABLE\<rparr>)
         (k\<lparr>k_initproc := Some j\<rparr>))
       (alloc_slot (procinit zero_kernel))"

inductive kreachable :: "policy \<Rightarrow> kernel \<Rightarrow> bool" for pol where
  start: "boot pt tf cwd = Some k \<Longrightarrow> kreachable pol k"
| step: "kreachable pol k \<Longrightarrow> kstep pol l k k' \<Longrightarrow> kreachable pol k'"

text \<open>Runs with the labels of their steps.\<close>

inductive ktrace :: "policy \<Rightarrow> label list \<Rightarrow> kernel \<Rightarrow> kernel \<Rightarrow> bool" for pol where
  nil: "ktrace pol [] k k"
| cons: "kstep pol l k k' \<Longrightarrow> ktrace pol ls k' k'' \<Longrightarrow> ktrace pol (l # ls) k k''"

section \<open>Every step keeps the invariant\<close>

lemma find_unused_Some:
  "find_unused i ps = Some j \<Longrightarrow> i \<le> j \<and> j - i < length ps \<and> p_state (ps ! (j - i)) = UNUSED
     \<and> (\<forall>m < j - i. p_state (ps ! m) \<noteq> UNUSED)"
proof (induction ps arbitrary: i)
  case (Cons p ps)
  show ?case
  proof (cases "p_state p = UNUSED")
    case False
    with Cons have *: "Suc i \<le> j \<and> j - Suc i < length ps \<and> p_state (ps ! (j - Suc i)) = UNUSED
        \<and> (\<forall>m < j - Suc i. p_state (ps ! m) \<noteq> UNUSED)" by auto
    then obtain d where "j - i = Suc d" "j - Suc i = d" by (cases "j - i") auto
    with * False show ?thesis by (auto simp: less_Suc_eq_0_disj)
  qed (use Cons.prems in auto)
qed simp

lemma alloc_slot_eq:
  assumes "alloc_slot k = Some (j, k1)"
  shows "j < length (k_proc k)" "p_state (k_proc k ! j) = UNUSED"
    and "k1 = k\<lparr>k_proc := (k_proc k)[j := born (k_ticks k) (k_nextpid k) (k_proc k ! j)], k_nextpid := int32 (k_nextpid k + 1)\<rparr>"
  using assms find_unused_Some [of 0 "k_proc k" j]
  by (auto simp: alloc_slot_def allocpid_def upd_proc_def Let_def split: option.splits)

lemma cpus_ok_same:
  assumes inv: "table_inv np k" and i: "i < NPROC"
    and st: "p_state p = RUNNING \<longleftrightarrow> p_state (k_proc k ! i) = RUNNING"
  shows "cpus_ok (k\<lparr>k_proc := (k_proc k)[i := p], k_cpus := k_cpus k\<rparr>)"
proof -
  let ?k = "k\<lparr>k_proc := (k_proc k)[i := p], k_cpus := k_cpus k\<rparr>"
  have st': "p_state (k_proc ?k ! j) = RUNNING \<longleftrightarrow> p_state (k_proc k ! j) = RUNNING" if "j < NPROC" for j
    using that i st inv by (cases "j = i") (simp_all add: table_inv_def)
  have my: "myproc me ?k = myproc me k" for me by (simp add: myproc_def)
  have cs: "k_cpus ?k = k_cpus k" by simp
  have "cpus_ok k" using inv by (simp add: table_inv_def)
  then show ?thesis unfolding cpus_ok_def my cs using st' by auto
qed

text \<open>A slot that holds no live process may be filled by a new process or emptied.\<close>

lemma table_inv_fresh:
  assumes inv: "table_inv np k" and i: "i < NPROC" and dead: "\<not> alive (k_proc k ! i)" and np: "np \<le> np'"
    and ok: "proc_ok np' p" and run: "p_state p \<noteq> RUNNING"
    and pid: "np' \<le> 2 ^ 31 \<Longrightarrow> p_pid p = 0 \<or> np \<le> p_pid p" and nx: "np' \<le> 2 ^ 31 \<Longrightarrow> nx = int32 np'"
    and par: "p_parent p = None \<or> (\<exists>j. p_parent p = Some j \<and> j < NPROC \<and> alive (k_proc k ! j))"
  shows "table_inv np' (k\<lparr>k_proc := (k_proc k)[i := p], k_nextpid := nx\<rparr>)"
proof -
  have par': "p_parent p = p_parent (k_proc k ! i) \<or> p_parent p = None
      \<or> (\<exists>j. p_parent p = Some j \<and> j < NPROC \<and> j \<noteq> i \<and> alive (k_proc k ! j))"
    using par dead by auto
  have "cpus_ok (k\<lparr>k_proc := (k_proc k)[i := p], k_cpus := k_cpus k\<rparr>)"
    using inv i by (rule cpus_ok_same) (use run dead in \<open>auto simp: alive_def\<close>)
  moreover have "p_pid p = 0 \<or> p_pid p = p_pid (k_proc k ! i) \<or> np \<le> p_pid p" if "np' \<le> 2 ^ 31" using pid that by blast
  moreover have "length (k_cpus k) = NCPU" using inv by (simp add: table_inv_def)
  ultimately show ?thesis
    using table_inv_slot [OF inv i np ok _ par' _ \<open>length (k_cpus k) = NCPU\<close> _ nx] dead by simp
qed

lemma table_inv_cpu:
  assumes inv: "table_inv np k" and f: "\<And>c. c_proc (f c) = c_proc c" "\<And>c. c_noff (f c) = c_noff c"
  shows "table_inv np (upd_cpu me f k)"
proof -
  have my: "myproc m (upd_cpu me f k) = myproc m k" for m
    using f by (cases "m = me \<and> me < length (k_cpus k)") (auto simp: myproc_def list_update_beyond not_less)
  have noff: "c_noff (k_cpus (upd_cpu me f k) ! m) = c_noff (k_cpus k ! m)" for m
    using f by (cases "m = me \<and> me < length (k_cpus k)") (auto simp: list_update_beyond not_less)
  have "cpus_ok k" "tree_ok k" using inv by (simp_all add: table_inv_def)
  then have "cpus_ok (upd_cpu me f k)" unfolding cpus_ok_def my noff by simp
  moreover have "pids_ok (upd_cpu me f k) = pids_ok k" by (rule pids_ok_cong) simp
  moreover have "tree_ok (upd_cpu me f k)" using \<open>tree_ok k\<close> by (subst tree_ok_cong) simp_all
  ultimately show ?thesis using inv by (simp add: table_inv_def)
qed

lemma enter_inv:
  assumes inv: "table_inv np k" and me: "me < NCPU" "myproc me k = None"
    and i: "i < NPROC" "p_state (k_proc k ! i) = RUNNABLE" and c: "c_proc c = Some i" "c_noff c = 0"
  shows "table_inv np (k\<lparr>k_proc := (k_proc k)[i := start_proc t (k_proc k ! i)], k_cpus := (k_cpus k)[me := c]\<rparr>)"
proof -
  let ?p = "start_proc t (k_proc k ! i)"
  have "proc_ok np (k_proc k ! i)" using inv i by (simp add: table_inv_def)
  with i have ok: "proc_ok np ?p" by (simp add: proc_ok_def mlfq_ok_def start_proc_def)
  have cok: "cpus_ok (k\<lparr>k_proc := (k_proc k)[i := ?p], k_cpus := (k_cpus k)[me := c]\<rparr>)"
    using inv me i c by (intro cpus_ok_enter) (simp_all add: start_proc_def)
  have "length ((k_cpus k)[me := c]) = NCPU" using inv by (simp add: table_inv_def)
  from table_inv_slot [OF inv i(1) order_refl ok _ _ _ this cok, of "k_nextpid k"] i inv show ?thesis
    by (simp add: start_proc_def alive_def table_inv_def)
qed

lemma leave_inv:
  assumes inv: "table_inv np k" and me: "me < NCPU" "myproc me k = Some i"
    and p: "p_state p \<noteq> RUNNING" "p_pid p = p_pid (k_proc k ! i)" "p_parent p = p_parent (k_proc k ! i)"
    and ok: "proc_ok np p" and c: "c_proc c = None" "c_noff c = 0"
    and al: "\<not> alive p \<Longrightarrow> (\<forall>j < NPROC. p_parent (k_proc k ! j) \<noteq> Some i) \<and> k_initproc k \<noteq> Some i"
  shows "table_inv np (k\<lparr>k_proc := (k_proc k)[i := p], k_cpus := (k_cpus k)[me := c]\<rparr>)"
proof -
  have i: "i < NPROC" using table_inv_simps(5) [OF inv me] .
  have cok: "cpus_ok (k\<lparr>k_proc := (k_proc k)[i := p], k_cpus := (k_cpus k)[me := c]\<rparr>)"
    using inv me p(1) c by (rule cpus_ok_leave)
  have "length ((k_cpus k)[me := c]) = NCPU" using inv by (simp add: table_inv_def)
  moreover have "np \<le> 2 ^ 31 \<Longrightarrow> k_nextpid k = int32 np" using inv by (simp add: table_inv_def)
  ultimately show ?thesis using table_inv_slot [OF inv i order_refl ok _ _ al _ cok, of "k_nextpid k"] p by simp
qed

lemma enter_slot_inv:
  assumes inv: "table_inv np k" and me: "me < NCPU" "myproc me k = None"
    and i: "i < NPROC" "p_state (k_proc k ! i) = RUNNABLE"
  shows "\<exists>k'. enter me i k = Ok k' \<and> table_inv np k' \<and> myproc me k' = Some i
    \<and> k_proc k' = (k_proc k)[i := start_proc (k_ticks k) (k_proc k ! i)]"
proof -
  note facts = table_inv_simps [OF inv]
  let ?b = "saved_intena (c_intr (k_cpus k ! me)) (k_proc k ! i)"
  let ?c = "\<lparr>c_proc = Some i, c_noff = 0, c_intena = ?b, c_intr = ?b\<rparr>"
  have "enter me i k = Ok (k\<lparr>
     k_proc := (k_proc k)[i := start_proc (k_ticks k) (k_proc k ! i)], k_cpus := (k_cpus k)[me := ?c]\<rparr>)"
    using enter_ok [of me k i] facts facts(3) [OF i(1)] me i by (auto simp: proc_ok_def)
  moreover have "table_inv np (k\<lparr>k_proc := (k_proc k)[i := start_proc (k_ticks k) (k_proc k ! i)], k_cpus := (k_cpus k)[me := ?c]\<rparr>)"
    using inv me i by (rule enter_inv) simp_all
  ultimately show ?thesis using facts(2) me(1) by (simp add: myproc_def)
qed

lemma switch_inv:
  assumes inv: "table_inv np k" and me: "me < NCPU" "myproc me k = Some i"
    and f: "p_state (f (k_proc k ! i)) \<noteq> RUNNING" "p_pid (f (k_proc k ! i)) = p_pid (k_proc k ! i)"
      "p_parent (f (k_proc k ! i)) = p_parent (k_proc k ! i)"
    and ok: "proc_ok np (f (k_proc k ! i))"
    and al: "\<not> alive (f (k_proc k ! i)) \<Longrightarrow> (\<forall>j < NPROC. p_parent (k_proc k ! j) \<noteq> Some i) \<and> k_initproc k \<noteq> Some i"
  shows "\<exists>k'. switch_out me i f k = Ok k' \<and> table_inv np k'
    \<and> k_proc k' = (k_proc k)[i := (f (k_proc k ! i))\<lparr>p_thread := InSched (c_intr (k_cpus k ! me))\<rparr>]
    \<and> myproc me k' = None \<and> k_ticks k' = k_ticks k"
proof -
  note facts = table_inv_simps [OF inv]
  let ?p = "(f (k_proc k ! i))\<lparr>p_thread := InSched (c_intr (k_cpus k ! me))\<rparr>"
  let ?c = "\<lparr>c_proc = None, c_noff = 0, c_intena = False, c_intr = False\<rparr>"
  have "switch_out me i f k
      = Ok (k\<lparr>k_proc := (k_proc k)[i := ?p], k_cpus := (k_cpus k)[me := ?c]\<rparr>)"
    using facts(1,2,4,9) facts(5) [OF me] me(1) f(1) by (intro switch_ok) simp_all
  moreover have "proc_ok np ?p" using ok by (simp add: proc_ok_def mlfq_ok_def)
  then have "table_inv np (k\<lparr>k_proc := (k_proc k)[i := ?p], k_cpus := (k_cpus k)[me := ?c]\<rparr>)"
    using inv me f al by (intro leave_inv) (simp_all add: alive_def)
  ultimately show ?thesis using facts(2) me(1) by (simp add: myproc_def)
qed

lemma intr_cycle_inv: "table_inv np k \<Longrightarrow> table_inv np (upd_cpu me (\<lambda>c. intr_off (intr_on c)) k)"
  by (rule table_inv_cpu) (simp_all add: intr_off_def intr_on_def)

lemma intr_cycle_myproc: "myproc me (upd_cpu m (\<lambda>c. intr_off (intr_on c)) k) = myproc me k"
  by (cases "m = me"; cases "m < length (k_cpus k)")
    (auto simp: myproc_def intr_off_def intr_on_def list_update_beyond not_less)

lemma scheduler_fifo_inv:
  assumes inv: "table_inv np k" and me: "me < NCPU" "myproc me k = None" and run: "scheduler_fifo me k = Ok (b, k')"
  shows "table_inv np k'"
proof -
  let ?k = "upd_cpu me (\<lambda>c. intr_off (intr_on c)) k"
  have inv': "table_inv np ?k" using inv by (rule intr_cycle_inv)
  show ?thesis
  proof (cases "fifo_scan None 0 (k_proc k)")
    case None
    with run inv' show ?thesis by (simp add: scheduler_fifo_def)
  next
    case (Some b')
    then obtain i p where b': "b' = (i, p)" and ch: "chosen (\<lambda>p. p_state p = RUNNABLE) (\<lambda>p q. p_ctime p < p_ctime q) (k_proc k) i"
      using fifo_order.scan_best_spec [of "k_proc k" "\<lambda>p. p_state p = RUNNABLE"]
      by (cases b') (auto simp: fifo_scan_eq)
    then obtain k2 where "enter me i ?k = Ok k2" "table_inv np k2"
      using enter_slot_inv [OF inv' me(1), of i] me inv by (auto simp: chosen_def table_inv_def intr_cycle_myproc)
    with Some b' run show ?thesis by (simp add: scheduler_fifo_def)
  qed
qed

lemma scan_table_inv:
  assumes inv: "table_inv np k"
  shows "table_inv np (k\<lparr>k_proc := map (mlfq_enqueue t) (k_proc k)\<rparr>)"
  using inv harmless_map [OF enqueue_harmless] by (rule harmless_step_inv)

lemma scheduler_mlfq_inv:
  assumes inv: "table_inv np k" and me: "me < NCPU" "myproc me k = None" and run: "scheduler_mlfq me k = Ok (b, k')"
  shows "table_inv np k'"
proof -
  let ?ps = "map (mlfq_enqueue (k_ticks k)) (k_proc k)"
  let ?k1 = "upd_cpu me (\<lambda>c. intr_off (intr_on c)) k"
  let ?k = "?k1\<lparr>k_proc := ?ps\<rparr>"
  have inv': "table_inv np ?k" using scan_table_inv [OF intr_cycle_inv [OF inv], of "k_ticks k" me] by simp
  have my: "myproc me ?k = None" using me intr_cycle_myproc [of me me k] by (simp add: myproc_def)
  show ?thesis
  proof (cases "scan_best (\<lambda>p. p_state p = RUNNABLE) mlfq_better None 0 ?ps")
    case None
    with run inv' show ?thesis by (simp add: scheduler_mlfq_def mlfq_scan_eq Let_def)
  next
    case (Some b')
    then obtain i where b': "b' = (i, ?ps ! i)" and ch: "chosen (\<lambda>p. p_state p = RUNNABLE) mlfq_better ?ps i"
      using mlfq_order.scan_best_spec [of ?ps "\<lambda>p. p_state p = RUNNABLE"] by (cases b') auto
    then have "i < NPROC" "p_state (k_proc ?k ! i) = RUNNABLE" using inv by (auto simp: chosen_def table_inv_def)
    then obtain k2 where "enter me i ?k = Ok k2" "table_inv np k2"
      using enter_slot_inv [OF inv' me(1) my] by blast
    with Some b' run show ?thesis by (simp add: scheduler_mlfq_def mlfq_scan_eq Let_def)
  qed
qed

lemma scheduler_rr_inv:
  assumes inv: "table_inv np k" and me: "me < NCPU" "myproc me k = None"
    and run: "scheduler_rr me i k = Ok (b, k')"
  shows "table_inv np k'"
proof -
  let ?k = "if i = 0 then upd_cpu me (\<lambda>c. intr_off (intr_on c)) k else k"
  have inv': "table_inv np ?k" using inv intr_cycle_inv by simp
  have cyc: "myproc me ?k = None" "k_proc ?k = k_proc k" using me by (simp_all add: intr_cycle_myproc)
  show ?thesis
  proof (cases "rr_next i (drop i (k_proc k))")
    case None
    with run inv' cyc(2) show ?thesis by (simp add: scheduler_rr_def Let_def)
  next
    case (Some j)
    then have "i \<le> j" "j - i < length (drop i (k_proc k))" "p_state (drop i (k_proc k) ! (j - i)) = RUNNABLE"
      by (simp_all add: rr_next_spec)
    then have "j < NPROC" "p_state (k_proc ?k ! j) = RUNNABLE" using inv cyc(2) by (auto simp: table_inv_def)
    then obtain k2 where "enter me j ?k = Ok k2" "table_inv np k2"
      using enter_slot_inv [OF inv' me(1) cyc(1)] by blast
    with Some run cyc(2) show ?thesis by (simp add: scheduler_rr_def Let_def)
  qed
qed

lemma running_ok:
  assumes inv: "table_inv np k" and me: "me < NCPU" "myproc me k = Some i"
  shows "i < NPROC" "p_state (k_proc k ! i) = RUNNING" "proc_ok np (k_proc k ! i)"
  using table_inv_simps(3,5,6) [OF inv] me by blast+

lemma yield_inv:
  assumes inv: "table_inv np k" and me: "me < NCPU" "myproc me k = Some i"
  shows "\<exists>k'. yield me k = Ok k' \<and> table_inv np k' \<and> myproc me k' = None
    \<and> k_proc k' = (k_proc k)[i := (k_proc k ! i)\<lparr>p_state := RUNNABLE, p_thread := InSched (c_intr (k_cpus k ! me))\<rparr>]"
  using switch_inv [OF inv me, of "\<lambda>p. p\<lparr>p_state := RUNNABLE\<rparr>"] running_ok [OF inv me] me
  by (auto simp: yield_def switch_out_def [symmetric] proc_ok_def mlfq_ok_def alive_def)

lemma sleep_eq:
  assumes "table_inv np k" "me < NCPU" "myproc me k = Some i"
  shows "sleep me k = (if p_chan (k_proc k ! i) \<noteq> None then switch_out me i (\<lambda>p. p\<lparr>p_state := SLEEPING\<rparr>) k
    else Ok (upd_cpu me (\<lambda>c. c\<lparr>c_intena := c_intr c\<rparr>) k))"
  using assms table_inv_simps(2,4,9) [OF assms(1)]
  by (auto simp: sleep_def switch_out_def acquire_free release_held pop_push_off upd_cpu_def intro!: kernel_eqI)

lemma sleep_inv:
  assumes inv: "table_inv np k" and me: "me < NCPU" "myproc me k = Some i"
  shows "\<exists>k'. sleep me k = Ok k' \<and> table_inv np k'
    \<and> (if p_chan (k_proc k ! i) = None then k_proc k' = k_proc k \<and> myproc me k' = Some i
       else myproc me k' = None \<and> k_proc k'
         = (k_proc k)[i := (k_proc k ! i)\<lparr>p_state := SLEEPING, p_thread := InSched (c_intr (k_cpus k ! me))\<rparr>])"
proof (cases "p_chan (k_proc k ! i) = None")
  case True
  have "table_inv np (upd_cpu me (\<lambda>c. c\<lparr>c_intena := c_intr c\<rparr>) k)" using inv by (rule table_inv_cpu) simp_all
  with True sleep_eq [OF assms] me table_inv_simps(2) [OF inv] show ?thesis by (simp add: myproc_def)
next
  case False
  with switch_inv [OF inv me, of "\<lambda>p. p\<lparr>p_state := SLEEPING\<rparr>"] running_ok [OF inv me] sleep_eq [OF assms]
  show ?thesis by (auto simp: proc_ok_def mlfq_ok_def alive_def)
qed

lemma mlfq_tick_inv:
  assumes inv: "table_inv np k" and me: "me < NCPU"
  shows "\<exists>k'. mlfq_tick me k = Ok k' \<and> table_inv np k'"
proof (cases "myproc me k")
  case None
  with inv show ?thesis by (simp add: mlfq_tick_def)
next
  case (Some i)
  let ?p = "snd (mlfq_charge (k_ticks k) (k_proc k ! i))"
  let ?k = "upd_proc i (\<lambda>_. ?p) k"
  have inv': "table_inv np ?k"
    by (rule harmless_step_inv [OF inv harmless_upd]) (rule charge_harmless)
  from yield_inv [OF inv' me, of i] Some obtain k' where "yield me ?k = Ok k'" "table_inv np k'" by auto
  with Some inv' show ?thesis by (auto simp: mlfq_tick_def Let_def split: prod.splits)
qed

text \<open>The id counter while it has not wrapped.\<close>

lemma next_id:
  assumes "table_inv np k" "np + 1 \<le> 2 ^ 31"
  shows "k_nextpid k = np" "int32 (k_nextpid k + 1) = int32 (np + 1)" "1 \<le> np"
  using assms int32_id [of np] by (simp_all add: table_inv_def)

lemma fork_inv:
  assumes inv: "table_inv np k" and me: "me < NCPU" "myproc me k = Some i" and al: "alloc_slot k = Some (j, k1)"
  shows "table_inv (np + 1)
    (upd_proc j (\<lambda>p. (set_private sz pt tf files cwd name (fresh_context p))\<lparr>p_parent := Some i, p_state := RUNNABLE\<rparr>) k1)"
proof -
  note j = alloc_slot_eq [OF al] and i = running_ok [OF inv me] and np = next_id [OF inv]
  have len: "length (k_proc k) = NPROC" using inv by (simp add: table_inv_def)
  let ?p = "(set_private sz pt tf files cwd name (fresh_context (born (k_ticks k) (k_nextpid k) (k_proc k ! j))))
    \<lparr>p_parent := Some i, p_state := RUNNABLE\<rparr>"
  have "proc_ok (np + 1) ?p" using np
    by (auto simp: set_private_def fresh_context_def born_def proc_ok_def mlfq_ok_def mlfq_slice_def)
  then have "table_inv (np + 1) (k\<lparr>k_proc := (k_proc k)[j := ?p], k_nextpid := int32 (k_nextpid k + 1)\<rparr>)"
    using j i len np by (intro table_inv_fresh [OF inv])
      (auto simp: set_private_def fresh_context_def born_def alive_def)
  then show ?thesis using j len by (auto elim!: back_subst [where P = "table_inv (np + 1)"] intro!: kernel_eqI)
qed

lemma fork_fail_inv:
  assumes inv: "table_inv np k" and al: "alloc_slot k = Some (j, k1)"
  shows "table_inv (np + 1) (upd_proc j free_fields k1)"
proof -
  note j = alloc_slot_eq [OF al] and np = next_id [OF inv]
  have len: "length (k_proc k) = NPROC" using inv by (simp add: table_inv_def)
  then have "proc_ok np (k_proc k ! j)" using inv j by (simp add: table_inv_def)
  then have par: "p_parent (k_proc k ! j) = None" using j by (simp add: proc_ok_def)
  let ?p = "free_fields (born (k_ticks k) (k_nextpid k) (k_proc k ! j))"
  have "proc_ok (np + 1) ?p" using par
    by (auto simp: free_fields_def born_def proc_ok_def mlfq_ok_def mlfq_slice_def)
  then have "table_inv (np + 1) (k\<lparr>k_proc := (k_proc k)[j := ?p], k_nextpid := int32 (k_nextpid k + 1)\<rparr>)"
    using j len par np by (intro table_inv_fresh [OF inv]) (auto simp: free_fields_def born_def alive_def)
  then show ?thesis using j len by (auto elim!: back_subst [where P = "table_inv (np + 1)"] intro!: kernel_eqI)
qed

lemma reap_inv:
  assumes inv: "table_inv np k" and j: "j < NPROC" "p_state (k_proc k ! j) = ZOMBIE"
  shows "table_inv np (upd_proc j (\<lambda>p. free_fields (p\<lparr>p_parent := None\<rparr>)) k)"
proof -
  have "proc_ok np (k_proc k ! j)" using inv j by (simp add: table_inv_def)
  then have "proc_ok np (free_fields ((k_proc k ! j)\<lparr>p_parent := None\<rparr>))"
    by (auto simp: free_fields_def proc_ok_def mlfq_ok_def)
  then have "table_inv np (k\<lparr>k_proc := (k_proc k)[j := free_fields ((k_proc k ! j)\<lparr>p_parent := None\<rparr>)], k_nextpid := k_nextpid k\<rparr>)"
    using inv j by (intro table_inv_fresh [OF inv j(1)]) (auto simp: free_fields_def alive_def table_inv_def)
  then show ?thesis by (simp add: upd_proc_def)
qed

lemma own_inv:
  assumes "table_inv np k"
  shows "table_inv np (upd_proc i (set_private sz pt tf files cwd name) k)"
  using assms by (rule harmless_step_inv [OF _ harmless_upd])
    (auto simp: harmless_def set_private_def proc_ok_def mlfq_ok_def)

text \<open>The locks held during an exit do not matter to the work on the table.\<close>

lemma wakeup_locked: "wakeup ch (k\<lparr>k_cpus := cs, k_locks := ls\<rparr>) = (wakeup ch k)\<lparr>k_cpus := cs, k_locks := ls\<rparr>"
  by (rule kernel_eqI) (simp_all add: wakeup_def)

lemma upd_proc_locked: "upd_proc j f (k\<lparr>k_cpus := cs, k_locks := ls\<rparr>) = (upd_proc j f k)\<lparr>k_cpus := cs, k_locks := ls\<rparr>"
  by (rule kernel_eqI) simp_all

lemma reparent_locked:
  "reparent i (k\<lparr>k_cpus := cs, k_locks := ls\<rparr>) = (reparent i k)\<lparr>k_cpus := cs, k_locks := ls\<rparr>"
proof -
  have "reparent_loop i js (k\<lparr>k_cpus := cs, k_locks := ls\<rparr>) = (reparent_loop i js k)\<lparr>k_cpus := cs, k_locks := ls\<rparr>" for js
    by (induction i js k rule: reparent_loop.induct) (simp_all add: wakeup_locked upd_proc_locked)
  then show ?thesis by (simp add: reparent_def)
qed

definition last_words :: "nat \<Rightarrow> kernel \<Rightarrow> kernel" where
  "last_words i k = wakeup (map_option ChanProc (p_parent (k_proc (reparent i k) ! i))) (reparent i k)"

lemma last_words_frame [simp]:
  "length (k_proc (last_words i k)) = length (k_proc k)" "k_cpus (last_words i k) = k_cpus k"
  "k_ticks (last_words i k) = k_ticks k" "k_initproc (last_words i k) = k_initproc k"
  "k_locks (last_words i k) = k_locks k" "myproc me (last_words i k) = myproc me k"
  by (simp_all add: last_words_def)

lemma push_off_second: "push_off (push_off c) = (push_off c)\<lparr>c_noff := c_noff (push_off c) + 1\<rparr>" if "c_noff c = 0"
  using that by (simp add: push_off_def intr_off_def Let_def)

lemma exit_tail_ok:
  assumes my: "myproc me k = Some i" and "me < length (k_cpus k)" "i < length (k_proc k)"
    and "c_noff (k_cpus k ! me) = 0" and "k_locks k = (\<lambda>_. initlock)"
  shows "exit_tail me st k = Ok ((last_words i k)\<lparr>
    k_proc := (k_proc (last_words i k))[i := (k_proc (last_words i k) ! i)
      \<lparr>p_xstate := st, p_etime := k_ticks k, p_state := ZOMBIE, p_thread := InExit\<rparr>],
    k_cpus := (k_cpus k)[me := \<lparr>c_proc = None, c_noff = 0, c_intena = False, c_intr = False\<rparr>]\<rparr>)"
proof -
  let ?k2 = "last_words i k" and ?c = "k_cpus k ! me"
  let ?f = "\<lambda>p. p\<lparr>p_xstate := st, p_etime := k_ticks k, p_state := ZOMBIE\<rparr>"
  let ?cs1 = "(k_cpus k)[me := push_off ?c]" and ?ls1 = "(k_locks k)(WaitLock := held me)"
  have a: "acquire_lock me WaitLock k = Ok (k\<lparr>k_cpus := ?cs1, k_locks := ?ls1\<rparr>)"
    using assms by (simp add: acquire_free upd_cpu_def)
  have w: "wakeup (map_option ChanProc (p_parent (k_proc (reparent i (k\<lparr>k_cpus := ?cs1, k_locks := ?ls1\<rparr>)) ! i)))
      (reparent i (k\<lparr>k_cpus := ?cs1, k_locks := ?ls1\<rparr>)) = ?k2\<lparr>k_cpus := ?cs1, k_locks := ?ls1\<rparr>"
    by (simp add: reparent_locked wakeup_locked last_words_def)
  have b: "acquire_lock me (ProcLock i) (?k2\<lparr>k_cpus := ?cs1, k_locks := ?ls1\<rparr>)
      = Ok (?k2\<lparr>k_cpus := (k_cpus k)[me := push_off (push_off ?c)], k_locks := ?ls1(ProcLock i := held me)\<rparr>)"
    using assms by (simp add: acquire_free upd_cpu_def)
  have c: "release_lock me WaitLock
      (upd_proc i ?f (?k2\<lparr>k_cpus := (k_cpus k)[me := push_off (push_off ?c)], k_locks := ?ls1(ProcLock i := held me)\<rparr>))
    = Ok (upd_proc i ?f (?k2\<lparr>k_cpus := ?cs1, k_locks := (k_locks k)(ProcLock i := held me)\<rparr>))"
    using assms pop_push_off(1) [of "push_off ?c"]
    by (subst release_held) (auto simp: upd_cpu_def push_off_first intro!: kernel_eqI list_update_arg cpu.equality)
  have d: "sched me i (upd_proc i ?f (?k2\<lparr>k_cpus := ?cs1, k_locks := (k_locks k)(ProcLock i := held me)\<rparr>))
    = Ok (?k2\<lparr>k_proc := (k_proc ?k2)[i := (?f (k_proc ?k2 ! i))\<lparr>p_thread := InSched (c_intr ?c)\<rparr>],
        k_cpus := (k_cpus k)[me := \<lparr>c_proc = None, c_noff = 0, c_intena = False, c_intr = False\<rparr>]\<rparr>)"
    using assms by (subst sched_held) (auto simp: push_off_first fun_upd_idem_iff intro!: kernel_eqI)
  show ?thesis using my a w b c d assms(3)
    by (auto simp: exit_tail_def Let_def intro!: kernel_eqI)
qed

lemma exit_inv:
  assumes inv: "table_inv np k" and me: "me < NCPU" "myproc me k = Some i" and init: "k_initproc k \<noteq> Some i"
  shows "\<exists>k'. exit_tail me st k = Ok k' \<and> table_inv np k' \<and> p_state (k_proc k' ! i) = ZOMBIE
    \<and> p_xstate (k_proc k' ! i) = st \<and> p_etime (k_proc k' ! i) = k_ticks k \<and> myproc me k' = None
    \<and> (\<forall>j < NPROC. p_parent (k_proc k' ! j) \<noteq> Some i)"
proof -
  let ?k2 = "last_words i k"
  let ?p = "(k_proc ?k2 ! i)\<lparr>p_xstate := st, p_etime := k_ticks k, p_state := ZOMBIE, p_thread := InExit\<rparr>"
  let ?c = "\<lparr>c_proc = None, c_noff = 0, c_intena = False, c_intr = False\<rparr>"
  let ?k' = "?k2\<lparr>k_proc := (k_proc ?k2)[i := ?p], k_cpus := (k_cpus k)[me := ?c]\<rparr>"
  note facts = table_inv_simps [OF inv]
  have inv2: "table_inv np ?k2" unfolding last_words_def
    using reparent_inv [OF inv] wakeup_harmless by (rule harmless_step_inv)
  have my: "myproc me ?k2 = Some i" using me by simp
  have no: "p_parent (k_proc ?k2 ! j) \<noteq> Some i" if "j < NPROC" for j
    using that init facts(1) by (simp add: last_words_def wakeup_nth reparent_parent)
  note i = running_ok [OF inv2 me(1) my]
  have "exit_tail me st k = Ok ?k'" using me facts i(1) by (intro exit_tail_ok) simp_all
  moreover have "proc_ok np ?p" using i by (auto simp: proc_ok_def mlfq_ok_def)
  then have "table_inv np ?k'" using leave_inv [OF inv2 me(1) my, of ?p ?c] no init by simp
  moreover have "p_parent (k_proc ?k' ! j) \<noteq> Some i" if "j < NPROC" for j
    using no [OF that] i(1) facts(1) that by (cases "j = i") simp_all
  ultimately show ?thesis using i(1) facts(1,2) me(1) by (auto simp: myproc_def)
qed

text \<open>How many process ids a run hands out.\<close>

definition births :: "label list \<Rightarrow> int" where
  "births ls = int (count_list ls Born)"

lemma births_simps [simp]: "births [] = 0" "births [Born] = 1" "births [Other] = 0" "births [Wake chs] = 0" "births [Prepare i] = 0"
  by (simp_all add: births_def)

lemma births_Cons: "births (l # ls) = births [l] + births ls"
  by (simp add: births_def)

lemma births_nonneg: "0 \<le> births ls"
  by (simp add: births_def)

lemma pstep_inv:
  assumes "pstep pol l k k'" "table_inv np k"
  shows "table_inv (np + births [l]) k'"
  using assms
proof (cases rule: pstep.cases)
  case (fifo me b)
  with assms(2) show ?thesis using scheduler_fifo_inv by auto
next
  case (mlfq me b)
  with assms(2) show ?thesis using scheduler_mlfq_inv by auto
next
  case (rr me i r)
  with assms(2) show ?thesis using scheduler_rr_inv by auto
next
  case (yield me)
  then obtain i where "myproc me k = Some i" by (auto simp: yield_def split: option.splits)
  with yield assms(2) show ?thesis using yield_inv [of np k me i] by auto
next
  case (sleep_prepare me i ch)
  then show ?thesis using harmless_step_inv [OF assms(2) sleep_prepare_harmless] by auto
next
  case (sleep me)
  then obtain i where "myproc me k = Some i" by (auto simp: sleep_def split: option.splits)
  with sleep assms(2) show ?thesis using sleep_inv [of np k me i] by auto
next
  case (wakeup ch)
  then show ?thesis using harmless_step_inv [OF assms(2) wakeup_harmless] by simp
next
  case (kkill pid)
  then show ?thesis using harmless_step_inv [OF assms(2) kkill_harmless] by simp
next
  case (setkilled i)
  then show ?thesis using harmless_step_inv [OF assms(2) setkilled_harmless] by simp
next
  case (tick me)
  with assms(2) show ?thesis using mlfq_tick_inv [of np k me] by auto
next
  case (fork me i j k1)
  then show ?thesis using fork_inv [OF assms(2)] by simp
next
  case (fork_fail j k1)
  then show ?thesis using fork_fail_inv [OF assms(2)] by simp
next
  case (own me i)
  then show ?thesis using own_inv [OF assms(2)] by simp
next
  case (exit me i st)
  then show ?thesis using exit_inv [OF assms(2), of me i st] by auto
next
  case (reap me i j)
  then show ?thesis using reap_inv [OF assms(2)] by simp
qed

lemma kstep_inv:
  assumes "kstep pol l k k'" "table_inv np k"
  shows "table_inv (np + births [l]) k'"
  using assms(1)
proof (cases rule: kstep.cases)
  case process
  then show ?thesis using pstep_inv assms(2) by blast
next
  case clock_ticks
  then show ?thesis using harmless_step_inv [OF assms(2) clock_ticks_harmless] by simp
next
  case update_time
  then show ?thesis using harmless_step_inv [OF assms(2) update_time_harmless] by simp
next
  case boost
  then show ?thesis using harmless_step_inv [OF assms(2) boost_step_harmless] by simp
qed

lemma procinit_zero:
  "k_proc (procinit zero_kernel) = map (\<lambda>i. zero_proc\<lparr>p_kstack := KSTACK i\<rparr>) [0..<NPROC]"
  by (simp add: procinit_def zero_kernel_def zero_proc_def cong: map_cong)

lemma alloc_slot_procinit: "\<exists>k. alloc_slot (procinit zero_kernel) = Some (0, k)"
proof -
  have "[0..<NPROC] = 0 # [1..<NPROC]" by (simp add: NPROC_def upt_conv_Cons)
  then have "find_unused 0 (k_proc (procinit zero_kernel)) = Some 0"
    by (simp add: procinit_zero zero_proc_def)
  then show ?thesis by (simp add: alloc_slot_def split: prod.splits)
qed

definition init_proc :: "u64 \<Rightarrow> u64 \<Rightarrow> nat option \<Rightarrow> proc" where
  "init_proc pt tf cwd = (born 0 1 (zero_proc\<lparr>p_kstack := KSTACK 0\<rparr>))
     \<lparr>p_pagetable := pt, p_trapframe := tf, p_cwd := cwd, p_state := RUNNABLE\<rparr>"

lemma boot_fields:
  assumes "boot pt tf cwd = Some k"
  shows "length (k_proc k) = NPROC" "k_nextpid k = 2" "k_cpus k = replicate NCPU zero_cpu"
    "k_initproc k = Some 0" "k_ticks k = 0" "k_locks k = (\<lambda>_. initlock)"
    and "i < NPROC \<Longrightarrow> k_proc k ! i = (if i = 0 then init_proc pt tf cwd else zero_proc\<lparr>p_kstack := KSTACK i\<rparr>)"
proof -
  let ?k = "procinit zero_kernel"
  obtain k1 where a: "alloc_slot ?k = Some (0, k1)" using alloc_slot_procinit by blast
  have fields: "k_ticks ?k = 0" "k_nextpid ?k = 1" "k_cpus ?k = replicate NCPU zero_cpu" "k_locks ?k = (\<lambda>_. initlock)"
    by (simp_all add: procinit_def zero_kernel_def)
  from a alloc_slot_eq(3) [OF a] fields
  have k: "k_proc k = (k_proc ?k)[0 := init_proc pt tf cwd]" "k_nextpid k = 2"
    "k_cpus k = replicate NCPU zero_cpu" "k_initproc k = Some 0" "k_ticks k = 0" "k_locks k = (\<lambda>_. initlock)"
    using assms int32_id [of 2]
    by (auto simp: boot_def procinit_zero NPROC_def upd_proc_def nth_append init_proc_def fresh_context_def born_def zero_proc_def)
  from k show "length (k_proc k) = NPROC" "k_nextpid k = 2" "k_cpus k = replicate NCPU zero_cpu"
    "k_initproc k = Some 0" "k_ticks k = 0" "k_locks k = (\<lambda>_. initlock)" by (simp_all add: procinit_zero)
  show "k_proc k ! i = (if i = 0 then init_proc pt tf cwd else zero_proc\<lparr>p_kstack := KSTACK i\<rparr>)" if "i < NPROC"
    using that unfolding k procinit_zero by (auto simp: nth_list_update)
qed

lemma boot_inv:
  assumes "boot pt tf cwd = Some k"
  shows "table_inv 2 k"
proof -
  note k = boot_fields(1-6) [OF assms] and slot = boot_fields(7) [OF assms]
  have my: "myproc me k = None" if "me < NCPU" for me using that k by (simp add: myproc_def zero_cpu_def)
  have "cpus_ok k" using my slot k by (auto simp: cpus_ok_def zero_cpu_def zero_proc_def born_def init_proc_def)
  moreover have "pids_ok k" using slot by (auto simp: pids_ok_def zero_proc_def born_def init_proc_def split: if_splits)
  moreover have "tree_ok k" using slot k
    by (auto simp: tree_ok_def zero_proc_def born_def init_proc_def alive_def NPROC_def split: if_splits)
  moreover have "\<forall>i < NPROC. proc_ok 2 (k_proc k ! i)"
    using slot by (auto simp: proc_ok_def mlfq_ok_def mlfq_slice_def zero_proc_def born_def init_proc_def)
  ultimately show ?thesis using k int32_id [of 2] by (simp add: table_inv_def)
qed

lemma ktrace_inv: "ktrace pol ls k k' \<Longrightarrow> table_inv np k \<Longrightarrow> table_inv (np + births ls) k'"
proof (induction arbitrary: np rule: ktrace.induct)
  case (cons l k k' ls k'')
  from cons.IH [OF kstep_inv [OF cons.hyps(1) cons.prems]] show ?case
    unfolding births_Cons [of l ls] by (simp add: add.assoc)
qed simp

lemma kreachable_inv_ex: "kreachable pol k \<Longrightarrow> \<exists>np. table_inv np k"
  by (induction rule: kreachable.induct) (use boot_inv kstep_inv in blast)+

lemma kreachable_inv:
  assumes "kreachable pol k"
  obtains np where "table_inv np k"
  using kreachable_inv_ex [OF assms] by blast

section \<open>Sleep and wakeup\<close>

text \<open>\<open>chan_le p p'\<close>: the registration of a process is kept or cleared.\<close>

definition chan_le :: "proc \<Rightarrow> proc \<Rightarrow> bool" where
  "chan_le p p' \<longleftrightarrow> p_chan p' = p_chan p \<or> p_chan p' = None"

definition chans_le :: "kernel \<Rightarrow> kernel \<Rightarrow> bool" where
  "chans_le k k' \<longleftrightarrow> length (k_proc k') = length (k_proc k)
     \<and> (\<forall>x < length (k_proc k). chan_le (k_proc k ! x) (k_proc k' ! x))"

lemma chan_le_refl [simp]: "chan_le p p"
  by (simp add: chan_le_def)

lemma chans_le_refl [simp]: "chans_le k k"
  by (simp add: chans_le_def)

lemma chans_le_trans: "chans_le k k1 \<Longrightarrow> chans_le k1 k2 \<Longrightarrow> chans_le k k2"
  unfolding chans_le_def chan_le_def by (metis (full_types))

lemma chans_le_upd:
  assumes "k_proc k' = (k_proc k)[i := p]" and "i < length (k_proc k) \<Longrightarrow> chan_le (k_proc k ! i) p"
  shows "chans_le k k'"
proof -
  have "chan_le (k_proc k ! x) ((k_proc k)[i := p] ! x)" if "x < length (k_proc k)" for x
    using assms(2) that by (cases "x = i") simp_all
  with assms(1) show ?thesis by (simp add: chans_le_def)
qed

lemma chans_le_map:
  assumes "k_proc k' = map f (k_proc k)" and "\<And>p. chan_le p (f p)"
  shows "chans_le k k'"
  using assms by (simp add: chans_le_def)

lemma wakeup_chans: "chans_le k (wakeup ch k)"
  by (rule chans_le_map [of _ "wake_proc ch"]) (simp_all add: wakeup_def wake_proc_def chan_le_def Let_def)

lemma reparent_loop_chans: "chans_le k (reparent_loop i js k)"
proof (induction i js k rule: reparent_loop.induct)
  case (2 i j js k)
  have "chans_le k (upd_proc j (\<lambda>p. p\<lparr>p_parent := k_initproc k\<rparr>) k)"
    by (rule chans_le_upd [where i = j]) (auto simp: chan_le_def)
  then have "chans_le k (wakeup ch (upd_proc j (\<lambda>p. p\<lparr>p_parent := k_initproc k\<rparr>) k))" for ch
    using wakeup_chans chans_le_trans by blast
  with 2 show ?case using chans_le_trans by auto
qed simp

lemma kkill_chans: "chans_le k (snd (kkill pid k))"
proof -
  have "length (snd (kkill_scan pid ps)) = length ps
    \<and> (\<forall>i < length ps. chan_le (ps ! i) (snd (kkill_scan pid ps) ! i))" for ps
    by (induction ps) (auto simp: Let_def nth_Cons chan_le_def split: nat.splits prod.splits)
  from this [of "k_proc k"] show ?thesis by (auto simp: chans_le_def kkill_def split: prod.splits)
qed

lemma resume_proc: "resume me i k = Ok k' \<Longrightarrow> k_proc k' = k_proc k"
  by (auto simp: resume_def dest!: lock_frame(2) split: thread.splits)

lemma enter_chans:
  assumes "enter me i k = Ok k'"
  shows "chans_le k k'"
proof -
  from assms obtain k1 where k1: "acquire_lock me (ProcLock i) k = Ok k1" "dispatch me i k1 = Ok k'"
    by (auto simp: enter_def split: res.splits)
  then have "k_proc k' = (k_proc k)[i := start_proc (k_ticks k) (k_proc k ! i)]"
    using lock_frame(1) [OF k1(1)] by (auto simp: dispatch_def start_proc_def Let_def dest!: resume_proc)
  then show ?thesis by (rule chans_le_upd) (simp add: chan_le_def start_proc_def)
qed

lemma sched_proc:
  "sched me i k = Ok k' \<Longrightarrow> k_proc k' = (k_proc k)[i := (k_proc k ! i)\<lparr>p_thread := InSched (c_intena (k_cpus k ! me))\<rparr>]"
  by (auto simp: sched_def Let_def dest!: lock_frame(2) split: if_splits)

lemma switch_out_chans:
  assumes "switch_out me i f k = Ok k'" and f: "\<And>p. p_chan (f p) = p_chan p"
  shows "chans_le k k'"
proof -
  from assms(1) obtain k1 where k1: "acquire_lock me (ProcLock i) k = Ok k1" "sched me i (upd_proc i f k1) = Ok k'"
    by (auto simp: switch_out_def split: res.splits)
  have "k_proc k' = (k_proc k)[i := (f (k_proc k ! i))\<lparr>p_thread := InSched (c_intena (k_cpus k1 ! me))\<rparr>]"
    if "i < length (k_proc k)"
    using lock_frame(1) [OF k1(1)] sched_proc [OF k1(2)] that by simp
  moreover have "k_proc k' = k_proc k" if "\<not> i < length (k_proc k)"
    using lock_frame(1) [OF k1(1)] sched_proc [OF k1(2)] that by (simp add: list_update_beyond)
  ultimately show ?thesis
    by (cases "i < length (k_proc k)") (auto simp: chans_le_def chan_le_def nth_list_update f)
qed

lemma yield_chans: "yield me k = Ok k' \<Longrightarrow> chans_le k k'"
  by (auto simp: yield_def switch_out_def [symmetric] split: option.splits elim!: switch_out_chans)

lemma scheduler_chans:
  "scheduler_fifo me k = Ok (b, k') \<Longrightarrow> chans_le k k'"
  "scheduler_mlfq me k = Ok (b, k') \<Longrightarrow> chans_le k k'"
  "scheduler_rr me i k = Ok (r, k') \<Longrightarrow> chans_le k k'"
proof -
  assume "scheduler_fifo me k = Ok (b, k')"
  then show "chans_le k k'"
    by (auto simp: scheduler_fifo_def Let_def split: option.splits dest!: enter_chans)
      (simp_all add: chans_le_def)
next
  assume r: "scheduler_mlfq me k = Ok (b, k')"
  let ?k1 = "(upd_cpu me (\<lambda>c. intr_off (intr_on c)) k)\<lparr>k_proc := map (mlfq_enqueue (k_ticks k)) (k_proc k)\<rparr>"
  have le: "chans_le k ?k1"
    by (rule chans_le_map [of _ "mlfq_enqueue (k_ticks k)"]) (simp_all add: chan_le_def mlfq_enqueue_def)
  from r consider "k' = ?k1" | i where "enter me i ?k1 = Ok k'"
    by (auto simp: scheduler_mlfq_def mlfq_scan_eq Let_def split: option.splits res.splits)
  then show "chans_le k k'"
  proof cases
    case 2
    from enter_chans [OF 2] have "chans_le ?k1 k'" by (simp add: chans_le_def)
    with le show ?thesis by (rule chans_le_trans)
  qed (use le in simp)
next
  assume "scheduler_rr me i k = Ok (r, k')"
  then show "chans_le k k'"
    by (auto simp: scheduler_rr_def Let_def split: option.splits res.splits if_splits dest!: enter_chans)
      (simp_all add: chans_le_def)
qed

lemma alloc_chans: "alloc_slot k = Some (j, k1) \<Longrightarrow> chans_le k k1"
  by (frule alloc_slot_eq(3), rule chans_le_upd [where i = j]) (auto simp: born_def chan_le_def)

lemma upd_chans: "(\<And>p. chan_le p (f p)) \<Longrightarrow> chans_le k (upd_proc i f k)"
  by (rule chans_le_upd [where i = i]) auto

lemma exit_chans:
  assumes inv: "table_inv np k" and me: "me < NCPU" "myproc me k = Some i" and ex: "exit_tail me st k = Ok k'"
  shows "chans_le k k'" and "x < length (k_proc k) \<Longrightarrow>
    p_chan (k_proc k ! x) = map_option ChanProc (p_parent (k_proc (reparent i k) ! i)) \<Longrightarrow> p_chan (k_proc k' ! x) = None"
proof -
  let ?k1 = "reparent i k"
  let ?ch = "map_option ChanProc (p_parent (k_proc ?k1 ! i))"
  let ?k2 = "last_words i k"
  have le1: "chans_le k ?k1" unfolding reparent_def by (rule reparent_loop_chans)
  have le2: "chans_le ?k1 ?k2" unfolding last_words_def by (rule wakeup_chans)
  have "k_proc k' = (k_proc ?k2)[i := (k_proc ?k2 ! i)\<lparr>p_xstate := st, p_etime := k_ticks k, p_state := ZOMBIE, p_thread := InExit\<rparr>]"
    using ex exit_tail_ok [of me k i st] me running_ok(1) [OF inv me] table_inv_simps [OF inv] by auto
  then have le3: "chans_le ?k2 k'" by (rule chans_le_upd) (simp add: chan_le_def)
  from le1 le2 le3 show "chans_le k k'" using chans_le_trans by blast
  assume x: "x < length (k_proc k)" "p_chan (k_proc k ! x) = ?ch"
  have "chan_le (k_proc k ! x) (k_proc ?k1 ! x)" using le1 x(1) by (simp add: chans_le_def)
  then have "p_chan (k_proc ?k1 ! x) = ?ch \<or> p_chan (k_proc ?k1 ! x) = None" using x(2) by (simp add: chan_le_def)
  then have "p_chan (k_proc ?k2 ! x) = None" using x(1) by (auto simp: last_words_def wakeup_nth wake_proc_def Let_def)
  with le3 x(1) show "p_chan (k_proc k' ! x) = None" by (auto simp: chans_le_def chan_le_def)
qed

lemma mlfq_charge_chan: "chan_le p (snd (mlfq_charge t p))"
  by (simp add: chan_le_def mlfq_charge_def Let_def)

lemma mlfq_tick_chans:
  assumes "mlfq_tick me k = Ok k'"
  shows "chans_le k k'"
proof (cases "myproc me k")
  case None
  with assms show ?thesis by (simp add: mlfq_tick_def)
next
  case (Some i)
  let ?k = "upd_proc i (\<lambda>_. snd (mlfq_charge (k_ticks k) (k_proc k ! i))) k"
  have "chans_le k ?k" by (rule chans_le_upd [where i = i], simp, rule mlfq_charge_chan)
  moreover have "k' = ?k \<or> yield me ?k = Ok k'"
    using assms Some by (auto simp: mlfq_tick_def Let_def split: prod.splits if_splits)
  ultimately show ?thesis using yield_chans chans_le_trans by blast
qed

lemma sleep_chans:
  assumes "table_inv np k" "me < NCPU" "sleep me k = Ok k'"
  shows "chans_le k k'"
proof -
  obtain i where i: "myproc me k = Some i" using assms(3) by (auto simp: sleep_def split: option.splits)
  show ?thesis
    using assms sleep_eq [OF assms(1,2) i] by (auto elim!: switch_out_chans split: if_splits) (simp add: chans_le_def)
qed

lemma pstep_chans_le:
  assumes "pstep pol l k k'" "table_inv np k" "\<forall>i. l \<noteq> Prepare i"
  shows "chans_le k k'"
  using assms(1)
proof (cases rule: pstep.cases)
  case (sleep me)
  then show ?thesis using sleep_chans assms(2) by blast
next
  case (tick me)
  then show ?thesis using mlfq_tick_chans by blast
next
  case (fork me i j k1)
  have "chans_le k1 k'" using fork by (auto simp: set_private_def fresh_context_def chan_le_def intro!: upd_chans)
  with alloc_chans fork show ?thesis using chans_le_trans by blast
next
  case (fork_fail j k1)
  have "chans_le k1 k'" using fork_fail by (auto simp: free_fields_def chan_le_def intro!: upd_chans)
  with alloc_chans fork_fail show ?thesis using chans_le_trans by blast
next
  case (exit me i st)
  then show ?thesis using exit_chans(1) assms(2) by blast
qed (use assms(3) in \<open>auto simp: setkilled_def set_private_def free_fields_def chan_le_def
    intro: scheduler_chans yield_chans wakeup_chans kkill_chans upd_chans\<close>)

lemma kstep_chans_le:
  assumes "kstep pol l k k'" "table_inv np k" "\<forall>i. l \<noteq> Prepare i"
  shows "chans_le k k'"
  using assms(1)
proof (cases rule: kstep.cases)
  case process
  then show ?thesis using pstep_chans_le assms(2,3) by blast
next
  case clock_ticks
  have "chans_le (k\<lparr>k_ticks := k_ticks k + 1\<rparr>) k'" using clock_ticks wakeup_chans by (simp add: clock_ticks_def)
  then show ?thesis by (simp add: chans_le_def)
next
  case update_time
  then show ?thesis
    by (auto simp: update_time_def charge_run_def chan_le_def intro!: chans_le_map [of _ charge_run])
next
  case boost
  then show ?thesis
    by (auto simp: mlfq_boost_def boost_proc_def chan_le_def intro!: chans_le_map [of _ boost_proc])
qed

lemma kstep_prepare:
  assumes "kstep pol (Prepare i) k k'" "x \<noteq> i"
  shows "k_proc k' ! x = k_proc k ! x"
proof -
  from assms(1) have "pstep pol (Prepare i) k k'" by (cases rule: kstep.cases) simp_all
  then show ?thesis
    by (cases rule: pstep.cases) (use assms(2) in \<open>auto simp: sleep_prepare_def split: if_splits\<close>)
qed

lemma kstep_chans:
  assumes "kstep pol l k k'" "table_inv np k" "l \<noteq> Prepare x" "x < NPROC"
  shows "chan_le (k_proc k ! x) (k_proc k' ! x)"
proof (cases "\<exists>i. l = Prepare i")
  case True
  then obtain i where "l = Prepare i" by blast
  with assms(1,3) kstep_prepare [of pol i k k' x] show ?thesis by auto
next
  case False
  with kstep_chans_le [OF assms(1,2)] assms(2,4) show ?thesis by (auto simp: chans_le_def table_inv_def)
qed

lemma kstep_wake:
  assumes "kstep pol (Wake chs) k k'" "table_inv np k" "x < NPROC" "p_chan (k_proc k ! x) \<in> set chs"
  shows "p_chan (k_proc k' ! x) = None"
proof -
  have len: "x < length (k_proc k)" using assms(2,3) by (simp add: table_inv_def)
  have "p_chan (k_proc k' ! x) = None" if "pstep pol (Wake chs) k k'"
    using that
  proof (cases rule: pstep.cases)
    case (exit me i st)
    with exit_chans(2) assms(2,4) len show ?thesis by auto
  qed (use assms(4) len in \<open>auto simp: wakeup_nth wake_proc_def Let_def\<close>)
  with assms(1,4) len show ?thesis
    by (cases rule: kstep.cases) (auto simp: wakeup_nth wake_proc_def clock_ticks_def Let_def)
qed

lemma kstep_chan_None:
  assumes "kstep pol l k k'" "table_inv np k" "i < NPROC" "l \<noteq> Prepare i" "p_chan (k_proc k ! i) = None"
  shows "p_chan (k_proc k' ! i) = None"
  using kstep_chans [OF assms(1,2,4,3)] assms(5) by (auto simp: chan_le_def)

lemma ktrace_chan_None:
  "ktrace pol ls k k' \<Longrightarrow> table_inv np k \<Longrightarrow> i < NPROC \<Longrightarrow> Prepare i \<notin> set ls \<Longrightarrow>
   p_chan (k_proc k ! i) = None \<Longrightarrow> p_chan (k_proc k' ! i) = None"
proof (induction arbitrary: np rule: ktrace.induct)
  case (cons l k k' ls k'')
  then have "p_chan (k_proc k' ! i) = None" using kstep_chan_None [of pol l k k' np i] by auto
  with cons.IH [OF kstep_inv [OF cons.hyps(1) cons.prems(1)]] cons.prems show ?case by simp
qed simp

lemma ktrace_woken:
  "ktrace pol ls k k' \<Longrightarrow> table_inv np k \<Longrightarrow> i < NPROC \<Longrightarrow> Prepare i \<notin> set ls \<Longrightarrow>
   p_chan (k_proc k ! i) = Some ch \<or> p_chan (k_proc k ! i) = None \<Longrightarrow>
   Wake chs \<in> set ls \<Longrightarrow> Some ch \<in> set chs \<Longrightarrow> p_chan (k_proc k' ! i) = None"
proof (induction arbitrary: np rule: ktrace.induct)
  case (cons l k k' ls k'')
  note inv = kstep_inv [OF cons.hyps(1) cons.prems(1)]
  have l: "l \<noteq> Prepare i" "Prepare i \<notin> set ls" using cons.prems by auto
  have ch: "p_chan (k_proc k' ! i) = Some ch \<or> p_chan (k_proc k' ! i) = None"
    using kstep_chans [OF cons.hyps(1) cons.prems(1) l(1) cons.prems(2)] cons.prems(4) by (auto simp: chan_le_def)
  show ?case
  proof (cases "l = Wake chs")
    case True
    have "p_chan (k_proc k' ! i) = None"
    proof (cases "p_chan (k_proc k ! i) = None")
      case False
      with cons True show ?thesis using kstep_wake [of pol chs k k' np i] by auto
    qed (rule kstep_chan_None [OF cons.hyps(1) cons.prems(1,2) l(1)])
    with ktrace_chan_None [OF cons.hyps(2) inv cons.prems(2) l(2)] show ?thesis .
  next
    case False
    with cons.prems have "Wake chs \<in> set ls" by auto
    with cons.IH [OF inv cons.prems(2) l(2) ch] cons.prems(6) show ?thesis by blast
  qed
qed simp

section \<open>What a scheduler round does\<close>

lemma scheduler_mlfq_outcome:
  assumes inv: "table_inv np k" and me: "me < NCPU" "myproc me k = None"
  defines "ps \<equiv> map (mlfq_enqueue (k_ticks k)) (k_proc k)"
  shows "(\<forall>i < NPROC. p_state (k_proc k ! i) \<noteq> RUNNABLE) \<and> (\<exists>k'. scheduler_mlfq me k = Ok (False, k') \<and> k_proc k' = ps)
    \<or> (\<exists>j k'. scheduler_mlfq me k = Ok (True, k') \<and> chosen (\<lambda>p. p_state p = RUNNABLE) mlfq_better ps j
         \<and> myproc me k' = Some j \<and> k_proc k' = ps[j := start_proc (k_ticks k) (ps ! j)])"
proof -
  let ?k1 = "upd_cpu me (\<lambda>c. intr_off (intr_on c)) k"
  let ?k = "?k1\<lparr>k_proc := ps\<rparr>"
  have inv': "table_inv np ?k" using scan_table_inv [OF intr_cycle_inv [OF inv], of "k_ticks k" me] by (simp add: ps_def)
  have my: "myproc me ?k = None" using me intr_cycle_myproc [of me me k] by (simp add: myproc_def)
  have len: "length (k_proc k) = NPROC" using inv by (simp add: table_inv_def)
  have run: "scheduler_mlfq me k = (case scan_best (\<lambda>p. p_state p = RUNNABLE) mlfq_better None 0 ps of
      None \<Rightarrow> Ok (False, ?k) | Some (i, _) \<Rightarrow> bind_res (enter me i ?k) (\<lambda>k3. Ok (True, k3)))"
    by (simp add: scheduler_mlfq_def mlfq_scan_eq Let_def ps_def split: option.split)
  show ?thesis
  proof (cases "scan_best (\<lambda>p. p_state p = RUNNABLE) mlfq_better None 0 ps")
    case None
    then have "\<forall>p \<in> set ps. p_state p \<noteq> RUNNABLE"
      using mlfq_order.scan_best_spec [of ps "\<lambda>p. p_state p = RUNNABLE"] by simp
    with None run len show ?thesis by (simp add: ps_def)
  next
    case (Some b)
    then obtain i where b: "b = (i, ps ! i)" and ch: "chosen (\<lambda>p. p_state p = RUNNABLE) mlfq_better ps i"
      using mlfq_order.scan_best_spec [of ps "\<lambda>p. p_state p = RUNNABLE"] by (cases b) auto
    then have "i < NPROC" "p_state (k_proc ?k ! i) = RUNNABLE" using len by (auto simp: chosen_def ps_def)
    from enter_slot_inv [OF inv' me(1) my this] obtain k2 where "enter me i ?k = Ok k2"
      "myproc me k2 = Some i" "k_proc k2 = ps[i := start_proc (k_ticks k) (ps ! i)]" by auto
    with Some b run ch show ?thesis by auto
  qed
qed

lemma scheduler_fifo_outcome:
  assumes inv: "table_inv np k" and me: "me < NCPU" "myproc me k = None"
  shows "(\<forall>i < NPROC. p_state (k_proc k ! i) \<noteq> RUNNABLE) \<and> (\<exists>k'. scheduler_fifo me k = Ok (False, k') \<and> k_proc k' = k_proc k)
    \<or> (\<exists>j k'. scheduler_fifo me k = Ok (True, k')
         \<and> chosen (\<lambda>p. p_state p = RUNNABLE) (\<lambda>p q. p_ctime p < p_ctime q) (k_proc k) j
         \<and> myproc me k' = Some j \<and> k_proc k' = (k_proc k)[j := start_proc (k_ticks k) (k_proc k ! j)])"
proof -
  let ?k = "upd_cpu me (\<lambda>c. intr_off (intr_on c)) k"
  have inv': "table_inv np ?k" using inv by (rule intr_cycle_inv)
  have my: "myproc me ?k = None" using me by (simp add: intr_cycle_myproc)
  have len: "length (k_proc k) = NPROC" using inv by (simp add: table_inv_def)
  note spec = fifo_order.scan_best_spec [of "k_proc k" "\<lambda>p. p_state p = RUNNABLE"]
  show ?thesis
  proof (cases "fifo_scan None 0 (k_proc k)")
    case None
    with spec have "\<forall>p \<in> set (k_proc k). p_state p \<noteq> RUNNABLE" by (simp add: fifo_scan_eq)
    with None len show ?thesis by (simp add: scheduler_fifo_def)
  next
    case (Some b)
    then obtain i where b: "b = (i, k_proc k ! i)"
      and ch: "chosen (\<lambda>p. p_state p = RUNNABLE) (\<lambda>p q. p_ctime p < p_ctime q) (k_proc k) i"
      using spec by (cases b) (auto simp: fifo_scan_eq)
    then have "i < NPROC" "p_state (k_proc ?k ! i) = RUNNABLE" using len by (auto simp: chosen_def)
    from enter_slot_inv [OF inv' me(1) my this] obtain k2 where "enter me i ?k = Ok k2"
      "myproc me k2 = Some i" "k_proc k2 = (k_proc k)[i := start_proc (k_ticks k) (k_proc k ! i)]" by auto
    with Some b ch show ?thesis by (auto simp: scheduler_fifo_def)
  qed
qed


section \<open>Properties\<close>

text \<open>C1. In every state a run of the kernel reaches from boot, under each of the three schedulers and
  every interleaving of operations on the CPUs: a process is RUNNING exactly when one CPU runs it, and
  then exactly one; the parent of an entry is a live process; a sleeping process has a channel on which
  it can be woken; and, as long as the run has created no more processes than the 32-bit counter
  \<open>nextpid\<close> has positive values left, processes in use have distinct, positive ids.\<close>

theorem reachable_process_table:
  assumes "boot pt tf cwd = Some k0" and "ktrace pol ls k0 k"
  shows "(\<forall>i < NPROC. p_state (k_proc k ! i) = RUNNING \<longleftrightarrow> (\<exists>!me. me < NCPU \<and> myproc me k = Some i))
    \<and> (\<forall>i < NPROC. \<forall>j. p_parent (k_proc k ! i) = Some j \<longrightarrow> j < NPROC \<and> alive (k_proc k ! j))
    \<and> (\<forall>i < NPROC. p_state (k_proc k ! i) = SLEEPING \<longrightarrow> p_chan (k_proc k ! i) \<noteq> None)
    \<and> (count_list ls Born \<le> 2 ^ 31 - 2 \<longrightarrow> (\<forall>i < NPROC. p_state (k_proc k ! i) \<noteq> UNUSED \<longrightarrow>
          0 < p_pid (k_proc k ! i) \<and> (\<forall>j < NPROC. p_pid (k_proc k ! j) = p_pid (k_proc k ! i) \<longrightarrow> j = i)))"
proof -
  have inv: "table_inv (2 + births ls) k" using ktrace_inv [OF assms(2) boot_inv [OF assms(1)]] .
  note facts = table_inv_simps [OF inv]
  have "p_state (k_proc k ! i) = RUNNING \<longleftrightarrow> (\<exists>!me. me < NCPU \<and> myproc me k = Some i)" if "i < NPROC" for i
    using facts(6,7) facts(8) [OF that] by blast
  moreover have "0 < p_pid (k_proc k ! i) \<and> (\<forall>j < NPROC. p_pid (k_proc k ! j) = p_pid (k_proc k ! i) \<longrightarrow> j = i)"
    if i: "i < NPROC" "p_state (k_proc k ! i) \<noteq> UNUSED" and few: "count_list ls Born \<le> 2 ^ 31 - 2" for i
  proof -
    have np: "2 + births ls \<le> 2 ^ 31" using few by (simp add: births_def)
    then have "1 \<le> p_pid (k_proc k ! i)" using facts(3) [OF i(1)] i(2) unfolding proc_ok_def by blast
    moreover have "pids_ok k" using inv np unfolding table_inv_def by blast
    ultimately show ?thesis using i(1) by (auto simp: pids_ok_def)
  qed
  moreover have "tree_ok k" using inv by (simp add: table_inv_def)
  moreover have "p_chan (k_proc k ! i) \<noteq> None" if "i < NPROC" "p_state (k_proc k ! i) = SLEEPING" for i
    using that facts(3) [of i] by (simp add: proc_ok_def)
  ultimately show ?thesis unfolding tree_ok_def by blast
qed

text \<open>A state reached by booting, entering \<open>init\<close> on CPU 0 and having it register for the clock.\<close>

definition demo_boot :: kernel where
  "demo_boot = the (boot 0 0 None)"

lemma boot_total: "boot pt tf cwd \<noteq> None"
  using alloc_slot_procinit by (auto simp: boot_def)

lemma demo_boot_eq: "boot 0 0 None = Some demo_boot"
  using boot_total [of 0 0 None] by (simp add: demo_boot_def)

lemma demo_boot_reachable: "kreachable pol demo_boot"
  using demo_boot_eq by (rule kreachable.start)

lemma demo_boot_idle: "me < NCPU \<Longrightarrow> myproc me demo_boot = None"
  using boot_fields(3) [OF demo_boot_eq] by (simp add: myproc_def zero_cpu_def)

lemma demo_boot_slot:
  "i < NPROC \<Longrightarrow> p_state (k_proc demo_boot ! i) = (if i = 0 then RUNNABLE else UNUSED)"
  using boot_fields(7) [OF demo_boot_eq, of i] by (simp add: init_proc_def zero_proc_def)

lemma demo_boot_runnable: "\<exists>i < NPROC. p_state (k_proc demo_boot ! i) = RUNNABLE"
  by (rule exI [of _ 0]) (simp add: demo_boot_slot NPROC_def)

theorem reachable_process_table_witness:
  "(p_state (k_proc demo_boot ! 0) = RUNNING \<longleftrightarrow> (\<exists>!me. me < NCPU \<and> myproc me demo_boot = Some 0))
   \<and> 0 < p_pid (k_proc demo_boot ! 0)"
proof -
  have z: "0 < NPROC" "p_state (k_proc demo_boot ! 0) \<noteq> UNUSED" "count_list [] Born \<le> 2 ^ 31 - 2"
    using demo_boot_slot [of 0] by (simp_all add: NPROC_def)
  from reachable_process_table [OF demo_boot_eq, where pol = Mlfq, OF ktrace.nil] z show ?thesis by blast
qed

text \<open>C17. In every reachable state each entry sits in one of the four queues and has used less than
  the time slice of its queue, so \<open>mlfq_slice\<close> is never read out of bounds.\<close>

theorem reachable_mlfq_bounds:
  assumes "kreachable pol k" and "i < NPROC"
  shows "0 \<le> p_priority (k_proc k ! i) \<and> nat (p_priority (k_proc k ! i)) < length mlfq_slice
    \<and> 0 \<le> p_slice_used (k_proc k ! i)
    \<and> p_slice_used (k_proc k ! i) < mlfq_slice ! nat (p_priority (k_proc k ! i))"
proof -
  obtain np where inv: "table_inv np k" using assms(1) by (rule kreachable_inv)
  from table_inv_simps(3) [OF inv assms(2)] show ?thesis
    by (auto simp: proc_ok_def mlfq_ok_def mlfq_slice_def)
qed

theorem reachable_mlfq_bounds_witness:
  "p_slice_used (k_proc demo_boot ! 5) < mlfq_slice ! nat (p_priority (k_proc demo_boot ! 5))"
  using reachable_mlfq_bounds [OF demo_boot_reachable [of Mlfq], of 5] by (simp add: NPROC_def)



text \<open>C3. The feedback-queue scheduler runs the front of the highest non-empty queue. From a reachable
  state an idle CPU finds nothing only when no process is runnable; otherwise it enters a runnable
  process that comes before every other one by priority, then by enqueue tick, then by slot, where a
  runnable process that was not queued first joins the tail of its queue; no other entry changes.\<close>

theorem scheduler_mlfq_runs_front:
  assumes "kreachable pol k" and "me < NCPU" and "myproc me k = None"
  defines "ps \<equiv> map (mlfq_enqueue (k_ticks k)) (k_proc k)"
  shows "if \<exists>i < NPROC. p_state (k_proc k ! i) = RUNNABLE
    then \<exists>j k'. scheduler_mlfq me k = Ok (True, k') \<and> j < NPROC \<and> p_state (ps ! j) = RUNNABLE
      \<and> (\<forall>i < NPROC. p_state (ps ! i) = RUNNABLE \<longrightarrow> queue_before (ps ! j) j (ps ! i) i)
      \<and> myproc me k' = Some j \<and> k_proc k' = ps[j := start_proc (k_ticks k) (ps ! j)]
    else \<exists>k'. scheduler_mlfq me k = Ok (False, k') \<and> k_proc k' = k_proc k"
proof -
  obtain np where inv: "table_inv np k" using assms(1) by (rule kreachable_inv)
  then have len: "length ps = NPROC" by (simp add: ps_def table_inv_def)
  show ?thesis
  proof (cases "\<exists>i < NPROC. p_state (k_proc k ! i) = RUNNABLE")
    case True
    with scheduler_mlfq_outcome [OF inv assms(2,3)] len show ?thesis
      unfolding chosen_mlfq by (auto simp: ps_def [symmetric])
  next
    case False
    then have no: "\<forall>i < NPROC. p_state (k_proc k ! i) \<noteq> RUNNABLE" by blast
    then have "ps = k_proc k" using len by (auto simp: ps_def mlfq_enqueue_def intro!: nth_equalityI)
    moreover have "p_state (ps ! j) \<noteq> RUNNABLE" if "j < NPROC" for j using no that calculation by simp
    ultimately show ?thesis using scheduler_mlfq_outcome [OF inv assms(2,3)] False len
      unfolding chosen_mlfq by (auto simp: ps_def [symmetric])
  qed
qed

theorem scheduler_mlfq_runs_front_witness:
  "\<exists>k'. scheduler_mlfq 0 demo_boot = Ok (True, k') \<and> myproc 0 k' = Some 0"
proof -
  have run: "p_state (map (mlfq_enqueue t) (k_proc demo_boot) ! j) = (if j = 0 then RUNNABLE else UNUSED)"
    if "j < NPROC" for t j
    using that demo_boot_slot [OF that] boot_fields(1) [OF demo_boot_eq] by simp
  from demo_boot_runnable scheduler_mlfq_runs_front [OF demo_boot_reachable [of Mlfq], of 0] demo_boot_idle [of 0]
  obtain j k' where j: "scheduler_mlfq 0 demo_boot = Ok (True, k')" "j < NPROC" "myproc 0 k' = Some j"
    "p_state (map (mlfq_enqueue (k_ticks demo_boot)) (k_proc demo_boot) ! j) = RUNNABLE"
    by (auto simp: NCPU_def)
  with run [OF j(2)] show ?thesis by (simp split: if_splits)
qed

text \<open>The first-come scheduler enters the runnable process that was created first, the lowest slot
  among equals, and idles only when no process is runnable; no other entry changes.\<close>

theorem scheduler_fifo_runs_oldest:
  assumes "kreachable pol k" and "me < NCPU" and "myproc me k = None"
  shows "if \<exists>i < NPROC. p_state (k_proc k ! i) = RUNNABLE
    then \<exists>j k'. scheduler_fifo me k = Ok (True, k') \<and> j < NPROC \<and> p_state (k_proc k ! j) = RUNNABLE
      \<and> (\<forall>i < NPROC. p_state (k_proc k ! i) = RUNNABLE \<longrightarrow>
           p_ctime (k_proc k ! j) < p_ctime (k_proc k ! i) \<or> p_ctime (k_proc k ! j) = p_ctime (k_proc k ! i) \<and> j \<le> i)
      \<and> myproc me k' = Some j \<and> k_proc k' = (k_proc k)[j := start_proc (k_ticks k) (k_proc k ! j)]
    else \<exists>k'. scheduler_fifo me k = Ok (False, k') \<and> k_proc k' = k_proc k"
proof -
  obtain np where inv: "table_inv np k" using assms(1) by (rule kreachable_inv)
  then have len: "length (k_proc k) = NPROC" by (simp add: table_inv_def)
  have ch: "chosen (\<lambda>p. p_state p = RUNNABLE) (\<lambda>p q. p_ctime p < p_ctime q) (k_proc k) j \<longleftrightarrow>
      j < NPROC \<and> p_state (k_proc k ! j) = RUNNABLE \<and> (\<forall>i < NPROC. p_state (k_proc k ! i) = RUNNABLE \<longrightarrow>
        p_ctime (k_proc k ! j) < p_ctime (k_proc k ! i) \<or> p_ctime (k_proc k ! j) = p_ctime (k_proc k ! i) \<and> j \<le> i)" for j
  proof -
    have "(if i < j then a < b else \<not> b < a) \<longleftrightarrow> a < b \<or> a = b \<and> j \<le> i" for i :: nat and a b :: u32 by auto
    then show ?thesis by (simp add: chosen_def len)
  qed
  show ?thesis using scheduler_fifo_outcome [OF inv assms(2,3)] unfolding ch by auto
qed

theorem scheduler_fifo_runs_oldest_witness:
  "\<exists>j k'. scheduler_fifo 3 demo_boot = Ok (True, k') \<and> p_state (k_proc demo_boot ! j) = RUNNABLE \<and> myproc 3 k' = Some j"
proof -
  from demo_boot_runnable scheduler_fifo_runs_oldest [OF demo_boot_reachable [of Fifo], of 3] demo_boot_idle [of 3]
  show ?thesis by (auto simp: NCPU_def)
qed

fun charges :: "u32 list \<Rightarrow> proc \<Rightarrow> proc" where
  "charges [] p = p"
| "charges (t # ts) p = charges ts (snd (mlfq_charge t p))"

lemma charges_snoc: "charges (ts @ [t]) p = snd (mlfq_charge t (charges ts p))"
  by (induction ts arbitrary: p) auto

lemma mlfq_charge_fields:
  assumes "mlfq_ok p"
  shows "p_priority (snd (mlfq_charge t p))
      = (if p_slice_used p + 1 = mlfq_slice ! nat (p_priority p) \<and> p_priority p < 3 then p_priority p + 1 else p_priority p)"
    and "p_slice_used (snd (mlfq_charge t p))
      = (if p_slice_used p + 1 = mlfq_slice ! nat (p_priority p) then 0 else p_slice_used p + 1)"
  using assms by (auto simp: mlfq_charge_def mlfq_ok_def Let_def)

text \<open>C14. Demotion: a process that starts in queue 0 with a fresh slice and is charged \<open>n\<close> ticks is in
  queue 0 before its first tick, in queue 1 for the next 4, in queue 2 for the next 8 and then in queue
  3 for good, where its slice restarts every 16 ticks.\<close>

theorem mlfq_demotion_schedule:
  assumes "p_priority p = 0" and "p_slice_used p = 0"
  shows "let n = length ts in (p_priority (charges ts p), p_slice_used (charges ts p))
    = (if n < 1 then (0, int n) else if n < 5 then (1, int (n - 1)) else if n < 13 then (2, int (n - 5))
       else (3, int ((n - 13) mod 16)))"
proof (induction ts rule: rev_induct)
  case Nil
  with assms show ?case by simp
next
  case (snoc t ts)
  let ?n = "length ts" and ?q = "charges ts p"
  have ok: "mlfq_ok ?q" using snoc by (auto simp: Let_def mlfq_ok_def mlfq_slice_def split: if_splits)
  have m: "int ((Suc m) mod 16) = (if int (m mod 16) + 1 = 16 then 0 else int (m mod 16) + 1)" for m
    by (auto simp: mod_Suc)
  note step = charges_snoc Let_def mlfq_charge_fields [OF ok] mlfq_slice_def
  consider "?n = 0" | "1 \<le> ?n" "?n < 5" | "5 \<le> ?n" "?n < 13" | "13 \<le> ?n" by linarith
  then show ?case
  proof cases
    case 1
    with snoc have "p_priority ?q = 0" "p_slice_used ?q = 0" by (auto simp: Let_def)
    with 1 show ?thesis unfolding step by simp
  next
    case 2
    with snoc have "p_priority ?q = 1" "p_slice_used ?q = int (?n - 1)" by (auto simp: Let_def split: if_splits)
    with 2 show ?thesis unfolding step by auto
  next
    case 3
    with snoc have "p_priority ?q = 2" "p_slice_used ?q = int (?n - 5)" by (auto simp: Let_def split: if_splits)
    with 3 show ?thesis unfolding step by auto
  next
    case 4
    then have "Suc ?n - 13 = Suc (?n - 13)" by simp
    moreover have "p_priority ?q = 3" "p_slice_used ?q = int ((?n - 13) mod 16)"
      using 4 snoc by (auto simp: Let_def split: if_splits)
    ultimately show ?thesis using 4 unfolding step by (simp add: m del: of_nat_mod)
  qed
qed

theorem mlfq_demotion_schedule_witness:
  "p_priority (charges (replicate 30 0) zero_proc) = 3 \<and> p_slice_used (charges (replicate 30 0) zero_proc) = 1"
  using mlfq_demotion_schedule [of zero_proc "replicate 30 0"] by (simp add: zero_proc_def Let_def)

lemma mlfq_higher_runnable_iff:
  "mlfq_higher_runnable pri self i ps \<longleftrightarrow>
     (\<exists>m < length ps. i + m \<noteq> self \<and> p_state (ps ! m) = RUNNABLE \<and> p_priority (ps ! m) < pri)"
proof (induction ps arbitrary: i)
  case (Cons q qs)
  have "(\<exists>m < length (q # qs). i + m \<noteq> self \<and> p_state ((q # qs) ! m) = RUNNABLE \<and> p_priority ((q # qs) ! m) < pri)
    \<longleftrightarrow> i \<noteq> self \<and> p_state q = RUNNABLE \<and> p_priority q < pri
      \<or> (\<exists>m < length qs. Suc i + m \<noteq> self \<and> p_state (qs ! m) = RUNNABLE \<and> p_priority (qs ! m) < pri)"
    by (auto simp: less_Suc_eq_0_disj)
  with Cons [of "Suc i"] show ?case by auto
qed simp

lemma mlfq_charge_eq:
  "mlfq_charge t p =
     (if p_slice_used p + 1 \<ge> mlfq_slice ! nat (p_priority p)
      then (True, p\<lparr>p_priority := if p_priority p < 3 then p_priority p + 1 else p_priority p, p_slice_used := 0, p_enq_time := t\<rparr>)
      else (False, p\<lparr>p_slice_used := p_slice_used p + 1\<rparr>))"
  by (simp add: mlfq_charge_def Let_def)

text \<open>C13. The decision at a timer tick: the running process gives up its CPU exactly when the tick
  exhausts the slice of its queue or a runnable process sits in a higher queue than its new one; only on
  exhaustion is it demoted (queue 3 stays), its slice reset and its enqueue tick renewed; otherwise the
  slice grows by one, and no other entry changes.\<close>

theorem mlfq_tick_decision:
  assumes "kreachable pol k" and "me < NCPU" and my: "myproc me k = Some i"
  defines "p \<equiv> k_proc k ! i"
  defines "expired \<equiv> mlfq_slice ! nat (p_priority p) \<le> p_slice_used p + 1"
  defines "pri \<equiv> (if expired \<and> p_priority p < 3 then p_priority p + 1 else p_priority p)"
  defines "preempt \<equiv> \<exists>q < NPROC. q \<noteq> i \<and> p_state (k_proc k ! q) = RUNNABLE \<and> p_priority (k_proc k ! q) < pri"
  shows "\<exists>k'. mlfq_tick me k = Ok k'
    \<and> myproc me k' = (if expired \<or> preempt then None else Some i)
    \<and> p_state (k_proc k' ! i) = (if expired \<or> preempt then RUNNABLE else RUNNING)
    \<and> p_priority (k_proc k' ! i) = pri
    \<and> p_slice_used (k_proc k' ! i) = (if expired then 0 else p_slice_used p + 1)
    \<and> p_enq_time (k_proc k' ! i) = (if expired then k_ticks k else p_enq_time p)
    \<and> (\<forall>j < NPROC. j \<noteq> i \<longrightarrow> k_proc k' ! j = k_proc k ! j)"
proof -
  obtain np where inv: "table_inv np k" using assms(1) by (rule kreachable_inv)
  have len: "length (k_proc k) = NPROC" using inv by (simp add: table_inv_def)
  note i = running_ok [OF inv assms(2) my]
  let ?c = "mlfq_charge (k_ticks k) p"
  let ?k = "upd_proc i (\<lambda>_. snd ?c) k"
  have inv': "table_inv np ?k" by (rule harmless_step_inv [OF inv harmless_upd]) (simp add: p_def charge_harmless)
  have c: "fst ?c = expired" "p_priority (snd ?c) = pri" "p_slice_used (snd ?c) = (if expired then 0 else p_slice_used p + 1)"
    "p_enq_time (snd ?c) = (if expired then k_ticks k else p_enq_time p)" "p_state (snd ?c) = RUNNING"
    using i(2) by (simp_all add: mlfq_charge_eq expired_def pri_def p_def)
  have pre: "mlfq_higher_runnable pri i 0 (k_proc ?k) \<longleftrightarrow> preempt"
    using len by (auto simp: mlfq_higher_runnable_iff preempt_def nth_list_update)
  have run: "mlfq_tick me k = (if expired \<or> preempt then yield me ?k else Ok ?k)"
    using my c(1,2) pre by (auto simp: mlfq_tick_def p_def Let_def split: prod.splits)
  obtain k' where k': "yield me ?k = Ok k'" "myproc me k' = None"
    "k_proc k' = (k_proc ?k)[i := (k_proc ?k ! i)\<lparr>p_state := RUNNABLE, p_thread := InSched (c_intr (k_cpus ?k ! me))\<rparr>]"
    using yield_inv [OF inv' assms(2), of i] my by auto
  show ?thesis
  proof (cases "expired \<or> preempt")
    case True
    with run k' c i(1) len show ?thesis by simp
  next
    case False
    with run c i(1) len my show ?thesis by simp
  qed
qed

lemma demo_running: "\<exists>k i. kreachable Mlfq k \<and> myproc 0 k = Some i \<and> p_priority (k_proc k ! i) = 0 \<and> p_chan (k_proc k ! i) = None"
proof -
  obtain np where inv: "table_inv np demo_boot" using demo_boot_reachable [of Mlfq] by (rule kreachable_inv)
  have me: "0 < NCPU" "myproc 0 demo_boot = None" using demo_boot_idle [of 0] by (simp_all add: NCPU_def)
  let ?ps = "map (mlfq_enqueue (k_ticks demo_boot)) (k_proc demo_boot)"
  from scheduler_mlfq_outcome [OF inv me] demo_boot_runnable obtain j k where
    run: "scheduler_mlfq 0 demo_boot = Ok (True, k)" "chosen (\<lambda>p. p_state p = RUNNABLE) mlfq_better ?ps j"
      "myproc 0 k = Some j" "k_proc k = ?ps[j := start_proc (k_ticks demo_boot) (?ps ! j)]" by auto
  have len: "length (k_proc demo_boot) = NPROC" using inv by (simp add: table_inv_def)
  have "kstep Mlfq Other demo_boot k" using me run(1) by (intro kstep.process pstep.mlfq) simp_all
  then have "kreachable Mlfq k" by (rule kreachable.step [OF demo_boot_reachable])
  moreover have "j < NPROC" using run(2) len by (simp add: chosen_def)
  moreover from this have "p_priority (k_proc k ! j) = 0" "p_chan (k_proc k ! j) = None"
    using run(4) len boot_fields(7) [OF demo_boot_eq, of j]
    by (auto simp: start_proc_def init_proc_def born_def zero_proc_def mlfq_enqueue_def)
  ultimately show ?thesis using run(3) by blast
qed

theorem mlfq_tick_decision_witness:
  "\<exists>k i k'. myproc 0 k = Some i \<and> p_priority (k_proc k ! i) = 0
     \<and> mlfq_tick 0 k = Ok k' \<and> myproc 0 k' = None \<and> p_priority (k_proc k' ! i) = 1"
proof -
  obtain k i where k: "kreachable Mlfq k" "myproc 0 k = Some i" "p_priority (k_proc k ! i) = 0"
    using demo_running by blast
  have me: "0 < NCPU" by (simp add: NCPU_def)
  obtain np where inv: "table_inv np k" using k(1) by (rule kreachable_inv)
  have "mlfq_ok (k_proc k ! i)" using running_ok(3) [OF inv me k(2)] by (simp add: proc_ok_def)
  with k(3) have "p_slice_used (k_proc k ! i) = 0" by (simp add: mlfq_ok_def mlfq_slice_def)
  with mlfq_tick_decision [OF k(1) me k(2)] k(3)
  have "\<exists>k'. mlfq_tick 0 k = Ok k' \<and> myproc 0 k' = None \<and> p_priority (k_proc k' ! i) = 1"
    by (auto simp: mlfq_slice_def)
  with k(2,3) show ?thesis by blast
qed


text \<open>
  The clock interrupt of CPU 0 in its three pieces: count the tick, charge the running processes, boost
  at a multiple of 48. Everything else may happen between them.
\<close>

datatype clock_pc = Quiet | Ticked | Charged

fun clock_phase :: "bool \<Rightarrow> clock_pc \<times> kernel \<Rightarrow> clock_pc \<times> kernel" where
  "clock_phase mlfq (Quiet, k) = (Ticked, clock_ticks k)"
| "clock_phase mlfq (Ticked, k) = (Charged, update_time k)"
| "clock_phase mlfq (Charged, k) = (Quiet, if mlfq \<and> k_ticks k mod 48 = 0 then mlfq_boost k else k)"

text \<open>Run without interruption the pieces are \<open>clockintr\<close>.\<close>

lemma clockintr_phases: "(clock_phase mlfq ^^ 3) (Quiet, k) = (Quiet, clockintr mlfq 0 k)"
  by (simp add: clockintr_def Let_def numeral_3_eq_3)
















text \<open>C2. No wakeup is lost. Once a process has registered on a channel with \<open>sleep_prepare\<close>, then in any
  continuation, on any CPUs and under any scheduler, that contains a wakeup of that channel (by \<open>wakeup\<close>
  itself, by the clock or by an exiting child), before or after the process reaches \<open>sleep\<close>, the process
  is not asleep, as long as it does not register again.\<close>

theorem no_lost_wakeup:
  assumes "kreachable pol k" and "me < NCPU" and my: "myproc me k = Some i"
    and prep: "sleep_prepare me (Some ch) k = Ok k1" and run: "ktrace pol ls k1 k2"
    and again: "Prepare i \<notin> set ls" and woken: "Wake chs \<in> set ls" "Some ch \<in> set chs"
  shows "p_state (k_proc k2 ! i) \<noteq> SLEEPING \<and> p_chan (k_proc k2 ! i) = None"
proof -
  obtain np where inv: "table_inv np k" using assms(1) by (rule kreachable_inv)
  have i: "i < NPROC" using running_ok(1) [OF inv assms(2) my] .
  have inv1: "table_inv np k1" using inv sleep_prepare_harmless [OF prep] by (rule harmless_step_inv)
  have inv2: "table_inv (np + births ls) k2" using ktrace_inv [OF run inv1] .
  have "p_chan (k_proc k1 ! i) = Some ch"
    using prep my i inv by (auto simp: sleep_prepare_def table_inv_def)
  then have "p_chan (k_proc k2 ! i) = None" using ktrace_woken [OF run inv1 i again _ woken] by blast
  with table_inv_simps(3) [OF inv2 i] show ?thesis by (auto simp: proc_ok_def)
qed

theorem no_lost_wakeup_witness:
  "\<exists>k1 k2 i. ktrace Mlfq [Wake [Some ChanTicks]] k1 k2 \<and> p_chan (k_proc k1 ! i) = Some ChanTicks \<and> p_chan (k_proc k2 ! i) = None"
proof -
  obtain k i where k: "kreachable Mlfq k" "myproc 0 k = Some i" using demo_running by blast
  have me: "0 < NCPU" by (simp add: NCPU_def)
  let ?k1 = "upd_proc i (\<lambda>p. p\<lparr>p_chan := Some ChanTicks\<rparr>) k"
  have prep: "sleep_prepare 0 (Some ChanTicks) k = Ok ?k1" using k(2) by (simp add: sleep_prepare_def)
  have run: "ktrace Mlfq [Wake [Some ChanTicks]] ?k1 (clock_ticks ?k1)"
    by (rule ktrace.cons [OF kstep.clock_ticks ktrace.nil])
  obtain np where inv: "table_inv np k" using k(1) by (rule kreachable_inv)
  have "i < length (k_proc k)" using running_ok(1) [OF inv me k(2)] inv by (simp add: table_inv_def)
  then have "p_chan (k_proc ?k1 ! i) = Some ChanTicks" by simp
  moreover have "p_chan (k_proc (clock_ticks ?k1) ! i) = None"
    using no_lost_wakeup [OF k(1) me k(2) prep run] by simp
  ultimately show ?thesis using run by blast
qed

text \<open>A process that has been queued once keeps its place across a sleep: when it is woken and the
  scheduler next scans the table, its enqueue tick is still the one from before it slept, so it is not
  put at the tail of its queue.\<close>

theorem woken_process_keeps_place:
  assumes "p_queued p = 1" and "p_state p = SLEEPING"
  shows "mlfq_enqueue t (wake_proc (p_chan p) p) = p\<lparr>p_chan := None, p_state := RUNNABLE\<rparr>"
  using assms by (simp add: mlfq_enqueue_def wake_proc_def)

theorem woken_process_keeps_place_witness:
  "p_enq_time (mlfq_enqueue 900 (wake_proc (Some ChanTicks)
     (zero_proc\<lparr>p_state := SLEEPING, p_chan := Some ChanTicks, p_queued := 1, p_enq_time := 7\<rparr>))) = 7"
  using woken_process_keeps_place [of "zero_proc\<lparr>p_state := SLEEPING, p_chan := Some ChanTicks, p_queued := 1, p_enq_time := 7\<rparr>" 900]
  by simp

lemma kkill_scan_first:
  assumes "\<forall>p \<in> set ps. p_pid p = 0 \<longleftrightarrow> p_state p = UNUSED" and "find_unused i ps = Some j"
  shows "i \<le> j \<and> j - i < length ps \<and> kkill_scan 0 ps = (0, ps[j - i := (ps ! (j - i))\<lparr>p_killed := 1\<rparr>])
    \<and> find_unused i (snd (kkill_scan 0 ps)) = Some j"
  using assms
proof (induction ps arbitrary: i)
  case (Cons p ps)
  show ?case
  proof (cases "p_state p = UNUSED")
    case True
    with Cons.prems show ?thesis by auto
  next
    case False
    with Cons.prems have "find_unused (Suc i) ps = Some j" "p_pid p \<noteq> 0" by auto
    with Cons.IH [of "Suc i"] Cons.prems(1) have IH: "Suc i \<le> j" "j - Suc i < length ps"
      "kkill_scan 0 ps = (0, ps[j - Suc i := (ps ! (j - Suc i))\<lparr>p_killed := 1\<rparr>])"
      "find_unused (Suc i) (snd (kkill_scan 0 ps)) = Some j" by auto
    then have "j - i = Suc (j - Suc i)" by linarith
    then show ?thesis using IH False \<open>p_pid p \<noteq> 0\<close> by simp
  qed
qed simp

text \<open>C19. \<open>kill(0)\<close> succeeds and marks a free table entry: from any reachable state with a free entry, in
  which the id counter has not wrapped round and given a process the id 0, it returns 0, and the next
  process that is created starts out killed.\<close>

theorem kill_zero_marks_next_child:
  assumes "kreachable pol k" and "find_unused 0 (k_proc k) = Some j"
    and nz: "\<forall>p \<in> set (k_proc k). p_state p \<noteq> UNUSED \<longrightarrow> p_pid p \<noteq> 0"
  shows "fst (kkill 0 k) = 0 \<and> (\<exists>k1. alloc_slot (snd (kkill 0 k)) = Some (j, k1) \<and> p_killed (k_proc k1 ! j) = 1)"
proof -
  obtain np where inv: "table_inv np k" using assms(1) by (rule kreachable_inv)
  have "p_pid p = 0 \<longleftrightarrow> p_state p = UNUSED" if p: "p \<in> set (k_proc k)" for p
  proof -
    obtain i where "i < NPROC" "p = k_proc k ! i" using p inv by (auto simp: in_set_conv_nth table_inv_def)
    with table_inv_simps(3) [OF inv, of i] nz p show ?thesis by (auto simp: proc_ok_def)
  qed
  with kkill_scan_first [OF _ assms(2)] show ?thesis
    by (auto simp: kkill_def alloc_slot_def allocpid_def born_def split: prod.splits)
qed

theorem kill_zero_marks_next_child_witness:
  "\<exists>k1. alloc_slot (snd (kkill 0 demo_boot)) = Some (1, k1) \<and> p_killed (k_proc k1 ! 1) = 1"
proof -
  have len: "length (k_proc demo_boot) = 64" using boot_fields(1) [OF demo_boot_eq] by (simp add: NPROC_def)
  then obtain p q ps where ps: "k_proc demo_boot = p # q # ps" by (auto simp: numeral_eq_Suc length_Suc_conv)
  then have "p_state p = RUNNABLE" "p_state q = UNUSED"
    using demo_boot_slot [of 0] demo_boot_slot [of 1] by (simp_all add: NPROC_def)
  with ps have free: "find_unused 0 (k_proc demo_boot) = Some 1" by simp
  have "\<forall>p \<in> set (k_proc demo_boot). p_state p \<noteq> UNUSED \<longrightarrow> p_pid p \<noteq> 0"
  proof
    fix p assume "p \<in> set (k_proc demo_boot)"
    then obtain i where "i < NPROC" "p = k_proc demo_boot ! i"
      using boot_fields(1) [OF demo_boot_eq] by (auto simp: in_set_conv_nth)
    with boot_fields(7) [OF demo_boot_eq, of i] show "p_state p \<noteq> UNUSED \<longrightarrow> p_pid p \<noteq> 0"
      by (simp add: init_proc_def born_def zero_proc_def)
  qed
  from kill_zero_marks_next_child [OF demo_boot_reachable [of Mlfq] free this] show ?thesis by (rule conjunct2)
qed

end
