(* ===== verification/Ring.thy ===== *)
theory Ring
  imports Prelude
begin

text \<open>
  Circular buffers indexed by free-running 32-bit counters, as \<open>pipe.c\<close> and \<open>console.c\<close> use them:
  the bytes between a read counter and a write counter, addressed modulo the buffer size. The facts
  here hold across wrap-around of the counters, because the sizes divide \<open>2 ^ 32\<close>. The locale states
  what a bounded queue promises; the two buffers are instances of it.
\<close>

section \<open>Contents\<close>

definition ring_at :: "'a list \<Rightarrow> u32 \<Rightarrow> 'a" where
  "ring_at buf i = buf ! (unat i mod length buf)"

definition ring_set :: "'a list \<Rightarrow> u32 \<Rightarrow> 'a \<Rightarrow> 'a list" where
  "ring_set buf i x = buf[unat i mod length buf := x]"

definition ring_content :: "'a list \<Rightarrow> u32 \<Rightarrow> u32 \<Rightarrow> 'a list" where
  "ring_content buf r w = map (\<lambda>i. ring_at buf (r + of_nat i)) [0..<unat (w - r)]"

definition ring_size :: "'a list \<Rightarrow> bool" where
  "ring_size buf \<longleftrightarrow> 0 < length buf \<and> length buf dvd 2 ^ 32 \<and> length buf < 2 ^ 32"

lemma ring_set_length [simp]: "length (ring_set buf i x) = length buf"
  by (simp add: ring_set_def)

lemma ring_set_size [simp]: "ring_size (ring_set buf i x) = ring_size buf"
  by (simp add: ring_size_def)

lemma ring_content_length [simp]: "length (ring_content buf r w) = unat (w - r)"
  by (simp add: ring_content_def)

lemma ring_content_empty [simp]: "ring_content buf r r = []"
  by (simp add: ring_content_def)

lemma ring_content_Nil_iff: "ring_content buf r w = [] \<longleftrightarrow> r = w"
  by (auto simp: ring_content_def unat_eq_0)

text \<open>A counter advanced by \<open>n\<close> addresses the slot \<open>n\<close> further on.\<close>

lemma ring_index:
  assumes "m dvd 2 ^ 32"
  shows "unat (r + of_nat n :: u32) mod m = (unat r + n) mod m"
proof -
  have "unat (r + of_nat n :: u32) = (unat r + n) mod 2 ^ 32"
    by (simp add: unat_word_ariths unat_of_nat take_bit_eq_mod mod_simps)
  then show ?thesis using assms by (simp add: mod_mod_cancel)
qed

lemma ring_slots_distinct:
  assumes "m dvd 2 ^ 32" "i < n" "n < m"
  shows "unat (r + of_nat i :: u32) mod m \<noteq> unat (r + of_nat n :: u32) mod m"
proof
  assume "unat (r + of_nat i :: u32) mod m = unat (r + of_nat n :: u32) mod m"
  then have "(unat r + n) mod m = (unat r + i) mod m" using assms(1) by (simp add: ring_index)
  then have "m dvd (unat r + n) - (unat r + i)" using assms(2) by (intro mod_eq_dvd_iff_nat [THEN iffD1]) simp_all
  then have "m dvd n - i" by simp
  with assms(2,3) show False by (auto dest: dvd_imp_le)
qed

lemma ring_push:
  assumes "ring_size buf" and room: "unat (w - r) < length buf"
  shows "ring_content (ring_set buf w x) r (w + 1) = ring_content buf r w @ [x]"
proof -
  let ?n = "unat (w - r)" and ?m = "length buf"
  have m: "?m dvd 2 ^ 32" "0 < ?m" "?m < 2 ^ 32" using assms(1) by (simp_all add: ring_size_def)
  have w: "w = r + of_nat ?n" by simp
  have "unat (w + 1 - r) = unat ((w - r) + 1)" by (simp add: algebra_simps)
  also have "\<dots> = Suc ?n"
  proof -
    have "unat (w - r) + unat (1 :: u32) < 2 ^ 32" using room m by simp
    then show ?thesis by (simp add: unat_word_ariths)
  qed
  finally have len: "unat (w + 1 - r) = Suc ?n" .
  have at: "ring_at (ring_set buf w x) (r + of_nat i) = ring_at buf (r + of_nat i)" if "i < ?n" for i
  proof -
    have "unat (r + of_nat i :: u32) mod ?m \<noteq> unat w mod ?m"
      using ring_slots_distinct [OF m(1) that room, of r] w by simp
    then show ?thesis by (simp add: ring_at_def ring_set_def)
  qed
  have "ring_at (ring_set buf w x) (r + of_nat ?n) = x" using m by (simp add: ring_at_def ring_set_def)
  with at len show ?thesis by (simp add: ring_content_def)
qed

lemma ring_pop:
  assumes "r \<noteq> w"
  shows "ring_content buf r w = ring_at buf r # ring_content buf (r + 1) w"
proof -
  have nz: "w - r \<noteq> 0" using assms by simp
  have "unat (w - (r + 1)) = unat ((w - r) - 1)" by (simp add: algebra_simps)
  also have "\<dots> = unat (w - r) - 1" using nz by (rule unat_minus_one)
  finally have "unat (w - (r + 1)) = unat (w - r) - 1" .
  moreover have "unat (w - r) \<noteq> 0" using nz by (simp add: unat_eq_0)
  ultimately have len: "unat (w - r) = Suc (unat (w - (r + 1)))" by simp
  have "[0..<Suc n] = 0 # map Suc [0..<n]" for n by (simp add: map_Suc_upt upt_conv_Cons del: upt_Suc)
  then show ?thesis unfolding ring_content_def len by (simp add: o_def algebra_simps)
qed

lemma ring_unpush:
  assumes "r \<noteq> w"
  shows "ring_content buf r (w - 1) = butlast (ring_content buf r w)"
proof -
  have nz: "w - r \<noteq> 0" using assms by simp
  have "unat (w - 1 - r) = unat ((w - r) - 1)" by (simp add: algebra_simps)
  also have "\<dots> = unat (w - r) - 1" using nz by (rule unat_minus_one)
  finally have len: "unat (w - 1 - r) = unat (w - r) - 1" .
  obtain n where n: "unat (w - r) = Suc n" using nz by (cases "unat (w - r)") (auto simp: unat_eq_0)
  show ?thesis unfolding ring_content_def len n by simp
qed

lemma ring_snoc:
  assumes "r \<noteq> w"
  shows "ring_content buf r w = ring_content buf r (w - 1) @ [ring_at buf (w - 1)]"
proof -
  have "w - r \<noteq> 0" using assms by simp
  then obtain n where n: "unat (w - r) = Suc n" by (cases "unat (w - r)") (auto simp: unat_eq_0)
  have "of_nat (unat (w - r)) = w - r" by simp
  then have "of_nat (Suc n) = w - r" unfolding n .
  then have "r + of_nat n = w - 1" by (simp add: algebra_simps)
  then have "ring_content buf r w = butlast (ring_content buf r w) @ [ring_at buf (w - 1)]"
    by (simp add: ring_content_def n)
  then show ?thesis by (simp add: ring_unpush [OF assms])
qed

text \<open>Splitting at a counter in between.\<close>

lemma ring_split:
  assumes "unat (m - r) \<le> unat (w - r)"
  shows "ring_content buf r w = ring_content buf r m @ ring_content buf m w"
proof -
  let ?a = "unat (m - r)" and ?b = "unat (w - r)"
  have m: "m = r + of_nat ?a" by simp
  have "m - r \<le> w - r" using assms by (simp add: word_le_nat_alt)
  then have "unat ((w - r) - (m - r)) = ?b - ?a" by (rule unat_sub)
  then have "unat (w - m) = ?b - ?a" by simp
  moreover have "[0..<?b] = [0..<?a] @ [?a..<?b]" using assms upt_add_eq_append [of 0 ?a "?b - ?a"] by simp
  moreover have "[?a..<?b] = map (\<lambda>i. i + ?a) [0..<?b - ?a]" using assms by (simp add: map_add_upt)
  ultimately show ?thesis
    unfolding ring_content_def using m by (simp add: o_def) (simp add: algebra_simps)
qed

section \<open>Bounded queues\<close>

fun puts :: "('b \<Rightarrow> 's \<Rightarrow> 's) \<Rightarrow> 'b list \<Rightarrow> 's \<Rightarrow> 's" where
  "puts put [] s = s"
| "puts put (x # xs) s = puts put xs (put x s)"

fun gets :: "('s \<Rightarrow> 'b \<times> 's) \<Rightarrow> nat \<Rightarrow> 's \<Rightarrow> 'b list \<times> 's" where
  "gets get 0 s = ([], s)"
| "gets get (Suc n) s = (let (x, s1) = get s; (xs, s2) = gets get n s1 in (x # xs, s2))"

locale bounded_queue =
  fixes abs :: "'s \<Rightarrow> 'b list" and inv :: "'s \<Rightarrow> bool" and cap :: nat
    and put :: "'b \<Rightarrow> 's \<Rightarrow> 's" and get :: "'s \<Rightarrow> 'b \<times> 's"
    and full :: "'s \<Rightarrow> bool" and empty :: "'s \<Rightarrow> bool"
  assumes put_abs: "inv s \<Longrightarrow> \<not> full s \<Longrightarrow> abs (put x s) = abs s @ [x]"
    and put_inv: "inv s \<Longrightarrow> \<not> full s \<Longrightarrow> inv (put x s)"
    and get_abs: "inv s \<Longrightarrow> \<not> empty s \<Longrightarrow> abs s = fst (get s) # abs (snd (get s))"
    and get_inv: "inv s \<Longrightarrow> \<not> empty s \<Longrightarrow> inv (snd (get s))"
    and full_iff: "inv s \<Longrightarrow> full s \<longleftrightarrow> length (abs s) = cap"
    and empty_iff: "inv s \<Longrightarrow> empty s \<longleftrightarrow> abs s = []"
    and bound: "inv s \<Longrightarrow> length (abs s) \<le> cap"
begin

lemma puts_abs:
  "inv s \<Longrightarrow> length (abs s) + length xs \<le> cap \<Longrightarrow> inv (puts put xs s) \<and> abs (puts put xs s) = abs s @ xs"
proof (induction xs arbitrary: s)
  case (Cons x xs)
  then have "\<not> full s" by (simp add: full_iff)
  with Cons show ?case by (simp add: put_abs put_inv)
qed simp

lemma gets_abs:
  "inv s \<Longrightarrow> n \<le> length (abs s) \<Longrightarrow>
   inv (snd (gets get n s)) \<and> fst (gets get n s) = take n (abs s) \<and> abs (snd (gets get n s)) = drop n (abs s)"
proof (induction n arbitrary: s)
  case (Suc n)
  then have ne: "\<not> empty s" by (auto simp: empty_iff)
  obtain x s1 where g: "get s = (x, s1)" by (cases "get s")
  with get_abs [OF Suc.prems(1) ne] get_inv [OF Suc.prems(1) ne] have "abs s = x # abs s1" "inv s1" by simp_all
  with Suc g show ?case by (simp add: split_beta)
qed simp

lemma puts_gets:
  assumes "inv s" "length (abs s) + length xs \<le> cap"
  shows "fst (gets get (length (abs s) + length xs) (puts put xs s)) = abs s @ xs"
  using puts_abs [OF assms] gets_abs [of "puts put xs s" "length (abs s) + length xs"] by simp

end

end
