(* ===== verification/Console.thy ===== *)
theory Console
  imports Ring
begin

text \<open>
  The console, \<open>xv6/kernel/console.c\<close>: the line editor that runs in the receive interrupt, the read
  side with its segments between sleeps, and the batched write side. Process listings on control-P are
  left out; they do not touch the input buffer.
\<close>

section \<open>Model\<close>

definition INPUT_BUF_SIZE :: nat where "INPUT_BUF_SIZE = 128"

definition BACKSPACE :: int where "BACKSPACE = 256"

text \<open>The control characters \<open>C('D')\<close>, \<open>C('H')\<close>, \<open>C('P')\<close> and \<open>C('U')\<close>.\<close>

definition Ctrl :: "char \<Rightarrow> u8" where "Ctrl x = of_char x - of_char (CHR ''@'')"

record cons =
  cs_buf :: "u8 list"
  cs_r :: u32
  cs_w :: u32
  cs_e :: u32

definition cons_boot :: cons where
  "cons_boot = \<lparr>cs_buf = replicate INPUT_BUF_SIZE 0, cs_r = 0, cs_w = 0, cs_e = 0\<rparr>"

text \<open>The bytes \<open>consputc\<close> sends to the UART.\<close>

definition consputc :: "int \<Rightarrow> u8 list" where
  "consputc c = (if c = BACKSPACE then [8, 32, 8] else [of_int c])"

definition cons_store :: "u8 \<Rightarrow> cons \<Rightarrow> cons" where
  "cons_store c s = s\<lparr>cs_buf := ring_set (cs_buf s) (cs_e s) c, cs_e := cs_e s + 1\<rparr>"

text \<open>The loop of control-U, with what it echoes.\<close>

function kill_line :: "cons \<Rightarrow> cons \<times> u8 list" where
  "kill_line s =
     (if cs_e s \<noteq> cs_w s \<and> ring_at (cs_buf s) (cs_e s - 1) \<noteq> 10
      then let (s1, out) = kill_line (s\<lparr>cs_e := cs_e s - 1\<rparr>) in (s1, consputc BACKSPACE @ out)
      else (s, []))"
  by pat_completeness auto
termination
proof (relation "measure (\<lambda>s. unat (cs_e s - cs_w s))")
  fix s :: cons
  assume "cs_e s \<noteq> cs_w s \<and> ring_at (cs_buf s) (cs_e s - 1) \<noteq> 10"
  then have nz: "cs_e s - cs_w s \<noteq> 0" by simp
  have eq: "cs_e s - 1 - cs_w s = cs_e s - cs_w s - 1" by (simp add: algebra_simps)
  have "unat (cs_e s - 1 - cs_w s) = unat (cs_e s - cs_w s) - 1" unfolding eq using nz by (rule unat_minus_one)
  moreover have "unat (cs_e s - cs_w s) \<noteq> 0" using nz by (simp add: unat_eq_0)
  ultimately show "(s\<lparr>cs_e := cs_e s - 1\<rparr>, s) \<in> measure (\<lambda>s. unat (cs_e s - cs_w s))" by simp
qed simp

declare kill_line.simps [simp del]

text \<open>\<open>consoleintr\<close>: the new state, the echoed bytes, and whether readers are woken.\<close>

definition consoleintr :: "u8 \<Rightarrow> cons \<Rightarrow> cons \<times> u8 list \<times> bool" where
  "consoleintr c s =
     (if c = Ctrl (CHR ''P'') then (s, [], False)
      else if c = Ctrl (CHR ''U'') then (let (s1, out) = kill_line s in (s1, out, False))
      else if c = Ctrl (CHR ''H'') \<or> c = 127 then
        (if cs_e s \<noteq> cs_w s then (s\<lparr>cs_e := cs_e s - 1\<rparr>, consputc BACKSPACE, False) else (s, [], False))
      else if c \<noteq> 0 \<and> cs_e s - cs_r s < of_nat INPUT_BUF_SIZE then
        (let c1 = (if c = 13 then 10 else c);
             out = consputc (uint c1);
             s1 = cons_store c1 s
         in if c1 = 10 \<or> c1 = Ctrl (CHR ''D'') \<or> cs_e s1 - cs_r s1 = of_nat INPUT_BUF_SIZE
            then (s1\<lparr>cs_w := cs_e s1\<rparr>, out, True) else (s1, out, False))
      else (s, [], False))"

datatype cread = CReturned int | CAsleep int

text \<open>
  A segment of \<open>consoleread\<close> with \<open>n\<close> bytes still wanted out of \<open>target\<close>. \<open>killed\<close> is what
  \<open>killed(myproc())\<close> returns if the segment finds the buffer empty, \<open>wr k\<close> whether the copy of byte
  \<open>k\<close> to the caller succeeds. The bytes copied out are listed.
\<close>

function consoleread :: "bool \<Rightarrow> (int \<Rightarrow> bool) \<Rightarrow> int \<Rightarrow> int \<Rightarrow> cons \<Rightarrow> cread \<times> cons \<times> u8 list" where
  "consoleread killed wr target n s =
     (if n > 0 then
        if cs_r s = cs_w s then (if killed then CReturned (- 1) else CAsleep n, s, [])
        else
          (let c = ring_at (cs_buf s) (cs_r s);
               s1 = s\<lparr>cs_r := cs_r s + 1\<rparr>
           in if c = Ctrl (CHR ''D'')
              then (CReturned (target - n), if n < target then s1\<lparr>cs_r := cs_r s1 - 1\<rparr> else s1, [])
              else if \<not> wr (target - n) then (CReturned (target - n), s1, [])
              else if c = 10 then (CReturned (target - (n - 1)), s1, [c])
              else (let (r, s2, out) = consoleread killed wr target (n - 1) s1 in (r, s2, c # out)))
      else (CReturned (target - n), s, []))"
  by pat_completeness auto
termination
  by (relation "measure (\<lambda>(k, w, t, n, s). nat n)") auto

declare consoleread.simps [simp del]

text \<open>
  \<open>consolewrite\<close> from offset \<open>i\<close>: batches of at most 32 bytes, \<open>rd i m\<close> being the \<open>m\<close> bytes at offset
  \<open>i\<close> of the caller, \<open>None\<close> if they cannot be read. It returns the count and the bytes sent.
\<close>

function consolewrite :: "(int \<Rightarrow> int \<Rightarrow> u8 list option) \<Rightarrow> int \<Rightarrow> int \<Rightarrow> int \<times> u8 list" where
  "consolewrite rd n i =
     (if i < n then
        (let nn = (if 32 > n - i then n - i else 32) in
         case rd i nn of
           None \<Rightarrow> (i, [])
         | Some bs \<Rightarrow> (let (r, out) = consolewrite rd n (i + nn) in (r, bs @ out)))
      else (i, []))"
  by pat_completeness auto
termination
  by (relation "measure (\<lambda>(rd, n, i). nat (n - i))") auto

declare consolewrite.simps [simp del]

section \<open>The buffer as a queue\<close>

definition cons_all :: "cons \<Rightarrow> u8 list" where
  "cons_all s = ring_content (cs_buf s) (cs_r s) (cs_e s)"

definition cons_room :: "cons \<Rightarrow> bool" where
  "cons_room s \<longleftrightarrow> cs_e s - cs_r s < of_nat INPUT_BUF_SIZE"

definition cons_fit :: "cons \<Rightarrow> bool" where
  "cons_fit s \<longleftrightarrow> length (cs_buf s) = INPUT_BUF_SIZE \<and> unat (cs_e s - cs_r s) \<le> INPUT_BUF_SIZE"

definition cons_take :: "cons \<Rightarrow> u8 \<times> cons" where
  "cons_take s = (ring_at (cs_buf s) (cs_r s), s\<lparr>cs_r := cs_r s + 1\<rparr>)"

lemma cons_ring_size: "cons_fit s \<Longrightarrow> ring_size (cs_buf s)"
  by (simp add: cons_fit_def ring_size_def INPUT_BUF_SIZE_def)

lemma cons_room_iff: "cons_room s \<longleftrightarrow> unat (cs_e s - cs_r s) < INPUT_BUF_SIZE"
  by (simp add: cons_room_def word_less_nat_alt INPUT_BUF_SIZE_def)

interpretation cons_queue: bounded_queue cons_all cons_fit INPUT_BUF_SIZE cons_store cons_take
  "\<lambda>s. \<not> cons_room s" "\<lambda>s. cs_r s = cs_e s"
proof unfold_locales
  fix s x
  assume ok: "cons_fit s" and room: "\<not> \<not> cons_room s"
  then have lt: "unat (cs_e s - cs_r s) < length (cs_buf s)" by (simp add: cons_room_iff cons_fit_def)
  show *: "cons_all (cons_store x s) = cons_all s @ [x]"
    using ring_push [OF cons_ring_size [OF ok] lt] by (simp add: cons_all_def cons_store_def)
  have "length (cons_all (cons_store x s)) = Suc (length (cons_all s))" unfolding * by simp
  with lt ok show "cons_fit (cons_store x s)" by (simp add: cons_fit_def cons_store_def cons_all_def)
next
  fix s
  assume ok: "cons_fit s" and ne: "cs_r s \<noteq> cs_e s"
  then show *: "cons_all s = fst (cons_take s) # cons_all (snd (cons_take s))"
    using ring_pop by (simp add: cons_all_def cons_take_def)
  have "length (cons_all s) = Suc (length (cons_all (snd (cons_take s))))" by (subst *) simp
  with ok show "cons_fit (snd (cons_take s))" by (simp add: cons_fit_def cons_take_def cons_all_def)
next
  fix s
  assume "cons_fit s"
  then show "(\<not> cons_room s) = (length (cons_all s) = INPUT_BUF_SIZE)" "(cs_r s = cs_e s) = (cons_all s = [])"
    "length (cons_all s) \<le> INPUT_BUF_SIZE"
    by (auto simp: cons_room_iff cons_all_def cons_fit_def ring_content_Nil_iff)
qed

section \<open>The line discipline\<close>

text \<open>What the editor promises, over the bytes ready for readers and the line being edited: the state
  after a character, the echo, and whether a line is handed over.\<close>

definition erase :: "u8 list" where "erase = [8, 32, 8]"

definition edit :: "u8 \<Rightarrow> u8 list \<times> u8 list \<Rightarrow> (u8 list \<times> u8 list) \<times> u8 list \<times> bool" where
  "edit c = (\<lambda>(ready, line).
     if c = 16 then ((ready, line), [], False)
     else if c = 21 then ((ready, []), concat (replicate (length line) erase), False)
     else if c = 8 \<or> c = 127 then ((ready, butlast line), if line = [] then [] else erase, False)
     else if c = 0 \<or> length ready + length line = 128 then ((ready, line), [], False)
     else (let c1 = (if c = 13 then 10 else c) in
           if c1 = 10 \<or> c1 = 4 \<or> length ready + length line = 127
           then ((ready @ line @ [c1], []), [c1], True) else ((ready, line @ [c1]), [c1], False)))"

definition cons_ready :: "cons \<Rightarrow> u8 list" where
  "cons_ready s = ring_content (cs_buf s) (cs_r s) (cs_w s)"

definition cons_line :: "cons \<Rightarrow> u8 list" where
  "cons_line s = ring_content (cs_buf s) (cs_w s) (cs_e s)"

definition cons_ok :: "cons \<Rightarrow> bool" where
  "cons_ok s \<longleftrightarrow> cons_fit s \<and> unat (cs_w s - cs_r s) \<le> unat (cs_e s - cs_r s) \<and> 10 \<notin> set (cons_line s)"

lemma Ctrl_simps [simp]: "Ctrl (CHR ''P'') = 16" "Ctrl (CHR ''U'') = 21" "Ctrl (CHR ''H'') = 8" "Ctrl (CHR ''D'') = 4"
  by (simp_all add: Ctrl_def of_char_def)

lemma consputc_simps [simp]: "consputc BACKSPACE = erase" "consputc (uint (c :: u8)) = [c]"
proof -
  have "uint c < 256" for c :: u8 using uint_lt2p [of c] by simp
  then show "consputc BACKSPACE = erase" "consputc (uint c) = [c]"
    by (auto simp: consputc_def BACKSPACE_def erase_def dest: less_imp_neq)
qed

lemma cons_split: "cons_ok s \<Longrightarrow> cons_all s = cons_ready s @ cons_line s"
  by (simp add: cons_ok_def cons_all_def cons_ready_def cons_line_def ring_split)

lemma cons_store_fields [simp]:
  "cs_r (cons_store c s) = cs_r s" "cs_w (cons_store c s) = cs_w s" "cs_e (cons_store c s) = cs_e s + 1"
  by (simp_all add: cons_store_def)

lemma cons_store_lists:
  assumes ok: "cons_ok s" and room: "cons_room s"
  shows "cons_ready (cons_store c s) = cons_ready s" "cons_line (cons_store c s) = cons_line s @ [c]"
    and "cons_fit (cons_store c s)" "unat (cs_w s - cs_r s) \<le> unat (cs_e s + 1 - cs_r s)"
proof -
  have fit: "cons_fit s" using ok by (simp add: cons_ok_def)
  have all: "cons_all (cons_store c s) = cons_ready s @ cons_line s @ [c]"
    using cons_queue.put_abs [OF fit] room cons_split [OF ok] by simp
  show "cons_fit (cons_store c s)" using cons_queue.put_inv [OF fit] room by simp
  have "length (cons_all (cons_store c s)) = Suc (length (cons_all s))"
    using cons_queue.put_abs [OF fit] room by simp
  then show le: "unat (cs_w s - cs_r s) \<le> unat (cs_e s + 1 - cs_r s)"
    using ok by (simp add: cons_all_def cons_ok_def)
  have "cons_all (cons_store c s) = cons_ready (cons_store c s) @ cons_line (cons_store c s)"
    using le by (simp add: cons_all_def cons_ready_def cons_line_def ring_split)
  moreover have "length (cons_ready (cons_store c s)) = length (cons_ready s)" by (simp add: cons_ready_def)
  ultimately show "cons_ready (cons_store c s) = cons_ready s" "cons_line (cons_store c s) = cons_line s @ [c]"
    using all by auto
qed

lemma back_fit:
  assumes ok: "cons_ok s" and ne: "cs_e s \<noteq> cs_w s"
  shows "cons_ok (s\<lparr>cs_e := cs_e s - 1\<rparr>)" "cons_line s = cons_line (s\<lparr>cs_e := cs_e s - 1\<rparr>) @ [ring_at (cs_buf s) (cs_e s - 1)]"
    and "cons_ready (s\<lparr>cs_e := cs_e s - 1\<rparr>) = cons_ready s"
proof -
  show line: "cons_line s = cons_line (s\<lparr>cs_e := cs_e s - 1\<rparr>) @ [ring_at (cs_buf s) (cs_e s - 1)]"
    using ring_snoc [of "cs_w s" "cs_e s"] ne by (simp add: cons_line_def)
  show "cons_ready (s\<lparr>cs_e := cs_e s - 1\<rparr>) = cons_ready s" by (simp add: cons_ready_def)
  have len: "unat (cs_e s - cs_r s) = unat (cs_w s - cs_r s) + unat (cs_e s - cs_w s)"
    using arg_cong [OF cons_split [OF ok], of length] by (simp add: cons_all_def cons_ready_def cons_line_def)
  have w: "unat (cs_e s - cs_w s) \<noteq> 0" using ne by (simp add: unat_eq_0)
  have "unat (cs_e s - cs_r s) \<noteq> 0" using len w by linarith
  then have "cs_e s - cs_r s \<noteq> 0" unfolding unat_eq_0 .
  then have "unat (cs_e s - cs_r s - 1) = unat (cs_e s - cs_r s) - 1" by (rule unat_minus_one)
  moreover have eq: "cs_e s - 1 - cs_r s = cs_e s - cs_r s - 1" by (simp add: algebra_simps)
  ultimately have e: "unat (cs_e s - 1 - cs_r s) = unat (cs_e s - cs_r s) - 1" by (simp only:)
  have "unat (cs_e s - 1 - cs_r s) \<le> INPUT_BUF_SIZE" "unat (cs_w s - cs_r s) \<le> unat (cs_e s - 1 - cs_r s)"
    using e len w ok unfolding cons_ok_def cons_fit_def by linarith+
  moreover have "10 \<notin> set (cons_line (s\<lparr>cs_e := cs_e s - 1\<rparr>))"
    using ok line unfolding cons_ok_def by (metis UnI1 set_append)
  moreover have "length (cs_buf s) = INPUT_BUF_SIZE" using ok by (simp add: cons_ok_def cons_fit_def)
  ultimately show "cons_ok (s\<lparr>cs_e := cs_e s - 1\<rparr>)" by (simp add: cons_ok_def cons_fit_def)
qed

lemma kill_line_spec:
  "cons_ok s \<Longrightarrow> kill_line s = (s\<lparr>cs_e := cs_w s\<rparr>, concat (replicate (length (cons_line s)) erase))"
proof (induction s rule: kill_line.induct)
  case (1 s)
  show ?case
  proof (cases "cs_e s = cs_w s")
    case True
    then show ?thesis by (subst kill_line.simps) (simp add: cons_line_def)
  next
    case False
    let ?s = "s\<lparr>cs_e := cs_e s - 1\<rparr>"
    note b = back_fit [OF "1.prems" False]
    have "ring_at (cs_buf s) (cs_e s - 1) \<noteq> 10" using "1.prems" b(2) by (auto simp: cons_ok_def)
    with False "1.IH" b(1) have "kill_line ?s = (?s\<lparr>cs_e := cs_w ?s\<rparr>, concat (replicate (length (cons_line ?s)) erase))"
      by simp
    with False \<open>ring_at _ _ \<noteq> 10\<close> b(2) show ?thesis by (subst kill_line.simps) simp
  qed
qed

lemma commit_ok:
  assumes "cons_fit s" "unat (cs_w s - cs_r s) \<le> unat (cs_e s - cs_r s)"
  shows "cons_ok (s\<lparr>cs_w := cs_e s\<rparr>)" "cons_ready (s\<lparr>cs_w := cs_e s\<rparr>) = cons_ready s @ cons_line s"
    "cons_line (s\<lparr>cs_w := cs_e s\<rparr>) = []"
  using assms by (simp_all add: cons_ok_def cons_fit_def cons_ready_def cons_line_def ring_split)

section \<open>Reading\<close>

lemma ready_pop:
  assumes ok: "cons_ok s" and ne: "cs_r s \<noteq> cs_w s"
  shows "cons_ok (s\<lparr>cs_r := cs_r s + 1\<rparr>)" "cons_ready s = ring_at (cs_buf s) (cs_r s) # cons_ready (s\<lparr>cs_r := cs_r s + 1\<rparr>)"
    and "cons_line (s\<lparr>cs_r := cs_r s + 1\<rparr>) = cons_line s"
proof -
  let ?s = "s\<lparr>cs_r := cs_r s + 1\<rparr>"
  show rd: "cons_ready s = ring_at (cs_buf s) (cs_r s) # cons_ready ?s"
    using ring_pop [OF ne] by (simp add: cons_ready_def)
  show "cons_line ?s = cons_line s" by (simp add: cons_line_def)
  have "cs_r s \<noteq> cs_e s" using cons_split [OF ok] rd by (auto simp: cons_all_def)
  then have all: "cons_all s = ring_at (cs_buf s) (cs_r s) # cons_all ?s"
    using ring_pop by (simp add: cons_all_def)
  have "unat (cs_e s - cs_r s) = Suc (unat (cs_e s - (cs_r s + 1)))"
    "unat (cs_w s - cs_r s) = Suc (unat (cs_w s - (cs_r s + 1)))"
    using arg_cong [OF all, of length] arg_cong [OF rd, of length] by (simp_all add: cons_all_def cons_ready_def)
  with ok \<open>cons_line ?s = cons_line s\<close> show "cons_ok ?s" by (simp add: cons_ok_def cons_fit_def)
qed

lemma ready_Nil: "cons_ready s = [] \<longleftrightarrow> cs_r s = cs_w s"
  by (simp add: cons_ready_def ring_content_Nil_iff)

text \<open>A run of ordinary characters is copied one by one.\<close>

lemma consoleread_prefix:
  "cons_ok s \<Longrightarrow> cons_ready s = l @ rest \<Longrightarrow> set l \<inter> {4, 10} = {} \<Longrightarrow> int (length l) \<le> n \<Longrightarrow>
   \<exists>s1. cons_ok s1 \<and> cons_ready s1 = rest \<and> cons_line s1 = cons_line s
     \<and> consoleread killed (\<lambda>_. True) target n s
       = (case consoleread killed (\<lambda>_. True) target (n - int (length l)) s1 of (r, s2, out) \<Rightarrow> (r, s2, l @ out))"
proof (induction l arbitrary: s n)
  case Nil
  then show ?case by (intro exI [of _ s]) (simp split: prod.split)
next
  case (Cons c l)
  have ne: "cs_r s \<noteq> cs_w s" using Cons.prems(2) ready_Nil [of s] by auto
  let ?s = "s\<lparr>cs_r := cs_r s + 1\<rparr>"
  note p = ready_pop [OF Cons.prems(1) ne]
  have c: "ring_at (cs_buf s) (cs_r s) = c" "cons_ready ?s = l @ rest" using p(2) Cons.prems(2) by simp_all
  obtain s1 where s1: "cons_ok s1" "cons_ready s1 = rest" "cons_line s1 = cons_line ?s"
    "consoleread killed (\<lambda>_. True) target (n - 1) ?s
     = (case consoleread killed (\<lambda>_. True) target (n - 1 - int (length l)) s1 of (r, s2, out) \<Rightarrow> (r, s2, l @ out))"
    using Cons.IH [OF p(1) c(2), of "n - 1"] Cons.prems(3,4) by auto
  have "consoleread killed (\<lambda>_. True) target n s
      = (case consoleread killed (\<lambda>_. True) target (n - 1) ?s of (r, s2, out) \<Rightarrow> (r, s2, c # out))"
    using Cons.prems(3,4) c(1) ne by (subst consoleread.simps) (auto simp: Let_def)
  with s1 p(3) show ?case by (intro exI [of _ s1]) (simp add: algebra_simps split: prod.split)
qed

section \<open>Properties\<close>

text \<open>C21. The console's interrupt handler is a line editor: over the bytes ready for readers and the line
  being typed it does exactly what the line discipline prescribes (erase, kill, carriage return,
  hand-over at newline, control-D or a full buffer), echoes what it prescribes, and keeps the buffer
  within its 128 bytes, also when its 32-bit indices wrap.\<close>

theorem consoleintr_refines_edit:
  assumes ok: "cons_ok s"
  shows "case consoleintr c s of (s1, out, woken) \<Rightarrow>
    cons_ok s1 \<and> ((cons_ready s1, cons_line s1), out, woken) = edit c (cons_ready s, cons_line s)"
proof -
  have fit: "cons_fit s" using ok by (simp add: cons_ok_def)
  have len: "length (cons_ready s) + length (cons_line s) = unat (cs_e s - cs_r s)"
    using arg_cong [OF cons_split [OF ok], of length] by (simp add: cons_all_def)
  have room: "cons_room s \<longleftrightarrow> length (cons_ready s) + length (cons_line s) \<noteq> 128"
    using fit len by (auto simp: cons_room_iff cons_fit_def INPUT_BUF_SIZE_def)
  consider "c = 16" | "c = 21" | "c = 8 \<or> c = 127" | "c \<noteq> 16" "c \<noteq> 21" "c \<noteq> 8" "c \<noteq> 127" "c = 0 \<or> \<not> cons_room s"
    | "c \<noteq> 16" "c \<noteq> 21" "c \<noteq> 8" "c \<noteq> 127" "c \<noteq> 0" "cons_room s" by blast
  then show ?thesis
  proof cases
    case 1
    with ok show ?thesis by (simp add: consoleintr_def edit_def)
  next
    case 2
    have "cons_ok (s\<lparr>cs_e := cs_w s\<rparr>)" using ok by (simp add: cons_ok_def cons_fit_def cons_line_def)
    moreover have "cons_ready (s\<lparr>cs_e := cs_w s\<rparr>) = cons_ready s" "cons_line (s\<lparr>cs_e := cs_w s\<rparr>) = []"
      by (simp_all add: cons_ready_def cons_line_def)
    ultimately show ?thesis using 2 kill_line_spec [OF ok] by (simp add: consoleintr_def edit_def)
  next
    case 3
    show ?thesis
    proof (cases "cs_e s = cs_w s")
      case True
      then have "cons_line s = []" by (simp add: cons_line_def)
      with 3 True ok show ?thesis by (auto simp: consoleintr_def edit_def)
    next
      case False
      note b = back_fit [OF ok False]
      have "cons_line s \<noteq> []" "butlast (cons_line s) = cons_line (s\<lparr>cs_e := cs_e s - 1\<rparr>)" by (simp_all add: b(2))
      with 3 False b show ?thesis by (auto simp: consoleintr_def edit_def)
    qed
  next
    case 4
    then show ?thesis using ok room by (auto simp: consoleintr_def edit_def cons_room_def)
  next
    case 5
    let ?c = "if c = 13 then 10 else c" and ?n = "length (cons_ready s) + length (cons_line s)"
    let ?s = "cons_store ?c s"
    note st = cons_store_lists(1-3) [OF ok 5(6), of ?c] cons_store_lists(4) [OF ok 5(6)]
    note cm = commit_ok [of ?s]
    have full: "cs_e ?s - cs_r ?s = of_nat INPUT_BUF_SIZE \<longleftrightarrow> ?n = 127"
    proof -
      have "length (cons_all ?s) = Suc ?n" using cons_queue.put_abs [OF fit] 5(6) len by (simp add: cons_all_def)
      then have "unat (cs_e ?s - cs_r ?s) = Suc ?n" by (simp add: cons_all_def)
      moreover have "cs_e ?s - cs_r ?s = of_nat INPUT_BUF_SIZE \<longleftrightarrow> unat (cs_e ?s - cs_r ?s) = 128"
        by (simp add: word_unat_eq_iff INPUT_BUF_SIZE_def)
      ultimately show ?thesis by simp
    qed
    have ne: "?n \<noteq> 128" using room 5(6) by simp
    show ?thesis
    proof (cases "?c = 10 \<or> ?c = 4 \<or> ?n = 127")
      case True
      then have "consoleintr c s = (?s\<lparr>cs_w := cs_e ?s\<rparr>, [?c], True)"
        using 5 full unfolding consoleintr_def cons_room_def Let_def by (simp only: Ctrl_simps consputc_simps if_False if_True simp_thms)
      then show ?thesis using True 5 ne cm st unfolding edit_def Let_def by simp
    next
      case False
      then have "consoleintr c s = (?s, [?c], False)"
        using 5 full unfolding consoleintr_def cons_room_def Let_def by (simp only: Ctrl_simps consputc_simps if_False if_True simp_thms)
      moreover have "cons_ok ?s" using st False ok by (simp add: cons_ok_def)
      ultimately show ?thesis using False 5 ne st unfolding edit_def Let_def by simp
    qed
  qed
qed

lemma cons_boot_ok: "cons_ok cons_boot" "cons_ready cons_boot = []" "cons_line cons_boot = []"
  by (simp_all add: cons_ok_def cons_fit_def cons_boot_def cons_ready_def cons_line_def)

theorem consoleintr_refines_edit_witness:
  "cons_ok (fst (consoleintr 13 cons_boot)) \<and> cons_ready (fst (consoleintr 13 cons_boot)) = [10]"
  using consoleintr_refines_edit [OF cons_boot_ok(1), of 13]
  by (simp add: cons_boot_ok edit_def split: prod.splits)

text \<open>Reading from the console: of the bytes ready, split as ordinary characters \<open>l\<close> and a rest that is
  empty or starts with a newline or control-D, a read of \<open>n\<close> bytes returns \<open>n\<close> characters of a longer
  line, the whole line with its newline, the characters before a control-D (which a later read turns into
  end of file, and which only an empty read consumes), or sleeps for the missing bytes.\<close>

theorem consoleread_returns_line:
  assumes ok: "cons_ok s" and split: "cons_ready s = l @ rest" and ordinary: "set l \<inter> {4, 10} = {}"
    and len: "int (length l) \<le> n" and stop: "int (length l) = n \<or> rest = [] \<or> hd rest = 10 \<or> hd rest = 4"
  shows "\<exists>s1 r out. consoleread killed (\<lambda>_. True) n n s = (r, s1, out) \<and> cons_ok s1 \<and> cons_line s1 = cons_line s
    \<and> (r, out, cons_ready s1) =
       (if int (length l) = n then (CReturned n, l, rest)
        else if rest = [] then (if killed then CReturned (- 1) else CAsleep (n - int (length l)), l, [])
        else if hd rest = 10 then (CReturned (int (length l) + 1), l @ [10], tl rest)
        else (CReturned (int (length l)), l, if l = [] then tl rest else rest))"
proof -
  let ?m = "n - int (length l)"
  obtain s1 where s1: "cons_ok s1" "cons_ready s1 = rest" "cons_line s1 = cons_line s"
    and run: "consoleread killed (\<lambda>_. True) n n s
      = (case consoleread killed (\<lambda>_. True) n ?m s1 of (r, s2, out) \<Rightarrow> (r, s2, l @ out))"
    using consoleread_prefix [OF ok split ordinary len] by blast
  show ?thesis
  proof (cases "?m = 0 \<or> rest = []")
    case True
    then have "consoleread killed (\<lambda>_. True) n ?m s1
        = (if ?m = 0 then CReturned n else if killed then CReturned (- 1) else CAsleep ?m, s1, [])"
      using len s1(2) ready_Nil [of s1] by (subst consoleread.simps) auto
    with run s1 True show ?thesis by auto
  next
    case False
    then have m: "0 < ?m" using len by simp
    have ne: "cs_r s1 \<noteq> cs_w s1" using False s1(2) ready_Nil [of s1] by auto
    let ?s2 = "s1\<lparr>cs_r := cs_r s1 + 1\<rparr>"
    note p = ready_pop [OF s1(1) ne]
    have hd: "ring_at (cs_buf s1) (cs_r s1) = hd rest" "cons_ready ?s2 = tl rest" using p(2) s1(2) by auto
    have bk: "?s2\<lparr>cs_r := cs_r ?s2 - 1\<rparr> = s1" by simp
    show ?thesis
    proof (cases "hd rest = 10")
      case True
      then have "consoleread killed (\<lambda>_. True) n ?m s1 = (CReturned (n - (?m - 1)), ?s2, [10])"
        using m ne hd by (subst consoleread.simps) (simp add: Let_def)
      with run True False m p s1 hd show ?thesis by auto
    next
      case False
      with stop m \<open>\<not> (?m = 0 \<or> rest = [])\<close> have d: "hd rest = 4" by auto
      then have "consoleread killed (\<lambda>_. True) n ?m s1 = (CReturned (n - ?m), if ?m < n then s1 else ?s2, [])"
        using m ne hd bk by (subst consoleread.simps) (simp add: Let_def)
      with run d False m p s1 hd \<open>\<not> (?m = 0 \<or> rest = [])\<close> show ?thesis by (auto simp: not_less)
    qed
  qed
qed

lemma demo_newline: "cons_ok (fst (consoleintr 13 cons_boot))" "cons_ready (fst (consoleintr 13 cons_boot)) = [] @ [10]"
proof -
  let ?s = "cons_store 10 cons_boot"
  have room: "cons_room cons_boot" by (simp add: cons_room_def cons_boot_def INPUT_BUF_SIZE_def)
  have e: "consoleintr 13 cons_boot = (?s\<lparr>cs_w := cs_e ?s\<rparr>, [10], True)"
    using room by (simp add: consoleintr_def cons_room_def Let_def)
  note st = cons_store_lists(1-3) [OF cons_boot_ok(1) room, of 10]
  have le: "unat (cs_w ?s - cs_r ?s) \<le> unat (cs_e ?s - cs_r ?s)" by (simp add: cons_boot_def)
  show "cons_ok (fst (consoleintr 13 cons_boot))" "cons_ready (fst (consoleintr 13 cons_boot)) = [] @ [10]"
    using commit_ok [OF st(3) le] st(1,2) cons_boot_ok unfolding e fst_conv by (simp_all only: append_Nil)
qed

theorem consoleread_returns_line_witness:
  "\<exists>s1. consoleread False (\<lambda>_. True) 5 5 (fst (consoleintr 13 cons_boot)) = (CReturned 1, s1, [10])"
  using consoleread_returns_line [OF demo_newline, of 5 False] by auto

text \<open>\<open>consolewrite\<close> sends the caller's bytes in order, whatever the batches.\<close>

lemma consolewrite_sends_all:
  assumes "\<And>i m. rd i m = Some (map f [i..i + m - 1])" and "i \<le> n"
  shows "consolewrite rd n i = (n, map f [i..n - 1])"
  using assms
proof (induction rd n i rule: consolewrite.induct)
  case (1 rd n i)
  show ?case
  proof (cases "i < n")
    case False
    with "1.prems" show ?thesis by (subst consolewrite.simps) auto
  next
    case True
    define nn where "nn = (if 32 > n - i then n - i else 32)"
    have nn: "0 < nn" "i + nn \<le> n" using True by (auto simp: nn_def)
    have "consolewrite rd n (i + nn) = (n, map f [i + nn..n - 1])"
      by (rule "1.IH" [OF True nn_def "1.prems"(1)]) (rule "1.prems"(1), rule nn(2))
    moreover have "[i..n - 1] = [i..i + nn - 1] @ [i + nn..n - 1]"
      using upto_split2 [of i "i + nn - 1" "n - 1"] nn by simp
    ultimately show ?thesis using True "1.prems"(1) by (subst consolewrite.simps) (simp add: nn_def Let_def)
  qed
qed

end
