(* ===== verification/CString.thy ===== *)
theory CString
  imports Prelude
begin

text \<open>
  The string and memory routines of \<open>xv6/kernel/string.c\<close>. \<open>memmove\<close> works on memory, because its two
  ranges may overlap; the other routines take the bytes from their pointer on as a list and read
  past its end only where the C code would.
\<close>

section \<open>Operations\<close>

definition memset :: "u8 list \<Rightarrow> u8 \<Rightarrow> nat \<Rightarrow> u8 list" where
  "memset dst c n = fold (\<lambda>i d. d[i := c]) [0..<n] dst"

fun memcmp :: "u8 list \<Rightarrow> u8 list \<Rightarrow> nat \<Rightarrow> int" where
  "memcmp s1 s2 0 = 0"
| "memcmp s1 s2 (Suc n) = (if hd s1 \<noteq> hd s2 then uint (hd s1) - uint (hd s2) else memcmp (tl s1) (tl s2) n)"

type_synonym mem = "u64 \<Rightarrow> u8"

fun move_down :: "nat \<Rightarrow> u64 \<Rightarrow> u64 \<Rightarrow> mem \<Rightarrow> mem" where
  "move_down 0 d s m = m"
| "move_down (Suc n) d s m = move_down n (d - 1) (s - 1) (m(d - 1 := m (s - 1)))"

fun move_up :: "nat \<Rightarrow> u64 \<Rightarrow> u64 \<Rightarrow> mem \<Rightarrow> mem" where
  "move_up 0 d s m = m"
| "move_up (Suc n) d s m = move_up n (d + 1) (s + 1) (m(d := m s))"

definition memmove :: "u64 \<Rightarrow> u64 \<Rightarrow> u32 \<Rightarrow> mem \<Rightarrow> mem" where
  "memmove d s n m =
     (if n = 0 then m
      else if s < d \<and> s + ucast n > d then move_down (unat n) (d + ucast n) (s + ucast n) m
      else move_up (unat n) d s m)"

definition memcpy :: "u64 \<Rightarrow> u64 \<Rightarrow> u32 \<Rightarrow> mem \<Rightarrow> mem" where
  "memcpy d s n m = memmove d s n m"

fun strncmp :: "u8 list \<Rightarrow> u8 list \<Rightarrow> nat \<Rightarrow> int" where
  "strncmp p q 0 = 0"
| "strncmp p q (Suc n) =
     (if hd p \<noteq> 0 \<and> hd p = hd q then strncmp (tl p) (tl q) n else uint (hd p) - uint (hd q))"

fun strncpy :: "u8 list \<Rightarrow> u8 list \<Rightarrow> nat \<Rightarrow> u8 list" where
  "strncpy s t 0 = s"
| "strncpy s t (Suc n) =
     (if hd t \<noteq> 0 then hd t # strncpy (tl s) (tl t) n else 0 # replicate n 0 @ drop n (tl s))"

text \<open>The loop of \<open>safestrcpy\<close> with \<open>n\<close> iterations left, and the final store.\<close>

fun safe_loop :: "u8 list \<Rightarrow> u8 list \<Rightarrow> nat \<Rightarrow> u8 list" where
  "safe_loop s t 0 = 0 # tl s"
| "safe_loop s t (Suc n) = hd t # (if hd t \<noteq> 0 then safe_loop (tl s) (tl t) n else 0 # tl (tl s))"

definition safestrcpy :: "u8 list \<Rightarrow> u8 list \<Rightarrow> int \<Rightarrow> u8 list" where
  "safestrcpy s t n = (if n \<le> 0 then s else safe_loop s t (nat (n - 1)))"

fun strlen :: "u8 list \<Rightarrow> nat" where
  "strlen [] = 0"
| "strlen (c # s) = (if c \<noteq> 0 then Suc (strlen s) else 0)"

section \<open>Strings\<close>

text \<open>The string in a byte array, and the part of it a comparison of at most \<open>n\<close> bytes looks at.\<close>

definition cbytes :: "u8 list \<Rightarrow> u8 list" where
  "cbytes s = takeWhile (\<lambda>c. c \<noteq> 0) s"

lemma strlen_cbytes: "strlen s = length (cbytes s)"
  by (induction s) (auto simp: cbytes_def)

lemma cbytes_simps [simp]: "cbytes [] = []" "cbytes (c # s) = (if c = 0 then [] else c # cbytes s)"
  by (simp_all add: cbytes_def)

lemma strncmp_eq_0:
  assumes "n \<le> length p \<or> 0 \<in> set p" "n \<le> length q \<or> 0 \<in> set q"
  shows "strncmp p q n = 0 \<longleftrightarrow> cbytes (take n p) = cbytes (take n q)"
  using assms
proof (induction n arbitrary: p q)
  case (Suc n)
  obtain a p' where p: "p = a # p'" using Suc.prems(1) by (cases p) auto
  obtain b q' where q: "q = b # q'" using Suc.prems(2) by (cases q) auto
  show ?case
  proof (cases "a \<noteq> 0 \<and> a = b")
    case True
    then have "n \<le> length p' \<or> 0 \<in> set p'" "n \<le> length q' \<or> 0 \<in> set q'" using Suc.prems by (auto simp: p q)
    then show ?thesis using True Suc.IH by (simp add: p q)
  next
    case False
    then show ?thesis using word_uint_eq_iff [of a b] by (auto simp: p q)
  qed
qed simp

lemma strncpy_take:
  assumes "n \<le> length s" "n \<le> length t \<or> 0 \<in> set t"
  shows "strncpy s t n = cbytes (take n t) @ replicate (n - length (cbytes (take n t))) 0 @ drop n s"
  using assms
proof (induction n arbitrary: s t)
  case (Suc n)
  obtain b t' where t: "t = b # t'" using Suc.prems(2) by (cases t) auto
  obtain a s' where s: "s = a # s'" using Suc.prems(1) by (cases s) auto
  show ?case
  proof (cases "b = 0")
    case False
    then have "n \<le> length s'" "n \<le> length t' \<or> 0 \<in> set t'" using Suc.prems by (auto simp: s t)
    then show ?thesis using False Suc.IH by (simp add: s t)
  qed (simp add: s t)
qed simp

lemma length_strncpy: "n \<le> length s \<Longrightarrow> length (strncpy s t n) = length s"
  by (induction s t n rule: strncpy.induct) auto

lemma cbytes_replicate [simp]: "cbytes (replicate n 0) = []"
  by (cases n) simp_all

lemma cbytes_append: "cbytes (xs @ ys) = (if 0 \<in> set xs then cbytes xs else xs @ cbytes ys)"
  by (induction xs) auto

lemma cbytes_idem [simp]: "cbytes (cbytes s) = cbytes s"
  by (induction s) auto

lemma cbytes_no_0: "0 \<notin> set (cbytes s)"
  by (induction s) auto

section \<open>Properties\<close>

lemma move_up_spec:
  assumes "n \<le> 2 ^ 63" "\<forall>i j. i < j \<longrightarrow> j < n \<longrightarrow> d + of_nat i \<noteq> s + of_nat j"
  shows "move_up n d s m a = (if unat (a - d) < n then m (s + (a - d)) else m a)"
  using assms
proof (induction n arbitrary: d s m)
  case (Suc n)
  have "d + 1 + of_nat i \<noteq> s + 1 + of_nat j" if "i < j" "j < n" for i j
    using Suc.prems(2) [rule_format, of "Suc i" "Suc j"] that by (simp add: algebra_simps)
  then have IH: "move_up n (d + 1) (s + 1) m' a = (if unat (a - (d + 1)) < n then m' (s + 1 + (a - (d + 1))) else m' a)" for m'
    using Suc.IH [of "d + 1" "s + 1" m'] Suc.prems(1) by simp
  show ?case
  proof (cases "a = d")
    case True
    have "unat (- 1 :: u64) = 2 ^ 64 - 1" by (simp add: unsigned_minus_1_eq_mask mask_eq_exp_minus_1)
    then show ?thesis using True IH Suc.prems(1) by simp
  next
    case False
    then have pos: "0 < unat (a - d)" by (simp add: unat_gt_0)
    have "unat (a - d - 1) = unat (a - d) - 1" using False by (simp add: unat_minus_one)
    then have lt: "unat (a - (d + 1)) < n \<longleftrightarrow> unat (a - d) < Suc n" using pos by (auto simp: algebra_simps)
    have "d \<noteq> s + (a - d)" if "unat (a - d) < Suc n"
      using Suc.prems(2) [rule_format, of 0 "unat (a - d)"] pos that by simp
    then show ?thesis using IH [of "m(d := m s)"] lt False by (auto simp: algebra_simps)
  qed
qed simp

lemma move_down_spec:
  assumes "n \<le> 2 ^ 63" "\<forall>i j. i < j \<longrightarrow> j < n \<longrightarrow> d + of_nat j \<noteq> s + of_nat i"
  shows "move_down n (d + of_nat n) (s + of_nat n) m a = (if unat (a - d) < n then m (s + (a - d)) else m a)"
  using assms
proof (induction n arbitrary: m)
  case (Suc n)
  have IH: "move_down n (d + of_nat n) (s + of_nat n) m' a = (if unat (a - d) < n then m' (s + (a - d)) else m' a)" for m'
    using Suc.IH [of m'] Suc.prems by simp
  have n: "unat (of_nat n :: u64) = n" using Suc.prems(1) by (simp add: unat_of_nat)
  have top: "unat (a - d) = n \<longleftrightarrow> a = d + of_nat n"
  proof
    assume "unat (a - d) = n"
    then have "a - d = of_nat n" using n by (simp add: word_unat_eq_iff)
    then show "a = d + of_nat n" by (simp add: algebra_simps)
  qed (use n in simp)
  have ne: "d + of_nat n \<noteq> s + (a - d)" if "unat (a - d) < n"
    using Suc.prems(2) [rule_format, of "unat (a - d)" n] that by simp
  have "move_down (Suc n) (d + of_nat (Suc n)) (s + of_nat (Suc n)) m a
      = move_down n (d + of_nat n) (s + of_nat n) (m(d + of_nat n := m (s + of_nat n))) a" by (simp add: algebra_simps)
  also have "\<dots> = (if unat (a - d) < Suc n then m (s + (a - d)) else m a)"
    unfolding IH using top ne by (auto simp: less_Suc_eq)
  finally show ?case .
qed simp

lemma ranges_apart:
  fixes d s :: u64
  assumes "unat s + n < 2 ^ 64" "unat d + n < 2 ^ 64" "i < n" "j < n"
  shows "d + of_nat i = s + of_nat j \<longleftrightarrow> unat d + i = unat s + j"
proof -
  have u: "unat (x + of_nat k) = unat x + k" if "unat x + n < 2 ^ 64" "k < n" for x :: u64 and k
    using that by (simp add: unat_word_ariths unat_of_nat)
  show ?thesis using u [OF assms(2,3)] u [OF assms(1,4)] by (simp add: word_unat_eq_iff)
qed

text \<open>\<open>memmove\<close> copies correctly whether or not its ranges overlap: every byte of the destination range gets
  the value the corresponding source byte had before the call, and no other byte changes.\<close>

theorem memmove_copies:
  assumes "unat s + unat n < 2 ^ 64" and "unat d + unat n < 2 ^ 64"
  shows "memmove d s n m a = (if unat (a - d) < unat n then m (s + (a - d)) else m a)"
proof -
  define k where "k = unat n"
  have n: "ucast n = (of_nat k :: u64)" "k \<le> 2 ^ 63" using unsigned_less [of n, where ?'a = nat] by (simp_all add: k_def)
  have as: "unat s + k < 2 ^ 64" "unat d + k < 2 ^ 64" using assms by (simp_all add: k_def)
  have u: "unat (x + of_nat k) = unat x + k" if "unat x + k < 2 ^ 64" for x :: u64
    using that n(2) by (simp add: unat_word_ariths unat_of_nat)
  have lt: "s < d \<longleftrightarrow> unat s < unat d" "d < s + of_nat k \<longleftrightarrow> unat d < unat s + k" using u [OF as(1)] by (simp_all add: word_less_nat_alt)
  have zero: "n = 0 \<longleftrightarrow> k = 0" by (simp add: k_def unat_eq_0)
  show ?thesis
  proof (cases "s < d \<and> s + of_nat k > d")
    case True
    have "d + of_nat j \<noteq> s + of_nat i" if "i < j" "j < k" for i j
      using ranges_apart [OF as, of j i] that True lt by simp
    then show ?thesis using True zero move_down_spec [OF n(2), of d s m a] unfolding memmove_def n(1) k_def [symmetric] by simp
  next
    case False
    have "d + of_nat i \<noteq> s + of_nat j" if "i < j" "j < k" for i j
      using ranges_apart [OF as, of i j] that False lt by auto
    then show ?thesis using False zero move_up_spec [OF n(2), of d s m a] unfolding memmove_def n(1) k_def [symmetric] by auto
  qed
qed

theorem memmove_copies_witness:
  "memmove 102 100 4 (\<lambda>a. ucast a) 103 = 101 \<and> memmove 102 100 4 (\<lambda>a. ucast a) 106 = 106"
  using memmove_copies [of 100 4 102 "\<lambda>a. ucast a" 103] memmove_copies [of 100 4 102 "\<lambda>a. ucast a" 106] by simp

end
