(* ===== verification/Bio.thy ===== *)
theory Bio
  imports Memlayout
begin

text \<open>
  Sleep locks (\<open>xv6/kernel/sleeplock.c\<close>) and the buffer cache (\<open>xv6/kernel/bio.c\<close>): the buffers with the
  doubly linked list through them, over a disk of blocks that keeps the history of its writes. The head
  of the list is the entry after the last buffer. The operations are those of one process with the
  others at rest: finding a lock held means waiting for ever, which is the panic value \<open>asleep\<close>,
  and waking the others has no effect.
\<close>

section \<open>Sleep locks\<close>

record sleeplock =
  sl_locked :: bool
  sl_pid :: int

definition initsleeplock :: sleeplock where
  "initsleeplock = \<lparr>sl_locked = False, sl_pid = 0\<rparr>"

definition acquiresleep :: "int \<Rightarrow> sleeplock \<Rightarrow> sleeplock res" where
  "acquiresleep pid lk = (if sl_locked lk then Panic ''asleep'' else Ok (lk\<lparr>sl_locked := True, sl_pid := pid\<rparr>))"

definition releasesleep :: "sleeplock \<Rightarrow> sleeplock" where
  "releasesleep lk = lk\<lparr>sl_locked := False, sl_pid := 0\<rparr>"

definition holdingsleep :: "int \<Rightarrow> sleeplock \<Rightarrow> bool" where
  "holdingsleep pid lk \<longleftrightarrow> sl_locked lk \<and> sl_pid lk = pid"

section \<open>Buffers and the disk\<close>

type_synonym block = "u8 list"

definition BSIZE :: nat where "BSIZE = 1024"

record buf =
  bf_valid :: bool
  bf_dev :: u32
  bf_blockno :: u32
  bf_lock :: sleeplock
  bf_refcnt :: u32
  bf_prev :: nat
  bf_next :: nat
  bf_data :: block

record bio =
  bc_buf :: "buf list"
  bc_disk :: "u32 \<Rightarrow> block"
  bc_writes :: "(u32 \<times> block) list"

abbreviation head :: nat where "head \<equiv> NBUF"

definition upd :: "nat \<Rightarrow> (buf \<Rightarrow> buf) \<Rightarrow> bio \<Rightarrow> bio" where
  "upd i f s = s\<lparr>bc_buf := (bc_buf s)[i := f (bc_buf s ! i)]\<rparr>"

definition set_next :: "nat \<Rightarrow> nat \<Rightarrow> bio \<Rightarrow> bio" where
  "set_next i j = upd i (\<lambda>b. b\<lparr>bf_next := j\<rparr>)"

definition set_prev :: "nat \<Rightarrow> nat \<Rightarrow> bio \<Rightarrow> bio" where
  "set_prev i j = upd i (\<lambda>b. b\<lparr>bf_prev := j\<rparr>)"

definition nxt :: "bio \<Rightarrow> nat \<Rightarrow> nat" where "nxt s i = bf_next (bc_buf s ! i)"
definition prv :: "bio \<Rightarrow> nat \<Rightarrow> nat" where "prv s i = bf_prev (bc_buf s ! i)"

text \<open>\<open>virtio_disk_rw\<close>: a read fills the buffer, a write stores it and is recorded.\<close>

definition virtio_disk_rw :: "nat \<Rightarrow> bool \<Rightarrow> bio \<Rightarrow> bio" where
  "virtio_disk_rw i wr s =
     (let b = bc_buf s ! i in
      if wr then s\<lparr>bc_disk := (bc_disk s)(bf_blockno b := bf_data b), bc_writes := bc_writes s @ [(bf_blockno b, bf_data b)]\<rparr>
      else upd i (\<lambda>b. b\<lparr>bf_data := bc_disk s (bf_blockno b)\<rparr>) s)"

section \<open>The operations\<close>

definition link_front :: "nat \<Rightarrow> bio \<Rightarrow> bio" where
  "link_front b s0 =
     (let s1 = set_next b (nxt s0 head) s0;
          s2 = set_prev b head s1;
          s3 = set_prev (nxt s2 head) b s2
      in set_next head b s3)"

definition binit :: "bio \<Rightarrow> bio" where
  "binit s =
     fold (\<lambda>b s. link_front b (upd b (\<lambda>x. x\<lparr>bf_lock := initsleeplock\<rparr>) s)) [0..<NBUF]
       (set_next head head (set_prev head head s))"

text \<open>A walk along the list until a buffer satisfies \<open>P\<close> or the head is reached again.\<close>

fun scan :: "nat \<Rightarrow> (bio \<Rightarrow> nat \<Rightarrow> nat) \<Rightarrow> (buf \<Rightarrow> bool) \<Rightarrow> bio \<Rightarrow> nat \<Rightarrow> nat option res" where
  "scan 0 dir P s b = Panic ''loop''"
| "scan (Suc n) dir P s b =
     (if b = head then Ok None
      else if P (bc_buf s ! b) then Ok (Some b)
      else scan n dir P s (dir s b))"

definition lock_buf :: "int \<Rightarrow> nat \<Rightarrow> bio \<Rightarrow> (nat \<times> bio) res" where
  "lock_buf pid i s =
     bind_res (acquiresleep pid (bf_lock (bc_buf s ! i))) (\<lambda>l. Ok (i, upd i (\<lambda>b. b\<lparr>bf_lock := l\<rparr>) s))"

definition bget :: "int \<Rightarrow> u32 \<Rightarrow> u32 \<Rightarrow> bio \<Rightarrow> (nat \<times> bio) res" where
  "bget pid dev blockno s =
     bind_res (scan (NBUF + 1) nxt (\<lambda>b. bf_dev b = dev \<and> bf_blockno b = blockno) s (nxt s head)) (\<lambda>r.
       case r of
         Some b \<Rightarrow> lock_buf pid b (upd b (\<lambda>x. x\<lparr>bf_refcnt := bf_refcnt x + 1\<rparr>) s)
       | None \<Rightarrow>
           bind_res (scan (NBUF + 1) prv (\<lambda>b. bf_refcnt b = 0) s (prv s head)) (\<lambda>r.
             case r of
               Some b \<Rightarrow>
                 lock_buf pid b
                   (upd b (\<lambda>x. x\<lparr>bf_dev := dev, bf_blockno := blockno, bf_valid := False, bf_refcnt := 1\<rparr>) s)
             | None \<Rightarrow> Panic ''bget: no buffers''))"

definition bread :: "int \<Rightarrow> u32 \<Rightarrow> u32 \<Rightarrow> bio \<Rightarrow> (nat \<times> bio) res" where
  "bread pid dev blockno s =
     bind_res (bget pid dev blockno s) (\<lambda>(b, s1).
       Ok (b, if \<not> bf_valid (bc_buf s1 ! b)
              then upd b (\<lambda>x. x\<lparr>bf_valid := True\<rparr>) (virtio_disk_rw b False s1) else s1))"

definition bwrite :: "int \<Rightarrow> nat \<Rightarrow> bio \<Rightarrow> bio res" where
  "bwrite pid b s =
     (if \<not> holdingsleep pid (bf_lock (bc_buf s ! b)) then Panic ''bwrite'' else Ok (virtio_disk_rw b True s))"

definition unlink :: "nat \<Rightarrow> bio \<Rightarrow> bio" where
  "unlink b s = (let s1 = set_prev (nxt s b) (prv s b) s in set_next (prv s1 b) (nxt s1 b) s1)"

definition brelse :: "int \<Rightarrow> nat \<Rightarrow> bio \<Rightarrow> bio res" where
  "brelse pid b s =
     (if \<not> holdingsleep pid (bf_lock (bc_buf s ! b)) then Panic ''brelse''
      else
        (let s1 = upd b (\<lambda>x. x\<lparr>bf_lock := releasesleep (bf_lock x)\<rparr>) s;
             s2 = upd b (\<lambda>x. x\<lparr>bf_refcnt := bf_refcnt x - 1\<rparr>) s1
         in Ok (if bf_refcnt (bc_buf s2 ! b) = 0 then link_front b (unlink b s2) else s2)))"

definition bpin :: "nat \<Rightarrow> bio \<Rightarrow> bio" where
  "bpin b = upd b (\<lambda>x. x\<lparr>bf_refcnt := bf_refcnt x + 1\<rparr>)"

definition bunpin :: "nat \<Rightarrow> bio \<Rightarrow> bio" where
  "bunpin b = upd b (\<lambda>x. x\<lparr>bf_refcnt := bf_refcnt x - 1\<rparr>)"

section \<open>The list of buffers\<close>

fun linked :: "(nat \<Rightarrow> nat) \<Rightarrow> nat \<Rightarrow> nat list \<Rightarrow> nat \<Rightarrow> bool" where
  "linked nx a [] z \<longleftrightarrow> nx a = z"
| "linked nx a (x # xs) z \<longleftrightarrow> nx a = x \<and> linked nx x xs z"

lemma linked_append: "linked nx a (xs @ y # ys) z \<longleftrightarrow> linked nx a xs y \<and> linked nx y ys z"
  by (induction xs arbitrary: a) auto

lemma linked_cong: "(\<And>x. x \<in> set (a # xs) \<Longrightarrow> nx x = ny x) \<Longrightarrow> linked nx a xs z = linked ny a xs z"
  by (induction xs arbitrary: a) auto

lemma linked_last: "linked nx a xs z \<Longrightarrow> nx (last (a # xs)) = z"
  by (induction xs arbitrary: a) auto

lemma linked_redirect:
  "linked nx a xs z \<Longrightarrow> distinct (a # xs) \<Longrightarrow> linked (nx(last (a # xs) := y)) a xs y"
proof (induction xs arbitrary: a)
  case (Cons x xs)
  have "linked (nx(last (x # xs) := y)) x xs y" by (rule Cons.IH) (use Cons.prems in simp_all)
  moreover have "a \<noteq> last (x # xs)" using Cons.prems(2) by (metis distinct.simps(2) last_in_set list.distinct(1))
  moreover have "last (a # x # xs) = last (x # xs)" by simp
  moreover have "nx a = x" using Cons.prems(1) by simp
  ultimately show ?case by (simp only: linked.simps fun_upd_other simp_thms)
qed simp

lemma linked_remove:
  assumes "linked nx a (xs @ y # ys) z" "distinct (a # xs @ y # ys)"
  shows "linked (nx(last (a # xs) := nx y)) a (xs @ ys) z"
proof -
  have l: "linked nx a xs y" "linked nx y ys z" using assms(1) by (simp_all add: linked_append)
  have r: "linked (nx(last (a # xs) := nx y)) a xs (nx y)" using l(1) assms(2) by (intro linked_redirect) auto
  have nl: "last (a # xs) \<notin> set (y # ys)" using assms(2) last_in_set [of "a # xs"] by auto
  show ?thesis
  proof (cases ys)
    case Nil
    then show ?thesis using r l(2) by simp
  next
    case (Cons u us)
    then have "nx y = u" "linked nx u us z" using l(2) by simp_all
    moreover have "linked (nx(last (a # xs) := nx y)) u us z = linked nx u us z"
      using nl Cons by (intro linked_cong) auto
    ultimately show ?thesis using r Cons by (simp add: linked_append)
  qed
qed

definition dll :: "bio \<Rightarrow> nat list \<Rightarrow> bool" where
  "dll s xs \<longleftrightarrow> linked (nxt s) head xs head \<and> linked (prv s) head (rev xs) head \<and> distinct (head # xs)"

lemma upd_other:
  assumes "length (bc_buf s) = NBUF + 1" "i \<le> NBUF"
  shows "bc_buf (upd i f s) ! j = (if j = i then f (bc_buf s ! i) else bc_buf s ! j)"
    "length (bc_buf (upd i f s)) = NBUF + 1"
  using assms by (auto simp: upd_def nth_list_update)

lemma nxt_prv_upd:
  assumes "length (bc_buf s) = NBUF + 1" "i \<le> NBUF"
  shows "nxt (set_next i j s) = (nxt s)(i := j)" "prv (set_next i j s) = prv s"
    "nxt (set_prev i j s) = nxt s" "prv (set_prev i j s) = (prv s)(i := j)"
    "length (bc_buf (set_next i j s)) = NBUF + 1" "length (bc_buf (set_prev i j s)) = NBUF + 1"
  using assms by (auto simp: set_next_def set_prev_def nxt_def prv_def upd_other fun_eq_iff)

lemma link_front_dll:
  assumes len: "length (bc_buf s) = NBUF + 1" and d: "dll s xs" and i: "i < NBUF" "i \<notin> set xs" and le: "set xs \<subseteq> {..<NBUF}"
  shows "dll (link_front i s) (i # xs)"
proof -
  let ?r = "nxt s head"
  have r: "?r = hd (xs @ [head])" using d by (cases xs) (auto simp: dll_def)
  have rle: "?r \<le> NBUF" "?r \<noteq> i" unfolding r using le i by (cases xs; auto)+
  have nx: "nxt (link_front i s) = (nxt s)(i := ?r, head := i)" and pv: "prv (link_front i s) = (prv s)(i := head, ?r := i)"
    using len i(1) rle by (simp_all add: link_front_def Let_def nxt_prv_upd)
  have hi: "head \<noteq> i" using i(1) by simp
  have "linked ((nxt s)(i := ?r, head := i)) head (i # xs) head"
  proof (cases xs)
    case Nil
    then show ?thesis using d hi r by (simp add: dll_def)
  next
    case (Cons x ys)
    have "linked ((nxt s)(i := ?r, head := i)) x ys head = linked (nxt s) x ys head"
      using d i(2) Cons by (intro linked_cong) (auto simp: dll_def)
    then show ?thesis using d hi r Cons by (simp add: dll_def)
  qed
  moreover have "linked ((prv s)(i := head, ?r := i)) head (rev (i # xs)) head"
  proof -
    have lst: "last (head # rev xs) = ?r" unfolding r by (cases xs) simp_all
    have "linked (prv s) head (rev xs) head" "distinct (head # rev xs)" using d by (simp_all add: dll_def)
    then have "linked ((prv s)(?r := i)) head (rev xs) i" using linked_redirect [of "prv s" head "rev xs" head i] lst by simp
    moreover have "linked ((prv s)(i := head, ?r := i)) head (rev xs) i = linked ((prv s)(?r := i)) head (rev xs) i"
      using i hi by (intro linked_cong) auto
    moreover have "((prv s)(i := head, ?r := i)) i = head" using rle by simp
    ultimately show ?thesis by (simp add: linked_append)
  qed
  ultimately show ?thesis using d i hi nx pv by (simp add: dll_def)
qed

lemma dll_neighbours:
  assumes "dll s (xs @ i # ys)"
  shows "prv s i = last (head # xs)" "nxt s i = last (head # rev ys)"
proof -
  have l: "linked (prv s) i (rev xs) head" "linked (nxt s) i ys head" using assms by (simp_all add: dll_def linked_append)
  show "prv s i = last (head # xs)" using l(1) by (cases xs rule: rev_cases) simp_all
  show "nxt s i = last (head # rev ys)" using l(2) by (cases ys) simp_all
qed

lemma unlink_dll:
  assumes len: "length (bc_buf s) = NBUF + 1" and d: "dll s (xs @ i # ys)" and le: "set (xs @ i # ys) \<subseteq> {..<NBUF}"
  shows "dll (unlink i s) (xs @ ys)"
proof -
  have dis: "distinct (head # xs @ i # ys)" "distinct (head # rev ys @ i # rev xs)" using d by (auto simp: dll_def)
  have nl: "linked (nxt s) head (xs @ i # ys) head" "linked (prv s) head (rev ys @ i # rev xs) head" using d by (simp_all add: dll_def)
  note p = dll_neighbours(1) [OF d] and n = dll_neighbours(2) [OF d]
  have pl: "prv s i \<le> NBUF" "nxt s i \<le> NBUF" "i < NBUF" unfolding p n using le last_in_set [of "head # xs"] last_in_set [of "head # rev ys"] by auto
  have "nxt (unlink i s) = (nxt s)(prv s i := nxt s i)"
  proof -
    have "prv (set_prev (nxt s i) (prv s i) s) i = prv s i" using len pl by (simp add: nxt_prv_upd)
    then show ?thesis using len pl by (simp add: unlink_def Let_def nxt_prv_upd)
  qed
  moreover have "prv (unlink i s) = (prv s)(nxt s i := prv s i)"
    using len pl by (simp add: unlink_def Let_def nxt_prv_upd)
  moreover have "linked ((nxt s)(prv s i := nxt s i)) head (xs @ ys) head"
    using linked_remove [OF nl(1) dis(1)] p by simp
  moreover have "linked ((prv s)(nxt s i := prv s i)) head (rev ys @ rev xs) head"
    using linked_remove [OF nl(2) dis(2)] n by simp
  ultimately show ?thesis using dis(1) by (simp add: dll_def)
qed

lemma scan_linked:
  assumes "linked (dir s) a xs head" "head \<notin> set xs" "length xs < n"
  shows "scan n dir P s (dir s a) = Ok (find (\<lambda>i. P (bc_buf s ! i)) xs)"
  using assms
proof (induction xs arbitrary: a n)
  case Nil
  then show ?case by (cases n) auto
next
  case (Cons x xs)
  then show ?case by (cases n) auto
qed


section \<open>What the cache holds\<close>

definition cached :: "u32 \<Rightarrow> bio \<Rightarrow> u32 \<Rightarrow> nat option" where
  "cached dev s b = find (\<lambda>i. bf_dev (bc_buf s ! i) = dev \<and> bf_blockno (bc_buf s ! i) = b) [0..<NBUF]"

text \<open>The current contents of a block, how often it is referenced, and whether its buffer is locked.\<close>

definition view :: "u32 \<Rightarrow> bio \<Rightarrow> u32 \<Rightarrow> block" where
  "view dev s b = (case cached dev s b of None \<Rightarrow> bc_disk s b | Some i \<Rightarrow> if bf_valid (bc_buf s ! i) then bf_data (bc_buf s ! i) else bc_disk s b)"

definition rc :: "u32 \<Rightarrow> bio \<Rightarrow> u32 \<Rightarrow> nat" where
  "rc dev s b = (case cached dev s b of None \<Rightarrow> 0 | Some i \<Rightarrow> unat (bf_refcnt (bc_buf s ! i)))"

definition held :: "u32 \<Rightarrow> bio \<Rightarrow> u32 \<Rightarrow> bool" where
  "held dev s b = (case cached dev s b of None \<Rightarrow> False | Some i \<Rightarrow> sl_locked (bf_lock (bc_buf s ! i)))"

text \<open>
  The invariant: the buffers form one list; a block is in at most one buffer; a buffer nobody references
  is unlocked and, when valid, agrees with the disk.
\<close>

definition bio_inv :: "u32 \<Rightarrow> bio \<Rightarrow> bool" where
  "bio_inv dev s \<longleftrightarrow> length (bc_buf s) = NBUF + 1
     \<and> (\<exists>xs. dll s xs \<and> set xs = {..<NBUF})
     \<and> (\<forall>i < NBUF. \<forall>j < NBUF. bf_dev (bc_buf s ! i) = dev \<longrightarrow> bf_dev (bc_buf s ! j) = dev
          \<longrightarrow> bf_blockno (bc_buf s ! i) = bf_blockno (bc_buf s ! j) \<longrightarrow> i = j)
     \<and> (\<forall>i < NBUF. bf_valid (bc_buf s ! i) \<or> bf_refcnt (bc_buf s ! i) \<noteq> 0 \<longrightarrow> bf_dev (bc_buf s ! i) = dev)
     \<and> (\<forall>i < NBUF. bf_refcnt (bc_buf s ! i) = 0 \<longrightarrow> \<not> sl_locked (bf_lock (bc_buf s ! i))
          \<and> (bf_valid (bc_buf s ! i) \<longrightarrow> bf_data (bc_buf s ! i) = bc_disk s (bf_blockno (bc_buf s ! i))))"

lemma bio_invD:
  assumes "bio_inv dev s"
  shows "length (bc_buf s) = NBUF + 1" "\<exists>xs. dll s xs \<and> set xs = {..<NBUF}"
    "\<And>i j. i < NBUF \<Longrightarrow> j < NBUF \<Longrightarrow> bf_dev (bc_buf s ! i) = dev \<Longrightarrow> bf_dev (bc_buf s ! j) = dev
       \<Longrightarrow> bf_blockno (bc_buf s ! i) = bf_blockno (bc_buf s ! j) \<Longrightarrow> i = j"
    "\<And>i. i < NBUF \<Longrightarrow> bf_valid (bc_buf s ! i) \<or> bf_refcnt (bc_buf s ! i) \<noteq> 0 \<Longrightarrow> bf_dev (bc_buf s ! i) = dev"
    "\<And>i. i < NBUF \<Longrightarrow> bf_refcnt (bc_buf s ! i) = 0 \<Longrightarrow> \<not> sl_locked (bf_lock (bc_buf s ! i))"
    "\<And>i. i < NBUF \<Longrightarrow> bf_refcnt (bc_buf s ! i) = 0 \<Longrightarrow> bf_valid (bc_buf s ! i)
       \<Longrightarrow> bf_data (bc_buf s ! i) = bc_disk s (bf_blockno (bc_buf s ! i))"
  using assms unfolding bio_inv_def by blast+

lemma find_SomeD: "find P xs = Some x \<Longrightarrow> x \<in> set xs \<and> P x"
  by (induction xs) (auto split: if_splits)

lemma cached_Some:
  assumes "bio_inv dev s"
  shows "cached dev s b = Some i \<longleftrightarrow> i < NBUF \<and> bf_dev (bc_buf s ! i) = dev \<and> bf_blockno (bc_buf s ! i) = b"
proof
  assume "cached dev s b = Some i"
  then show "i < NBUF \<and> bf_dev (bc_buf s ! i) = dev \<and> bf_blockno (bc_buf s ! i) = b"
    unfolding cached_def using find_SomeD by fastforce
next
  assume i: "i < NBUF \<and> bf_dev (bc_buf s ! i) = dev \<and> bf_blockno (bc_buf s ! i) = b"
  then obtain j where j: "cached dev s b = Some j"
    unfolding cached_def by (cases "find (\<lambda>i. bf_dev (bc_buf s ! i) = dev \<and> bf_blockno (bc_buf s ! i) = b) [0..<NBUF]") (auto simp: find_None_iff)
  then have "j < NBUF" "bf_dev (bc_buf s ! j) = dev" "bf_blockno (bc_buf s ! j) = b" unfolding cached_def using find_SomeD by fastforce+
  then have "i = j" using bio_invD(3) [OF assms, of i j] i by simp
  with j show "cached dev s b = Some i" by simp
qed

text \<open>Changing one buffer, its list pointers apart.\<close>

lemma dll_upd:
  assumes "length (bc_buf s) = NBUF + 1" "i < NBUF" "\<And>b. bf_next (f b) = bf_next b" "\<And>b. bf_prev (f b) = bf_prev b"
  shows "dll (upd i f s) = dll s"
proof -
  have "nxt (upd i f s) = nxt s" "prv (upd i f s) = prv s"
    using assms upd_other [OF assms(1), of i f] by (auto simp: nxt_def prv_def fun_eq_iff)
  then show ?thesis by (intro ext) (simp only: dll_def)
qed

lemma scan_find:
  assumes "bio_inv dev s"
  obtains xs where "set xs = {..<NBUF}"
    "\<And>P. scan (NBUF + 1) nxt P s (nxt s head) = Ok (find (\<lambda>i. P (bc_buf s ! i)) xs)"
    "\<And>P. scan (NBUF + 1) prv P s (prv s head) = Ok (find (\<lambda>i. P (bc_buf s ! i)) (rev xs))"
proof -
  obtain xs where xs: "dll s xs" "set xs = {..<NBUF}" using bio_invD(2) [OF assms] by blast
  have "distinct xs" "head \<notin> set xs" using xs by (simp_all add: dll_def)
  then have "length xs = NBUF" using xs(2) distinct_card [of xs] by simp
  then have lt: "length xs < NBUF + 1" "length (rev xs) < NBUF + 1" "head \<notin> set (rev xs)" using \<open>head \<notin> set xs\<close> by simp_all
  have l: "linked (nxt s) head xs head" "linked (prv s) head (rev xs) head" using xs(1) by (simp_all add: dll_def)
  show ?thesis using that [OF xs(2) scan_linked [of nxt s, OF l(1) \<open>head \<notin> set xs\<close> lt(1)] scan_linked [of prv s, OF l(2) lt(3,2)]] .
qed


text \<open>Replacing one buffer by another for a block no other buffer holds.\<close>

lemma replace_buf:
  assumes inv: "bio_inv dev s" and i: "i < NBUF" and b: "bf_dev b = dev" "bf_next b = nxt s i" "bf_prev b = prv s i"
    and clean: "bf_refcnt b = 0 \<Longrightarrow> \<not> sl_locked (bf_lock b) \<and> (bf_valid b \<longrightarrow> bf_data b = bc_disk s (bf_blockno b))"
    and uniq: "\<And>j. j < NBUF \<Longrightarrow> j \<noteq> i \<Longrightarrow> bf_dev (bc_buf s ! j) = dev \<Longrightarrow> bf_blockno (bc_buf s ! j) \<noteq> bf_blockno b"
  defines "s' \<equiv> upd i (\<lambda>_. b) s"
  shows "bio_inv dev s'"
    "\<And>c. cached dev s' c = (if c = bf_blockno b then Some i else if cached dev s c = Some i then None else cached dev s c)"
    "\<And>j. bc_buf s' ! j = (if j = i then b else bc_buf s ! j)"
proof -
  have len: "length (bc_buf s) = NBUF + 1" by (rule bio_invD(1) [OF inv])
  show u: "bc_buf s' ! j = (if j = i then b else bc_buf s ! j)" for j
    using upd_other(1) [OF len, of i "\<lambda>_. b" j] i by (simp add: s'_def)
  have "nxt s' = nxt s" "prv s' = prv s" using b(2,3) u by (auto simp: fun_eq_iff nxt_def prv_def)
  then have d: "dll s' = dll s" by (intro ext) (simp only: dll_def)
  have dk: "bc_disk s' = bc_disk s" "length (bc_buf s') = NBUF + 1" using len i by (simp_all add: s'_def upd_def)
  show inv': "bio_inv dev s'"
    unfolding bio_inv_def dk(1) d
  proof (intro conjI allI impI)
    fix j k assume "j < NBUF" "k < NBUF" "bf_dev (bc_buf s' ! j) = dev" "bf_dev (bc_buf s' ! k) = dev"
      "bf_blockno (bc_buf s' ! j) = bf_blockno (bc_buf s' ! k)"
    then show "j = k" using uniq [of j] uniq [of k] bio_invD(3) [OF inv, of j k] unfolding u by (auto split: if_splits)
  next
    fix j assume "j < NBUF" "bf_valid (bc_buf s' ! j) \<or> bf_refcnt (bc_buf s' ! j) \<noteq> 0"
    then show "bf_dev (bc_buf s' ! j) = dev" using b(1) bio_invD(4) [OF inv, of j] unfolding u by (auto split: if_splits)
  next
    fix j assume j: "j < NBUF" "bf_refcnt (bc_buf s' ! j) = 0"
    then show "\<not> sl_locked (bf_lock (bc_buf s' ! j))" using clean bio_invD(5) [OF inv, of j] unfolding u by (auto split: if_splits)
    assume "bf_valid (bc_buf s' ! j)"
    with j show "bf_data (bc_buf s' ! j) = bc_disk s (bf_blockno (bc_buf s' ! j))"
      using clean bio_invD(6) [OF inv, of j] unfolding u by (auto split: if_splits)
  qed (use dk bio_invD(2) [OF inv] in auto)
  show "cached dev s' c = (if c = bf_blockno b then Some i else if cached dev s c = Some i then None else cached dev s c)" for c
  proof (cases "c = bf_blockno b")
    case True
    then show ?thesis using cached_Some [OF inv', of c i] i b(1) u by simp
  next
    case False
    show ?thesis
    proof (cases "cached dev s c")
      case None
      have "cached dev s' c \<noteq> Some j" for j
        using cached_Some [OF inv', of c j] cached_Some [OF inv, of c j] None False u by (auto split: if_splits)
      then have "cached dev s' c = None" by (cases "cached dev s' c") auto
      then show ?thesis using None False by simp
    next
      case (Some j)
      show ?thesis
      proof (cases "j = i")
        case True
        have "cached dev s' c \<noteq> Some k" for k
          using cached_Some [OF inv', of c k] cached_Some [OF inv, of c k] Some True False u by (auto split: if_splits)
        then have "cached dev s' c = None" by (cases "cached dev s' c") auto
        then show ?thesis using Some True False by simp
      next
        case ne: False
        then have "cached dev s' c = Some j" using cached_Some [OF inv', of c j] cached_Some [OF inv, of c j] Some u by simp
        then show ?thesis using Some ne False by simp
      qed
    qed
  qed
qed

text \<open>The same buffers in another order of the list.\<close>

definition core :: "buf \<Rightarrow> buf" where "core b = b\<lparr>bf_prev := 0, bf_next := 0\<rparr>"

lemma core_fields: "core b = core b' \<Longrightarrow> bf_valid b = bf_valid b' \<and> bf_dev b = bf_dev b' \<and> bf_blockno b = bf_blockno b'
  \<and> bf_lock b = bf_lock b' \<and> bf_refcnt b = bf_refcnt b' \<and> bf_data b = bf_data b'"
  by (cases b; cases b') (simp add: core_def)

lemma relink:
  assumes inv: "bio_inv dev s" and s': "length (bc_buf s') = NBUF + 1" "\<exists>xs. dll s' xs \<and> set xs = {..<NBUF}" "bc_disk s' = bc_disk s"
    and same: "\<And>j. j < NBUF \<Longrightarrow> core (bc_buf s' ! j) = core (bc_buf s ! j)"
  shows "bio_inv dev s'" "cached dev s' = cached dev s" "view dev s' = view dev s" "rc dev s' = rc dev s" "held dev s' = held dev s"
proof -
  note c = same [THEN core_fields]
  show inv': "bio_inv dev s'" using inv s' c unfolding bio_inv_def by simp
  show ca: "cached dev s' = cached dev s"
  proof
    fix b
    have "cached dev s' b = Some i \<longleftrightarrow> cached dev s b = Some i" for i
      using cached_Some [OF inv', of b i] cached_Some [OF inv, of b i] c [of i] by auto
    then show "cached dev s' b = cached dev s b" by (metis not_Some_eq)
  qed
  have lt: "i < NBUF" if "cached dev s b = Some i" for b i using that cached_Some [OF inv] by simp
  show "view dev s' = view dev s" "rc dev s' = rc dev s" "held dev s' = held dev s"
    using c lt s'(3) by (auto simp: fun_eq_iff view_def rc_def held_def ca split: option.split)
qed

lemma core_links:
  assumes "length (bc_buf s) = NBUF + 1" "i \<le> NBUF"
  shows "core (bc_buf (set_next i j s) ! k) = core (bc_buf s ! k)" "core (bc_buf (set_prev i j s) ! k) = core (bc_buf s ! k)"
    "bc_disk (set_next i j s) = bc_disk s" "bc_disk (set_prev i j s) = bc_disk s" "bc_writes (set_next i j s) = bc_writes s" "bc_writes (set_prev i j s) = bc_writes s"
  using assms by (auto simp: set_next_def set_prev_def upd_other core_def upd_def nth_list_update)

lemma move_front:
  assumes inv: "bio_inv dev s" and i: "i < NBUF"
  defines "s' \<equiv> link_front i (unlink i s)"
  shows "bio_inv dev s'" "view dev s' = view dev s" "rc dev s' = rc dev s" "held dev s' = held dev s"
    "bc_disk s' = bc_disk s" "bc_writes s' = bc_writes s" "cached dev s' = cached dev s"
    "\<And>k. core (bc_buf s' ! k) = core (bc_buf s ! k)"
proof -
  have len: "length (bc_buf s) = NBUF + 1" by (rule bio_invD(1) [OF inv])
  obtain xs where xs: "dll s xs" "set xs = {..<NBUF}" using bio_invD(2) [OF inv] by blast
  then obtain ys zs where sp: "xs = ys @ i # zs" using i by (metis lessThan_iff split_list)
  have le: "set (ys @ i # zs) \<subseteq> {..<NBUF}" using xs(2) sp by simp
  have dis: "distinct (head # ys @ i # zs)" using xs(1) sp by (simp add: dll_def)
  note u = unlink_dll [OF len xs(1) [unfolded sp] le]
  have pn: "prv s i \<le> NBUF" "nxt s i \<le> NBUF"
  proof -
    have "last (head # ys) \<in> insert head (set ys)" "last (head # rev zs) \<in> insert head (set zs)"
      using last_in_set [of "head # ys"] last_in_set [of "head # rev zs"] by simp_all
    then show "prv s i \<le> NBUF" "nxt s i \<le> NBUF" unfolding dll_neighbours [OF xs(1) [unfolded sp]] using le by auto
  qed
  let ?u = "unlink i s"
  have p1: "prv (set_prev (nxt s i) (prv s i) s) i = prv s i"
    using len pn by (simp add: nxt_prv_upd)
  have ul: "length (bc_buf ?u) = NBUF + 1" "bc_disk ?u = bc_disk s" "bc_writes ?u = bc_writes s" "\<And>k. core (bc_buf ?u ! k) = core (bc_buf s ! k)"
    using len pn p1 by (simp_all add: unlink_def Let_def nxt_prv_upd core_links)
  have dl: "dll s' (i # ys @ zs)" unfolding s'_def by (rule link_front_dll [OF ul(1) u i]) (use dis le in auto)
  have h: "nxt ?u head \<le> NBUF"
  proof (cases "ys @ zs")
    case Nil
    then show ?thesis using u by (simp add: dll_def)
  next
    case (Cons x ws)
    then have "x \<in> set (ys @ zs)" "nxt ?u head = x" using u by (simp_all add: dll_def)
    then show ?thesis using le by auto
  qed
  have fl: "length (bc_buf s') = NBUF + 1" "bc_disk s' = bc_disk s" "bc_writes s' = bc_writes s" "\<And>k. core (bc_buf s' ! k) = core (bc_buf s ! k)"
    using ul h i unfolding s'_def by (simp_all add: link_front_def Let_def nxt_prv_upd core_links)
  have "set (i # ys @ zs) = {..<NBUF}" using xs(2) sp by auto
  then show "bio_inv dev s'" "view dev s' = view dev s" "rc dev s' = rc dev s" "held dev s' = held dev s" "cached dev s' = cached dev s"
    using relink [OF inv fl(1) _ fl(2)] dl fl(4) by blast+
  show "bc_disk s' = bc_disk s" "bc_writes s' = bc_writes s" "\<And>k. core (bc_buf s' ! k) = core (bc_buf s ! k)" using fl by simp_all
qed


section \<open>The operations on blocks\<close>

text \<open>A process holds the buffer \<open>i\<close> of block \<open>b\<close>.\<close>

definition has_buf :: "int \<Rightarrow> u32 \<Rightarrow> bio \<Rightarrow> nat \<Rightarrow> u32 \<Rightarrow> bool" where
  "has_buf pid dev s i b \<longleftrightarrow> cached dev s b = Some i \<and> bf_valid (bc_buf s ! i) \<and> holdingsleep pid (bf_lock (bc_buf s ! i))
     \<and> bf_refcnt (bc_buf s ! i) \<noteq> 0"

lemma view_cong:
  assumes "cached dev s' b = cached dev s b" "bc_disk s' b = bc_disk s b"
    and "\<And>i. cached dev s b = Some i \<Longrightarrow> bc_buf s' ! i = bc_buf s ! i"
  shows "view dev s' b = view dev s b" "rc dev s' b = rc dev s b" "held dev s' b = held dev s b"
  using assms by (auto simp: view_def rc_def held_def split: option.split)

lemma lock_upd: "lk\<lparr>sl_locked := True, sl_pid := p\<rparr> = \<lparr>sl_locked = True, sl_pid = p\<rparr>"
  by (cases lk) simp

lemma bread_cached:
  fixes pid :: int
  assumes inv: "bio_inv dev s" and c: "cached dev s b = Some i" "\<not> held dev s b" "rc dev s b < 2 ^ 32 - 1"
  defines "x \<equiv> bc_buf s ! i"
  defines "y \<equiv> x\<lparr>bf_refcnt := bf_refcnt x + 1, bf_lock := \<lparr>sl_locked = True, sl_pid = pid\<rparr>, bf_valid := True,
    bf_data := (if bf_valid x then bf_data x else bc_disk s (bf_blockno x))\<rparr>"
  shows "bread pid dev b s = Ok (i, upd i (\<lambda>_. y) s)"
proof -
  obtain xs where xs: "set xs = {..<NBUF}"
    "\<And>P. scan (NBUF + 1) nxt P s (nxt s head) = Ok (find (\<lambda>i. P (bc_buf s ! i)) xs)" using scan_find [OF inv] by metis
  let ?P = "\<lambda>i. bf_dev (bc_buf s ! i) = dev \<and> bf_blockno (bc_buf s ! i) = b"
  have i: "i < NBUF" "?P i" using c(1) cached_Some [OF inv] by auto
  obtain j where j: "find ?P xs = Some j" using i xs(1) by (cases "find ?P xs") (auto simp: find_None_iff)
  then have "j < NBUF" "?P j" using find_SomeD [OF j] xs(1) by auto
  then have ji: "j = i" using bio_invD(3) [OF inv, of j i] i by auto
  have len: "length (bc_buf s) = NBUF + 1" by (rule bio_invD(1) [OF inv])
  have il: "i < length (bc_buf s)" using len i(1) by simp
  have fr: "\<not> sl_locked (bf_lock x)" using c by (simp add: held_def x_def)
  show ?thesis unfolding bread_def bget_def xs(2) j ji
    using fr il by (cases "bc_buf s ! i") (simp add: x_def y_def lock_buf_def acquiresleep_def lock_upd upd_def virtio_disk_rw_def Let_def)
qed

lemma bread_recycle:
  assumes inv: "bio_inv dev s" and c: "cached dev s b = None" and fr: "\<exists>i < NBUF. bf_refcnt (bc_buf s ! i) = 0"
  obtains i where "i < NBUF" "bf_refcnt (bc_buf s ! i) = 0"
    "bread pid dev b s = Ok (i, upd i (\<lambda>x. x\<lparr>bf_dev := dev, bf_blockno := b, bf_valid := True, bf_refcnt := 1,
       bf_lock := \<lparr>sl_locked = True, sl_pid = pid\<rparr>, bf_data := bc_disk s b\<rparr>) s)"
proof -
  obtain xs where xs: "set xs = {..<NBUF}"
    "\<And>P. scan (NBUF + 1) nxt P s (nxt s head) = Ok (find (\<lambda>i. P (bc_buf s ! i)) xs)"
    "\<And>P. scan (NBUF + 1) prv P s (prv s head) = Ok (find (\<lambda>i. P (bc_buf s ! i)) (rev xs))" using scan_find [OF inv] by metis
  let ?P = "\<lambda>i. bf_dev (bc_buf s ! i) = dev \<and> bf_blockno (bc_buf s ! i) = b"
  have n: "find ?P xs = None"
  proof (cases "find ?P xs")
    case (Some j)
    then have "j < NBUF" "?P j" using find_SomeD [OF Some] xs(1) by auto
    then show ?thesis using c cached_Some [OF inv, of b j] by simp
  qed
  obtain i where i: "find (\<lambda>i. bf_refcnt (bc_buf s ! i) = 0) (rev xs) = Some i"
    using fr xs(1) by (cases "find (\<lambda>i. bf_refcnt (bc_buf s ! i) = 0) (rev xs)") (auto simp: find_None_iff)
  then have ib: "i < NBUF" "bf_refcnt (bc_buf s ! i) = 0" using find_SomeD [OF i] xs(1) by auto
  have len: "length (bc_buf s) = NBUF + 1" by (rule bio_invD(1) [OF inv])
  have il: "i < length (bc_buf s)" using len ib(1) by simp
  have ul: "\<not> sl_locked (bf_lock (bc_buf s ! i))" by (rule bio_invD(5) [OF inv ib])
  have "bread pid dev b s = Ok (i, upd i (\<lambda>x. x\<lparr>bf_dev := dev, bf_blockno := b, bf_valid := True, bf_refcnt := 1,
       bf_lock := \<lparr>sl_locked = True, sl_pid = pid\<rparr>, bf_data := bc_disk s b\<rparr>) s)"
    unfolding bread_def bget_def xs(2,3) n i
    using ul il by (cases "bc_buf s ! i") (simp add: lock_buf_def acquiresleep_def lock_upd upd_def virtio_disk_rw_def Let_def)
  then show ?thesis using that ib by blast
qed

text \<open>What a successful \<open>bread\<close> of block \<open>b\<close> has done.\<close>

definition fetched :: "int \<Rightarrow> u32 \<Rightarrow> u32 \<Rightarrow> bio \<Rightarrow> nat \<Rightarrow> bio \<Rightarrow> bool" where
  "fetched pid dev b s i s' \<longleftrightarrow> bio_inv dev s' \<and> has_buf pid dev s' i b \<and> view dev s' = view dev s
     \<and> rc dev s' = (rc dev s)(b := rc dev s b + 1) \<and> held dev s' = (held dev s)(b := True)
     \<and> bc_disk s' = bc_disk s \<and> bc_writes s' = bc_writes s \<and> bf_data (bc_buf s' ! i) = view dev s b
     \<and> (\<forall>j c. has_buf pid dev s j c \<longrightarrow> has_buf pid dev s' j c)"

lemma fetch_cached:
  assumes inv: "bio_inv dev s" and nh: "\<not> held dev s b" and rcb: "rc dev s b < 2 ^ 32 - 1" and Some: "cached dev s b = Some i"
  shows "\<exists>s'. bread pid dev b s = Ok (i, s') \<and> fetched pid dev b s i s'"
proof -
  define x where "x = bc_buf s ! i"
  define y where "y = x\<lparr>bf_refcnt := bf_refcnt x + 1, bf_lock := \<lparr>sl_locked = True, sl_pid = pid\<rparr>, bf_valid := True,
    bf_data := (if bf_valid x then bf_data x else bc_disk s (bf_blockno x))\<rparr>"
  let ?s = "upd i (\<lambda>_. y) s"
  have run: "bread pid dev b s = Ok (i, ?s)" using bread_cached [OF inv Some nh rcb, of pid] by (simp add: x_def y_def)
  have i: "i < NBUF" "bf_dev x = dev" "bf_blockno x = b" using Some cached_Some [OF inv] by (auto simp: x_def)
  have rx: "unat (bf_refcnt x + 1) = unat (bf_refcnt x) + 1" "unat (bf_refcnt x) = rc dev s b"
    using rcb Some by (simp_all add: rc_def x_def unat_word_ariths)
  then have nz: "bf_refcnt y \<noteq> 0" unfolding y_def by (metis add_is_0 buf.select_convs(5) buf.surjective buf.update_convs unat_0 zero_neq_one)
  have uq: "bf_blockno (bc_buf s ! j) \<noteq> bf_blockno y" if "j < NBUF" "j \<noteq> i" "bf_dev (bc_buf s ! j) = dev" for j
    using bio_invD(3) [OF inv that(1) i(1) that(3)] i that(2) by (auto simp: y_def x_def)
  have ds: "bc_disk ?s = bc_disk s" "bc_writes ?s = bc_writes s" by (simp_all add: upd_def)
  have r: "bio_inv dev ?s" "\<And>c. cached dev ?s c = (if c = bf_blockno y then Some i else if cached dev s c = Some i then None else cached dev s c)"
    "\<And>j. bc_buf ?s ! j = (if j = i then y else bc_buf s ! j)"
    by (rule replace_buf [OF inv i(1)]; use i nz uq in \<open>simp add: y_def x_def nxt_def prv_def\<close>)+
  have ca: "cached dev ?s c = cached dev s c" for c using r(2) [of c] i Some cached_Some [OF inv, of c i] by (auto simp: y_def x_def)
  have oth: "view dev ?s c = view dev s c \<and> rc dev ?s c = rc dev s c \<and> held dev ?s c = held dev s c" if "c \<noteq> b" for c
  proof -
    have "bc_buf ?s ! k = bc_buf s ! k" if "cached dev s c = Some k" for k
      using that \<open>c \<noteq> b\<close> r(3) [of k] i(3) cached_Some [OF inv, of c k] by (auto simp: x_def)
    from view_cong [OF ca fun_cong [OF ds(1)] this] show ?thesis by blast
  qed
  have vb: "view dev ?s b = view dev s b" "rc dev ?s b = rc dev s b + 1" "held dev ?s b"
    using ca [of b] Some r(3) [of i] i(3) rx by (simp_all add: view_def rc_def held_def y_def x_def)
  have "fetched pid dev b s i ?s"
  proof (unfold fetched_def, intro conjI allI impI)
    show "has_buf pid dev ?s i b" using ca [of b] Some r(3) [of i] nz by (simp add: has_buf_def holdingsleep_def) (simp add: y_def)
    show "view dev ?s = view dev s" using oth vb by (metis ext)
    show "rc dev ?s = (rc dev s)(b := rc dev s b + 1)" "held dev ?s = (held dev s)(b := True)" using oth vb by (auto simp: fun_eq_iff)
    show "bf_data (bc_buf ?s ! i) = view dev s b" using r(3) [of i] Some i(3) by (simp add: view_def y_def x_def)
    fix j c assume h: "has_buf pid dev s j c"
    show "has_buf pid dev ?s j c"
      using h nh ca [of c] r(3) [of j] Some cached_Some [OF inv] by (auto simp: has_buf_def held_def holdingsleep_def)
  qed (rule r ds)+
  then show ?thesis using run by blast
qed

lemma fetch_recycle:
  assumes inv: "bio_inv dev s" and None: "cached dev s b = None" and fr: "\<exists>i < NBUF. bf_refcnt (bc_buf s ! i) = 0"
  shows "\<exists>i s'. bread pid dev b s = Ok (i, s') \<and> fetched pid dev b s i s'"
proof -
  from bread_recycle [OF inv None fr] obtain i where i: "i < NBUF" "bf_refcnt (bc_buf s ! i) = 0"
    and run0: "bread pid dev b s = Ok (i, upd i (\<lambda>x. x\<lparr>bf_dev := dev, bf_blockno := b, bf_valid := True, bf_refcnt := 1,
       bf_lock := \<lparr>sl_locked = True, sl_pid = pid\<rparr>, bf_data := bc_disk s b\<rparr>) s)" by blast
  define y where "y = (bc_buf s ! i)\<lparr>bf_dev := dev, bf_blockno := b, bf_valid := True, bf_refcnt := 1,
       bf_lock := \<lparr>sl_locked = True, sl_pid = pid\<rparr>, bf_data := bc_disk s b\<rparr>"
  let ?s = "upd i (\<lambda>_. y) s"
  have run: "bread pid dev b s = Ok (i, ?s)" unfolding run0 by (simp add: upd_def y_def)
  have uq: "bf_blockno (bc_buf s ! j) \<noteq> bf_blockno y" if "j < NBUF" "bf_dev (bc_buf s ! j) = dev" for j
    using that None cached_Some [OF inv, of b j] by (simp add: y_def)
  have ds: "bc_disk ?s = bc_disk s" "bc_writes ?s = bc_writes s" by (simp_all add: upd_def)
  have r: "bio_inv dev ?s" "\<And>c. cached dev ?s c = (if c = bf_blockno y then Some i else if cached dev s c = Some i then None else cached dev s c)"
    "\<And>j. bc_buf ?s ! j = (if j = i then y else bc_buf s ! j)"
    by (rule replace_buf [OF inv i(1)]; use uq in \<open>simp add: y_def nxt_def prv_def\<close>)+
  have old: "view dev s c = bc_disk s c \<and> rc dev s c = 0 \<and> \<not> held dev s c" if "cached dev s c = Some i" for c
    using that cached_Some [OF inv, of c i] bio_invD(5,6) [OF inv i] i(2) by (auto simp: view_def rc_def held_def)
  have oth: "view dev ?s c = view dev s c \<and> rc dev ?s c = rc dev s c \<and> held dev ?s c = held dev s c" if c: "c \<noteq> b" for c
  proof (cases "cached dev s c = Some i")
    case True
    then have "cached dev ?s c = None" using r(2) [of c] c by (simp add: y_def)
    then show ?thesis using old [OF True] ds(1) by (simp add: view_def rc_def held_def)
  next
    case False
    then have "cached dev ?s c = cached dev s c" using r(2) [of c] c by (simp add: y_def)
    moreover have "bc_buf ?s ! k = bc_buf s ! k" if "cached dev s c = Some k" for k
      using that r(3) [of k] False by auto
    ultimately show ?thesis using view_cong [OF _ fun_cong [OF ds(1)]] by blast
  qed
  have cb: "cached dev ?s b = Some i" using r(2) [of b] by (simp add: y_def)
  have vb: "view dev ?s b = view dev s b" "rc dev ?s b = rc dev s b + 1" "held dev ?s b"
    using cb None r(3) [of i] by (simp_all add: view_def rc_def held_def y_def)
  have "fetched pid dev b s i ?s"
  proof (unfold fetched_def, intro conjI allI impI)
    show "has_buf pid dev ?s i b" using cb r(3) [of i] by (simp add: has_buf_def holdingsleep_def y_def)
    show "view dev ?s = view dev s" using oth vb by (metis ext)
    show "rc dev ?s = (rc dev s)(b := rc dev s b + 1)" "held dev ?s = (held dev s)(b := True)" using oth vb by (auto simp: fun_eq_iff)
    show "bf_data (bc_buf ?s ! i) = view dev s b" using r(3) [of i] None by (simp add: view_def y_def)
    fix j c assume h: "has_buf pid dev s j c"
    show "has_buf pid dev ?s j c"
    proof -
      have "j \<noteq> i" using h i(2) by (auto simp: has_buf_def)
      moreover have "c \<noteq> b" using h None by (auto simp: has_buf_def)
      ultimately show ?thesis using h r(2) [of c] r(3) [of j] by (simp add: has_buf_def y_def)
    qed
  qed (rule r ds)+
  then show ?thesis using run by blast
qed

lemma bread_ok:
  assumes inv: "bio_inv dev s" and nh: "\<not> held dev s b" and rcb: "rc dev s b < 2 ^ 32 - 1"
    and fr: "rc dev s b = 0 \<Longrightarrow> \<exists>i < NBUF. bf_refcnt (bc_buf s ! i) = 0"
  shows "\<exists>i s'. bread pid dev b s = Ok (i, s') \<and> fetched pid dev b s i s'"
proof (cases "cached dev s b")
  case None
  then have "rc dev s b = 0" by (simp add: rc_def)
  then show ?thesis by (rule fetch_recycle [OF inv None fr])
next
  case (Some i)
  then show ?thesis using fetch_cached [OF inv nh rcb] by blast
qed


text \<open>Changing the buffer of a cached block.\<close>

lemma modify_buf:
  assumes inv: "bio_inv dev s" and c: "cached dev s b = Some i"
    and y: "bf_dev y = dev" "bf_blockno y = b" "bf_next y = nxt s i" "bf_prev y = prv s i"
    and clean: "bf_refcnt y = 0 \<Longrightarrow> \<not> sl_locked (bf_lock y) \<and> (bf_valid y \<longrightarrow> bf_data y = bc_disk s b)"
  defines "s' \<equiv> upd i (\<lambda>_. y) s"
  shows "bio_inv dev s'" "cached dev s' = cached dev s" "bc_disk s' = bc_disk s" "bc_writes s' = bc_writes s" "bc_buf s' ! i = y"
    "view dev s' = (view dev s)(b := if bf_valid y then bf_data y else bc_disk s b)"
    "rc dev s' = (rc dev s)(b := unat (bf_refcnt y))" "held dev s' = (held dev s)(b := sl_locked (bf_lock y))"
    "\<And>j d. has_buf pid dev s j d \<Longrightarrow> d \<noteq> b \<Longrightarrow> has_buf pid dev s' j d"
proof -
  have i: "i < NBUF" "bf_dev (bc_buf s ! i) = dev" "bf_blockno (bc_buf s ! i) = b" using c cached_Some [OF inv] by auto
  have uq: "bf_blockno (bc_buf s ! j) \<noteq> bf_blockno y" if "j < NBUF" "j \<noteq> i" "bf_dev (bc_buf s ! j) = dev" for j
    using bio_invD(3) [OF inv that(1) i(1) that(3)] i that(2) y(2) by auto
  have r: "bio_inv dev s'" "\<And>c. cached dev s' c = (if c = bf_blockno y then Some i else if cached dev s c = Some i then None else cached dev s c)"
    "\<And>j. bc_buf s' ! j = (if j = i then y else bc_buf s ! j)"
    unfolding s'_def by (rule replace_buf [OF inv i(1) y(1,3,4)]; use clean uq y(2) in simp)+
  show "bio_inv dev s'" by (rule r)
  show ds: "bc_disk s' = bc_disk s" "bc_writes s' = bc_writes s" by (simp_all add: s'_def upd_def)
  show bi: "bc_buf s' ! i = y" using r(3) by simp
  show ca: "cached dev s' = cached dev s"
  proof
    fix d show "cached dev s' d = cached dev s d" using r(2) [of d] y(2) c cached_Some [OF inv, of d i] i(3) by auto
  qed
  have oth: "view dev s' d = view dev s d \<and> rc dev s' d = rc dev s d \<and> held dev s' d = held dev s d" if "d \<noteq> b" for d
  proof -
    have "bc_buf s' ! k = bc_buf s ! k" if "cached dev s d = Some k" for k
      using that \<open>d \<noteq> b\<close> r(3) [of k] i(3) cached_Some [OF inv, of d k] by auto
    from view_cong [OF fun_cong [OF ca] fun_cong [OF ds(1)] this] show ?thesis by blast
  qed
  have b: "view dev s' b = (if bf_valid y then bf_data y else bc_disk s b)" "rc dev s' b = unat (bf_refcnt y)" "held dev s' b = sl_locked (bf_lock y)"
    using ca c bi ds(1) by (simp_all add: view_def rc_def held_def)
  show "view dev s' = (view dev s)(b := if bf_valid y then bf_data y else bc_disk s b)"
    "rc dev s' = (rc dev s)(b := unat (bf_refcnt y))" "held dev s' = (held dev s)(b := sl_locked (bf_lock y))"
    using oth b by (auto simp: fun_eq_iff)
  fix j d assume h: "has_buf pid dev s j d" "d \<noteq> b"
  then have "j \<noteq> i" using c i(3) cached_Some [OF inv, of d j] by (auto simp: has_buf_def)
  then show "has_buf pid dev s' j d" using h r(3) [of j] ca by (simp add: has_buf_def)
qed

lemma upd_const: "upd i f s = upd i (\<lambda>_. f (bc_buf s ! i)) s"
  by (simp add: upd_def)

lemma has_bufD:
  assumes "bio_inv dev s" "has_buf pid dev s i b"
  shows "cached dev s b = Some i" "bf_dev (bc_buf s ! i) = dev" "bf_blockno (bc_buf s ! i) = b" "bf_valid (bc_buf s ! i)"
    "holdingsleep pid (bf_lock (bc_buf s ! i))" "bf_refcnt (bc_buf s ! i) \<noteq> 0" "rc dev s b = unat (bf_refcnt (bc_buf s ! i))"
    "view dev s b = bf_data (bc_buf s ! i)" "held dev s b" "rc dev s b > 0"
proof -
  show c: "cached dev s b = Some i" and "bf_valid (bc_buf s ! i)" "holdingsleep pid (bf_lock (bc_buf s ! i))" and r: "bf_refcnt (bc_buf s ! i) \<noteq> 0"
    using assms(2) by (simp_all add: has_buf_def)
  show "bf_dev (bc_buf s ! i) = dev" "bf_blockno (bc_buf s ! i) = b" using c cached_Some [OF assms(1)] by simp_all
  show "rc dev s b = unat (bf_refcnt (bc_buf s ! i))" "view dev s b = bf_data (bc_buf s ! i)" "held dev s b"
    using c assms(2) by (simp_all add: rc_def view_def held_def has_buf_def holdingsleep_def)
  then show "rc dev s b > 0" using r by (simp add: unat_gt_0)
qed

lemma has_buf_move:
  assumes inv: "bio_inv dev s" and i: "i < NBUF" and h: "has_buf pid dev s j c"
  shows "has_buf pid dev (link_front i (unlink i s)) j c"
proof -
  have "core (bc_buf (link_front i (unlink i s)) ! j) = core (bc_buf s ! j)" by (rule move_front(8) [OF inv i])
  from core_fields [OF this] show ?thesis using h move_front(7) [OF inv i] by (simp add: has_buf_def)
qed

text \<open>Writing into a held buffer; storing it; giving it back; pinning.\<close>

definition set_data :: "nat \<Rightarrow> block \<Rightarrow> bio \<Rightarrow> bio" where
  "set_data i d = upd i (\<lambda>x. x\<lparr>bf_data := d\<rparr>)"

lemma set_data_ok:
  fixes d :: block
  assumes inv: "bio_inv dev s" and h: "has_buf pid dev s i b"
  defines "s' \<equiv> set_data i d s"
  shows "bio_inv dev s'" "has_buf pid dev s' i b" "view dev s' = (view dev s)(b := d)" "rc dev s' = rc dev s" "held dev s' = held dev s"
    "bc_disk s' = bc_disk s" "bc_writes s' = bc_writes s" "\<And>j c. has_buf pid dev s j c \<Longrightarrow> has_buf pid dev s' j c"
proof -
  note H = has_bufD [OF inv h]
  let ?y = "(bc_buf s ! i)\<lparr>bf_data := d\<rparr>"
  have s': "s' = upd i (\<lambda>_. ?y) s" by (simp add: s'_def set_data_def upd_def)
  have m: "bio_inv dev s'" "cached dev s' = cached dev s" "bc_disk s' = bc_disk s" "bc_writes s' = bc_writes s" "bc_buf s' ! i = ?y"
    "view dev s' = (view dev s)(b := if bf_valid ?y then bf_data ?y else bc_disk s b)"
    "rc dev s' = (rc dev s)(b := unat (bf_refcnt ?y))" "held dev s' = (held dev s)(b := sl_locked (bf_lock ?y))"
    "\<And>j c. has_buf pid dev s j c \<Longrightarrow> c \<noteq> b \<Longrightarrow> has_buf pid dev s' j c"
    unfolding s' by (rule modify_buf [OF inv H(1)]; use H in \<open>simp add: nxt_def prv_def\<close>)+
  show "bio_inv dev s'" "bc_disk s' = bc_disk s" "bc_writes s' = bc_writes s" by (rule m)+
  show "view dev s' = (view dev s)(b := d)" "rc dev s' = rc dev s" "held dev s' = held dev s"
    using m(6-8) H by (auto simp: fun_eq_iff held_def)
  show hb: "has_buf pid dev s' i b" using h m(2,5) by (simp add: has_buf_def)
  show "has_buf pid dev s' j c" if "has_buf pid dev s j c" for j c
    using that hb m(9) [OF that] H(1) by (cases "c = b") (auto simp: has_buf_def)
qed

lemma bwrite_ok:
  assumes inv: "bio_inv dev s" and h: "has_buf pid dev s i b"
  shows "\<exists>s'. bwrite pid i s = Ok s' \<and> bio_inv dev s' \<and> view dev s' = view dev s \<and> rc dev s' = rc dev s \<and> held dev s' = held dev s
    \<and> bc_disk s' = (bc_disk s)(b := view dev s b) \<and> bc_writes s' = bc_writes s @ [(b, view dev s b)]
    \<and> (\<forall>j c. has_buf pid dev s j c \<longrightarrow> has_buf pid dev s' j c)"
proof -
  note H = has_bufD [OF inv h]
  let ?s = "s\<lparr>bc_disk := (bc_disk s)(b := view dev s b), bc_writes := bc_writes s @ [(b, view dev s b)]\<rparr>"
  have run: "bwrite pid i s = Ok ?s" using H(3,5,8) by (simp add: bwrite_def virtio_disk_rw_def Let_def)
  have i: "i < NBUF" using H(1) cached_Some [OF inv] by simp
  have "nxt ?s = nxt s" "prv ?s = prv s" by (simp_all add: fun_eq_iff nxt_def prv_def)
  then have d: "dll ?s = dll s" by (intro ext) (simp only: dll_def)
  have cl: "bf_blockno (bc_buf s ! j) \<noteq> b" if "j < NBUF" "bf_refcnt (bc_buf s ! j) = 0" "bf_valid (bc_buf s ! j)" for j
    using bio_invD(3) [OF inv that(1) i] bio_invD(4) [OF inv that(1)] that H(2,3,6) by auto
  have inv': "bio_inv dev ?s" using inv cl unfolding bio_inv_def d by simp
  have ca: "cached dev (s\<lparr>bc_disk := D, bc_writes := W\<rparr>) = cached dev s" for D W by (simp add: fun_eq_iff cached_def)
  have "view dev ?s c = view dev s c" for c
    using H(1,4) by (cases "c = b") (simp_all add: view_def ca split: option.split)
  then have v: "view dev ?s = view dev s" by (rule ext)
  have "rc dev ?s = rc dev s" "held dev ?s = held dev s" by (simp_all add: fun_eq_iff rc_def held_def ca split: option.split)
  moreover have "has_buf pid dev ?s j c" if "has_buf pid dev s j c" for j c using that ca by (simp add: has_buf_def)
  ultimately show ?thesis using run inv' v by auto
qed

lemma brelse_ok:
  assumes inv: "bio_inv dev s" and h: "has_buf pid dev s i b" and clean: "rc dev s b = 1 \<Longrightarrow> view dev s b = bc_disk s b"
  shows "\<exists>s'. brelse pid i s = Ok s' \<and> bio_inv dev s' \<and> view dev s' = view dev s
    \<and> rc dev s' = (rc dev s)(b := rc dev s b - 1) \<and> held dev s' = (held dev s)(b := False)
    \<and> bc_disk s' = bc_disk s \<and> bc_writes s' = bc_writes s \<and> (\<forall>j c. has_buf pid dev s j c \<longrightarrow> c \<noteq> b \<longrightarrow> has_buf pid dev s' j c)"
proof -
  note H = has_bufD [OF inv h]
  have i: "i < NBUF" using H(1) cached_Some [OF inv] by simp
  let ?x = "bc_buf s ! i"
  let ?y = "?x\<lparr>bf_lock := releasesleep (bf_lock ?x), bf_refcnt := bf_refcnt ?x - 1\<rparr>"
  let ?s = "upd i (\<lambda>_. ?y) s"
  have len: "length (bc_buf s) = NBUF + 1" by (rule bio_invD(1) [OF inv])
  then have e: "upd i (\<lambda>x. x\<lparr>bf_refcnt := bf_refcnt x - 1\<rparr>) (upd i (\<lambda>x. x\<lparr>bf_lock := releasesleep (bf_lock x)\<rparr>) s) = ?s"
    using i by (cases ?x) (simp add: upd_def)
  have rm: "unat (bf_refcnt ?x - 1) = rc dev s b - 1" using H(6,7) by (simp add: unat_minus_one)
  have cl: "\<not> sl_locked (bf_lock ?y) \<and> (bf_valid ?y \<longrightarrow> bf_data ?y = bc_disk s b)" if "bf_refcnt ?y = 0"
  proof -
    have "rc dev s b = 1" using that rm H(10) by simp
    then show ?thesis using clean H(8) by (simp add: releasesleep_def)
  qed
  have m: "bio_inv dev ?s" "cached dev ?s = cached dev s" "bc_disk ?s = bc_disk s" "bc_writes ?s = bc_writes s" "bc_buf ?s ! i = ?y"
    "view dev ?s = (view dev s)(b := if bf_valid ?y then bf_data ?y else bc_disk s b)"
    "rc dev ?s = (rc dev s)(b := unat (bf_refcnt ?y))" "held dev ?s = (held dev s)(b := sl_locked (bf_lock ?y))"
    "\<And>j c. has_buf pid dev s j c \<Longrightarrow> c \<noteq> b \<Longrightarrow> has_buf pid dev ?s j c"
    by (rule modify_buf [OF inv H(1)]; use H cl in \<open>simp add: nxt_def prv_def\<close>)+
  have v: "view dev ?s = view dev s" "rc dev ?s = (rc dev s)(b := rc dev s b - 1)" "held dev ?s = (held dev s)(b := False)"
    using m(6-8) H rm by (auto simp: fun_eq_iff releasesleep_def)
  let ?t = "if bf_refcnt (bc_buf ?s ! i) = 0 then link_front i (unlink i ?s) else ?s"
  have run: "brelse pid i s = Ok ?t" using H(5) by (simp add: brelse_def Let_def e)
  note f = move_front [OF m(1) i]
  show ?thesis
  proof (cases "bf_refcnt (bc_buf ?s ! i) = 0")
    case False
    then show ?thesis using run m(1,3,4,9) v by auto
  next
    case True
    have "has_buf pid dev ?t j c" if "has_buf pid dev s j c" "c \<noteq> b" for j c
      using has_buf_move [OF m(1) i m(9) [OF that]] True by simp
    then show ?thesis using run f m(3,4) v True by auto
  qed
qed


lemma pin_ok:
  assumes inv: "bio_inv dev s" and h: "has_buf pid dev s i b" and n: "0 < unat n"
  defines "s' \<equiv> upd i (\<lambda>x. x\<lparr>bf_refcnt := n\<rparr>) s"
  shows "bio_inv dev s'" "view dev s' = view dev s" "rc dev s' = (rc dev s)(b := unat n)" "held dev s' = held dev s"
    "bc_disk s' = bc_disk s" "bc_writes s' = bc_writes s" "\<And>j c. has_buf pid dev s j c \<Longrightarrow> has_buf pid dev s' j c"
proof -
  note H = has_bufD [OF inv h]
  let ?y = "(bc_buf s ! i)\<lparr>bf_refcnt := n\<rparr>"
  have nz: "n \<noteq> 0" using n by auto
  have s': "s' = upd i (\<lambda>_. ?y) s" by (simp add: s'_def upd_def)
  have m: "bio_inv dev s'" "cached dev s' = cached dev s" "bc_disk s' = bc_disk s" "bc_writes s' = bc_writes s" "bc_buf s' ! i = ?y"
    "view dev s' = (view dev s)(b := if bf_valid ?y then bf_data ?y else bc_disk s b)"
    "rc dev s' = (rc dev s)(b := unat (bf_refcnt ?y))" "held dev s' = (held dev s)(b := sl_locked (bf_lock ?y))"
    "\<And>j c. has_buf pid dev s j c \<Longrightarrow> c \<noteq> b \<Longrightarrow> has_buf pid dev s' j c"
    unfolding s' by (rule modify_buf [OF inv H(1)]; use H nz in \<open>simp add: nxt_def prv_def\<close>)+
  show "bio_inv dev s'" "bc_disk s' = bc_disk s" "bc_writes s' = bc_writes s" by (rule m)+
  show "view dev s' = view dev s" "rc dev s' = (rc dev s)(b := unat n)" "held dev s' = held dev s"
    using m(6-8) H by (auto simp: fun_eq_iff held_def)
  have hb: "has_buf pid dev s' i b" using h m(2,5) nz by (simp add: has_buf_def)
  show "has_buf pid dev s' j c" if "has_buf pid dev s j c" for j c
    using that hb m(9) [OF that] H(1) by (cases "c = b") (auto simp: has_buf_def)
qed

lemma bpin_ok:
  assumes inv: "bio_inv dev s" and h: "has_buf pid dev s i b" and n: "rc dev s b < 2 ^ 32 - 1"
  shows "bio_inv dev (bpin i s)" "view dev (bpin i s) = view dev s" "rc dev (bpin i s) = (rc dev s)(b := rc dev s b + 1)"
    "held dev (bpin i s) = held dev s" "bc_disk (bpin i s) = bc_disk s" "bc_writes (bpin i s) = bc_writes s"
    "\<And>j c. has_buf pid dev s j c \<Longrightarrow> has_buf pid dev (bpin i s) j c"
proof -
  let ?n = "bf_refcnt (bc_buf s ! i) + 1"
  have n': "unat ?n = rc dev s b + 1" using n has_bufD(7) [OF inv h] by (simp add: unat_word_ariths)
  have e: "bpin i s = upd i (\<lambda>x. x\<lparr>bf_refcnt := ?n\<rparr>) s" by (simp add: bpin_def upd_def)
  have pos: "0 < unat ?n" using n' by simp
  note p = pin_ok [OF inv h pos, folded e, unfolded n']
  show "bio_inv dev (bpin i s)" "view dev (bpin i s) = view dev s" "rc dev (bpin i s) = (rc dev s)(b := rc dev s b + 1)"
    "held dev (bpin i s) = held dev s" "bc_disk (bpin i s) = bc_disk s" "bc_writes (bpin i s) = bc_writes s"
    "\<And>j c. has_buf pid dev s j c \<Longrightarrow> has_buf pid dev (bpin i s) j c" using p by blast+
qed

lemma bunpin_ok:
  assumes inv: "bio_inv dev s" and h: "has_buf pid dev s i b" and n: "1 < rc dev s b"
  shows "bio_inv dev (bunpin i s)" "view dev (bunpin i s) = view dev s" "rc dev (bunpin i s) = (rc dev s)(b := rc dev s b - 1)"
    "held dev (bunpin i s) = held dev s" "bc_disk (bunpin i s) = bc_disk s" "bc_writes (bunpin i s) = bc_writes s"
    "\<And>j c. has_buf pid dev s j c \<Longrightarrow> has_buf pid dev (bunpin i s) j c"
proof -
  let ?n = "bf_refcnt (bc_buf s ! i) - 1"
  have n': "unat ?n = rc dev s b - 1" using has_bufD(6,7) [OF inv h] by (simp add: unat_minus_one)
  have e: "bunpin i s = upd i (\<lambda>x. x\<lparr>bf_refcnt := ?n\<rparr>) s" by (simp add: bunpin_def upd_def)
  have pos: "0 < unat ?n" using n' n by simp
  note p = pin_ok [OF inv h pos, folded e, unfolded n']
  show "bio_inv dev (bunpin i s)" "view dev (bunpin i s) = view dev s" "rc dev (bunpin i s) = (rc dev s)(b := rc dev s b - 1)"
    "held dev (bunpin i s) = held dev s" "bc_disk (bunpin i s) = bc_disk s" "bc_writes (bunpin i s) = bc_writes s"
    "\<And>j c. has_buf pid dev s j c \<Longrightarrow> has_buf pid dev (bunpin i s) j c" using p by blast+
qed

text \<open>As long as fewer blocks are referenced than there are buffers, one buffer can be recycled.\<close>

definition busy :: "u32 \<Rightarrow> bio \<Rightarrow> u32 set" where
  "busy dev s = {b. 0 < rc dev s b}"

lemma buffer_left:
  assumes inv: "bio_inv dev s" and lt: "card (busy dev s) < NBUF"
  shows "\<exists>i < NBUF. bf_refcnt (bc_buf s ! i) = 0"
proof (rule ccontr)
  assume "\<not> ?thesis"
  then have all: "bf_refcnt (bc_buf s ! i) \<noteq> 0" if "i < NBUF" for i using that by blast
  let ?f = "\<lambda>i. bf_blockno (bc_buf s ! i)"
  have c: "cached dev s (?f i) = Some i" if "i < NBUF" for i using cached_Some [OF inv] bio_invD(4) [OF inv that] all [OF that] that by simp
  have "inj_on ?f {..<NBUF}" by (rule inj_onI) (metis c lessThan_iff option.inject)
  then have "card (?f ` {..<NBUF}) = NBUF" by (simp add: card_image)
  moreover have "?f ` {..<NBUF} \<subseteq> busy dev s"
    using c all by (auto simp: busy_def rc_def unat_gt_0)
  moreover have "finite (busy dev s)" by simp
  ultimately show False using card_mono [of "busy dev s" "?f ` {..<NBUF}"] lt by linarith
qed

section \<open>Start-up\<close>

text \<open>The buffers of \<open>bcache\<close> before \<open>binit\<close>: zero-filled memory.\<close>

definition bcache0 :: "(u32 \<Rightarrow> block) \<Rightarrow> bio" where
  "bcache0 d = \<lparr>bc_buf = replicate (NBUF + 1) \<lparr>bf_valid = False, bf_dev = 0, bf_blockno = 0, bf_lock = initsleeplock,
     bf_refcnt = 0, bf_prev = 0, bf_next = 0, bf_data = replicate BSIZE 0\<rparr>, bc_disk = d, bc_writes = []\<rparr>"


lemma binit_loop:
  assumes "n \<le> NBUF" "length (bc_buf s) = NBUF + 1" "dll s []" "\<And>i. i < NBUF \<Longrightarrow> bf_lock (bc_buf s ! i) = initsleeplock"
  defines "t \<equiv> fold (\<lambda>b s. link_front b (upd b (\<lambda>x. x\<lparr>bf_lock := initsleeplock\<rparr>) s)) [0..<n] s"
  shows "length (bc_buf t) = NBUF + 1 \<and> dll t (rev [0..<n]) \<and> bc_disk t = bc_disk s \<and> bc_writes t = bc_writes s
    \<and> (\<forall>k < NBUF. core (bc_buf t ! k) = core (bc_buf s ! k))"
  using assms(1) unfolding t_def
proof (induction n)
  case 0
  then show ?case using assms(2,3) by simp
next
  case (Suc n)
  let ?f = "\<lambda>b s. link_front b (upd b (\<lambda>x. x\<lparr>bf_lock := initsleeplock\<rparr>) s)"
  let ?t = "fold ?f [0..<n] s"
  let ?u = "upd n (\<lambda>x. x\<lparr>bf_lock := initsleeplock\<rparr>) ?t"
  have t: "length (bc_buf ?t) = NBUF + 1" "dll ?t (rev [0..<n])" "bc_disk ?t = bc_disk s" "bc_writes ?t = bc_writes s"
    "\<And>k. k < NBUF \<Longrightarrow> core (bc_buf ?t ! k) = core (bc_buf s ! k)" using Suc by simp_all
  have n: "n < NBUF" using Suc.prems by simp
  have u: "length (bc_buf ?u) = NBUF + 1" "dll ?u (rev [0..<n])" "bc_disk ?u = bc_disk s" "bc_writes ?u = bc_writes s"
    using upd_other(2) [OF t(1), of n] dll_upd [OF t(1) n] t(2-4) n by (simp_all add: upd_def)
  have uc: "core (bc_buf ?u ! k) = core (bc_buf s ! k)" if "k < NBUF" for k
    using upd_other(1) [OF t(1), of n _ k] n t(5) [OF that] core_fields [OF t(5) [OF n]] assms(4) [OF n]
    by (cases "k = n") (simp_all add: core_def)
  have h: "nxt ?u head \<le> NBUF" using u(2) n by (cases "rev [0..<n]") (auto simp: dll_def, metis in_set_conv_decomp_first less_imp_le less_trans list.set_intros(1) set_rev set_upt atLeastLessThan_iff)
  have "dll (link_front n ?u) (n # rev [0..<n])" by (rule link_front_dll [OF u(1,2) n]) (use n in auto)
  moreover have "length (bc_buf (link_front n ?u)) = NBUF + 1" "bc_disk (link_front n ?u) = bc_disk s" "bc_writes (link_front n ?u) = bc_writes s"
    "\<And>k. core (bc_buf (link_front n ?u) ! k) = core (bc_buf ?u ! k)"
    using u h n by (simp_all add: link_front_def Let_def nxt_prv_upd core_links)
  ultimately show ?case using uc by simp
qed

lemma binit_ok:
  assumes "dev \<noteq> 0"
  shows "bio_inv dev (binit (bcache0 d))" "view dev (binit (bcache0 d)) = d" "\<And>b. rc dev (binit (bcache0 d)) b = 0"
    "\<And>b. \<not> held dev (binit (bcache0 d)) b" "bc_disk (binit (bcache0 d)) = d" "bc_writes (binit (bcache0 d)) = []"
proof -
  let ?z = "bcache0 d" and ?t = "binit (bcache0 d)"
  let ?s = "set_next head head (set_prev head head ?z)"
  have z: "length (bc_buf ?z) = NBUF + 1" by (simp add: bcache0_def)
  have len: "length (bc_buf ?s) = NBUF + 1" using z by (simp add: nxt_prv_upd)
  have dl: "dll ?s []" using z by (simp add: dll_def nxt_prv_upd)
  have cs: "core (bc_buf ?s ! k) = core (bc_buf ?z ! k)" "bc_disk ?s = d" "bc_writes ?s = []" for k
    using z by (simp_all add: core_links nxt_prv_upd) (simp_all add: bcache0_def)
  have zf: "bf_lock (bc_buf ?z ! k) = initsleeplock" "bf_dev (bc_buf ?z ! k) = 0" "\<not> bf_valid (bc_buf ?z ! k)" "bf_refcnt (bc_buf ?z ! k) = 0" if "k < NBUF" for k
    using that by (simp_all add: bcache0_def del: replicate_Suc)
  have lk: "bf_lock (bc_buf ?s ! i) = initsleeplock" if "i < NBUF" for i using core_fields [OF cs(1)] zf(1) [OF that] by simp
  have t: "length (bc_buf ?t) = NBUF + 1" "dll ?t (rev [0..<NBUF])" "bc_disk ?t = d" "bc_writes ?t = []"
    "\<And>k. k < NBUF \<Longrightarrow> core (bc_buf ?t ! k) = core (bc_buf ?z ! k)"
    using binit_loop [OF order_refl len dl lk] cs by (simp_all add: binit_def)
  have f: "bf_dev (bc_buf ?t ! k) = 0" "\<not> bf_valid (bc_buf ?t ! k)" "bf_refcnt (bc_buf ?t ! k) = 0" "\<not> sl_locked (bf_lock (bc_buf ?t ! k))" if "k < NBUF" for k
    using core_fields [OF t(5) [OF that]] zf [OF that] by (simp_all add: initsleeplock_def)
  have ex: "\<exists>xs. dll ?t xs \<and> set xs = {..<NBUF}" using t(2) by (intro exI [of _ "rev [0..<NBUF]"]) auto
  show "bio_inv dev ?t" unfolding bio_inv_def using t(1) ex f assms by auto
  have ca: "cached dev ?t b = None" for b unfolding cached_def find_None_iff using f(1) assms by auto
  show "view dev ?t = d" "\<And>b. rc dev ?t b = 0" "\<And>b. \<not> held dev ?t b" "bc_disk ?t = d" "bc_writes ?t = []"
    using ca t(3,4) by (simp_all add: fun_eq_iff view_def rc_def held_def)
qed


section \<open>The interface of the cache\<close>

text \<open>
  What the log and the file system rely on: a store of blocks with a current contents, reference counts and
  locks, over a disk that records its writes. The client's lemmas copy a block over another one.
\<close>

locale block_cache =
  fixes fetch :: "u32 \<Rightarrow> 's \<Rightarrow> ('h \<times> 's) res" and put :: "'h \<Rightarrow> block \<Rightarrow> 's \<Rightarrow> 's" and data :: "'s \<Rightarrow> 'h \<Rightarrow> block"
    and store :: "'h \<Rightarrow> 's \<Rightarrow> 's res" and release :: "'h \<Rightarrow> 's \<Rightarrow> 's res" and unpin :: "'h \<Rightarrow> 's \<Rightarrow> 's"
    and inv :: "'s \<Rightarrow> bool" and own :: "'s \<Rightarrow> 'h \<Rightarrow> u32 \<Rightarrow> bool"
    and cur :: "'s \<Rightarrow> u32 \<Rightarrow> block" and refs :: "'s \<Rightarrow> u32 \<Rightarrow> nat" and locked :: "'s \<Rightarrow> u32 \<Rightarrow> bool"
    and disk :: "'s \<Rightarrow> u32 \<Rightarrow> block" and writes :: "'s \<Rightarrow> (u32 \<times> block) list" and cap :: nat
  assumes fetch_ok: "inv s \<Longrightarrow> \<not> locked s b \<Longrightarrow> refs s b < 2 ^ 32 - 1 \<Longrightarrow> (refs s b = 0 \<Longrightarrow> card {c. 0 < refs s c} < cap) \<Longrightarrow>
      \<exists>h s'. fetch b s = Ok (h, s') \<and> inv s' \<and> own s' h b \<and> cur s' = cur s \<and> refs s' = (refs s)(b := refs s b + 1)
        \<and> locked s' = (locked s)(b := True) \<and> disk s' = disk s \<and> writes s' = writes s \<and> (\<forall>g c. own s g c \<longrightarrow> own s' g c)"
    and data_ok: "inv s \<Longrightarrow> own s h b \<Longrightarrow> data s h = cur s b"
    and clean: "inv s \<Longrightarrow> refs s b = 0 \<Longrightarrow> cur s b = disk s b"
    and put_ok: "inv s \<Longrightarrow> own s h b \<Longrightarrow> inv (put h d s) \<and> cur (put h d s) = (cur s)(b := d) \<and> refs (put h d s) = refs s
        \<and> locked (put h d s) = locked s \<and> disk (put h d s) = disk s \<and> writes (put h d s) = writes s \<and> (\<forall>g c. own s g c \<longrightarrow> own (put h d s) g c)"
    and store_ok: "inv s \<Longrightarrow> own s h b \<Longrightarrow> \<exists>s'. store h s = Ok s' \<and> inv s' \<and> cur s' = cur s \<and> refs s' = refs s \<and> locked s' = locked s
        \<and> disk s' = (disk s)(b := cur s b) \<and> writes s' = writes s @ [(b, cur s b)] \<and> (\<forall>g c. own s g c \<longrightarrow> own s' g c)"
    and release_ok: "inv s \<Longrightarrow> own s h b \<Longrightarrow> (refs s b = 1 \<Longrightarrow> cur s b = disk s b) \<Longrightarrow> \<exists>s'. release h s = Ok s' \<and> inv s' \<and> cur s' = cur s
        \<and> refs s' = (refs s)(b := refs s b - 1) \<and> locked s' = (locked s)(b := False) \<and> disk s' = disk s \<and> writes s' = writes s
        \<and> (\<forall>g c. own s g c \<longrightarrow> c \<noteq> b \<longrightarrow> own s' g c)"
    and unpin_ok: "inv s \<Longrightarrow> own s h b \<Longrightarrow> 1 < refs s b \<Longrightarrow> inv (unpin h s) \<and> cur (unpin h s) = cur s \<and> refs (unpin h s) = (refs s)(b := refs s b - 1)
        \<and> locked (unpin h s) = locked s \<and> disk (unpin h s) = disk s \<and> writes (unpin h s) = writes s \<and> (\<forall>g c. own s g c \<longrightarrow> own (unpin h s) g c)"
begin

lemma busy_insert: "{c. 0 < ((refs s)(b := refs s b + 1)) c} = insert b {c. 0 < refs s c}"
  by auto

text \<open>Fetching two different blocks.\<close>

lemma fetch_two:
  assumes "inv s" "a \<noteq> b" "\<not> locked s a" "\<not> locked s b" "refs s a < 2 ^ 32 - 1" "refs s b < 2 ^ 32 - 1" "card {c. 0 < refs s c} + 2 \<le> cap"
  obtains g h s1 s2 where "fetch a s = Ok (g, s1)" "fetch b s1 = Ok (h, s2)" "inv s2" "own s2 g a" "own s2 h b" "cur s2 = cur s"
    "refs s2 = (refs s)(a := refs s a + 1, b := refs s b + 1)" "locked s2 = (locked s)(a := True, b := True)" "disk s2 = disk s" "writes s2 = writes s"
proof -
  have "card {c. 0 < refs s c} < cap" using assms(7) by simp
  then obtain g s1 where s1: "fetch a s = Ok (g, s1)" "inv s1" "own s1 g a" "cur s1 = cur s" "refs s1 = (refs s)(a := refs s a + 1)"
    "locked s1 = (locked s)(a := True)" "disk s1 = disk s" "writes s1 = writes s"
    using fetch_ok [OF assms(1,3,5)] by blast
  have "card {c. 0 < refs s1 c} < cap"
    unfolding s1(5) busy_insert using assms(7) by (simp add: card_insert_if)
  moreover have "\<not> locked s1 b" "refs s1 b < 2 ^ 32 - 1" using s1(5,6) assms by simp_all
  ultimately obtain h s2 where "fetch b s1 = Ok (h, s2)" "inv s2" "own s2 h b" "cur s2 = cur s1" "refs s2 = (refs s1)(b := refs s1 b + 1)"
    "locked s2 = (locked s1)(b := True)" "disk s2 = disk s1" "writes s2 = writes s1" "\<forall>g c. own s1 g c \<longrightarrow> own s2 g c"
    using fetch_ok [OF s1(2)] by blast
  with s1 show ?thesis using that assms(2) by simp
qed

text \<open>
  Copying block \<open>x\<close> over block \<open>t\<close> through the cache and storing it, in the two orders of the log: the
  log block is fetched first; when the home block is the target it may be unpinned.
\<close>

lemma copy_to_first:
  assumes "inv s" "t \<noteq> x" "\<not> locked s t" "\<not> locked s x" "refs s t < 2 ^ 32 - 1" "refs s x < 2 ^ 32 - 1" "card {c. 0 < refs s c} + 2 \<le> cap"
  shows "\<exists>s'. bind_res (fetch t s) (\<lambda>(g, s1). bind_res (fetch x s1) (\<lambda>(h, s2).
      bind_res (store g (put g (data s2 h) s2)) (\<lambda>s3. bind_res (release h s3) (release g)))) = Ok s'
    \<and> inv s' \<and> cur s' = (cur s)(t := cur s x) \<and> refs s' = refs s \<and> locked s' = locked s
    \<and> disk s' = (disk s)(t := cur s x) \<and> writes s' = writes s @ [(t, cur s x)]"
proof -
  obtain g h s1 s2 where f: "fetch t s = Ok (g, s1)" "fetch x s1 = Ok (h, s2)" "inv s2" "own s2 g t" "own s2 h x" "cur s2 = cur s"
    "refs s2 = (refs s)(t := refs s t + 1, x := refs s x + 1)" "locked s2 = (locked s)(t := True, x := True)" "disk s2 = disk s" "writes s2 = writes s"
    using fetch_two [OF assms] .
  have d: "data s2 h = cur s x" using data_ok [OF f(3,5)] f(6) by simp
  note p = put_ok [OF f(3,4), of "cur s x"]
  then obtain s4 where s4: "store g (put g (cur s x) s2) = Ok s4" "inv s4" "cur s4 = (cur s)(t := cur s x)" "refs s4 = refs s2" "locked s4 = locked s2"
    "disk s4 = (disk s)(t := cur s x)" "writes s4 = writes s @ [(t, cur s x)]" "own s4 g t" "own s4 h x"
    using store_ok [of "put g (cur s x) s2" g t] f(4-6,9,10) by auto
  have "cur s4 x = disk s4 x" if "refs s4 x = 1" using that s4(3,4,6) f(7) assms(2) clean [OF assms(1), of x] by simp
  then obtain s5 where s5: "release h s4 = Ok s5" "inv s5" "cur s5 = cur s4" "refs s5 = (refs s4)(x := refs s4 x - 1)" "locked s5 = (locked s4)(x := False)"
    "disk s5 = disk s4" "writes s5 = writes s4" "own s5 g t" using release_ok [OF s4(2,9)] s4(8) assms(2) by blast
  have "cur s5 t = disk s5 t" using s5(3,6) s4(3,6) by simp
  then obtain s6 where s6: "release g s5 = Ok s6" "inv s6" "cur s6 = cur s5" "refs s6 = (refs s5)(t := refs s5 t - 1)" "locked s6 = (locked s5)(t := False)"
    "disk s6 = disk s5" "writes s6 = writes s5" using release_ok [OF s5(2,8)] by blast
  have "refs s6 = refs s" "locked s6 = locked s" using s6(4,5) s5(4,5) s4(4,5) f(7,8) assms(2-4) by (auto simp: fun_eq_iff)
  then show ?thesis using f(1,2) d s4 s5 s6 by simp
qed

lemma copy_to_second:
  assumes "inv s" "x \<noteq> t" "\<not> locked s x" "\<not> locked s t" "refs s x < 2 ^ 32 - 1" "refs s t < 2 ^ 32 - 1" "card {c. 0 < refs s c} + 2 \<le> cap"
    and "un \<Longrightarrow> 0 < refs s t"
  shows "\<exists>s'. bind_res (fetch x s) (\<lambda>(g, s1). bind_res (fetch t s1) (\<lambda>(h, s2).
      bind_res (store h (put h (data s2 g) s2)) (\<lambda>s3. bind_res (release g (if un then unpin h s3 else s3)) (release h)))) = Ok s'
    \<and> inv s' \<and> cur s' = (cur s)(t := cur s x) \<and> refs s' = (if un then (refs s)(t := refs s t - 1) else refs s) \<and> locked s' = locked s
    \<and> disk s' = (disk s)(t := cur s x) \<and> writes s' = writes s @ [(t, cur s x)]"
proof -
  obtain g h s1 s2 where f: "fetch x s = Ok (g, s1)" "fetch t s1 = Ok (h, s2)" "inv s2" "own s2 g x" "own s2 h t" "cur s2 = cur s"
    "refs s2 = (refs s)(x := refs s x + 1, t := refs s t + 1)" "locked s2 = (locked s)(x := True, t := True)" "disk s2 = disk s" "writes s2 = writes s"
    using fetch_two [OF assms(1-7)] .
  have d: "data s2 g = cur s x" using data_ok [OF f(3,4)] f(6) by simp
  note p = put_ok [OF f(3,5), of "cur s x"]
  then obtain s3 where s3: "store h (put h (cur s x) s2) = Ok s3" "inv s3" "cur s3 = (cur s)(t := cur s x)" "refs s3 = refs s2" "locked s3 = locked s2"
    "disk s3 = (disk s)(t := cur s x)" "writes s3 = writes s @ [(t, cur s x)]" "own s3 g x" "own s3 h t"
    using store_ok [of "put h (cur s x) s2" h t] f(4-6,9,10) by auto
  define s4 where "s4 = (if un then unpin h s3 else s3)"
  have u: "1 < refs s3 t" if un using assms(8) [OF that] s3(4) f(7) by simp
  have s4: "inv s4" "cur s4 = cur s3" "refs s4 = (if un then (refs s3)(t := refs s3 t - 1) else refs s3)" "locked s4 = locked s3" "disk s4 = disk s3"
    "writes s4 = writes s3" "own s4 g x" "own s4 h t"
    using unpin_ok [OF s3(2,9)] u s3(2,8,9) unfolding s4_def by (cases un; auto)+
  have "cur s4 x = disk s4 x" if "refs s4 x = 1" using that s4(2,3,5) s3(3,4,6) f(7) assms(2) clean [OF assms(1), of x] by (auto split: if_splits)
  then obtain s5 where s5: "release g s4 = Ok s5" "inv s5" "cur s5 = cur s4" "refs s5 = (refs s4)(x := refs s4 x - 1)" "locked s5 = (locked s4)(x := False)"
    "disk s5 = disk s4" "writes s5 = writes s4" "own s5 h t" using release_ok [OF s4(1,7)] s4(8) assms(2) by blast
  have "cur s5 t = disk s5 t" using s5(3,6) s4(2,5) s3(3,6) by simp
  then obtain s6 where s6: "release h s5 = Ok s6" "inv s6" "cur s6 = cur s5" "refs s6 = (refs s5)(t := refs s5 t - 1)" "locked s6 = (locked s5)(t := False)"
    "disk s6 = disk s5" "writes s6 = writes s5" using release_ok [OF s5(2,8)] by blast
  have "refs s6 = (if un then (refs s)(t := refs s t - 1) else refs s)" "locked s6 = locked s"
    using s6(4,5) s5(4,5) s4(3,4) s3(4,5) f(7,8) assms(2-4) by (auto simp: fun_eq_iff)
  then show ?thesis using f(1,2) d s3(1,3,6,7) s4(2,5,6) s5 s6 unfolding s4_def by simp
qed

text \<open>Reading a block and letting it go again, and rewriting one block in place.\<close>

lemma read_block:
  assumes "inv s" "\<not> locked s b" "refs s b < 2 ^ 32 - 1" "card {c. 0 < refs s c} < cap"
  shows "\<exists>h s1 s'. fetch b s = Ok (h, s1) \<and> data s1 h = cur s b \<and> release h s1 = Ok s'
    \<and> inv s' \<and> cur s' = cur s \<and> refs s' = refs s \<and> locked s' = locked s \<and> disk s' = disk s \<and> writes s' = writes s"
proof -
  obtain h s1 where s1: "fetch b s = Ok (h, s1)" "inv s1" "own s1 h b" "cur s1 = cur s" "refs s1 = (refs s)(b := refs s b + 1)"
    "locked s1 = (locked s)(b := True)" "disk s1 = disk s" "writes s1 = writes s"
    using fetch_ok [OF assms(1-3)] assms(4) by blast
  have "cur s1 b = disk s1 b" if "refs s1 b = 1" using that s1(4,5,7) clean [OF assms(1), of b] by simp
  then obtain s2 where s2: "release h s1 = Ok s2" "inv s2" "cur s2 = cur s1" "refs s2 = (refs s1)(b := refs s1 b - 1)" "locked s2 = (locked s1)(b := False)"
    "disk s2 = disk s1" "writes s2 = writes s1" using release_ok [OF s1(2,3)] by blast
  have "refs s2 = refs s" "locked s2 = locked s" using s1(5,6) s2(4,5) assms(2) by (auto simp: fun_eq_iff)
  then show ?thesis using s1 s2 data_ok [OF s1(2,3)] by simp
qed

lemma rewrite_block:
  assumes "inv s" "\<not> locked s b" "refs s b < 2 ^ 32 - 1" "card {c. 0 < refs s c} < cap"
  shows "\<exists>s'. bind_res (fetch b s) (\<lambda>(h, s1). bind_res (store h (put h (f (data s1 h)) s1)) (release h)) = Ok s'
    \<and> inv s' \<and> cur s' = (cur s)(b := f (cur s b)) \<and> refs s' = refs s \<and> locked s' = locked s
    \<and> disk s' = (disk s)(b := f (cur s b)) \<and> writes s' = writes s @ [(b, f (cur s b))]"
proof -
  obtain h s1 where s1: "fetch b s = Ok (h, s1)" "inv s1" "own s1 h b" "cur s1 = cur s" "refs s1 = (refs s)(b := refs s b + 1)"
    "locked s1 = (locked s)(b := True)" "disk s1 = disk s" "writes s1 = writes s"
    using fetch_ok [OF assms(1-3)] assms(4) by blast
  have d: "data s1 h = cur s b" using data_ok [OF s1(2,3)] s1(4) by simp
  note p = put_ok [OF s1(2,3), of "f (cur s b)"]
  then obtain s2 where s2: "store h (put h (f (cur s b)) s1) = Ok s2" "inv s2" "cur s2 = (cur s)(b := f (cur s b))" "refs s2 = refs s1" "locked s2 = locked s1"
    "disk s2 = (disk s)(b := f (cur s b))" "writes s2 = writes s @ [(b, f (cur s b))]" "own s2 h b"
    using store_ok [of "put h (f (cur s b)) s1" h b] s1(3,4,7,8) by auto
  have "cur s2 b = disk s2 b" using s2(3,6) by simp
  then obtain s3 where s3: "release h s2 = Ok s3" "inv s3" "cur s3 = cur s2" "refs s3 = (refs s2)(b := refs s2 b - 1)" "locked s3 = (locked s2)(b := False)"
    "disk s3 = disk s2" "writes s3 = writes s2" using release_ok [OF s2(2,8)] by blast
  have "refs s3 = refs s" "locked s3 = locked s" using s1(5,6) s2(4,5) s3(4,5) assms(2) by (auto simp: fun_eq_iff)
  then show ?thesis using s1(1) d s2 s3 by simp
qed

end

interpretation bcache: block_cache "bread pid dev" set_data "\<lambda>s i. bf_data (bc_buf s ! i)" "bwrite pid" "brelse pid" bunpin
  "bio_inv dev" "has_buf pid dev" "view dev" "rc dev" "held dev" bc_disk bc_writes NBUF
  for pid dev
proof unfold_locales
  fix s b
  assume a: "bio_inv dev s" "\<not> held dev s b" "rc dev s b < 2 ^ 32 - 1" "rc dev s b = 0 \<Longrightarrow> card {c. 0 < rc dev s c} < NBUF"
  have "\<exists>i < NBUF. bf_refcnt (bc_buf s ! i) = 0" if "rc dev s b = 0" using buffer_left [OF a(1)] a(4) [OF that] by (simp add: busy_def)
  from bread_ok [OF a(1-3) this, of pid]
  show "\<exists>h s'. bread pid dev b s = Ok (h, s') \<and> bio_inv dev s' \<and> has_buf pid dev s' h b \<and> view dev s' = view dev s
      \<and> rc dev s' = (rc dev s)(b := rc dev s b + 1) \<and> held dev s' = (held dev s)(b := True) \<and> bc_disk s' = bc_disk s \<and> bc_writes s' = bc_writes s
      \<and> (\<forall>g c. has_buf pid dev s g c \<longrightarrow> has_buf pid dev s' g c)" unfolding fetched_def by blast
next
  fix s h b assume a: "bio_inv dev s" "has_buf pid dev s h b"
  show "bf_data (bc_buf s ! h) = view dev s b" using has_bufD(8) [OF a] by simp
  show "bio_inv dev (set_data h d s) \<and> view dev (set_data h d s) = (view dev s)(b := d) \<and> rc dev (set_data h d s) = rc dev s
      \<and> held dev (set_data h d s) = held dev s \<and> bc_disk (set_data h d s) = bc_disk s \<and> bc_writes (set_data h d s) = bc_writes s
      \<and> (\<forall>g c. has_buf pid dev s g c \<longrightarrow> has_buf pid dev (set_data h d s) g c)" for d
    using set_data_ok [OF a, where d = d] by blast
  show "\<exists>s'. bwrite pid h s = Ok s' \<and> bio_inv dev s' \<and> view dev s' = view dev s \<and> rc dev s' = rc dev s \<and> held dev s' = held dev s
      \<and> bc_disk s' = (bc_disk s)(b := view dev s b) \<and> bc_writes s' = bc_writes s @ [(b, view dev s b)]
      \<and> (\<forall>g c. has_buf pid dev s g c \<longrightarrow> has_buf pid dev s' g c)" by (rule bwrite_ok [OF a])
  show "bio_inv dev (bunpin h s) \<and> view dev (bunpin h s) = view dev s \<and> rc dev (bunpin h s) = (rc dev s)(b := rc dev s b - 1)
      \<and> held dev (bunpin h s) = held dev s \<and> bc_disk (bunpin h s) = bc_disk s \<and> bc_writes (bunpin h s) = bc_writes s
      \<and> (\<forall>g c. has_buf pid dev s g c \<longrightarrow> has_buf pid dev (bunpin h s) g c)" if "1 < rc dev s b"
    using bunpin_ok [OF a that] by blast
  show "\<exists>s'. brelse pid h s = Ok s' \<and> bio_inv dev s' \<and> view dev s' = view dev s \<and> rc dev s' = (rc dev s)(b := rc dev s b - 1)
      \<and> held dev s' = (held dev s)(b := False) \<and> bc_disk s' = bc_disk s \<and> bc_writes s' = bc_writes s
      \<and> (\<forall>g c. has_buf pid dev s g c \<longrightarrow> c \<noteq> b \<longrightarrow> has_buf pid dev s' g c)" if "rc dev s b = 1 \<Longrightarrow> view dev s b = bc_disk s b"
    using brelse_ok [OF a that] by blast
next
  fix s b assume a: "bio_inv dev s" "rc dev s b = 0"
  show "view dev s b = bc_disk s b"
  proof (cases "cached dev s b")
    case (Some i)
    then have "unat (bf_refcnt (bc_buf s ! i)) = 0" using a(2) by (simp add: rc_def)
    then have "i < NBUF" "bf_refcnt (bc_buf s ! i) = 0" "bf_blockno (bc_buf s ! i) = b" using Some cached_Some [OF a(1)] by (simp_all add: unat_eq_0)
    then show ?thesis using bio_invD(6) [OF a(1)] Some by (simp add: view_def)
  qed (simp add: view_def)
qed


section \<open>Properties\<close>

text \<open>The buffer cache is transparent: whatever has been cached, recycled or pinned before, \<open>bread\<close> of a block
  nobody holds returns a locked buffer with the block's current contents as long as fewer blocks are in
  use than there are buffers; it neither changes the contents of any block nor the disk, it adds one
  reference, and the buffers remain one doubly linked list with at most one buffer per block.\<close>

theorem bread_returns_current:
  assumes "bio_inv dev s" and "\<not> held dev s b" and "rc dev s b < 2 ^ 32 - 1" and "card {c. 0 < rc dev s c} < NBUF"
  shows "\<exists>i s'. bread pid dev b s = Ok (i, s') \<and> bf_data (bc_buf s' ! i) = view dev s b \<and> has_buf pid dev s' i b
    \<and> bio_inv dev s' \<and> view dev s' = view dev s \<and> bc_disk s' = bc_disk s \<and> rc dev s' = (rc dev s)(b := rc dev s b + 1)"
proof -
  obtain i s' where "bread pid dev b s = Ok (i, s')" "bio_inv dev s'" "has_buf pid dev s' i b" "view dev s' = view dev s"
    "rc dev s' = (rc dev s)(b := rc dev s b + 1)" "bc_disk s' = bc_disk s"
    using bcache.fetch_ok [OF assms(1-3), of pid] assms(4) by blast
  then show ?thesis using bcache.data_ok [of dev s' pid i b] by auto
qed

theorem bread_returns_current_witness:
  "\<exists>i s'. bread 1 1 7 (binit (bcache0 (\<lambda>b. [ucast b]))) = Ok (i, s') \<and> bf_data (bc_buf s' ! i) = [7]"
proof -
  note b = binit_ok [of 1 "\<lambda>b. [ucast b]", OF one_neq_zero]
  have "card {c. 0 < rc 1 (binit (bcache0 (\<lambda>b. [ucast b]))) c} < NBUF" using b(3) by (simp add: NBUF_def MAXOPBLOCKS_def)
  from bread_returns_current [OF b(1) b(4) _ this, of 7 1] b(2,3) show ?thesis by auto
qed

end
