(* ===== verification/Bytes.thy ===== *)
theory Bytes
  imports Prelude
begin

text \<open>
  Little-endian integers inside byte arrays: how the file system and the log read and write the C
  structures they lay over disk blocks.
\<close>

definition le16 :: "u16 \<Rightarrow> u8 list" where
  "le16 w = [ucast w, ucast (drop_bit 8 w)]"

definition le32 :: "u32 \<Rightarrow> u8 list" where
  "le32 w = [ucast w, ucast (drop_bit 8 w), ucast (drop_bit 16 w), ucast (drop_bit 24 w)]"

definition get16 :: "nat \<Rightarrow> u8 list \<Rightarrow> u16" where
  "get16 off bs = ucast (bs ! off) OR push_bit 8 (ucast (bs ! (off + 1)))"

definition get32 :: "nat \<Rightarrow> u8 list \<Rightarrow> u32" where
  "get32 off bs = ucast (bs ! off) OR push_bit 8 (ucast (bs ! (off + 1))) OR push_bit 16 (ucast (bs ! (off + 2)))
     OR push_bit 24 (ucast (bs ! (off + 3)))"

text \<open>Overwriting a part of an array.\<close>

definition splice :: "nat \<Rightarrow> 'a list \<Rightarrow> 'a list \<Rightarrow> 'a list" where
  "splice off xs bs = take off bs @ xs @ drop (off + length xs) bs"

definition put16 :: "nat \<Rightarrow> u16 \<Rightarrow> u8 list \<Rightarrow> u8 list" where
  "put16 off w bs = splice off (le16 w) bs"

definition put32 :: "nat \<Rightarrow> u32 \<Rightarrow> u8 list \<Rightarrow> u8 list" where
  "put32 off w bs = splice off (le32 w) bs"

lemma length_splice [simp]: "off + length xs \<le> length bs \<Longrightarrow> length (splice off xs bs) = length bs"
  by (simp add: splice_def)

lemma nth_splice:
  assumes "off + length xs \<le> length bs" "i < length bs"
  shows "splice off xs bs ! i = (if off \<le> i \<and> i < off + length xs then xs ! (i - off) else bs ! i)"
  using assms by (auto simp: splice_def nth_append min_def)

lemma length_le [simp]: "length (le16 w) = 2" "length (le32 v) = 4"
  by (simp_all add: le16_def le32_def)

lemma length_put [simp]:
  "off + 2 \<le> length bs \<Longrightarrow> length (put16 off w bs) = length bs" "off + 4 \<le> length bs \<Longrightarrow> length (put32 off v bs) = length bs"
  by (simp_all add: put16_def put32_def)

lemma get16_put16 [simp]:
  assumes "off + 2 \<le> length bs"
  shows "get16 off (put16 off w bs) = w"
proof -
  have "get16 off (put16 off w bs) = ucast (ucast w :: u8) OR push_bit 8 (ucast (ucast (drop_bit 8 w) :: u8))"
    using assms by (simp add: get16_def put16_def nth_splice le16_def)
  also have "\<dots> = w" by (rule bit_eqI) (auto simp: bit_simps)
  finally show ?thesis .
qed

lemma get32_put32 [simp]:
  assumes "off + 4 \<le> length bs"
  shows "get32 off (put32 off w bs) = w"
proof -
  have "get32 off (put32 off w bs) = ucast (ucast w :: u8) OR push_bit 8 (ucast (ucast (drop_bit 8 w) :: u8))
      OR push_bit 16 (ucast (ucast (drop_bit 16 w) :: u8)) OR push_bit 24 (ucast (ucast (drop_bit 24 w) :: u8))"
    using assms by (simp add: get32_def put32_def nth_splice le32_def eval_nat_numeral)
  also have "\<dots> = w"
  proof (rule bit_eqI)
    fix n assume "possible_bit TYPE(32 word) n"
    then have "n < 8 \<or> 8 \<le> n \<and> n < 16 \<or> 16 \<le> n \<and> n < 24 \<or> 24 \<le> n \<and> n < 32" by auto
    then show "bit ((ucast (ucast w :: u8) :: u32) OR push_bit 8 (ucast (ucast (drop_bit 8 w) :: u8))
        OR push_bit 16 (ucast (ucast (drop_bit 16 w) :: u8)) OR push_bit 24 (ucast (ucast (drop_bit 24 w) :: u8))) n = bit w n"
      by (elim disjE conjE) (auto simp: bit_simps)
  qed
  finally show ?thesis .
qed

text \<open>A field does not see writes to bytes outside it.\<close>

lemma get32_splice:
  assumes "off + length xs \<le> length bs" "i + 4 \<le> length bs" "i + 4 \<le> off \<or> off + length xs \<le> i"
  shows "get32 i (splice off xs bs) = get32 i bs"
  using assms by (auto simp: get32_def nth_splice)

lemma get16_splice:
  assumes "off + length xs \<le> length bs" "i + 2 \<le> length bs" "i + 2 \<le> off \<or> off + length xs \<le> i"
  shows "get16 i (splice off xs bs) = get16 i bs"
  using assms by (auto simp: get16_def nth_splice)

lemma get32_put32_other:
  "off + 4 \<le> length bs \<Longrightarrow> i + 4 \<le> length bs \<Longrightarrow> i + 4 \<le> off \<or> off + 4 \<le> i \<Longrightarrow> get32 i (put32 off w bs) = get32 i bs"
  unfolding put32_def by (intro get32_splice) simp_all

end
