(* ===== verification/Log.thy ===== *)
theory Log
  imports Bio Bytes
begin

text \<open>
  The redo log of the file system, \<open>xv6/kernel/log.c\<close>, on top of the buffer cache: transactions, commit
  and recovery. The header block is decoded from its bytes as the code does. A crash cuts the history
  of disk writes at any point; recovery starts from the disk alone.
\<close>

section \<open>State\<close>

record log =
  lg_start :: u32
  lg_outstanding :: int
  lg_committing :: bool
  lg_dev :: u32
  lg_ncommit :: int
  lg_n :: int
  lg_block :: "u32 list"

definition log0 :: log where
  "log0 = \<lparr>lg_start = 0, lg_outstanding = 0, lg_committing = False, lg_dev = 0, lg_ncommit = 0, lg_n = 0,
     lg_block = replicate LOGBLOCKS 0\<rparr>"

section \<open>Operations\<close>

definition install_one :: "int \<Rightarrow> log \<Rightarrow> bool \<Rightarrow> nat \<Rightarrow> bio \<Rightarrow> bio res" where
  "install_one pid l recovering tail s =
     bind_res (bread pid (lg_dev l) (lg_start l + of_nat tail + 1) s) (\<lambda>(lbuf, s1).
     bind_res (bread pid (lg_dev l) (lg_block l ! tail) s1) (\<lambda>(dbuf, s2).
     bind_res (bwrite pid dbuf (set_data dbuf (bf_data (bc_buf s2 ! lbuf)) s2)) (\<lambda>s3.
     bind_res (brelse pid lbuf (if \<not> recovering then bunpin dbuf s3 else s3)) (brelse pid dbuf))))"

definition install_trans :: "int \<Rightarrow> log \<Rightarrow> bool \<Rightarrow> bio \<Rightarrow> bio res" where
  "install_trans pid l recovering = fold_res (install_one pid l recovering) [0..<nat (lg_n l)]"

definition read_head :: "int \<Rightarrow> log \<Rightarrow> bio \<Rightarrow> (log \<times> bio) res" where
  "read_head pid l s =
     bind_res (bread pid (lg_dev l) (lg_start l) s) (\<lambda>(b, s1).
       (let bs = bf_data (bc_buf s1 ! b); n = sint (get32 0 bs) in
        if n > int LOGBLOCKS then Panic ''overrun''
        else
          bind_res (brelse pid b s1) (\<lambda>s2.
            Ok (l\<lparr>lg_n := n, lg_block := map (\<lambda>i. get32 (4 + 4 * i) bs) [0..<nat n] @ drop (nat n) (lg_block l)\<rparr>, s2))))"

definition put_head :: "log \<Rightarrow> block \<Rightarrow> block" where
  "put_head l bs =
     fold (\<lambda>i bs. put32 (4 + 4 * i) (lg_block l ! i) bs) [0..<nat (lg_n l)] (put32 0 (of_int (lg_n l)) bs)"

definition write_head :: "int \<Rightarrow> log \<Rightarrow> bio \<Rightarrow> bio res" where
  "write_head pid l s =
     bind_res (bread pid (lg_dev l) (lg_start l) s) (\<lambda>(b, s1).
     bind_res (bwrite pid b (set_data b (put_head l (bf_data (bc_buf s1 ! b))) s1)) (brelse pid b))"

definition recover_from_log :: "int \<Rightarrow> log \<Rightarrow> bio \<Rightarrow> (log \<times> bio) res" where
  "recover_from_log pid l s =
     bind_res (read_head pid l s) (\<lambda>(l1, s1).
     bind_res (install_trans pid l1 True s1) (\<lambda>s2.
       (let l2 = l1\<lparr>lg_n := 0\<rparr> in bind_res (write_head pid l2 s2) (\<lambda>s3. Ok (l2, s3)))))"

definition initlog :: "int \<Rightarrow> u32 \<Rightarrow> u32 \<Rightarrow> log \<Rightarrow> bio \<Rightarrow> (log \<times> bio) res" where
  "initlog pid dev logstart l s =
     (if 4 + 4 * LOGBLOCKS \<ge> BSIZE then Panic ''initlog: too big logheader''
      else recover_from_log pid (l\<lparr>lg_start := logstart, lg_dev := dev\<rparr>) s)"

text \<open>\<open>begin_op\<close> either reserves space or goes to sleep (\<open>None\<close>) and tries again when woken.\<close>

definition begin_op :: "log \<Rightarrow> log option" where
  "begin_op l =
     (if lg_committing l then None
      else if lg_n l + (lg_outstanding l + 1) * int MAXOPBLOCKS > int LOGBLOCKS then None
      else Some (l\<lparr>lg_outstanding := lg_outstanding l + 1\<rparr>))"

definition write_one :: "int \<Rightarrow> log \<Rightarrow> nat \<Rightarrow> bio \<Rightarrow> bio res" where
  "write_one pid l tail s =
     bind_res (bread pid (lg_dev l) (lg_start l + of_nat tail + 1) s) (\<lambda>(to, s1).
     bind_res (bread pid (lg_dev l) (lg_block l ! tail) s1) (\<lambda>(from, s2).
     bind_res (bwrite pid to (set_data to (bf_data (bc_buf s2 ! from)) s2)) (\<lambda>s3.
     bind_res (brelse pid from s3) (brelse pid to))))"

definition write_log :: "int \<Rightarrow> log \<Rightarrow> bio \<Rightarrow> bio res" where
  "write_log pid l = fold_res (write_one pid l) [0..<nat (lg_n l)]"

definition commit :: "int \<Rightarrow> log \<Rightarrow> bio \<Rightarrow> (log \<times> bio) res" where
  "commit pid l s =
     (if lg_n l > 0 then
        bind_res (write_log pid l s) (\<lambda>s1.
        bind_res (write_head pid l s1) (\<lambda>s2.
        bind_res (install_trans pid l False s2) (\<lambda>s3.
          (let l1 = l\<lparr>lg_n := 0\<rparr> in bind_res (write_head pid l1 s3) (\<lambda>s4. Ok (l1, s4))))))
      else Ok (l, s))"

definition end_op :: "int \<Rightarrow> log \<Rightarrow> bio \<Rightarrow> (log \<times> bio) res" where
  "end_op pid l s =
     (let l1 = l\<lparr>lg_outstanding := lg_outstanding l - 1\<rparr> in
      if lg_committing l1 then Panic ''log.committing''
      else if lg_outstanding l1 = 0
        then bind_res (commit pid (l1\<lparr>lg_committing := True\<rparr>) s) (\<lambda>(l2, s1).
               Ok (l2\<lparr>lg_committing := False, lg_ncommit := lg_ncommit l2 + 1\<rparr>, s1))
        else Ok (l1, s))"

definition log_write :: "nat \<Rightarrow> log \<Rightarrow> bio \<Rightarrow> (log \<times> bio) res" where
  "log_write b l s =
     (if lg_n l \<ge> int LOGBLOCKS then Panic ''too big a transaction''
      else if lg_outstanding l < 1 then Panic ''log_write outside of trans''
      else
        (let no = bf_blockno (bc_buf s ! b);
             i = (case find (\<lambda>i. lg_block l ! i = no) [0..<nat (lg_n l)] of Some i \<Rightarrow> i | None \<Rightarrow> nat (lg_n l));
             l1 = l\<lparr>lg_block := (lg_block l)[i := no]\<rparr>
         in if int i = lg_n l then Ok (l1\<lparr>lg_n := lg_n l + 1\<rparr>, bpin b s) else Ok (l1, s)))"

text \<open>
  \<open>sys_sync\<close>: the commit count to wait for, if any; the caller sleeps until it is reached.
\<close>

definition sync_target :: "log \<Rightarrow> int option" where
  "sync_target l = (if lg_committing l \<or> lg_outstanding l > 0 then Some (lg_ncommit l + 1) else None)"

definition sync_done :: "int \<Rightarrow> log \<Rightarrow> bool" where
  "sync_done n l \<longleftrightarrow> \<not> lg_ncommit l < n"


section \<open>The header block\<close>

lemma length_put_head:
  assumes "length bs = BSIZE" "nat (lg_n l) \<le> LOGBLOCKS"
  shows "length (put_head l bs) = BSIZE"
proof -
  have "length (fold (\<lambda>i bs. put32 (4 + 4 * i) (lg_block l ! i) bs) [0..<m] bs') = BSIZE" if "length bs' = BSIZE" "m \<le> LOGBLOCKS" for bs' m
    using that(2) by (induction m) (use that(1) in \<open>simp_all add: BSIZE_def LOGBLOCKS_def MAXOPBLOCKS_def\<close>)
  then show ?thesis using assms by (simp add: put_head_def) (simp add: BSIZE_def)
qed

lemma put_head_fold:
  fixes f :: "nat \<Rightarrow> u32" and m :: nat
  assumes "length bs = BSIZE" "m \<le> LOGBLOCKS"
  defines "bs' \<equiv> fold (\<lambda>i bs. put32 (4 + 4 * i) (f i) bs) [0..<m] bs"
  shows "length bs' = BSIZE \<and> get32 0 bs' = get32 0 bs \<and> (\<forall>i < LOGBLOCKS. get32 (4 + 4 * i) bs' = (if i < m then f i else get32 (4 + 4 * i) bs))"
  using assms(2) unfolding bs'_def
proof (induction m)
  case 0
  then show ?case using assms(1) by simp
next
  case (Suc m)
  let ?b = "fold (\<lambda>i bs. put32 (4 + 4 * i) (f i) bs) [0..<m] bs"
  have b: "length ?b = BSIZE" "get32 0 ?b = get32 0 bs" "\<And>i. i < LOGBLOCKS \<Longrightarrow> get32 (4 + 4 * i) ?b = (if i < m then f i else get32 (4 + 4 * i) bs)"
    using Suc by simp_all
  have le: "4 + 4 * i + 4 \<le> length ?b" if "i < LOGBLOCKS" for i using b(1) that by (simp add: BSIZE_def LOGBLOCKS_def MAXOPBLOCKS_def)
  have m: "m < LOGBLOCKS" using Suc.prems by simp
  have "get32 (4 + 4 * i) (put32 (4 + 4 * m) (f m) ?b) = (if i < Suc m then f i else get32 (4 + 4 * i) bs)" if i: "i < LOGBLOCKS" for i
  proof (cases "i = m")
    case True
    then show ?thesis using le [OF m] by simp
  next
    case False
    then have "get32 (4 + 4 * i) (put32 (4 + 4 * m) (f m) ?b) = get32 (4 + 4 * i) ?b"
      using le [OF m] le [OF i] by (intro get32_put32_other) auto
    then show ?thesis using b(3) [OF i] False by auto
  qed
  moreover have "get32 0 (put32 (4 + 4 * m) (f m) ?b) = get32 0 ?b" using le [OF m] by (intro get32_put32_other) simp_all
  ultimately show ?case using b(1,2) le [OF m] by simp
qed

text \<open>Reading back the header that \<open>write_head\<close> wrote.\<close>

lemma get_put_head:
  assumes "length bs = BSIZE" "0 \<le> lg_n l" "nat (lg_n l) \<le> LOGBLOCKS"
  shows "sint (get32 0 (put_head l bs)) = lg_n l" "\<And>i. i < nat (lg_n l) \<Longrightarrow> get32 (4 + 4 * i) (put_head l bs) = lg_block l ! i"
proof -
  let ?b = "put32 0 (of_int (lg_n l)) bs"
  have l0: "length ?b = BSIZE" "0 + 4 \<le> length bs" using assms(1) by (simp_all add: BSIZE_def)
  note f = put_head_fold [OF l0(1) assms(3), of "\<lambda>i. lg_block l ! i"]
  have "get32 0 ?b = of_int (lg_n l)" by (rule get32_put32 [OF l0(2)])
  then have "get32 0 (put_head l bs) = of_int (lg_n l)" using f by (simp add: put_head_def)
  moreover have "sint (of_int (lg_n l) :: u32) = lg_n l"
    using assms(2,3) by (simp add: LOGBLOCKS_def MAXOPBLOCKS_def signed_of_int signed_take_bit_int_eq_self)
  ultimately show "sint (get32 0 (put_head l bs)) = lg_n l" by simp
  show "get32 (4 + 4 * i) (put_head l bs) = lg_block l ! i" if "i < nat (lg_n l)" for i
    using f that assms(3) by (simp add: put_head_def)
qed

section \<open>Sequences of writes\<close>

definition apply_writes :: "(u32 \<times> block) list \<Rightarrow> (u32 \<Rightarrow> block) \<Rightarrow> u32 \<Rightarrow> block" where
  "apply_writes ws d = fold (\<lambda>(b, x) d. d(b := x)) ws d"

lemma apply_writes_simps [simp]:
  "apply_writes [] d = d" "apply_writes ((b, x) # ws) d = apply_writes ws (d(b := x))"
  "apply_writes (ws @ vs) d = apply_writes vs (apply_writes ws d)"
  by (simp_all add: apply_writes_def)

lemma apply_writes_other: "b \<notin> fst ` set ws \<Longrightarrow> apply_writes ws d b = d b"
  by (induction ws arbitrary: d) auto

lemma apply_writes_in:
  assumes "distinct (map fst ws)" "(b, x) \<in> set ws"
  shows "apply_writes ws d b = x"
  using assms
proof (induction ws arbitrary: d)
  case (Cons w ws)
  obtain c y where w: "w = (c, y)" by (cases w)
  show ?case
  proof (cases "w = (b, x)")
    case True
    then have "b \<notin> fst ` set ws" using Cons.prems(1) by (auto simp: w)
    then show ?thesis using True by (simp add: apply_writes_other)
  next
    case False
    then have "(b, x) \<in> set ws" using Cons.prems(2) by auto
    then show ?thesis using Cons by (simp add: w)
  qed
qed simp

text \<open>A step that performed the writes \<open>ws\<close> and left the locks alone.\<close>

definition wrote :: "u32 \<Rightarrow> (u32 \<times> block) list \<Rightarrow> bio \<Rightarrow> bio \<Rightarrow> bool" where
  "wrote dev ws s s' \<longleftrightarrow> bio_inv dev s' \<and> view dev s' = apply_writes ws (view dev s) \<and> bc_disk s' = apply_writes ws (bc_disk s)
     \<and> bc_writes s' = bc_writes s @ ws \<and> held dev s' = held dev s"

lemma wrote_trans: "wrote dev ws s s1 \<Longrightarrow> wrote dev vs s1 s2 \<Longrightarrow> wrote dev (ws @ vs) s s2"
  by (simp add: wrote_def)

text \<open>The cache is at rest: nothing is locked, counts are small, two buffers can be had.\<close>

definition at_rest :: "u32 \<Rightarrow> bio \<Rightarrow> bool" where
  "at_rest dev s \<longleftrightarrow> bio_inv dev s \<and> (\<forall>b. \<not> held dev s b \<and> rc dev s b < 2 ^ 32 - 1) \<and> card {b. 0 < rc dev s b} + 2 \<le> NBUF"

lemma at_rest_wrote:
  assumes "at_rest dev s" "wrote dev ws s s'" "\<And>b. rc dev s' b \<le> rc dev s b"
  shows "at_rest dev s'"
proof -
  have "card {b. 0 < rc dev s' b} \<le> card {b. 0 < rc dev s b}"
    using assms(3) by (intro card_mono) (auto intro: less_le_trans)
  moreover have "rc dev s' b < 2 ^ 32 - 1" for b using assms(1,3) by (metis at_rest_def le_less_trans)
  ultimately show ?thesis using assms(1,2) by (auto simp: at_rest_def wrote_def)
qed

section \<open>The layout of the log\<close>

definition logblk :: "u32 \<Rightarrow> nat \<Rightarrow> u32" where "logblk start i = start + of_nat i + 1"

definition log_area :: "u32 \<Rightarrow> u32 set" where
  "log_area start = insert start (logblk start ` {..<LOGBLOCKS})"

lemma unat_logblk:
  assumes "unat start + LOGBLOCKS + 1 < 2 ^ 32" "i < LOGBLOCKS"
  shows "unat (logblk start i) = unat start + i + 1"
proof -
  have "unat (of_nat i :: u32) = i" using assms(2) by (simp add: unat_of_nat LOGBLOCKS_def MAXOPBLOCKS_def)
  then have "unat (start + of_nat i) = unat start + i" using assms by (simp add: unat_word_ariths)
  then show ?thesis using assms by (simp add: logblk_def unat_word_ariths)
qed

lemma log_area_range:
  assumes "unat start + LOGBLOCKS + 1 < 2 ^ 32" "b \<in> log_area start"
  shows "unat start \<le> unat b \<and> unat b \<le> unat start + LOGBLOCKS"
  using assms(2) unat_logblk [OF assms(1)] by (auto simp: log_area_def)

lemma logblk_inj:
  assumes "unat start + LOGBLOCKS + 1 < 2 ^ 32" "i < LOGBLOCKS" "j < LOGBLOCKS"
  shows "logblk start i = logblk start j \<longleftrightarrow> i = j" "logblk start i \<noteq> start"
proof -
  note u = unat_logblk [OF assms(1)]
  show "logblk start i = logblk start j \<longleftrightarrow> i = j" using u [OF assms(2)] u [OF assms(3)] by (metis add_right_cancel add_left_cancel)
  show "logblk start i \<noteq> start" using u [OF assms(2)] by (metis add.assoc add_cancel_right_right add_is_0 one_neq_zero)
qed

lemma logblk_not_start: "unat start + LOGBLOCKS + 1 < 2 ^ 32 \<Longrightarrow> i < LOGBLOCKS \<Longrightarrow> logblk start i \<noteq> start"
  using logblk_inj(2) by blast

text \<open>The blocks of a transaction: distinct home blocks outside the log.\<close>

definition txn_ok :: "log \<Rightarrow> bool" where
  "txn_ok l \<longleftrightarrow> 0 \<le> lg_n l \<and> nat (lg_n l) \<le> LOGBLOCKS \<and> length (lg_block l) = LOGBLOCKS
     \<and> unat (lg_start l) + LOGBLOCKS + 1 < 2 ^ 32
     \<and> distinct (take (nat (lg_n l)) (lg_block l)) \<and> set (take (nat (lg_n l)) (lg_block l)) \<inter> log_area (lg_start l) = {}"

abbreviation ntx :: "log \<Rightarrow> nat" where "ntx l \<equiv> nat (lg_n l)"

lemma txn_blocks:
  assumes "txn_ok l" "i < ntx l"
  shows "i < LOGBLOCKS" "lg_block l ! i \<notin> log_area (lg_start l)" "lg_block l ! i \<noteq> lg_start l"
    "j < LOGBLOCKS \<Longrightarrow> lg_block l ! i \<noteq> logblk (lg_start l) j" "j < ntx l \<Longrightarrow> lg_block l ! i = lg_block l ! j \<longleftrightarrow> i = j"
proof -
  show i: "i < LOGBLOCKS" using assms by (simp add: txn_ok_def)
  have "lg_block l ! i \<in> set (take (ntx l) (lg_block l))" using assms by (auto simp: txn_ok_def in_set_conv_nth intro!: exI [of _ i])
  then show a: "lg_block l ! i \<notin> log_area (lg_start l)" using assms by (auto simp: txn_ok_def)
  then show "lg_block l ! i \<noteq> lg_start l" "j < LOGBLOCKS \<Longrightarrow> lg_block l ! i \<noteq> logblk (lg_start l) j" by (auto simp: log_area_def)
  show "j < ntx l \<Longrightarrow> lg_block l ! i = lg_block l ! j \<longleftrightarrow> i = j"
    using assms nth_eq_iff_index_eq [of "take (ntx l) (lg_block l)" i j] by (auto simp: txn_ok_def)
qed


section \<open>The steps of commit and recovery\<close>

lemma write_one_ok:
  assumes "at_rest (lg_dev l) s" "txn_ok l" "i < ntx l"
  shows "\<exists>s'. write_one pid l i s = Ok s' \<and> wrote (lg_dev l) [(logblk (lg_start l) i, view (lg_dev l) s (lg_block l ! i))] s s'
    \<and> rc (lg_dev l) s' = rc (lg_dev l) s"
proof -
  have "logblk (lg_start l) i \<noteq> lg_block l ! i" using txn_blocks [OF assms(2,3)] by metis
  from bcache.copy_to_first [of "lg_dev l" s "logblk (lg_start l) i" "lg_block l ! i" pid, OF _ this] assms(1) show ?thesis
    by (simp add: at_rest_def write_one_def wrote_def logblk_def) blast
qed

lemma install_one_ok:
  assumes "at_rest (lg_dev l) s" "txn_ok l" "i < ntx l" "\<not> recovering \<Longrightarrow> 0 < rc (lg_dev l) s (lg_block l ! i)"
  shows "\<exists>s'. install_one pid l recovering i s = Ok s' \<and> wrote (lg_dev l) [(lg_block l ! i, view (lg_dev l) s (logblk (lg_start l) i))] s s'
    \<and> rc (lg_dev l) s' = (if recovering then rc (lg_dev l) s else (rc (lg_dev l) s)(lg_block l ! i := rc (lg_dev l) s (lg_block l ! i) - 1))"
proof -
  have "logblk (lg_start l) i \<noteq> lg_block l ! i" using txn_blocks [OF assms(2,3)] by metis
  from bcache.copy_to_second [of "lg_dev l" s "logblk (lg_start l) i" "lg_block l ! i" "\<not> recovering" pid, OF _ this] assms(1,4) show ?thesis
    by (simp add: at_rest_def install_one_def wrote_def logblk_def) (cases recovering; simp; blast)
qed

definition copies :: "log \<Rightarrow> (u32 \<Rightarrow> block) \<Rightarrow> nat \<Rightarrow> (u32 \<times> block) list" where
  "copies l v m = map (\<lambda>i. (logblk (lg_start l) i, v (lg_block l ! i))) [0..<m]"

definition installs :: "log \<Rightarrow> (u32 \<Rightarrow> block) \<Rightarrow> nat \<Rightarrow> (u32 \<times> block) list" where
  "installs l v m = map (\<lambda>i. (lg_block l ! i, v (logblk (lg_start l) i))) [0..<m]"

lemma copies_other: "b \<notin> log_area (lg_start l) \<Longrightarrow> m \<le> LOGBLOCKS \<Longrightarrow> apply_writes (copies l v m) d b = d b"
  by (rule apply_writes_other) (auto simp: copies_def log_area_def)

lemma installs_other:
  assumes "b \<notin> (!) (lg_block l) ` {..<m}"
  shows "apply_writes (installs l v m) d b = d b"
  using assms by (intro apply_writes_other) (auto simp: installs_def)

lemma installs_log:
  assumes "txn_ok l" "b \<in> log_area (lg_start l)" "m \<le> ntx l"
  shows "apply_writes (installs l v m) d b = d b"
proof (rule installs_other)
  show "b \<notin> (!) (lg_block l) ` {..<m}" using assms txn_blocks(2) [OF assms(1)] by fastforce
qed

lemma copies_in:
  assumes "txn_ok l" "i < m" "m \<le> ntx l"
  shows "apply_writes (copies l v m) d (logblk (lg_start l) i) = v (lg_block l ! i)"
proof (rule apply_writes_in)
  have "inj_on (logblk (lg_start l)) {0..<m}"
    using assms logblk_inj(1) by (auto simp: inj_on_def txn_ok_def)
  then show "distinct (map fst (copies l v m))" by (simp add: copies_def distinct_map comp_def)
  show "(logblk (lg_start l) i, v (lg_block l ! i)) \<in> set (copies l v m)" using assms(2) by (simp add: copies_def)
qed

lemma installs_in:
  assumes "txn_ok l" "i < m" "m \<le> ntx l"
  shows "apply_writes (installs l v m) d (lg_block l ! i) = v (logblk (lg_start l) i)"
proof (rule apply_writes_in)
  have "inj_on ((!) (lg_block l)) {0..<m}"
    using assms txn_blocks(5) [OF assms(1)] by (fastforce simp: inj_on_def)
  then show "distinct (map fst (installs l v m))" by (simp add: installs_def distinct_map comp_def)
  show "(lg_block l ! i, v (logblk (lg_start l) i)) \<in> set (installs l v m)" using assms(2) by (simp add: installs_def)
qed

lemma copies_start:
  assumes "txn_ok l" "m \<le> ntx l"
  shows "apply_writes (copies l v m) d (lg_start l) = d (lg_start l)"
proof (rule apply_writes_other)
  have "logblk (lg_start l) i \<noteq> lg_start l" if "i < m" for i
    using that assms by (intro logblk_not_start) (auto simp: txn_ok_def)
  then show "lg_start l \<notin> fst ` set (copies l v m)" by (auto simp: copies_def dest: sym)
qed

lemma copies_Suc: "copies l v (Suc m) = copies l v m @ [(logblk (lg_start l) m, v (lg_block l ! m))]"
  by (simp add: copies_def)

lemma installs_Suc: "installs l v (Suc m) = installs l v m @ [(lg_block l ! m, v (logblk (lg_start l) m))]"
  by (simp add: installs_def)

lemma write_log_ok:
  assumes "at_rest (lg_dev l) s" "txn_ok l" "m \<le> ntx l"
  shows "\<exists>s'. fold_res (write_one pid l) [0..<m] s = Ok s' \<and> at_rest (lg_dev l) s' \<and> rc (lg_dev l) s' = rc (lg_dev l) s
    \<and> wrote (lg_dev l) (copies l (view (lg_dev l) s) m) s s'"
  using assms(3)
proof (induction m)
  case 0
  then show ?case using assms(1) by (simp add: copies_def wrote_def at_rest_def)
next
  case (Suc m)
  then obtain s1 where s1: "fold_res (write_one pid l) [0..<m] s = Ok s1" "at_rest (lg_dev l) s1" "rc (lg_dev l) s1 = rc (lg_dev l) s"
    "wrote (lg_dev l) (copies l (view (lg_dev l) s) m) s s1" by auto
  have m: "m < ntx l" using Suc.prems by simp
  have "view (lg_dev l) s1 (lg_block l ! m) = view (lg_dev l) s (lg_block l ! m)"
    using s1(4) txn_blocks(1,2) [OF assms(2) m] by (simp add: wrote_def copies_other)
  then obtain s2 where s2: "write_one pid l m s1 = Ok s2" "wrote (lg_dev l) [(logblk (lg_start l) m, view (lg_dev l) s (lg_block l ! m))] s1 s2"
    "rc (lg_dev l) s2 = rc (lg_dev l) s1" using write_one_ok [OF s1(2) assms(2) m] by metis
  have "at_rest (lg_dev l) s2" using at_rest_wrote [OF s1(2) s2(2)] s2(3) by simp
  then show ?case using s1 s2 wrote_trans [OF s1(4) s2(2)] by (simp add: fold_res_append copies_Suc)
qed

lemma install_trans_ok:
  assumes "at_rest (lg_dev l) s" "txn_ok l" "m \<le> ntx l" "\<not> recovering \<Longrightarrow> \<forall>i < ntx l. 0 < rc (lg_dev l) s (lg_block l ! i)"
  shows "\<exists>s'. fold_res (install_one pid l recovering) [0..<m] s = Ok s' \<and> at_rest (lg_dev l) s'
    \<and> wrote (lg_dev l) (installs l (view (lg_dev l) s) m) s s'
    \<and> (\<forall>b. rc (lg_dev l) s' b = (if \<not> recovering \<and> b \<in> (!) (lg_block l) ` {..<m} then rc (lg_dev l) s b - 1 else rc (lg_dev l) s b))"
  using assms(3)
proof (induction m)
  case 0
  then show ?case using assms(1) by (simp add: installs_def wrote_def at_rest_def)
next
  case (Suc m)
  then obtain s1 where s1: "fold_res (install_one pid l recovering) [0..<m] s = Ok s1" "at_rest (lg_dev l) s1"
    "wrote (lg_dev l) (installs l (view (lg_dev l) s) m) s s1"
    "\<forall>b. rc (lg_dev l) s1 b = (if \<not> recovering \<and> b \<in> (!) (lg_block l) ` {..<m} then rc (lg_dev l) s b - 1 else rc (lg_dev l) s b)" by auto
  have m: "m < ntx l" using Suc.prems by simp
  have new: "lg_block l ! m \<notin> (!) (lg_block l) ` {..<m}"
  proof
    assume "lg_block l ! m \<in> (!) (lg_block l) ` {..<m}"
    then obtain j where "j < m" "lg_block l ! m = lg_block l ! j" by auto
    then show False using txn_blocks(5) [OF assms(2) m, of j] m by simp
  qed
  have "logblk (lg_start l) m \<in> log_area (lg_start l)" using txn_blocks(1) [OF assms(2) m] by (simp add: log_area_def)
  then have v: "view (lg_dev l) s1 (logblk (lg_start l) m) = view (lg_dev l) s (logblk (lg_start l) m)"
    using s1(3) m installs_log [OF assms(2)] by (simp add: wrote_def)
  have "0 < rc (lg_dev l) s1 (lg_block l ! m)" if "\<not> recovering" using that assms(4) m s1(4) new by simp
  then obtain s2 where s2: "install_one pid l recovering m s1 = Ok s2" "wrote (lg_dev l) [(lg_block l ! m, view (lg_dev l) s (logblk (lg_start l) m))] s1 s2"
    "rc (lg_dev l) s2 = (if recovering then rc (lg_dev l) s1 else (rc (lg_dev l) s1)(lg_block l ! m := rc (lg_dev l) s1 (lg_block l ! m) - 1))"
    using install_one_ok [OF s1(2) assms(2) m, of recovering pid] v by auto
  have "at_rest (lg_dev l) s2" using s2(3) by (intro at_rest_wrote [OF s1(2) s2(2)]) simp
  moreover have "\<forall>b. rc (lg_dev l) s2 b = (if \<not> recovering \<and> b \<in> (!) (lg_block l) ` {..<Suc m} then rc (lg_dev l) s b - 1 else rc (lg_dev l) s b)"
    using s2(3) s1(4) new by (auto simp: lessThan_Suc)
  ultimately show ?case using s1 s2 wrote_trans [OF s1(3) s2(2)] by (simp add: fold_res_append installs_Suc)
qed


lemma write_head_ok:
  assumes "at_rest (lg_dev l) s"
  shows "\<exists>s'. write_head pid l s = Ok s' \<and> at_rest (lg_dev l) s' \<and> rc (lg_dev l) s' = rc (lg_dev l) s
    \<and> wrote (lg_dev l) [(lg_start l, put_head l (view (lg_dev l) s (lg_start l)))] s s'"
proof -
  obtain s' where "write_head pid l s = Ok s'" "rc (lg_dev l) s' = rc (lg_dev l) s"
    "wrote (lg_dev l) [(lg_start l, put_head l (view (lg_dev l) s (lg_start l)))] s s'"
    using bcache.rewrite_block [of "lg_dev l" s "lg_start l" pid "put_head l"] assms by (auto simp: at_rest_def write_head_def wrote_def)
  then show ?thesis using at_rest_wrote [OF assms] by auto
qed

text \<open>What a header block says.\<close>

definition head_n :: "block \<Rightarrow> int" where "head_n bs = sint (get32 0 bs)"

definition loaded :: "log \<Rightarrow> block \<Rightarrow> log" where
  "loaded l bs = l\<lparr>lg_n := head_n bs, lg_block := map (\<lambda>i. get32 (4 + 4 * i) bs) [0..<nat (head_n bs)] @ drop (nat (head_n bs)) (lg_block l)\<rparr>"

lemma loaded_fields [simp]: "lg_dev (loaded l bs) = lg_dev l" "lg_start (loaded l bs) = lg_start l" "lg_n (loaded l bs) = head_n bs"
  by (simp_all add: loaded_def)

lemma read_head_ok:
  assumes "at_rest (lg_dev l) s" "head_n (view (lg_dev l) s (lg_start l)) \<le> int LOGBLOCKS"
  shows "\<exists>s'. read_head pid l s = Ok (loaded l (view (lg_dev l) s (lg_start l)), s') \<and> at_rest (lg_dev l) s' \<and> rc (lg_dev l) s' = rc (lg_dev l) s
    \<and> wrote (lg_dev l) [] s s'"
proof -
  obtain h s1 s' where "bread pid (lg_dev l) (lg_start l) s = Ok (h, s1)" "bf_data (bc_buf s1 ! h) = view (lg_dev l) s (lg_start l)" "brelse pid h s1 = Ok s'"
    "rc (lg_dev l) s' = rc (lg_dev l) s" "wrote (lg_dev l) [] s s'"
    using bcache.read_block [of "lg_dev l" s "lg_start l" pid] assms(1) by (auto simp: at_rest_def wrote_def)
  then show ?thesis using at_rest_wrote [OF assms(1), of "[]" s'] assms(2) by (simp add: read_head_def loaded_def head_n_def Let_def)
qed

section \<open>Commit\<close>

definition commit_writes :: "log \<Rightarrow> (u32 \<Rightarrow> block) \<Rightarrow> (u32 \<times> block) list" where
  "commit_writes l v =
     copies l v (ntx l) @ [(lg_start l, put_head l (v (lg_start l)))]
     @ map (\<lambda>i. (lg_block l ! i, v (lg_block l ! i))) [0..<ntx l]
     @ [(lg_start l, put_head (l\<lparr>lg_n := 0\<rparr>) (put_head l (v (lg_start l))))]"

lemma start_in_area: "lg_start l \<in> log_area (lg_start l)"
  by (simp add: log_area_def)

lemma commit_installs:
  assumes "txn_ok l"
  shows "installs l (apply_writes (copies l v (ntx l) @ [(lg_start l, h)]) d) (ntx l) = map (\<lambda>i. (lg_block l ! i, v (lg_block l ! i))) [0..<ntx l]"
proof -
  have "apply_writes (copies l v (ntx l) @ [(lg_start l, h)]) d (logblk (lg_start l) i) = v (lg_block l ! i)" if "i < ntx l" for i
    using that copies_in [OF assms that] txn_blocks(1) [OF assms that] logblk_not_start [of "lg_start l" i] assms by (simp add: txn_ok_def)
  then show ?thesis by (simp add: installs_def)
qed

lemma log_commit_ok:
  assumes "at_rest (lg_dev l) s" "txn_ok l" "0 < lg_n l" "\<forall>i < ntx l. 0 < rc (lg_dev l) s (lg_block l ! i)"
  shows "\<exists>s'. commit pid l s = Ok (l\<lparr>lg_n := 0\<rparr>, s') \<and> at_rest (lg_dev l) s' \<and> wrote (lg_dev l) (commit_writes l (view (lg_dev l) s)) s s'
    \<and> (\<forall>b. rc (lg_dev l) s' b = (if b \<in> set (take (ntx l) (lg_block l)) then rc (lg_dev l) s b - 1 else rc (lg_dev l) s b))"
proof -
  let ?d = "lg_dev l" let ?v = "view ?d s" let ?l = "l\<lparr>lg_n := 0\<rparr>"
  obtain s1 where s1: "write_log pid l s = Ok s1" "at_rest ?d s1" "rc ?d s1 = rc ?d s" "wrote ?d (copies l ?v (ntx l)) s s1"
    using write_log_ok [OF assms(1,2) order_refl, of pid] unfolding write_log_def by blast
  have n: "ntx l \<le> LOGBLOCKS" using assms(2) by (simp add: txn_ok_def)
  have "view ?d s1 (lg_start l) = ?v (lg_start l)"
    using s1(4) copies_start [OF assms(2) order_refl] by (simp add: wrote_def)
  then obtain s2 where s2: "write_head pid l s1 = Ok s2" "at_rest ?d s2" "rc ?d s2 = rc ?d s1" "wrote ?d [(lg_start l, put_head l (?v (lg_start l)))] s1 s2"
    using write_head_ok [OF s1(2), of pid] by auto
  have w12: "wrote ?d (copies l ?v (ntx l) @ [(lg_start l, put_head l (?v (lg_start l)))]) s s2" by (rule wrote_trans [OF s1(4) s2(4)])
  have v2: "view ?d s2 = apply_writes (copies l ?v (ntx l) @ [(lg_start l, put_head l (?v (lg_start l)))]) ?v" using w12 by (simp add: wrote_def)
  obtain s3 where s3: "install_trans pid l False s2 = Ok s3" "at_rest ?d s3" "wrote ?d (installs l (view ?d s2) (ntx l)) s2 s3"
    "\<forall>b. rc ?d s3 b = (if b \<in> (!) (lg_block l) ` {..<ntx l} then rc ?d s2 b - 1 else rc ?d s2 b)"
    using install_trans_ok [OF s2(2) assms(2) order_refl, of False pid] assms(4) s1(3) s2(3) unfolding install_trans_def by auto
  have "view ?d s3 (lg_start l) = put_head l (?v (lg_start l))"
    using s3(3) s2(4) installs_log [OF assms(2) start_in_area order_refl] by (simp add: wrote_def)
  then obtain s4 where s4: "write_head pid ?l s3 = Ok s4" "at_rest ?d s4" "rc ?d s4 = rc ?d s3"
    "wrote ?d [(lg_start l, put_head ?l (put_head l (?v (lg_start l))))] s3 s4" using write_head_ok [of ?l s3 pid] s3(2) by auto
  have "wrote ?d (commit_writes l ?v) s s4"
    using wrote_trans [OF wrote_trans [OF w12 s3(3)] s4(4)] unfolding v2 commit_installs [OF assms(2)] commit_writes_def by simp
  moreover have "set (take (ntx l) (lg_block l)) = (!) (lg_block l) ` {..<ntx l}"
    using assms(2) by (simp add: txn_ok_def nth_image lessThan_atLeast0)
  ultimately show ?thesis using s1 s2 s3 s4 assms(3) by (simp add: commit_def Let_def)
qed


section \<open>Recovery\<close>

definition disk_log :: "u32 \<Rightarrow> u32 \<Rightarrow> (u32 \<Rightarrow> block) \<Rightarrow> log" where
  "disk_log dev start d = loaded (log0\<lparr>lg_start := start, lg_dev := dev\<rparr>) (d start)"

definition recovery_writes :: "u32 \<Rightarrow> u32 \<Rightarrow> (u32 \<Rightarrow> block) \<Rightarrow> (u32 \<times> block) list" where
  "recovery_writes dev start d =
     (let l = disk_log dev start d in installs l d (ntx l) @ [(start, put_head (l\<lparr>lg_n := 0\<rparr>) (d start))])"

abbreviation reboot :: "int \<Rightarrow> u32 \<Rightarrow> u32 \<Rightarrow> (u32 \<Rightarrow> block) \<Rightarrow> (log \<times> bio) res" where
  "reboot pid dev start d \<equiv> initlog pid dev start log0 (binit (bcache0 d))"

lemma disk_log_fields [simp]: "lg_dev (disk_log dev start d) = dev" "lg_start (disk_log dev start d) = start" "lg_n (disk_log dev start d) = head_n (d start)"
  by (simp_all add: disk_log_def)

lemma reboot_ok:
  assumes "dev \<noteq> 0" "txn_ok (disk_log dev start d)"
  shows "\<exists>s'. reboot pid dev start d = Ok ((disk_log dev start d)\<lparr>lg_n := 0\<rparr>, s') \<and> at_rest dev s' \<and> bc_writes s' = recovery_writes dev start d
    \<and> bc_disk s' = apply_writes (recovery_writes dev start d) d \<and> view dev s' = bc_disk s'"
proof -
  let ?s = "binit (bcache0 d)" let ?k = "log0\<lparr>lg_start := start, lg_dev := dev\<rparr>" let ?l = "disk_log dev start d" let ?e = "?l\<lparr>lg_n := 0\<rparr>"
  note b = binit_ok [OF assms(1), of d]
  have r: "at_rest dev ?s" using b by (simp add: at_rest_def NBUF_def MAXOPBLOCKS_def)
  have h: "head_n (d start) \<le> int LOGBLOCKS" using assms(2) by (auto simp: txn_ok_def)
  obtain s1 where s1: "read_head pid ?k ?s = Ok (?l, s1)" "at_rest dev s1" "wrote dev [] ?s s1"
    using read_head_ok [of ?k ?s pid] r h b(2) by (auto simp: disk_log_def)
  obtain s2 where s2: "install_trans pid ?l True s1 = Ok s2" "at_rest dev s2" "wrote dev (installs ?l (view dev s1) (ntx ?l)) s1 s2"
    using install_trans_ok [of ?l s1 "ntx ?l" True pid] s1(2) assms(2) unfolding install_trans_def by auto
  have v1: "view dev s1 = d" using s1(3) b(2) by (simp add: wrote_def)
  have "view dev s2 start = d start"
    using s2(3) v1 installs_log [OF assms(2) start_in_area order_refl] by (simp add: wrote_def)
  then obtain s3 where s3: "write_head pid ?e s2 = Ok s3" "at_rest dev s3" "wrote dev [(start, put_head ?e (d start))] s2 s3"
    using write_head_ok [of ?e s2 pid] s2(2) by auto
  have "wrote dev (recovery_writes dev start d) ?s s3"
    using wrote_trans [OF s1(3) wrote_trans [OF s2(3) s3(3)]] v1 by (simp add: recovery_writes_def Let_def)
  then have "bc_writes s3 = recovery_writes dev start d" "bc_disk s3 = apply_writes (recovery_writes dev start d) d" "view dev s3 = bc_disk s3"
    using b(2,5,6) by (simp_all add: wrote_def)
  moreover have "reboot pid dev start d = Ok (?e, s3)"
    using s1(1) s2(1) s3(1) by (simp add: initlog_def recover_from_log_def Let_def BSIZE_def LOGBLOCKS_def MAXOPBLOCKS_def)
  ultimately show ?thesis using s3(2) by blast
qed

lemma recovered_home:
  assumes "txn_ok (disk_log dev start d)" "b \<notin> log_area start"
  shows "apply_writes (recovery_writes dev start d) d b =
    (case find (\<lambda>i. lg_block (disk_log dev start d) ! i = b) [0..<nat (head_n (d start))] of None \<Rightarrow> d b | Some i \<Rightarrow> d (logblk start i))"
proof -
  let ?l = "disk_log dev start d"
  have "b \<noteq> start" using assms(2) by (auto simp: log_area_def)
  then have r: "apply_writes (recovery_writes dev start d) d b = apply_writes (installs ?l d (ntx ?l)) d b"
    by (simp add: recovery_writes_def Let_def)
  show ?thesis
  proof (cases "find (\<lambda>i. lg_block ?l ! i = b) [0..<ntx ?l]")
    case None
    then have "b \<notin> (!) (lg_block ?l) ` {..<ntx ?l}" by (auto simp: find_None_iff)
    then show ?thesis using r None installs_other by simp
  next
    case (Some i)
    then have "i < ntx ?l" "lg_block ?l ! i = b" by (auto simp: find_Some_iff)
    then show ?thesis using r Some installs_in [OF assms(1), of i "ntx ?l" d d] by auto
  qed
qed

lemma head_n_put_head:
  assumes "length bs = BSIZE" "0 \<le> lg_n l" "ntx l \<le> LOGBLOCKS"
  shows "head_n (put_head l bs) = lg_n l"
  using get_put_head(1) [OF assms] by (simp add: head_n_def)

lemma empty_disk_log:
  assumes "unat start + LOGBLOCKS + 1 < 2 ^ 32" "head_n (d start) = 0"
  shows "txn_ok (disk_log dev start d)" "b \<notin> log_area start \<Longrightarrow> apply_writes (recovery_writes dev start d) d b = d b"
proof -
  show t: "txn_ok (disk_log dev start d)" using assms by (simp add: txn_ok_def disk_log_def loaded_def log0_def)
  show "b \<notin> log_area start \<Longrightarrow> apply_writes (recovery_writes dev start d) d b = d b" using recovered_home [OF t] assms(2) by simp
qed

text \<open>A disk that holds the log of a transaction recovers the blocks of the log.\<close>

lemma full_disk_log:
  assumes "txn_ok l" "length bs = BSIZE" "d (lg_start l) = put_head l bs"
  shows "take (ntx l) (lg_block (disk_log dev (lg_start l) d)) = take (ntx l) (lg_block l)" "txn_ok (disk_log dev (lg_start l) d)"
    "i < ntx l \<Longrightarrow> apply_writes (recovery_writes dev (lg_start l) d) d (lg_block l ! i) = d (logblk (lg_start l) i)"
    "b \<notin> log_area (lg_start l) \<Longrightarrow> b \<notin> set (take (ntx l) (lg_block l)) \<Longrightarrow> apply_writes (recovery_writes dev (lg_start l) d) d b = d b"
proof -
  let ?l = "disk_log dev (lg_start l) d"
  have n: "0 \<le> lg_n l" "ntx l \<le> LOGBLOCKS" "length (lg_block l) = LOGBLOCKS" using assms(1) by (simp_all add: txn_ok_def)
  have hn: "head_n (d (lg_start l)) = lg_n l" using head_n_put_head [OF assms(2) n(1,2)] assms(3) by simp
  have bl: "lg_block ?l = map (\<lambda>i. get32 (4 + 4 * i) (put_head l bs)) [0..<ntx l] @ drop (ntx l) (replicate LOGBLOCKS 0)"
    unfolding disk_log_def loaded_def hn assms(3) using head_n_put_head [OF assms(2) n(1,2)] by (simp add: log0_def)
  show t: "take (ntx l) (lg_block ?l) = take (ntx l) (lg_block l)"
    using get_put_head(2) [OF assms(2) n(1,2)] n by (intro nth_equalityI) (simp_all add: bl)
  show ok: "txn_ok ?l" using assms(1) t by (simp add: txn_ok_def hn bl)
  have nth: "lg_block ?l ! i = lg_block l ! i" if "i < ntx l" for i using t that by (metis nth_take)
  show "apply_writes (recovery_writes dev (lg_start l) d) d (lg_block l ! i) = d (logblk (lg_start l) i)" if i: "i < ntx l"
  proof -
    have a: "lg_block l ! i \<notin> log_area (lg_start l)" by (rule txn_blocks(2) [OF assms(1) i])
    have "find (\<lambda>j. lg_block ?l ! j = lg_block l ! i) [0..<ntx l] = Some i"
    proof -
      have "lg_block ?l ! j \<noteq> lg_block l ! i" if "j < i" for j
        using that i nth [of j] txn_blocks(5) [OF assms(1) i, of j] by simp
      then show ?thesis using i nth by (auto simp: find_Some_iff intro!: exI [of _ i])
    qed
    then show ?thesis using recovered_home [OF ok a] hn by simp
  qed
  show "apply_writes (recovery_writes dev (lg_start l) d) d b = d b" if b: "b \<notin> log_area (lg_start l)" "b \<notin> set (take (ntx l) (lg_block l))"
  proof -
    have "lg_block ?l ! i \<noteq> b" if "i < ntx l" for i
      using b(2) nth [OF that] that n by (auto simp: in_set_conv_nth)
    then have "find (\<lambda>i. lg_block ?l ! i = b) [0..<ntx l] = None" by (simp add: find_None_iff)
    then show ?thesis using recovered_home [OF ok b(1)] hn by simp
  qed
qed


section \<open>Crashes\<close>

lemma take_copies: "m \<le> n \<Longrightarrow> take m (copies l v n) = copies l v m"
  by (simp add: copies_def take_map)

lemma take_installs: "m \<le> n \<Longrightarrow> take m (installs l v n) = installs l v m"
  by (simp add: installs_def take_map)

text \<open>The disk after a crash in the middle of a commit, in the three cases of the commit point.\<close>

lemma crash_before:
  assumes "txn_ok l" "k \<le> ntx l" "d' = apply_writes (take k (commit_writes l v)) d"
  shows "d' (lg_start l) = d (lg_start l)" "b \<notin> log_area (lg_start l) \<Longrightarrow> d' b = d b"
proof -
  have t: "take k (commit_writes l v) = copies l v k" using assms(2) by (simp add: commit_writes_def take_copies) (simp add: copies_def)
  show "d' (lg_start l) = d (lg_start l)" unfolding assms(3) t by (rule copies_start [OF assms(1,2)])
  have "k \<le> LOGBLOCKS" using assms(1,2) by (simp add: txn_ok_def)
  then show "b \<notin> log_area (lg_start l) \<Longrightarrow> d' b = d b" unfolding assms(3) t using copies_other by blast
qed

lemma commit_writes_installs:
  assumes "txn_ok l"
  shows "commit_writes l v = (copies l v (ntx l) @ [(lg_start l, put_head l (v (lg_start l)))])
    @ installs l (apply_writes (copies l v (ntx l) @ [(lg_start l, put_head l (v (lg_start l)))]) d) (ntx l)
    @ [(lg_start l, put_head (l\<lparr>lg_n := 0\<rparr>) (put_head l (v (lg_start l))))]"
  unfolding commit_installs [OF assms] by (simp add: commit_writes_def)

lemma take_commit:
  fixes v d
  assumes "txn_ok l" "m \<le> ntx l"
  defines "p \<equiv> copies l v (ntx l) @ [(lg_start l, put_head l (v (lg_start l)))]"
  shows "take (ntx l + 1 + m) (commit_writes l v) = p @ installs l (apply_writes p d) m"
proof -
  have "length p = ntx l + 1" by (simp add: p_def copies_def)
  then have "take (ntx l + 1 + m) (p @ xs) = p @ take m xs" for xs by simp
  moreover have "take m (installs l e (ntx l) @ xs) = installs l e m" for e xs
    using assms(2) take_installs [OF assms(2), of l e] by (simp add: installs_def)
  ultimately show ?thesis unfolding commit_writes_installs [OF assms(1), of v d] p_def [symmetric] by (simp only:)
qed

lemma txn_set:
  assumes "txn_ok l"
  shows "set (take (ntx l) (lg_block l)) = (!) (lg_block l) ` {..<ntx l}"
  using assms by (simp add: txn_ok_def nth_image lessThan_atLeast0)

lemma crash_between:
  assumes "txn_ok l" "ntx l < k" "k \<le> 2 * ntx l + 1" "d' = apply_writes (take k (commit_writes l v)) d"
  shows "d' (lg_start l) = put_head l (v (lg_start l))" "i < ntx l \<Longrightarrow> d' (logblk (lg_start l) i) = v (lg_block l ! i)"
    "b \<notin> log_area (lg_start l) \<Longrightarrow> b \<notin> set (take (ntx l) (lg_block l)) \<Longrightarrow> d' b = d b"
proof -
  let ?h = "put_head l (v (lg_start l))"
  define e where "e = apply_writes (copies l v (ntx l) @ [(lg_start l, ?h)]) d"
  define m where "m = k - (ntx l + 1)"
  have m: "m \<le> ntx l" "k = ntx l + 1 + m" using assms(2,3) by (simp_all add: m_def)
  note t = take_commit [OF assms(1) m(1), of v d, folded e_def m(2)]
  have d': "d' = apply_writes (installs l e m) e" unfolding assms(4) t e_def by simp
  have es: "e (lg_start l) = ?h" by (simp add: e_def)
  have a: "d' b = e b" if "b \<in> log_area (lg_start l)" for b unfolding d' by (rule installs_log [OF assms(1) that m(1)])
  show "d' (lg_start l) = ?h" using a [OF start_in_area] es by simp
  show "d' (logblk (lg_start l) i) = v (lg_block l ! i)" if i: "i < ntx l"
  proof -
    have "i < LOGBLOCKS" using i assms(1) by (simp add: txn_ok_def)
    then have "logblk (lg_start l) i \<in> log_area (lg_start l)" "logblk (lg_start l) i \<noteq> lg_start l"
      using assms(1) logblk_not_start by (auto simp: log_area_def txn_ok_def)
    then show ?thesis using a copies_in [OF assms(1) i order_refl, of v d] by (simp add: e_def)
  qed
  show "d' b = d b" if "b \<notin> log_area (lg_start l)" "b \<notin> set (take (ntx l) (lg_block l))"
  proof -
    have "b \<notin> (!) (lg_block l) ` {..<m}"
      using that(2) m(1) by (auto simp: txn_set [OF assms(1)])
    then have "d' b = e b" unfolding d' by (rule installs_other)
    moreover have "b \<noteq> lg_start l" using that(1) start_in_area by blast
    ultimately show ?thesis using copies_other [OF that(1), of "ntx l" v d] assms(1) by (simp add: e_def txn_ok_def)
  qed
qed

lemma crash_after:
  assumes "txn_ok l" "length (v (lg_start l)) = BSIZE" "2 * ntx l + 1 < k" "d' = apply_writes (take k (commit_writes l v)) d"
  shows "head_n (d' (lg_start l)) = 0" "i < ntx l \<Longrightarrow> d' (lg_block l ! i) = v (lg_block l ! i)"
    "b \<notin> log_area (lg_start l) \<Longrightarrow> b \<notin> set (take (ntx l) (lg_block l)) \<Longrightarrow> d' b = d b"
proof -
  let ?h = "put_head l (v (lg_start l))" let ?e = "l\<lparr>lg_n := 0\<rparr>" let ?n = "ntx l"
  have n: "ntx l \<le> LOGBLOCKS" using assms(1) by (simp add: txn_ok_def)
  define p where "p = apply_writes (take (2 * ?n + 1) (commit_writes l v)) d"
  have len: "length (commit_writes l v) = 2 * ?n + 2" by (simp add: commit_writes_def copies_def)
  have all: "take k (commit_writes l v) = commit_writes l v" using assms(3) len by simp
  have "commit_writes l v = take (2 * ?n + 1) (commit_writes l v) @ [(lg_start l, put_head ?e ?h)]"
    by (simp add: commit_writes_def copies_def)
  then have d': "d' = p(lg_start l := put_head ?e ?h)" unfolding assms(4) all p_def
    by (metis apply_writes_simps(1,2,3))
  have "length ?h = BSIZE" using length_put_head assms(2) n by blast
  then show "head_n (d' (lg_start l)) = 0" using head_n_put_head [of ?h ?e] by (simp add: d')
  have q: "apply_writes (copies l v ?n @ [(lg_start l, ?h)]) d = apply_writes (take (?n + 1) (commit_writes l v)) d"
    by (simp add: commit_writes_def copies_def)
  show "d' b = d b" if "b \<notin> log_area (lg_start l)" "b \<notin> set (take ?n (lg_block l))"
    using crash_between(3) [OF assms(1) _ _ p_def that] that(1) start_in_area by (auto simp: d')
  show "d' (lg_block l ! i) = v (lg_block l ! i)" if i: "i < ntx l"
  proof -
    define e where "e = apply_writes (copies l v ?n @ [(lg_start l, ?h)]) d"
    have "p = apply_writes (installs l e ?n) e"
      unfolding p_def e_def using take_commit [OF assms(1) order_refl, of v d] by (simp add: mult_2 add.commute add.left_commute)
    then have "p (lg_block l ! i) = e (logblk (lg_start l) i)" using installs_in [OF assms(1) i order_refl] by simp
    also have "\<dots> = v (lg_block l ! i)" using crash_between(2) [OF assms(1) _ _ refl i, of "?n + 1" v d] q by (simp add: e_def)
    finally show ?thesis using txn_blocks(3) [OF assms(1) i] by (simp add: d')
  qed
qed


lemma reboot_after_crash:
  assumes "dev \<noteq> 0" "txn_ok l" "length (v (lg_start l)) = BSIZE" "head_n (d (lg_start l)) = 0"
  shows "\<exists>l' s'. reboot pid dev (lg_start l) (apply_writes (take k (commit_writes l v)) d) = Ok (l', s') \<and> lg_n l' = 0
    \<and> (\<forall>b. b \<notin> log_area (lg_start l) \<longrightarrow> bc_disk s' b = (if ntx l < k \<and> b \<in> set (take (ntx l) (lg_block l)) then v b else d b))"
proof -
  let ?s = "lg_start l" let ?B = "set (take (ntx l) (lg_block l))"
  define e where "e = apply_writes (take k (commit_writes l v)) d"
  have st: "unat ?s + LOGBLOCKS + 1 < 2 ^ 32" using assms(2) by (simp add: txn_ok_def)
  have main: "txn_ok (disk_log dev ?s e) \<and> (\<forall>b. b \<notin> log_area ?s \<longrightarrow> apply_writes (recovery_writes dev ?s e) e b
      = (if ntx l < k \<and> b \<in> ?B then v b else d b))"
  proof (cases "k \<le> ntx l")
    case True
    note c = crash_before [OF assms(2) True e_def]
    show ?thesis using empty_disk_log [where d = e and dev = dev, OF st] c assms(4) True by simp
  next
    case False
    then have k: "ntx l < k" by simp
    show ?thesis
    proof (cases "k \<le> 2 * ntx l + 1")
      case True
      note c = crash_between [OF assms(2) k True e_def]
      note f = full_disk_log [where d = e and dev = dev, OF assms(2,3) c(1)]
      have "apply_writes (recovery_writes dev ?s e) e b = (if b \<in> ?B then v b else d b)" if "b \<notin> log_area ?s" for b
        using f(3,4) c(2,3) that by (auto simp: txn_set [OF assms(2)])
      then show ?thesis using f(2) k by simp
    next
      case False
      then have "2 * ntx l + 1 < k" by simp
      note c = crash_after [OF assms(2,3) this e_def]
      have "e b = (if b \<in> ?B then v b else d b)" if "b \<notin> log_area ?s" for b
        using c(2,3) that by (auto simp: txn_set [OF assms(2)])
      then show ?thesis using empty_disk_log [where d = e and dev = dev, OF st] c(1) k by simp
    qed
  qed
  obtain s' where "reboot pid dev ?s e = Ok ((disk_log dev ?s e)\<lparr>lg_n := 0\<rparr>, s')" "bc_disk s' = apply_writes (recovery_writes dev ?s e) e"
    using reboot_ok [OF assms(1), of ?s e pid] main by blast
  then show ?thesis using main by (simp add: e_def)
qed

text \<open>A crash in the middle of recovery leaves a disk from which recovery reaches the same state.\<close>

lemma crash_in_recovery:
  assumes "txn_ok (disk_log dev start d)" "length (d start) = BSIZE" "e = apply_writes (take k (recovery_writes dev start d)) d"
  shows "txn_ok (disk_log dev start e)" "b \<notin> log_area start \<Longrightarrow>
    apply_writes (recovery_writes dev start e) e b = apply_writes (recovery_writes dev start d) d b"
proof -
  let ?l = "disk_log dev start d" let ?m = "ntx ?l" let ?w = "recovery_writes dev start d"
  have st: "unat start + LOGBLOCKS + 1 < 2 ^ 32" using assms(1) by (simp add: txn_ok_def)
  have len: "length ?w = ?m + 1" by (simp add: recovery_writes_def Let_def installs_def)
  consider (part) "k \<le> ?m" | (full) "?m < k" by linarith
  then have "txn_ok (disk_log dev start e) \<and> (b \<notin> log_area start \<longrightarrow> apply_writes (recovery_writes dev start e) e b = apply_writes ?w d b)"
  proof cases
    case part
    have "take k ?w = installs ?l d k" using part by (simp add: recovery_writes_def Let_def take_installs) (simp add: installs_def)
    then have e: "e = apply_writes (installs ?l d k) d" using assms(3) by simp
    have area: "e c = d c" if "c \<in> log_area start" for c
      unfolding e using installs_log [OF assms(1) _ part] that by simp
    have es: "e start = d start" by (rule area) (simp add: log_area_def)
    then have l: "disk_log dev start e = ?l" by (simp add: disk_log_def)
    have lb: "e (logblk start i) = d (logblk start i)" if "i < ?m" for i
      using that assms(1) by (intro area) (auto simp: log_area_def txn_ok_def)
    have "apply_writes (recovery_writes dev start e) e b = apply_writes ?w d b" if b: "b \<notin> log_area start"
    proof (cases "find (\<lambda>i. lg_block ?l ! i = b) [0..<?m]")
      case None
      then have "b \<notin> (!) (lg_block ?l) ` {..<?m}" by (auto simp: find_None_iff)
      then have "b \<notin> (!) (lg_block ?l) ` {..<k}" using part by auto
      then have "e b = d b" unfolding e by (rule installs_other)
      then show ?thesis using None recovered_home [OF assms(1) b] recovered_home [of dev start e b] assms(1) b l es by simp
    next
      case (Some i)
      then have "i < ?m" by (auto simp: find_Some_iff)
      then show ?thesis using Some recovered_home [OF assms(1) b] recovered_home [of dev start e b] assms(1) b l es lb by simp
    qed
    then show ?thesis using assms(1) l by simp
  next
    case full
    then have e: "e = apply_writes ?w d" using assms(3) len by simp
    then have "e start = put_head (?l\<lparr>lg_n := 0\<rparr>) (d start)" by (simp add: recovery_writes_def Let_def)
    then have "head_n (e start) = 0" using head_n_put_head [OF assms(2), of "?l\<lparr>lg_n := 0\<rparr>"] by simp
    then show ?thesis using empty_disk_log [where d = e and dev = dev, OF st] e by simp
  qed
  then show "txn_ok (disk_log dev start e)" "b \<notin> log_area start \<Longrightarrow>
    apply_writes (recovery_writes dev start e) e b = apply_writes ?w d b" by blast+
qed


section \<open>Space\<close>

text \<open>
  Operations in progress, with the blocks each has logged so far; a caller of \<open>begin_op\<close> logs another block only
  while it has logged fewer than \<open>MAXOPBLOCKS\<close> different ones. Anything may happen in the buffer cache in between.
\<close>

inductive log_reach :: "int \<Rightarrow> log \<Rightarrow> u32 set list \<Rightarrow> bio \<Rightarrow> bool" for pid where
  log_init: "lg_n l = 0 \<Longrightarrow> lg_outstanding l = 0 \<Longrightarrow> \<not> lg_committing l \<Longrightarrow> length (lg_block l) = LOGBLOCKS \<Longrightarrow> log_reach pid l [] s"
| log_begin: "log_reach pid l us s \<Longrightarrow> begin_op l = Some l' \<Longrightarrow> log_reach pid l' ({} # us) s"
| log_wr: "log_reach pid l us s \<Longrightarrow> i < length us \<Longrightarrow> card (us ! i) < MAXOPBLOCKS \<Longrightarrow> log_write b l s = Ok (l', s') \<Longrightarrow>
    log_reach pid l' (us[i := insert (bf_blockno (bc_buf s ! b)) (us ! i)]) s'"
| log_end: "log_reach pid l (us @ u # vs) s \<Longrightarrow> end_op pid l s = Ok (l', s') \<Longrightarrow> log_reach pid l' (us @ vs) s'"
| log_cache: "log_reach pid l us s \<Longrightarrow> log_reach pid l us s'"

definition blocks_left :: "u32 set list \<Rightarrow> nat" where "blocks_left us = sum_list (map (\<lambda>u. MAXOPBLOCKS - card u) us)"

definition log_inv :: "log \<Rightarrow> u32 set list \<Rightarrow> bool" where
  "log_inv l us \<longleftrightarrow> 0 \<le> lg_n l \<and> lg_n l + int (blocks_left us) \<le> int LOGBLOCKS \<and> lg_outstanding l = int (length us) \<and> \<not> lg_committing l
     \<and> length (lg_block l) = LOGBLOCKS \<and> distinct (take (ntx l) (lg_block l)) \<and> (\<forall>u \<in> set us. u \<subseteq> set (take (ntx l) (lg_block l)))"

lemma blocks_left_le: "blocks_left us \<le> length us * MAXOPBLOCKS"
  by (induction us) (auto simp: blocks_left_def)

lemma blocks_left_simps [simp]: "blocks_left [] = 0" "blocks_left (u # us) = MAXOPBLOCKS - card u + blocks_left us" "blocks_left (us @ vs) = blocks_left us + blocks_left vs"
  by (simp_all add: blocks_left_def)

lemma blocks_left_write: "i < length us \<Longrightarrow> card (us ! i) < MAXOPBLOCKS \<Longrightarrow> finite (us ! i) \<Longrightarrow> b \<notin> us ! i \<Longrightarrow>
  blocks_left us = Suc (blocks_left (us[i := insert b (us ! i)]))"
  by (induction us arbitrary: i) (auto split: nat.splits simp: nth_Cons')

lemma blocks_left_insert: "i < length us \<Longrightarrow> finite (us ! i) \<Longrightarrow> blocks_left (us[i := insert b (us ! i)]) \<le> blocks_left us"
  by (induction us arbitrary: i) (auto split: nat.splits simp: nth_Cons' card_insert_if)

lemma blocks_left_pos: "i < length us \<Longrightarrow> card (us ! i) < MAXOPBLOCKS \<Longrightarrow> 0 < blocks_left us"
proof (induction us arbitrary: i)
  case (Cons u us)
  then show ?case by (cases i) auto
qed simp

lemma begin_op_inv:
  assumes "log_inv l us" "begin_op l = Some l'"
  shows "log_inv l' ({} # us)"
proof -
  have l': "l' = l\<lparr>lg_outstanding := lg_outstanding l + 1\<rparr>" "lg_n l + (lg_outstanding l + 1) * int MAXOPBLOCKS \<le> int LOGBLOCKS"
    using assms(2) by (auto simp: begin_op_def split: if_splits)
  have "int (blocks_left us) \<le> lg_outstanding l * int MAXOPBLOCKS" using blocks_left_le [of us] assms(1) by (simp add: log_inv_def flip: of_nat_mult)
  then have "lg_n l + int (blocks_left ({} # us)) \<le> int LOGBLOCKS" using l'(2) by (simp add: algebra_simps)
  then show ?thesis using assms(1) by (simp add: log_inv_def l'(1))
qed

lemma log_write_index:
  assumes "i = (case find (\<lambda>i. bs ! i = no) [0..<n] of Some i \<Rightarrow> i | None \<Rightarrow> n)" "n < length bs" "distinct (take n bs)"
  shows "i = n \<Longrightarrow> no \<notin> set (take n bs) \<and> take (Suc n) (bs[i := no]) = take n bs @ [no]" "i \<noteq> n \<Longrightarrow> i < n \<and> bs[i := no] = bs"
proof -
  show "no \<notin> set (take n bs) \<and> take (Suc n) (bs[i := no]) = take n bs @ [no]" if "i = n"
  proof -
    have "find (\<lambda>i. bs ! i = no) [0..<n] = None"
    proof (rule ccontr)
      assume "find (\<lambda>i. bs ! i = no) [0..<n] \<noteq> None"
      then obtain j where "find (\<lambda>i. bs ! i = no) [0..<n] = Some j" by auto
      then show False using find_SomeD [of "\<lambda>i. bs ! i = no" "[0..<n]" j] assms(1) that by simp
    qed
    then show ?thesis using that assms(2) by (auto simp: find_None_iff in_set_conv_nth take_Suc_conv_app_nth)
  qed
  show "i < n \<and> bs[i := no] = bs" if ne: "i \<noteq> n"
  proof (cases "find (\<lambda>i. bs ! i = no) [0..<n]")
    case (Some j)
    then show ?thesis using find_SomeD [OF Some] assms(1) by auto
  qed (use ne assms(1) in simp)
qed

lemma log_write_cases:
  assumes "log_inv l us" "lg_n l < int LOGBLOCKS" "us \<noteq> []"
  obtains (absorbed) "log_write b l s = Ok (l, s)" "bf_blockno (bc_buf s ! b) \<in> set (take (ntx l) (lg_block l))"
  | (added) l' where "log_write b l s = Ok (l', bpin b s)" "lg_n l' = lg_n l + 1" "take (ntx l') (lg_block l') = take (ntx l) (lg_block l) @ [bf_blockno (bc_buf s ! b)]"
      "bf_blockno (bc_buf s ! b) \<notin> set (take (ntx l) (lg_block l))" "length (lg_block l') = LOGBLOCKS" "lg_outstanding l' = lg_outstanding l"
      "lg_committing l' = lg_committing l" "lg_dev l' = lg_dev l" "lg_start l' = lg_start l"
proof -
  define no where "no = bf_blockno (bc_buf s ! b)"
  define i where "i = (case find (\<lambda>i. lg_block l ! i = no) [0..<ntx l] of Some i \<Rightarrow> i | None \<Rightarrow> ntx l)"
  have n: "ntx l < length (lg_block l)" "0 \<le> lg_n l" "distinct (take (ntx l) (lg_block l))" "0 < lg_outstanding l" using assms by (auto simp: log_inv_def)
  note x = log_write_index [OF i_def n(1,3)]
  have lw: "log_write b l s = (let l1 = l\<lparr>lg_block := (lg_block l)[i := no]\<rparr> in if int i = lg_n l then Ok (l1\<lparr>lg_n := lg_n l + 1\<rparr>, bpin b s) else Ok (l1, s))"
    using assms(2) n(4) by (simp add: log_write_def Let_def i_def no_def)
  show thesis
  proof (cases "i = ntx l")
    case True
    have n1: "nat (lg_n l + 1) = Suc (ntx l)" using n(2) by simp
    show thesis
      by (rule added [of "l\<lparr>lg_block := (lg_block l)[i := no], lg_n := lg_n l + 1\<rparr>"])
        (use True x(1) lw n assms(1) n1 in \<open>simp_all add: no_def Let_def log_inv_def\<close>)
  next
    case False
    then have i: "i < ntx l" "(lg_block l)[i := no] = lg_block l" using x(2) by simp_all
    then have "lg_block l ! i = no" using n(1) by (metis nth_list_update_eq order_less_trans)
    then have "no \<in> set (take (ntx l) (lg_block l))" using i(1) n(1) by (auto simp: in_set_conv_nth intro!: exI [of _ i])
    then show thesis using absorbed lw i False by (simp add: no_def Let_def)
  qed
qed


lemma commit_log:
  assumes "commit pid l s = Ok (l', s')" "0 \<le> lg_n l"
  shows "l' = l\<lparr>lg_n := 0\<rparr>"
proof (cases "lg_n l > 0")
  case True
  then show ?thesis using assms(1) by (auto simp: commit_def Let_def)
next
  case False
  then show ?thesis using assms by (cases l) (auto simp: commit_def)
qed

lemma end_op_inv:
  assumes "log_inv l (us @ u # vs)" "end_op pid l s = Ok (l', s')"
  shows "log_inv l' (us @ vs)"
proof -
  let ?l = "l\<lparr>lg_outstanding := lg_outstanding l - 1\<rparr>"
  have o: "lg_outstanding ?l = int (length (us @ vs))" using assms(1) by (simp add: log_inv_def)
  show ?thesis
  proof (cases "lg_outstanding ?l = 0")
    case True
    then obtain l2 s1 where c: "commit pid (?l\<lparr>lg_committing := True\<rparr>) s = Ok (l2, s1)" "l' = l2\<lparr>lg_committing := False, lg_ncommit := lg_ncommit l2 + 1\<rparr>"
      using assms by (auto simp: end_op_def log_inv_def Let_def)
    have "l2 = ?l\<lparr>lg_committing := True, lg_n := 0\<rparr>" using commit_log [OF c(1)] assms(1) by (simp add: log_inv_def)
    moreover have "us @ vs = []" using True o by (metis length_0_conv of_nat_eq_0_iff)
    ultimately show ?thesis using c(2) assms(1) True by (simp add: log_inv_def)
  next
    case False
    then have "l' = ?l" using assms by (simp add: end_op_def log_inv_def Let_def)
    then show ?thesis using assms(1) o by (simp add: log_inv_def)
  qed
qed

lemma log_write_inv:
  assumes "log_inv l us" "i < length us" "card (us ! i) < MAXOPBLOCKS" "log_write b l s = Ok (l', s')"
  shows "log_inv l' (us[i := insert (bf_blockno (bc_buf s ! b)) (us ! i)])"
proof -
  let ?no = "bf_blockno (bc_buf s ! b)"
  have n: "lg_n l < int LOGBLOCKS" "us \<noteq> []" using assms(1,2) blocks_left_pos [OF assms(2,3)] by (auto simp: log_inv_def)
  have sub: "us ! i \<subseteq> set (take (ntx l) (lg_block l))" using assms(1,2) by (simp add: log_inv_def)
  then have fin: "finite (us ! i)" by (rule finite_subset) simp
  have upd: "\<forall>u \<in> set (us[i := insert ?no (us ! i)]). u \<subseteq> insert ?no (set (take (ntx l) (lg_block l)))"
    using assms(1) sub set_update_subset_insert [of us i "insert ?no (us ! i)"] by (auto simp: log_inv_def)
  show ?thesis
  proof (rule log_write_cases [OF assms(1) n, of b s])
    assume "log_write b l s = Ok (l, s)" "?no \<in> set (take (ntx l) (lg_block l))"
    then show ?thesis using assms(1,4) blocks_left_insert [OF assms(2) fin, of ?no] upd by (simp add: log_inv_def insert_absorb)
  next
    fix m assume m: "log_write b l s = Ok (m, bpin b s)" "lg_n m = lg_n l + 1" "take (ntx m) (lg_block m) = take (ntx l) (lg_block l) @ [?no]"
      "?no \<notin> set (take (ntx l) (lg_block l))" "length (lg_block m) = LOGBLOCKS" "lg_outstanding m = lg_outstanding l"
      "lg_committing m = lg_committing l"
    have "l' = m" using assms(4) m(1) by simp
    moreover have "distinct (take (ntx m) (lg_block m))" unfolding m(3) using m(4) assms(1) by (simp add: log_inv_def)
    moreover have "?no \<notin> us ! i" using m(4) sub by blast
    moreover have "\<forall>u \<in> set (us[i := insert ?no (us ! i)]). u \<subseteq> set (take (ntx m) (lg_block m))" unfolding m(3) using upd by simp
    ultimately show ?thesis using assms(1) m(2,5-7) blocks_left_write [OF assms(2,3) fin, of ?no] by (simp add: log_inv_def)
  qed
qed

lemma log_reach_inv: "log_reach pid l us s \<Longrightarrow> log_inv l us"
proof (induction rule: log_reach.induct)
  case (log_init l s)
  then show ?case by (simp add: log_inv_def)
qed (assumption | erule (1) begin_op_inv log_write_inv end_op_inv | erule (3) log_write_inv)+

lemma head_n_zero: "head_n (replicate BSIZE 0) = 0"
proof -
  have "(0 :: nat) < BSIZE" "1 < BSIZE" "2 < BSIZE" "3 < BSIZE" by (simp_all add: BSIZE_def)
  then show ?thesis by (simp add: head_n_def get32_def)
qed

text \<open>Modifying and pinning a block; a freshly booted cache with one such block, and with all buffers taken by such blocks.\<close>

lemma dirty_block:
  assumes "bio_inv dev s" "\<not> held dev s b" "rc dev s b = 0" "card {c. 0 < rc dev s c} < NBUF"
  obtains s' where "bio_inv dev s'" "rc dev s' = (rc dev s)(b := 1)" "held dev s' = held dev s" "view dev s' = (view dev s)(b := x)" "bc_disk s' = bc_disk s"
proof -
  obtain h s1 where s1: "bio_inv dev s1" "has_buf 1 dev s1 h b" "view dev s1 = view dev s" "rc dev s1 = (rc dev s)(b := rc dev s b + 1)"
    "held dev s1 = (held dev s)(b := True)" "bc_disk s1 = bc_disk s"
    using bcache.fetch_ok [OF assms(1,2), of 1] assms(3,4) by auto
  note p = bcache.put_ok [OF s1(1,2), of x]
  let ?t = "set_data h x s1"
  have t: "bio_inv dev ?t" "has_buf 1 dev ?t h b" "rc dev ?t b < 2 ^ 32 - 1" using p s1(2,4) assms(3) by auto
  note q = bpin_ok [OF t]
  have "rc dev (bpin h ?t) b = 2" using q(3) p s1(4) assms(3) by simp
  then obtain s' where s': "bio_inv dev s'" "view dev s' = view dev (bpin h ?t)" "rc dev s' = (rc dev (bpin h ?t))(b := rc dev (bpin h ?t) b - 1)"
    "held dev s' = (held dev (bpin h ?t))(b := False)" "bc_disk s' = bc_disk (bpin h ?t)"
    using brelse_ok [OF q(1) q(7) [OF t(2)]] by auto
  have "rc dev s' = (rc dev s)(b := 1)" "held dev s' = held dev s" using s'(3,4) q(3,4) p s1(4,5) assms(2,3) by (auto simp: fun_eq_iff)
  then show thesis using that s'(1,2,5) q(2,5) p s1(3,6) by simp
qed

lemma one_dirty_block:
  assumes "dev \<noteq> 0"
  obtains s where "at_rest dev s" "rc dev s = (\<lambda>_. 0)(b := 1)" "view dev s = d(b := x)" "bc_disk s = d"
proof -
  let ?s = "binit (bcache0 d)"
  note z = binit_ok [OF assms, of d]
  have n: "(0 :: nat) < NBUF" "card ({} :: u32 set) + 3 \<le> NBUF" by (simp_all add: NBUF_def MAXOPBLOCKS_def)
  obtain s' where s': "bio_inv dev s'" "rc dev s' = (rc dev ?s)(b := 1)" "held dev s' = held dev ?s" "view dev s' = (view dev ?s)(b := x)" "bc_disk s' = bc_disk ?s"
    using dirty_block [where x = x, OF z(1) z(4) z(3)] z(3) n(1) by auto
  have r: "rc dev s' = (\<lambda>_. 0)(b := 1)" using s'(2) z(3) by (auto simp: fun_eq_iff)
  then have "{c. 0 < rc dev s' c} = {b}" by auto
  then have "at_rest dev s'" using s'(1,3) z(4) r n(2) by (simp add: at_rest_def)
  then show thesis using that r s'(4,5) z(2,5) by simp
qed

lemma all_dirty:
  assumes "dev \<noteq> 0" "distinct bs" "length bs \<le> NBUF"
  shows "\<exists>s. bio_inv dev s \<and> (\<forall>b. \<not> held dev s b) \<and> (\<forall>b. rc dev s b = (if b \<in> set bs then 1 else 0))"
  using assms(2,3)
proof (induction bs)
  case Nil
  then show ?case using binit_ok [OF assms(1)] by (intro exI [of _ "binit (bcache0 (\<lambda>_. []))"]) simp
next
  case (Cons b bs)
  then obtain s where s: "bio_inv dev s" "\<forall>b. \<not> held dev s b" "\<forall>b. rc dev s b = (if b \<in> set bs then 1 else 0)" by auto
  have "{c. 0 < rc dev s c} = set bs" using s(3) by auto
  then have c: "card {c. 0 < rc dev s c} < NBUF" using Cons.prems by (simp add: distinct_card)
  have "\<not> held dev s b" "rc dev s b = 0" using s(2,3) Cons.prems(1) by simp_all
  from dirty_block [where x = "[]", OF s(1) this c] s(2,3) show ?case by (metis fun_upd_apply list.set_intros(1) set_ConsD set_subset_Cons subsetD)
qed

text \<open>When every buffer is in use for some other block, \<open>bread\<close> panics.\<close>

lemma bread_no_buffers:
  assumes "bio_inv dev s" "\<forall>i < NBUF. bf_refcnt (bc_buf s ! i) \<noteq> 0" "cached dev s b = None"
  shows "bread pid dev b s = Panic ''bget: no buffers''"
proof -
  obtain xs where xs: "set xs = {..<NBUF}"
    "\<And>P. scan (NBUF + 1) nxt P s (nxt s head) = Ok (find (\<lambda>i. P (bc_buf s ! i)) xs)"
    "\<And>P. scan (NBUF + 1) prv P s (prv s head) = Ok (find (\<lambda>i. P (bc_buf s ! i)) (rev xs))" using scan_find [OF assms(1)] by metis
  have "find (\<lambda>i. bf_dev (bc_buf s ! i) = dev \<and> bf_blockno (bc_buf s ! i) = b) xs = None"
    using assms(3) xs(1) by (simp add: cached_def find_None_iff atLeast0LessThan)
  moreover have "find (\<lambda>i. bf_refcnt (bc_buf s ! i) = 0) (rev xs) = None" using assms(2) xs(1) by (auto simp: find_None_iff)
  ultimately show ?thesis unfolding bread_def bget_def xs(2,3) by (simp only: bind_res.simps option.case)
qed

lemma pinned_fill:
  assumes "bio_inv dev s" "card B = NBUF" "\<forall>b \<in> B. 0 < rc dev s b"
  shows "\<forall>i < NBUF. bf_refcnt (bc_buf s ! i) \<noteq> 0" "b \<notin> B \<Longrightarrow> cached dev s b = None"
proof -
  let ?f = "\<lambda>b. the (cached dev s b)"
  have c: "\<exists>i. cached dev s b = Some i \<and> i < NBUF \<and> bf_blockno (bc_buf s ! i) = b \<and> bf_refcnt (bc_buf s ! i) \<noteq> 0" if b: "b \<in> B" for b
  proof -
    obtain i where i: "cached dev s b = Some i" "0 < unat (bf_refcnt (bc_buf s ! i))"
      using bspec [OF assms(3) b] by (cases "cached dev s b") (simp_all add: rc_def)
    then show ?thesis using cached_Some [OF assms(1), of b i] by auto
  qed
  have inj: "inj_on ?f B" by (rule inj_onI) (use c in \<open>metis option.sel\<close>)
  have sub: "?f ` B \<subseteq> {..<NBUF}" using c by force
  then have eq: "?f ` B = {..<NBUF}" using card_image [OF inj] assms(2) by (intro card_subset_eq) simp_all
  show "\<forall>i < NBUF. bf_refcnt (bc_buf s ! i) \<noteq> 0"
  proof (intro allI impI)
    fix i assume "i < NBUF"
    then obtain b where "b \<in> B" "i = ?f b" using eq by (metis imageE lessThan_iff)
    then show "bf_refcnt (bc_buf s ! i) \<noteq> 0" using c by fastforce
  qed
  show "cached dev s b = None" if "b \<notin> B"
  proof (cases "cached dev s b")
    case (Some i)
    then have i: "i < NBUF" "bf_blockno (bc_buf s ! i) = b" using cached_Some [OF assms(1)] by simp_all
    then obtain a where "a \<in> B" "i = ?f a" using eq by (metis imageE lessThan_iff)
    then have "bf_blockno (bc_buf s ! i) = a" using c by fastforce
    then show ?thesis using i(2) \<open>a \<in> B\<close> that by simp
  qed
qed

section \<open>Properties\<close>

text \<open>C4. Commit is atomic with respect to crashes. \<open>commit\<close> of a transaction of distinct, pinned home blocks succeeds
  (no buffer locked, two buffers to spare, an empty log on disk). If the machine stops after any number \<open>k\<close> of the
  disk writes it issues and boots again from that disk alone, \<open>initlog\<close> succeeds, and outside the log the disk
  then holds either the state before the transaction (up to and including the last log copy) or
  all of its blocks (from the write of the header on), never a mixture.\<close>

theorem commit_crash_atomic:
  assumes "lg_dev l \<noteq> 0" and "at_rest (lg_dev l) s" and "txn_ok l" and "0 < lg_n l"
    and "\<forall>i < ntx l. 0 < rc (lg_dev l) s (lg_block l ! i)"
    and "length (view (lg_dev l) s (lg_start l)) = BSIZE" and "head_n (bc_disk s (lg_start l)) = 0"
  shows "\<exists>l1 s1 ws. commit pid l s = Ok (l1, s1) \<and> bc_writes s1 = bc_writes s @ ws \<and> lg_n l1 = 0
    \<and> (\<forall>k. \<exists>l2 s2. reboot pid' (lg_dev l) (lg_start l) (apply_writes (take k ws) (bc_disk s)) = Ok (l2, s2) \<and> lg_n l2 = 0
        \<and> (\<forall>b. b \<notin> log_area (lg_start l) \<longrightarrow>
             bc_disk s2 b = (if ntx l < k \<and> b \<in> set (take (ntx l) (lg_block l)) then view (lg_dev l) s b else bc_disk s b)))"
proof -
  obtain s1 where "commit pid l s = Ok (l\<lparr>lg_n := 0\<rparr>, s1)" "wrote (lg_dev l) (commit_writes l (view (lg_dev l) s)) s s1"
    using log_commit_ok [OF assms(2-5)] by blast
  then show ?thesis using reboot_after_crash [where v = "view (lg_dev l) s" and d = "bc_disk s" and pid = pid', OF assms(1,3,6,7)] by (auto simp: wrote_def)
qed

theorem commit_crash_atomic_witness:
  "\<exists>s l1 s1 ws l2 s2. bc_disk s = (\<lambda>_. replicate BSIZE 0) \<and> commit 1 (log0\<lparr>lg_start := 2, lg_dev := 1, lg_n := 1, lg_block := 50 # replicate 29 0\<rparr>) s = Ok (l1, s1)
    \<and> bc_writes s1 = bc_writes s @ ws \<and> reboot 1 1 2 (apply_writes (take 2 ws) (bc_disk s)) = Ok (l2, s2) \<and> bc_disk s2 50 = replicate BSIZE 7"
proof -
  let ?l = "log0\<lparr>lg_start := 2, lg_dev := 1, lg_n := 1, lg_block := 50 # replicate 29 0\<rparr>" let ?d = "(\<lambda>_. replicate BSIZE 0) :: u32 \<Rightarrow> block"
  obtain s where s: "at_rest 1 s" "rc 1 s = (\<lambda>_. 0)(50 := 1)" "view 1 s = ?d(50 := replicate BSIZE 7)" "bc_disk s = ?d"
    using one_dirty_block [where dev = 1 and d = ?d and b = 50 and x = "replicate BSIZE 7", OF one_neq_zero] .
  have a: "(50 :: u32) \<notin> log_area 2" using log_area_range [of 2 50] by (auto simp: LOGBLOCKS_def MAXOPBLOCKS_def)
  then have t: "txn_ok ?l" by (simp add: txn_ok_def LOGBLOCKS_def MAXOPBLOCKS_def)
  have hyps: "lg_dev ?l \<noteq> 0" "at_rest (lg_dev ?l) s" "0 < lg_n ?l" "\<forall>i < ntx ?l. 0 < rc (lg_dev ?l) s (lg_block ?l ! i)"
    "length (view (lg_dev ?l) s (lg_start ?l)) = BSIZE" "head_n (bc_disk s (lg_start ?l)) = 0" using s head_n_zero by simp_all
  obtain l1 s1 ws l2 s2 where c: "commit 1 ?l s = Ok (l1, s1)" "bc_writes s1 = bc_writes s @ ws"
    "reboot 1 (lg_dev ?l) (lg_start ?l) (apply_writes (take 2 ws) (bc_disk s)) = Ok (l2, s2)"
    "\<forall>b. b \<notin> log_area (lg_start ?l) \<longrightarrow> bc_disk s2 b = (if ntx ?l < 2 \<and> b \<in> set (take (ntx ?l) (lg_block ?l)) then view (lg_dev ?l) s b else bc_disk s b)"
    using commit_crash_atomic [OF hyps(1,2) t hyps(3-6), of 1 1] by blast
  then have "reboot 1 1 2 (apply_writes (take 2 ws) (bc_disk s)) = Ok (l2, s2)" "bc_disk s2 50 = replicate BSIZE 7"
    using a s(3) by simp_all
  with c(1,2) s(4) show ?thesis by blast
qed

text \<open>C31. Recovery can itself be interrupted: from any disk with a valid log header \<open>initlog\<close> succeeds and empties the
  log, and if it is stopped after any number of its own writes, booting again gives the same contents of
  every block outside the log.\<close>

theorem recovery_restartable:
  assumes "dev \<noteq> 0" and "txn_ok (disk_log dev start d)" and "length (d start) = BSIZE"
  shows "\<exists>l1 s1. reboot pid dev start d = Ok (l1, s1) \<and> lg_n l1 = 0 \<and> (\<forall>k. \<exists>l2 s2.
    reboot pid dev start (apply_writes (take k (bc_writes s1)) d) = Ok (l2, s2) \<and> (\<forall>b. b \<notin> log_area start \<longrightarrow> bc_disk s2 b = bc_disk s1 b))"
proof -
  obtain s1 where s1: "reboot pid dev start d = Ok ((disk_log dev start d)\<lparr>lg_n := 0\<rparr>, s1)" "bc_writes s1 = recovery_writes dev start d"
    "bc_disk s1 = apply_writes (recovery_writes dev start d) d" using reboot_ok [OF assms(1,2)] by blast
  have "\<exists>l2 s2. reboot pid dev start (apply_writes (take k (bc_writes s1)) d) = Ok (l2, s2) \<and> (\<forall>b. b \<notin> log_area start \<longrightarrow> bc_disk s2 b = bc_disk s1 b)" for k
  proof -
    define e where "e = apply_writes (take k (recovery_writes dev start d)) d"
    note c = crash_in_recovery [OF assms(2,3) e_def]
    obtain s2 where "reboot pid dev start e = Ok ((disk_log dev start e)\<lparr>lg_n := 0\<rparr>, s2)" "bc_disk s2 = apply_writes (recovery_writes dev start e) e"
      using reboot_ok [OF assms(1) c(1)] by blast
    then show ?thesis using c(2) s1(2,3) by (simp add: e_def)
  qed
  then show ?thesis using s1(1) by auto
qed

text \<open>A disk stopped between the write of the header and the installation: block 50 has a copy in the log.\<close>

definition demo_crash :: "u32 \<Rightarrow> block" where
  "demo_crash = (\<lambda>_. replicate BSIZE 0)(2 := [1, 0, 0, 0, 50, 0, 0, 0] @ replicate (BSIZE - 8) 0, 3 := replicate BSIZE 7)"

lemma demo_crash_log: "txn_ok (disk_log 1 2 demo_crash)" "lg_n (disk_log 1 2 demo_crash) = 1" "lg_block (disk_log 1 2 demo_crash) ! 0 = 50"
proof -
  have g: "get32 0 (demo_crash 2) = 1" "get32 4 (demo_crash 2) = 50" by (simp_all add: demo_crash_def get32_def)
  then have n: "head_n (demo_crash 2) = 1" by (simp add: head_n_def)
  then show "lg_n (disk_log 1 2 demo_crash) = 1" by (simp add: disk_log_def)
  show "lg_block (disk_log 1 2 demo_crash) ! 0 = 50" using n g(2) by (simp add: disk_log_def loaded_def)
  have "(50 :: u32) \<notin> log_area 2" using log_area_range [of 2 50] by (auto simp: LOGBLOCKS_def MAXOPBLOCKS_def)
  then show "txn_ok (disk_log 1 2 demo_crash)" using n g(2)
    by (simp add: txn_ok_def disk_log_def loaded_def log0_def LOGBLOCKS_def MAXOPBLOCKS_def)
qed

theorem recovery_restartable_witness:
  "demo_crash 50 = replicate BSIZE 0 \<and> (\<exists>l1 s1 l2 s2. reboot 1 1 2 demo_crash = Ok (l1, s1)
     \<and> reboot 1 1 2 (apply_writes (take 1 (bc_writes s1)) demo_crash) = Ok (l2, s2) \<and> bc_disk s2 50 = replicate BSIZE 7)"
proof -
  have a: "(50 :: u32) \<notin> log_area 2" using log_area_range [of 2 50] by (auto simp: LOGBLOCKS_def MAXOPBLOCKS_def)
  have n: "nat (head_n (demo_crash 2)) = 1" using demo_crash_log(2) by (simp add: disk_log_def)
  have h: "apply_writes (recovery_writes 1 2 demo_crash) demo_crash 50 = replicate BSIZE 7"
    using recovered_home [OF demo_crash_log(1) a] demo_crash_log(3) unfolding n by (simp add: logblk_def demo_crash_def)
  have "length (demo_crash 2) = BSIZE" by (simp add: demo_crash_def BSIZE_def)
  from recovery_restartable [OF one_neq_zero demo_crash_log(1) this, of 1] obtain l1 s1 l2 s2 where r: "reboot 1 1 2 demo_crash = Ok (l1, s1)"
    "reboot 1 1 2 (apply_writes (take 1 (bc_writes s1)) demo_crash) = Ok (l2, s2)" "bc_disk s2 50 = bc_disk s1 50" using a by blast
  moreover have "bc_disk s1 50 = replicate BSIZE 7" using reboot_ok [OF one_neq_zero demo_crash_log(1), of 1] r(1) h by auto
  ultimately have "bc_disk s2 50 = replicate BSIZE 7" by simp
  moreover have "demo_crash 50 = replicate BSIZE 0" by (simp add: demo_crash_def)
  ultimately show ?thesis using r(1,2) by blast
qed

text \<open>C32. The reservation made by \<open>begin_op\<close> is enough: however operations are interleaved, an operation that has logged
  fewer than \<open>MAXOPBLOCKS\<close> different blocks can log another one without a panic, and the log
  never lists a block twice.\<close>

theorem log_space_suffices:
  assumes "log_reach pid l us s" and "i < length us" and "card (us ! i) < MAXOPBLOCKS"
  shows "is_ok (log_write b l s) \<and> 0 \<le> lg_n l \<and> lg_n l < int LOGBLOCKS \<and> distinct (take (ntx l) (lg_block l))"
proof -
  have inv: "log_inv l us" by (rule log_reach_inv [OF assms(1)])
  have n: "lg_n l < int LOGBLOCKS" "us \<noteq> []" using inv assms(2) blocks_left_pos [OF assms(2,3)] by (auto simp: log_inv_def)
  show ?thesis by (rule log_write_cases [OF inv n, of b s]) (use inv n in \<open>simp_all add: log_inv_def\<close>)
qed

theorem log_space_suffices_witness:
  "log_reach 1 (log0\<lparr>lg_outstanding := 1\<rparr>) [{}] (bcache0 (\<lambda>_. [])) \<and> is_ok (log_write 3 (log0\<lparr>lg_outstanding := 1\<rparr>) (bcache0 (\<lambda>_. [])))"
proof -
  have "log_reach 1 log0 [] (bcache0 (\<lambda>_. []))" by (rule log_init) (simp_all add: log0_def)
  then have r: "log_reach 1 (log0\<lparr>lg_outstanding := 1\<rparr>) [{}] (bcache0 (\<lambda>_. []))"
    by (rule log_begin) (simp add: begin_op_def log0_def LOGBLOCKS_def MAXOPBLOCKS_def)
  then show ?thesis using log_space_suffices [OF r, of 0 3] by (simp add: MAXOPBLOCKS_def)
qed

text \<open>C33. The log admits \<open>LOGBLOCKS\<close> blocks, as many as there are buffers, and every logged block keeps its buffer: a
  transaction that fills the log cannot be committed, the first \<open>bread\<close> of \<open>write_log\<close> panics.\<close>

theorem full_log_cannot_commit:
  assumes "bio_inv (lg_dev l) s" and "txn_ok l" and "lg_n l = int LOGBLOCKS" and "\<forall>i < ntx l. 0 < rc (lg_dev l) s (lg_block l ! i)"
  shows "commit pid l s = Panic ''bget: no buffers''"
proof -
  let ?B = "set (take (ntx l) (lg_block l))"
  have n: "ntx l = NBUF" "0 < ntx l" using assms(3) by (simp_all add: LOGBLOCKS_def NBUF_def MAXOPBLOCKS_def)
  have "card ?B = NBUF" using assms(2) n(1) by (simp add: txn_ok_def distinct_card)
  moreover have "\<forall>b \<in> ?B. 0 < rc (lg_dev l) s b" using assms(4) by (auto simp: txn_set [OF assms(2)])
  moreover have "logblk (lg_start l) 0 \<notin> ?B"
    using assms(2) n by (auto simp: txn_ok_def log_area_def LOGBLOCKS_def MAXOPBLOCKS_def)
  ultimately have "bread pid (lg_dev l) (lg_start l + of_nat 0 + 1) s = Panic ''bget: no buffers''"
    using bread_no_buffers [OF assms(1) pinned_fill [OF assms(1)]] by (simp add: logblk_def)
  then have "write_one pid l 0 s = Panic ''bget: no buffers''" by (simp add: write_one_def)
  then have "write_log pid l s = Panic ''bget: no buffers''" using n(2) by (simp add: write_log_def upt_conv_Cons)
  then show ?thesis using n(2) by (simp add: commit_def)
qed

theorem full_log_cannot_commit_witness:
  "\<exists>s. (\<forall>b. \<not> held 1 s b) \<and> commit 1 (log0\<lparr>lg_start := 2, lg_dev := 1, lg_n := 30, lg_block := map of_nat [100..<130]\<rparr>) s = Panic ''bget: no buffers''"
proof -
  let ?l = "log0\<lparr>lg_start := 2, lg_dev := 1, lg_n := 30, lg_block := map of_nat [100..<130]\<rparr>"
  have inj: "distinct (map of_nat [100..<130] :: u32 list)" by (auto simp: distinct_map inj_on_def word_of_nat_eq_iff take_bit_eq_mod)
  obtain s where s: "bio_inv 1 s" "\<forall>b. \<not> held 1 s b" "\<forall>b. rc 1 s b = (if b \<in> set (map of_nat [100..<130]) then 1 else 0)"
    using all_dirty [OF one_neq_zero inj] by (auto simp: NBUF_def MAXOPBLOCKS_def)
  have "unat (of_nat i :: u32) = i" if "i < 130" for i using that by (simp add: unat_of_nat)
  then have "set (map of_nat [100..<130]) \<inter> log_area 2 = {}" using log_area_range [of 2] by (force simp: LOGBLOCKS_def MAXOPBLOCKS_def)
  then have "txn_ok ?l" using inj by (simp add: txn_ok_def LOGBLOCKS_def MAXOPBLOCKS_def)
  moreover have "0 < rc 1 s (map of_nat [100..<130] ! i)" if "i < 30" for i
  proof -
    have "map of_nat [100..<130] ! i \<in> set (map of_nat [100..<130] :: u32 list)" by (rule nth_mem) (use that in simp)
    then show ?thesis unfolding s(3) [THEN spec] by (simp only: if_True zero_less_one)
  qed
  ultimately have "commit 1 ?l s = Panic ''bget: no buffers''" using s(1) by (intro full_log_cannot_commit) (simp_all add: LOGBLOCKS_def MAXOPBLOCKS_def del: upt_rec_numeral upt_conv_Cons)
  then show ?thesis using s(2) by blast
qed

end
