(* ===== verification/Fs.thy ===== *)
theory Fs
  imports Log CString
begin

text \<open>
  The file system of \<open>xv6/kernel/fs.c\<close>: block allocation, inodes and their contents, directories and path
  names. The state holds the current contents of every block, which is what \<open>bread\<close> returns
  whatever the buffer cache and the log are doing; a change of a buffer followed by \<open>log_write\<close> is an
  update of that map, and the blocks logged since the transaction began are recorded. A theorem of
  the theory \<open>FsLog\<close> relates the two levels.
\<close>

section \<open>On-disk structures\<close>

definition ROOTINO :: u32 where "ROOTINO = 1"
definition FSMAGIC :: u32 where "FSMAGIC = 0x10203040"
definition NDIRECT :: nat where "NDIRECT = 12"
definition NINDIRECT :: nat where "NINDIRECT = BSIZE div 4"
definition MAXFILE :: nat where "MAXFILE = NDIRECT + NINDIRECT"
definition DIRSIZ :: nat where "DIRSIZ = 14"
definition IPB :: nat where "IPB = BSIZE div 64"
definition BPB :: nat where "BPB = BSIZE * 8"

definition T_DIR :: u16 where "T_DIR = 1"
definition T_FILE :: u16 where "T_FILE = 2"
definition T_DEVICE :: u16 where "T_DEVICE = 3"

record superblock =
  sb_magic :: u32
  sb_size :: u32
  sb_nblocks :: u32
  sb_ninodes :: u32
  sb_nlog :: u32
  sb_logstart :: u32
  sb_inodestart :: u32
  sb_bmapstart :: u32

definition IBLOCK :: "nat \<Rightarrow> superblock \<Rightarrow> u32" where
  "IBLOCK i sb = of_nat (i div IPB) + sb_inodestart sb"

definition BBLOCK :: "nat \<Rightarrow> superblock \<Rightarrow> u32" where
  "BBLOCK b sb = of_nat (b div BPB) + sb_bmapstart sb"

section \<open>State\<close>

record inode =
  ip_dev :: u32
  ip_inum :: u32
  ip_ref :: int
  ip_lock :: sleeplock
  ip_valid :: bool
  ip_type :: u16
  ip_major :: u16
  ip_minor :: u16
  ip_nlink :: u16
  ip_size :: u32
  ip_addrs :: "u32 list"

record fs =
  fs_sb :: superblock
  fs_blk :: "u32 \<Rightarrow> block"
  fs_logged :: "u32 list"
  fs_itable :: "inode list"

abbreviation ino :: "fs \<Rightarrow> nat \<Rightarrow> inode" where "ino s i \<equiv> fs_itable s ! i"

definition upd_ino :: "nat \<Rightarrow> (inode \<Rightarrow> inode) \<Rightarrow> fs \<Rightarrow> fs" where
  "upd_ino i f s = s\<lparr>fs_itable := (fs_itable s)[i := f (ino s i)]\<rparr>"

text \<open>Read a block, change its buffer, log it and release it.\<close>

definition put_block :: "u32 \<Rightarrow> (block \<Rightarrow> block) \<Rightarrow> fs \<Rightarrow> fs" where
  "put_block b f s = s\<lparr>fs_blk := (fs_blk s)(b := f (fs_blk s b)), fs_logged := List.insert b (fs_logged s)\<rparr>"

section \<open>Blocks\<close>

definition readsb :: "fs \<Rightarrow> fs" where
  "readsb s =
     (let d = fs_blk s 1 in
      s\<lparr>fs_sb := \<lparr>sb_magic = get32 0 d, sb_size = get32 4 d, sb_nblocks = get32 8 d, sb_ninodes = get32 12 d, sb_nlog = get32 16 d,
        sb_logstart = get32 20 d, sb_inodestart = get32 24 d, sb_bmapstart = get32 28 d\<rparr>\<rparr>)"

definition bzero :: "u32 \<Rightarrow> fs \<Rightarrow> fs" where
  "bzero bno = put_block bno (\<lambda>d. memset d 0 BSIZE)"

definition in_use :: "block \<Rightarrow> nat \<Rightarrow> bool" where
  "in_use d bi \<longleftrightarrow> (d ! (bi div 8)) AND push_bit (bi mod 8) 1 \<noteq> 0"

definition mark_used :: "nat \<Rightarrow> block \<Rightarrow> block" where
  "mark_used bi d = d[bi div 8 := (d ! (bi div 8)) OR push_bit (bi mod 8) 1]"

definition mark_free :: "nat \<Rightarrow> block \<Rightarrow> block" where
  "mark_free bi d = d[bi div 8 := (d ! (bi div 8)) AND NOT (push_bit (bi mod 8) 1)]"

function balloc_loop :: "nat \<Rightarrow> fs \<Rightarrow> u32 \<times> fs" where
  "balloc_loop b s =
     (if b < unat (sb_size (fs_sb s)) then
        (case find (\<lambda>bi. \<not> in_use (fs_blk s (BBLOCK b (fs_sb s))) bi) [0..<min BPB (unat (sb_size (fs_sb s)) - b)] of
           Some bi \<Rightarrow> (of_nat (b + bi), bzero (of_nat (b + bi)) (put_block (BBLOCK b (fs_sb s)) (mark_used bi) s))
         | None \<Rightarrow> balloc_loop (b + BPB) s)
      else (0, s))"
  by pat_completeness auto
termination
  by (relation "measure (\<lambda>(b, s). unat (sb_size (fs_sb s)) - b)") (auto simp: BPB_def BSIZE_def)

definition balloc :: "fs \<Rightarrow> u32 \<times> fs" where
  "balloc s = balloc_loop 0 s"

definition bfree :: "u32 \<Rightarrow> fs \<Rightarrow> fs res" where
  "bfree b s =
     (let bb = BBLOCK (unat b) (fs_sb s); bi = unat b mod BPB in
      if \<not> in_use (fs_blk s bb) bi then Panic ''freeing free block'' else Ok (put_block bb (mark_free bi) s))"

section \<open>Inodes\<close>

definition dip_off :: "nat \<Rightarrow> nat" where "dip_off inum = 64 * (inum mod IPB)"

definition iinit :: "fs \<Rightarrow> fs" where
  "iinit s = s\<lparr>fs_itable := map (\<lambda>ip. ip\<lparr>ip_lock := initsleeplock\<rparr>) (fs_itable s)\<rparr>"

definition iget :: "u32 \<Rightarrow> u32 \<Rightarrow> fs \<Rightarrow> (nat \<times> fs) res" where
  "iget dev inum s =
     (case find (\<lambda>i. ip_ref (ino s i) > 0 \<and> ip_dev (ino s i) = dev \<and> ip_inum (ino s i) = inum) [0..<NINODE] of
        Some i \<Rightarrow> Ok (i, upd_ino i (\<lambda>ip. ip\<lparr>ip_ref := ip_ref ip + 1\<rparr>) s)
      | None \<Rightarrow>
          (case find (\<lambda>i. ip_ref (ino s i) = 0) [0..<NINODE] of
             None \<Rightarrow> Panic ''iget: no inodes''
           | Some i \<Rightarrow> Ok (i, upd_ino i (\<lambda>ip. ip\<lparr>ip_dev := dev, ip_inum := inum, ip_ref := 1, ip_valid := False\<rparr>) s)))"

definition ialloc :: "u32 \<Rightarrow> u16 \<Rightarrow> fs \<Rightarrow> (nat option \<times> fs) res" where
  "ialloc dev type s =
     (case find (\<lambda>inum. get16 (dip_off inum) (fs_blk s (IBLOCK inum (fs_sb s))) = 0) [1..<unat (sb_ninodes (fs_sb s))] of
        Some inum \<Rightarrow>
          bind_res (iget dev (of_nat inum)
              (put_block (IBLOCK inum (fs_sb s)) (\<lambda>d. put16 (dip_off inum) type (splice (dip_off inum) (replicate 64 0) d)) s))
            (\<lambda>(i, s1). Ok (Some i, s1))
      | None \<Rightarrow> Ok (None, s))"

definition put_dinode :: "nat \<Rightarrow> inode \<Rightarrow> block \<Rightarrow> block" where
  "put_dinode off ip d =
     fold (\<lambda>k. put32 (off + 12 + 4 * k) (ip_addrs ip ! k)) [0..<NDIRECT + 1]
       (put32 (off + 8) (ip_size ip) (put16 (off + 6) (ip_nlink ip) (put16 (off + 4) (ip_minor ip)
         (put16 (off + 2) (ip_major ip) (put16 off (ip_type ip) d)))))"

definition get_dinode :: "nat \<Rightarrow> block \<Rightarrow> inode \<Rightarrow> inode" where
  "get_dinode off d ip =
     ip\<lparr>ip_type := get16 off d, ip_major := get16 (off + 2) d, ip_minor := get16 (off + 4) d, ip_nlink := get16 (off + 6) d,
        ip_size := get32 (off + 8) d, ip_addrs := map (\<lambda>k. get32 (off + 12 + 4 * k) d) [0..<NDIRECT + 1]\<rparr>"

definition iupdate :: "nat \<Rightarrow> fs \<Rightarrow> fs" where
  "iupdate i s =
     (let inum = unat (ip_inum (ino s i)) in put_block (IBLOCK inum (fs_sb s)) (put_dinode (dip_off inum) (ino s i)) s)"

definition idup :: "nat \<Rightarrow> fs \<Rightarrow> fs" where
  "idup i = upd_ino i (\<lambda>ip. ip\<lparr>ip_ref := ip_ref ip + 1\<rparr>)"

definition ilock :: "int \<Rightarrow> nat \<Rightarrow> fs \<Rightarrow> fs res" where
  "ilock pid i s =
     (if ip_ref (ino s i) < 1 then Panic ''ilock''
      else
        bind_res (acquiresleep pid (ip_lock (ino s i))) (\<lambda>lk.
          (let s1 = upd_ino i (\<lambda>ip. ip\<lparr>ip_lock := lk\<rparr>) s in
           if ip_valid (ino s1 i) then Ok s1
           else
             (let inum = unat (ip_inum (ino s1 i));
                  s2 = upd_ino i (\<lambda>ip. (get_dinode (dip_off inum) (fs_blk s1 (IBLOCK inum (fs_sb s1))) ip)\<lparr>ip_valid := True\<rparr>) s1
              in if ip_type (ino s2 i) = 0 then Panic ''ilock: no type'' else Ok s2))))"

definition iunlock :: "int \<Rightarrow> nat \<Rightarrow> fs \<Rightarrow> fs res" where
  "iunlock pid i s =
     (if \<not> holdingsleep pid (ip_lock (ino s i)) \<or> ip_ref (ino s i) < 1 then Panic ''iunlock''
      else Ok (upd_ino i (\<lambda>ip. ip\<lparr>ip_lock := releasesleep (ip_lock ip)\<rparr>) s))"

definition ifree :: "u32 \<Rightarrow> fs \<Rightarrow> fs" where
  "ifree inum s = put_block (IBLOCK (unat inum) (fs_sb s)) (put16 (dip_off (unat inum)) 0) s"

section \<open>Inode content\<close>

definition set_addr :: "nat \<Rightarrow> nat \<Rightarrow> u32 \<Rightarrow> fs \<Rightarrow> fs" where
  "set_addr i k addr = upd_ino i (\<lambda>ip. ip\<lparr>ip_addrs := (ip_addrs ip)[k := addr]\<rparr>)"

text \<open>The block number stored at index \<open>k\<close> of the inode, allocated when it is 0.\<close>

definition addr_slot :: "nat \<Rightarrow> nat \<Rightarrow> fs \<Rightarrow> u32 \<times> fs" where
  "addr_slot i k s =
     (if ip_addrs (ino s i) ! k \<noteq> 0 then (ip_addrs (ino s i) ! k, s)
      else (let (addr, s1) = balloc s in if addr = 0 then (0, s1) else (addr, set_addr i k addr s1)))"

definition bmap :: "nat \<Rightarrow> nat \<Rightarrow> fs \<Rightarrow> (u32 \<times> fs) res" where
  "bmap i bn s =
     (if bn < NDIRECT then Ok (addr_slot i bn s)
      else if bn - NDIRECT < NINDIRECT then
        (let (ind, s1) = addr_slot i NDIRECT s in
         if ind = 0 then Ok (0, s1)
         else
           (let a = get32 (4 * (bn - NDIRECT)) (fs_blk s1 ind) in
            if a \<noteq> 0 then Ok (a, s1)
            else
              (let (addr, s2) = balloc s1 in
               Ok (addr, if addr \<noteq> 0 then put_block ind (put32 (4 * (bn - NDIRECT)) addr) s2 else s2))))
      else Panic ''bmap: out of range'')"

definition itrunc :: "nat \<Rightarrow> fs \<Rightarrow> fs res" where
  "itrunc i s =
     bind_res
       (fold_res (\<lambda>k s. if ip_addrs (ino s i) ! k \<noteq> 0
          then bind_res (bfree (ip_addrs (ino s i) ! k) s) (\<lambda>s1. Ok (set_addr i k 0 s1)) else Ok s) [0..<NDIRECT] s)
       (\<lambda>s1.
         bind_res
           (if ip_addrs (ino s1 i) ! NDIRECT \<noteq> 0 then
              (let ind = ip_addrs (ino s1 i) ! NDIRECT in
               bind_res
                 (fold_res (\<lambda>j s. let a = get32 (4 * j) (fs_blk s ind) in if a \<noteq> 0 then bfree a s else Ok s) [0..<NINDIRECT] s1)
                 (\<lambda>s2. bind_res (bfree ind s2) (\<lambda>s3. Ok (set_addr i NDIRECT 0 s3))))
            else Ok s1)
           (\<lambda>s4. Ok (iupdate i (upd_ino i (\<lambda>ip. ip\<lparr>ip_size := 0\<rparr>) s4))))"

definition iput :: "int \<Rightarrow> nat \<Rightarrow> fs \<Rightarrow> fs res" where
  "iput pid i s =
     (let last = (ip_ref (ino s i) = 1 \<and> ip_valid (ino s i) \<and> ip_nlink (ino s i) = 0); inum = ip_inum (ino s i) in
      bind_res
        (if last then
           bind_res (acquiresleep pid (ip_lock (ino s i))) (\<lambda>lk.
           bind_res (itrunc i (upd_ino i (\<lambda>ip. ip\<lparr>ip_lock := lk\<rparr>) s)) (\<lambda>s1.
             Ok (upd_ino i (\<lambda>ip. ip\<lparr>ip_valid := False, ip_lock := releasesleep (ip_lock ip)\<rparr>) s1)))
         else Ok s)
        (\<lambda>s2.
          (let s3 = upd_ino i (\<lambda>ip. ip\<lparr>ip_ref := ip_ref ip - 1\<rparr>) s2 in Ok (if last then ifree inum s3 else s3))))"

definition iunlockput :: "int \<Rightarrow> nat \<Rightarrow> fs \<Rightarrow> fs res" where
  "iunlockput pid i s = bind_res (iunlock pid i s) (iput pid i)"

record stat =
  st_dev :: u32
  st_ino :: u32
  st_type :: u16
  st_nlink :: u16
  st_size :: u64

definition stati :: "nat \<Rightarrow> fs \<Rightarrow> stat" where
  "stati i s =
     \<lparr>st_dev = ip_dev (ino s i), st_ino = ip_inum (ino s i), st_type = ip_type (ino s i), st_nlink = ip_nlink (ino s i),
      st_size = ucast (ip_size (ino s i))\<rparr>"

text \<open>
  The memory a transfer goes to or comes from, kernel or user, is a parameter \<open>'m\<close>. \<open>cp o bs\<close> copies the
  bytes \<open>bs\<close> to offset \<open>o\<close> of the destination; \<open>rd o n\<close> copies \<open>n\<close> bytes from offset \<open>o\<close> of the source and
  returns those copied, fewer than \<open>n\<close> when it fails. Both return -1 on failure. For a structure in
  the kernel they are \<open>kcopyout\<close> and \<open>kcopyin\<close>.
\<close>

type_synonym 'm copy_out = "nat \<Rightarrow> u8 list \<Rightarrow> 'm \<Rightarrow> (int \<times> 'm) res"
type_synonym 'm copy_in = "nat \<Rightarrow> nat \<Rightarrow> 'm \<Rightarrow> (int \<times> u8 list \<times> 'm) res"

definition kcopyout :: "u8 list copy_out" where
  "kcopyout off bs buf = Ok (0, splice off bs buf)"

definition kcopyin :: "u8 list copy_in" where
  "kcopyin off n buf = Ok (0, take n (drop off buf), buf)"

definition step_len :: "nat \<Rightarrow> nat \<Rightarrow> nat" where
  "step_len left off = min left (BSIZE - off mod BSIZE)"

lemma step_len_pos [simp]: "0 < left \<Longrightarrow> 0 < step_len left off"
  by (simp add: step_len_def BSIZE_def)

function readi_loop :: "'m copy_out \<Rightarrow> nat \<Rightarrow> nat \<Rightarrow> nat \<Rightarrow> nat \<Rightarrow> fs \<Rightarrow> 'm \<Rightarrow> (u32 \<times> fs \<times> 'm) res" where
  "readi_loop cp i tot off n s mem =
     (if tot < n then
        bind_res (bmap i (off div BSIZE) s) (\<lambda>(addr, s1).
          if addr = 0 then Ok (of_nat tot, s1, mem)
          else
            (let m = step_len (n - tot) off in
             bind_res (cp tot (take m (drop (off mod BSIZE) (fs_blk s1 addr))) mem) (\<lambda>(r, mem1).
               if r = - 1 then Ok (- 1, s1, mem1)
               else readi_loop cp i (tot + m) (off + m) n s1 mem1)))
      else Ok (of_nat tot, s, mem))"
  by pat_completeness auto
termination
  by (relation "measure (\<lambda>(cp, i, tot, off, n, s, mem). n - tot)") (simp_all add: diff_less_mono2)

definition readi :: "'m copy_out \<Rightarrow> nat \<Rightarrow> u32 \<Rightarrow> u32 \<Rightarrow> fs \<Rightarrow> 'm \<Rightarrow> (int \<times> fs \<times> 'm) res" where
  "readi cp i off n s mem =
     (let sz = ip_size (ino s i) in
      if off > sz \<or> off + n < off then Ok (0, s, mem)
      else
        (let n1 = (if off + n > sz then sz - off else n) in
         bind_res (readi_loop cp i 0 (unat off) (unat n1) s mem) (\<lambda>(tot, s1, mem1). Ok (sint tot, s1, mem1))))"

function writei_loop :: "'m copy_in \<Rightarrow> nat \<Rightarrow> nat \<Rightarrow> nat \<Rightarrow> nat \<Rightarrow> fs \<Rightarrow> 'm \<Rightarrow> (nat \<times> nat \<times> fs \<times> 'm) res" where
  "writei_loop rd i tot off n s mem =
     (if tot < n then
        bind_res (bmap i (off div BSIZE) s) (\<lambda>(addr, s1).
          if addr = 0 then Ok (tot, off, s1, mem)
          else
            (let m = step_len (n - tot) off in
             bind_res (rd tot m mem) (\<lambda>(r, bs, mem1).
               (let s2 = put_block addr (splice (off mod BSIZE) bs) s1 in
                if r = - 1 then Ok (tot, off, s2, mem1)
                else writei_loop rd i (tot + m) (off + m) n s2 mem1))))
      else Ok (tot, off, s, mem))"
  by pat_completeness auto
termination
  by (relation "measure (\<lambda>(rd, i, tot, off, n, s, mem). n - tot)") (simp_all add: diff_less_mono2)

definition writei :: "'m copy_in \<Rightarrow> nat \<Rightarrow> u32 \<Rightarrow> u32 \<Rightarrow> fs \<Rightarrow> 'm \<Rightarrow> (int \<times> fs \<times> 'm) res" where
  "writei rd i off n s mem =
     (if off > ip_size (ino s i) \<or> off + n < off then Ok (- 1, s, mem)
      else if unat (off + n) > MAXFILE * BSIZE then Ok (- 1, s, mem)
      else
        bind_res (writei_loop rd i 0 (unat off) (unat n) s mem) (\<lambda>(tot, off1, s1, mem1).
          (let s2 = (if off1 > unat (ip_size (ino s1 i)) then upd_ino i (\<lambda>ip. ip\<lparr>ip_size := of_nat off1\<rparr>) s1 else s1) in
           Ok (sint (of_nat tot :: u32), iupdate i s2, mem1))))"

section \<open>Directories\<close>

definition namecmp :: "u8 list \<Rightarrow> u8 list \<Rightarrow> int" where
  "namecmp s t = strncmp s t DIRSIZ"

abbreviation de_inum :: "u8 list \<Rightarrow> u16" where "de_inum de \<equiv> get16 0 de"
abbreviation de_name :: "u8 list \<Rightarrow> u8 list" where "de_name de \<equiv> drop 2 de"

text \<open>
  Reading does not change the size of the directory, so the loops take the size they run to as an
  argument. The result of \<open>dirlookup\<close> is the inode and the offset of its entry.
\<close>

function dirlookup_loop :: "nat \<Rightarrow> u8 list \<Rightarrow> nat \<Rightarrow> nat \<Rightarrow> fs \<Rightarrow> ((nat \<times> nat) option \<times> fs) res" where
  "dirlookup_loop i name off sz s =
     (if off < sz then
        bind_res (readi kcopyout i (of_nat off) 16 s (replicate 16 0)) (\<lambda>(r, s1, de).
          if r \<noteq> 16 then Panic ''dirlookup read''
          else if de_inum de \<noteq> 0 \<and> namecmp name (de_name de) = 0
            then bind_res (iget (ip_dev (ino s1 i)) (ucast (de_inum de)) s1) (\<lambda>(j, s2). Ok (Some (j, off), s2))
          else dirlookup_loop i name (off + 16) sz s1)
      else Ok (None, s))"
  by pat_completeness auto
termination
  by (relation "measure (\<lambda>(i, name, off, sz, s). sz - off)") auto

definition dirlookup :: "nat \<Rightarrow> u8 list \<Rightarrow> fs \<Rightarrow> ((nat \<times> nat) option \<times> fs) res" where
  "dirlookup i name s =
     (if ip_type (ino s i) \<noteq> T_DIR then Panic ''dirlookup not DIR''
      else dirlookup_loop i name 0 (unat (ip_size (ino s i))) s)"

function empty_loop :: "nat \<Rightarrow> nat \<Rightarrow> nat \<Rightarrow> fs \<Rightarrow> u8 list \<Rightarrow> (nat \<times> fs \<times> u8 list) res" where
  "empty_loop i off sz s de =
     (if off < sz then
        bind_res (readi kcopyout i (of_nat off) 16 s de) (\<lambda>(r, s1, de1).
          if r \<noteq> 16 then Panic ''dirlink read''
          else if de_inum de1 = 0 then Ok (off, s1, de1)
          else empty_loop i (off + 16) sz s1 de1)
      else Ok (off, s, de))"
  by pat_completeness auto
termination
  by (relation "measure (\<lambda>(i, off, sz, s, de). sz - off)") auto

definition dirlink :: "int \<Rightarrow> nat \<Rightarrow> u8 list \<Rightarrow> u32 \<Rightarrow> fs \<Rightarrow> (int \<times> fs) res" where
  "dirlink pid i name inum s =
     bind_res (dirlookup i name s) (\<lambda>(r, s1).
       case r of
         Some (j, _) \<Rightarrow> bind_res (iput pid j s1) (\<lambda>s2. Ok (- 1, s2))
       | None \<Rightarrow>
           bind_res (empty_loop i 0 (unat (ip_size (ino s1 i))) s1 (replicate 16 0)) (\<lambda>(off, s2, de).
             (let de1 = put16 0 (ucast inum) (take 2 de @ strncpy (de_name de) name DIRSIZ) in
              bind_res (writei kcopyin i (of_nat off) 16 s2 de1) (\<lambda>(r, s3, _).
                Ok (if r \<noteq> 16 then - 1 else 0, s3)))))"

section \<open>Path names\<close>

text \<open>A path is the list of its bytes before the terminating NUL, \<open>name\<close> the caller's array of \<open>DIRSIZ\<close> bytes.\<close>

definition SLASH :: u8 where "SLASH = 47"

definition skipelem :: "u8 list \<Rightarrow> u8 list \<Rightarrow> (u8 list \<times> u8 list) option" where
  "skipelem path name =
     (let s = dropWhile (\<lambda>c. c = SLASH) path in
      if s = [] then None
      else
        (let elem = takeWhile (\<lambda>c. c \<noteq> SLASH) s; rest = dropWhile (\<lambda>c. c \<noteq> SLASH) s; len = length elem in
         Some (dropWhile (\<lambda>c. c = SLASH) rest,
           if len \<ge> DIRSIZ then splice 0 (take DIRSIZ elem) name else splice 0 (elem @ [0]) name)))"

lemma skipelem_shorter: "skipelem path name = Some (rest, nm) \<Longrightarrow> length rest < length path"
proof -
  assume a: "skipelem path name = Some (rest, nm)"
  let ?s = "dropWhile (\<lambda>c. c = SLASH) path"
  have s: "?s \<noteq> []" "hd ?s \<noteq> SLASH" using a hd_dropWhile [of "\<lambda>c. c = SLASH" path] by (auto simp: skipelem_def Let_def split: if_splits)
  then obtain c t where ct: "?s = c # t" "c \<noteq> SLASH" by (cases ?s) auto
  have "rest = dropWhile (\<lambda>c. c = SLASH) (dropWhile (\<lambda>c. c \<noteq> SLASH) ?s)" using a s(1) unfolding skipelem_def Let_def by (auto split: if_splits)
  then have "length rest \<le> length t" using ct by (simp add: le_trans [OF length_dropWhile_le length_dropWhile_le])
  moreover have "length t < length path" using ct(1) length_dropWhile_le [of "\<lambda>c. c = SLASH" path] by simp
  ultimately show ?thesis by simp
qed

function namex_loop :: "int \<Rightarrow> bool \<Rightarrow> u8 list \<Rightarrow> u8 list \<Rightarrow> nat \<Rightarrow> fs \<Rightarrow> (nat option \<times> u8 list \<times> fs) res" where
  "namex_loop pid nameiparent path name i s =
     (case skipelem path name of
        None \<Rightarrow>
          if nameiparent then bind_res (iput pid i s) (\<lambda>s1. Ok (None, name, s1)) else Ok (Some i, name, s)
      | Some (rest, nm) \<Rightarrow>
          bind_res (ilock pid i s) (\<lambda>s1.
            if ip_type (ino s1 i) \<noteq> T_DIR \<or> ip_nlink (ino s1 i) = 0
            then bind_res (iunlockput pid i s1) (\<lambda>s2. Ok (None, nm, s2))
            else if nameiparent \<and> rest = [] then bind_res (iunlock pid i s1) (\<lambda>s2. Ok (Some i, nm, s2))
            else
              bind_res (dirlookup i nm s1) (\<lambda>(r, s2).
                bind_res (iunlockput pid i s2) (\<lambda>s3.
                  case r of None \<Rightarrow> Ok (None, nm, s3) | Some (j, _) \<Rightarrow> namex_loop pid nameiparent rest nm j s3))))"
  by pat_completeness auto
termination
  by (relation "measure (\<lambda>(pid, np, path, name, i, s). length path)") (auto dest: skipelem_shorter)

definition namex :: "int \<Rightarrow> nat \<Rightarrow> bool \<Rightarrow> u8 list \<Rightarrow> u8 list \<Rightarrow> fs \<Rightarrow> (nat option \<times> u8 list \<times> fs) res" where
  "namex pid cwd nameiparent path name s =
     (if path \<noteq> [] \<and> hd path = SLASH
      then bind_res (iget ROOTDEV ROOTINO s) (\<lambda>(i, s1). namex_loop pid nameiparent path name i s1)
      else namex_loop pid nameiparent path name cwd (idup cwd s))"

definition namei :: "int \<Rightarrow> nat \<Rightarrow> u8 list \<Rightarrow> fs \<Rightarrow> (nat option \<times> fs) res" where
  "namei pid cwd path s = bind_res (namex pid cwd False path (replicate DIRSIZ 0) s) (\<lambda>(r, _, s1). Ok (r, s1))"

definition nameiparent :: "int \<Rightarrow> nat \<Rightarrow> u8 list \<Rightarrow> u8 list \<Rightarrow> fs \<Rightarrow> (nat option \<times> u8 list \<times> fs) res" where
  "nameiparent pid cwd path name s = namex pid cwd True path name s"

section \<open>Start-up\<close>

text \<open>
  \<open>ireclaim\<close> frees the inodes that were unlinked but still open at a crash. Each is its own transaction:
  \<open>begin_op\<close> at start-up finds no other operation, \<open>end_op\<close> commits.
\<close>

definition ireclaim_one :: "int \<Rightarrow> u32 \<Rightarrow> nat \<Rightarrow> fs \<Rightarrow> fs res" where
  "ireclaim_one pid dev inum s =
     (let d = fs_blk s (IBLOCK inum (fs_sb s)); off = dip_off inum in
      if get16 off d \<noteq> 0 \<and> get16 (off + 6) d = 0 then
        bind_res (iget dev (of_nat inum) s) (\<lambda>(i, s1).
        bind_res (ilock pid i (s1\<lparr>fs_logged := []\<rparr>)) (\<lambda>s2.
        bind_res (iunlock pid i s2) (\<lambda>s3.
        bind_res (iput pid i s3) (\<lambda>s4. Ok (s4\<lparr>fs_logged := []\<rparr>)))))
      else Ok s)"

definition ireclaim :: "int \<Rightarrow> u32 \<Rightarrow> fs \<Rightarrow> fs res" where
  "ireclaim pid dev s = fold_res (ireclaim_one pid dev) [1..<unat (sb_ninodes (fs_sb s))] s"

text \<open>The effect of \<open>initlog\<close> on the blocks is the one of the theory \<open>Log\<close>.\<close>

definition fsinit :: "int \<Rightarrow> u32 \<Rightarrow> fs \<Rightarrow> fs res" where
  "fsinit pid dev s =
     (let s1 = readsb s; start = sb_logstart (fs_sb s1) in
      if sb_magic (fs_sb s1) \<noteq> FSMAGIC then Panic ''invalid file system''
      else if head_n (fs_blk s1 start) > int LOGBLOCKS then Panic ''overrun''
      else ireclaim pid dev (s1\<lparr>fs_blk := apply_writes (recovery_writes dev start (fs_blk s1)) (fs_blk s1)\<rparr>))"

end
