(* ===== verification/FsInv.thy ===== *)
theory FsInv
  imports Fs
begin

text \<open>
  Correctness of the file-system layer: the allocation bitmap, the block map of an inode and the
  contents of files.
\<close>

section \<open>The bitmap\<close>

lemma in_use_bit: "in_use d bi \<longleftrightarrow> bit (d ! (bi div 8)) (bi mod 8)"
  by (simp add: in_use_def push_bit_eq_mult and_exp_eq_0_iff_not_bit)

lemma same_bit: "(bi :: nat) div 8 = bj div 8 \<Longrightarrow> bi mod 8 = bj mod 8 \<Longrightarrow> bi = bj"
  by (metis div_mult_mod_eq)

lemma bit_mask_index: "m < 8 \<Longrightarrow> bit (2 ^ k :: u8) m \<longleftrightarrow> m = k"
  by (auto simp: bit_exp_iff)

lemma in_use_mark_used:
  assumes "bi div 8 < length d"
  shows "in_use (mark_used bi d) bj \<longleftrightarrow> bj = bi \<or> in_use d bj"
proof (cases "bi div 8 = bj div 8")
  case True
  have "bj mod 8 = bi mod 8 \<longleftrightarrow> bj = bi" using True same_bit by metis
  then show ?thesis using assms True by (simp add: in_use_bit mark_used_def bit_or_iff bit_mask_index disj_commute)
next
  case False
  then show ?thesis by (auto simp: in_use_bit mark_used_def)
qed

lemma in_use_mark_free:
  assumes "bi div 8 < length d"
  shows "in_use (mark_free bi d) bj \<longleftrightarrow> bj \<noteq> bi \<and> in_use d bj"
proof (cases "bi div 8 = bj div 8")
  case True
  have "bj mod 8 = bi mod 8 \<longleftrightarrow> bj = bi" using True same_bit by metis
  then show ?thesis using assms True by (simp add: in_use_bit mark_free_def bit_and_iff bit_not_iff bit_mask_index conj_commute)
next
  case False
  then show ?thesis by (auto simp: in_use_bit mark_free_def)
qed

lemma length_mark [simp]: "length (mark_used bi d) = length d" "length (mark_free bi d) = length d"
  by (simp_all add: mark_used_def mark_free_def)

lemma memset_spec: "n \<le> length d \<Longrightarrow> memset d c n = replicate n c @ drop n d"
proof (induction n)
  case (Suc n)
  then have "memset d c (Suc n) = (replicate n c @ drop n d)[n := c]" by (simp add: memset_def)
  also have "\<dots> = replicate n c @ (drop n d)[0 := c]" by (simp add: list_update_append)
  also have "(drop n d)[0 := c] = c # drop (Suc n) d" using Suc.prems by (simp add: Cons_nth_drop_Suc [symmetric])
  finally show ?case by (simp add: replicate_append_same)
qed (simp add: memset_def)

section \<open>Layout and allocation\<close>

definition bitmap_area :: "superblock \<Rightarrow> u32 set" where
  "bitmap_area sb = (\<lambda>b. BBLOCK b sb) ` {..<unat (sb_size sb)}"

definition inode_area :: "superblock \<Rightarrow> u32 set" where
  "inode_area sb = (\<lambda>i. IBLOCK i sb) ` {..<unat (sb_ninodes sb)}"

definition used :: "fs \<Rightarrow> u32 \<Rightarrow> bool" where
  "used s b \<longleftrightarrow> in_use (fs_blk s (BBLOCK (unat b) (fs_sb s))) (unat b mod BPB)"

abbreviation size_of :: "fs \<Rightarrow> nat" where "size_of s \<equiv> unat (sb_size (fs_sb s))"

definition meta :: "superblock \<Rightarrow> u32 set" where
  "meta sb = insert 0 (bitmap_area sb \<union> inode_area sb)"

definition map_ok :: "fs \<Rightarrow> bool" where
  "map_ok s \<longleftrightarrow> (\<forall>b. length (fs_blk s b) = BSIZE) \<and> bitmap_area (fs_sb s) \<inter> inode_area (fs_sb s) = {}
     \<and> 0 < size_of s \<and> (\<forall>b \<in> meta (fs_sb s). unat b < size_of s \<and> used s b)"

lemma BBLOCK_inj:
  assumes "b < 2 ^ 32" "c < 2 ^ 32"
  shows "BBLOCK b sb = BBLOCK c sb \<longleftrightarrow> b div BPB = c div BPB"
proof -
  have "b div BPB < 2 ^ 32" "c div BPB < 2 ^ 32" using assms by (simp_all add: BPB_def BSIZE_def)
  then show ?thesis by (simp add: BBLOCK_def word_of_nat_eq_iff take_bit_nat_eq_self)
qed

lemma bit_index: "b mod BPB div 8 < BSIZE"
  by (simp add: BPB_def BSIZE_def less_mult_imp_div_less)

lemma put_block_simps [simp]:
  "fs_sb (put_block b f s) = fs_sb s" "fs_itable (put_block b f s) = fs_itable s"
  "fs_blk (put_block b f s) c = (if c = b then f (fs_blk s b) else fs_blk s c)" "fs_logged (put_block b f s) = List.insert b (fs_logged s)"
  by (simp_all add: put_block_def)

text \<open>Outside the bitmap a change of a block does not change which blocks are used.\<close>

lemma used_put_other:
  assumes "b \<notin> bitmap_area (fs_sb s)" "unat c < size_of s"
  shows "used (put_block b f s) c = used s c"
proof -
  have "BBLOCK (unat c) (fs_sb s) \<noteq> b" using assms by (auto simp: bitmap_area_def)
  then show ?thesis by (simp add: used_def)
qed

lemma used_put_bitmap:
  assumes "length (fs_blk s (BBLOCK (unat b) (fs_sb s))) = BSIZE"
    and "\<And>bi bj d. bi div 8 < length d \<Longrightarrow> in_use (f bi d) bj = (if bj = bi then v else in_use d bj)"
  shows "used (put_block (BBLOCK (unat b) (fs_sb s)) (f (unat b mod BPB)) s) c = (if c = b then v else used s c)"
proof (cases "unat c div BPB = unat b div BPB")
  case True
  then have eq: "BBLOCK (unat c) (fs_sb s) = BBLOCK (unat b) (fs_sb s)" by (simp add: BBLOCK_def)
  have "unat c mod BPB = unat b mod BPB \<longleftrightarrow> c = b" using True by (metis div_mult_mod_eq word_unat_eq_iff)
  then show ?thesis using assms(2) [of "unat b mod BPB" "fs_blk s (BBLOCK (unat b) (fs_sb s))" "unat c mod BPB"] assms(1) bit_index
    by (simp add: used_def eq)
next
  case False
  have "unat c < 2 ^ 32" "unat b < 2 ^ 32" using unsigned_less [of c, where ?'a = nat] unsigned_less [of b, where ?'a = nat] by simp_all
  then have "BBLOCK (unat c) (fs_sb s) \<noteq> BBLOCK (unat b) (fs_sb s)" using BBLOCK_inj False by blast
  then show ?thesis using False by (auto simp: used_def)
qed

declare balloc_loop.simps [simp del]

text \<open>What \<open>balloc\<close> does: it finds the first free block or there is none.\<close>

lemma balloc_loop_spec:
  assumes "b mod BPB = 0" "\<forall>c. unat c < b \<longrightarrow> unat c < size_of s \<longrightarrow> used s c"
  shows "balloc_loop b s = (0, s) \<and> (\<forall>c. unat c < size_of s \<longrightarrow> used s c) \<or>
    (\<exists>a. unat a < size_of s \<and> \<not> used s a \<and> balloc_loop b s = (a, bzero a (put_block (BBLOCK (unat a) (fs_sb s)) (mark_used (unat a mod BPB)) s)))"
  using assms
proof (induction b s rule: balloc_loop.induct)
  case (1 b s)
  let ?n = "min BPB (size_of s - b)" let ?P = "\<lambda>bi. \<not> in_use (fs_blk s (BBLOCK b (fs_sb s))) bi"
  have pos: "0 < BPB" by (simp add: BPB_def BSIZE_def)
  have at: "BBLOCK (b + bi) (fs_sb s) = BBLOCK b (fs_sb s)" "(b + bi) mod BPB = bi" if "bi < BPB" for bi
  proof -
    have "(b + bi) div BPB = b div BPB" using that "1.prems"(1) div_add1_eq [of b bi BPB] by simp
    then show "BBLOCK (b + bi) (fs_sb s) = BBLOCK b (fs_sb s)" by (simp add: BBLOCK_def)
    show "(b + bi) mod BPB = bi" using that "1.prems"(1) mod_add_eq [of b BPB bi] by simp
  qed
  show ?case
  proof (cases "b < size_of s")
    case True
    show ?thesis
    proof (cases "find ?P [0..<?n]")
      case None
      then have all: "in_use (fs_blk s (BBLOCK b (fs_sb s))) bi" if "bi < ?n" for bi using that by (auto simp: find_None_iff)
      have "used s c" if c: "unat c < b + BPB" "unat c < size_of s" for c
      proof (cases "unat c < b")
        case False
        then have "unat c - b < ?n" "unat c = b + (unat c - b)" using c by linarith+
        then show ?thesis using all [of "unat c - b"] at [of "unat c - b"] by (simp add: used_def)
      qed (use "1.prems"(2) c in blast)
      moreover have "(b + BPB) mod BPB = 0" using "1.prems"(1) by simp
      moreover have "balloc_loop b s = balloc_loop (b + BPB) s" using True None by (subst balloc_loop.simps) simp
      ultimately show ?thesis using "1.IH" [OF True None] by metis
    next
      case (Some bi)
      then have bi: "bi < ?n" "?P bi" using find_SomeD [OF Some] by auto
      have lt: "b + bi < size_of s" "bi < BPB" using bi(1) by linarith+
      then have "b + bi < 2 ^ 32" using unsigned_less [of "sb_size (fs_sb s)", where ?'a = nat] by simp
      define a where "a = (of_nat (b + bi) :: u32)"
      have u: "unat a = b + bi" unfolding a_def unat_of_nat using \<open>b + bi < 2 ^ 32\<close> by simp
      have "balloc_loop b s = (a, bzero a (put_block (BBLOCK b (fs_sb s)) (mark_used bi) s))"
        unfolding a_def using True Some by (subst balloc_loop.simps) simp
      then have eq: "balloc_loop b s = (a, bzero a (put_block (BBLOCK (unat a) (fs_sb s)) (mark_used (unat a mod BPB)) s))"
        by (simp only: u at [OF lt(2)])
      have "\<not> used s a" using bi(2) at [OF lt(2)] by (simp only: used_def u not_False_eq_True)
      then show ?thesis using eq lt(1) u by (intro disjI2 exI [of _ a]) simp
    qed
  next
    case False
    then have "balloc_loop b s = (0, s)" by (subst balloc_loop.simps) simp
    moreover have "used s c" if "unat c < size_of s" for c using "1.prems"(2) False that by simp
    ultimately show ?thesis by blast
  qed
qed

lemma map_okD:
  assumes "map_ok s"
  shows "length (fs_blk s b) = BSIZE" "bitmap_area (fs_sb s) \<inter> inode_area (fs_sb s) = {}" "0 < size_of s"
    "b \<in> meta (fs_sb s) \<Longrightarrow> unat b < size_of s \<and> used s b"
  using assms by (simp_all add: map_ok_def)

lemma BBLOCK_area: "unat b < size_of s \<Longrightarrow> BBLOCK (unat b) (fs_sb s) \<in> bitmap_area (fs_sb s)"
  by (auto simp: bitmap_area_def)

lemma area_meta: "bitmap_area sb \<subseteq> meta sb" "inode_area sb \<subseteq> meta sb" "0 \<in> meta sb"
  by (auto simp: meta_def)

text \<open>Writing a block of the right length outside the bitmap keeps the map in order.\<close>

lemma map_ok_put:
  assumes "map_ok s" "b \<notin> bitmap_area (fs_sb s)" "length (f (fs_blk s b)) = BSIZE"
  shows "map_ok (put_block b f s)"
  using assms used_put_other [OF assms(2)] by (auto simp: map_ok_def)

lemma balloc_cases:
  assumes "map_ok s"
  obtains (full) "balloc s = (0, s)" "\<And>c. unat c < size_of s \<Longrightarrow> used s c"
  | (got) a s' where "balloc s = (a, s')" "a \<noteq> 0" "unat a < size_of s" "\<not> used s a" "a \<notin> meta (fs_sb s)" "map_ok s'" "fs_sb s' = fs_sb s"
      "fs_itable s' = fs_itable s" "fs_blk s' a = replicate BSIZE 0" "\<And>b. b \<noteq> a \<Longrightarrow> b \<notin> bitmap_area (fs_sb s) \<Longrightarrow> fs_blk s' b = fs_blk s b"
      "\<And>c. unat c < size_of s \<Longrightarrow> used s' c \<longleftrightarrow> used s c \<or> c = a"
      "fs_logged s' = List.insert a (List.insert (BBLOCK (unat a) (fs_sb s)) (fs_logged s))"
proof (cases "balloc_loop 0 s = (0, s) \<and> (\<forall>c. unat c < size_of s \<longrightarrow> used s c)")
  case True
  then show ?thesis using full by (simp add: balloc_def)
next
  case False
  let ?B = "\<lambda>a. BBLOCK (unat a) (fs_sb s)"
  obtain a where a: "unat a < size_of s" "\<not> used s a" "balloc s = (a, bzero a (put_block (?B a) (mark_used (unat a mod BPB)) s))"
    using balloc_loop_spec [of 0 s] False by (auto simp: balloc_def)
  let ?t = "put_block (?B a) (mark_used (unat a mod BPB)) s"
  have m: "a \<notin> meta (fs_sb s)" using map_okD(4) [OF assms, of a] a(2) by blast
  then have ne: "a \<notin> bitmap_area (fs_sb s)" "a \<noteq> 0" by (simp_all add: meta_def)
  have ut: "used ?t c \<longleftrightarrow> used s c \<or> c = a" for c
    using used_put_bitmap [of s a "mark_used" True c, OF map_okD(1) [OF assms]] in_use_mark_used by auto
  have t: "map_ok ?t" using assms ut by (auto simp: map_ok_def)
  have zero: "memset (fs_blk ?t a) 0 BSIZE = replicate BSIZE 0" using map_okD(1) [OF t, of a] by (simp add: memset_spec)
  have r: "map_ok (bzero a ?t)" unfolding bzero_def using ne(1) zero by (intro map_ok_put [OF t]) simp_all
  show ?thesis
  proof (rule got [OF a(3) ne(2) a(1,2) m r])
    show "fs_blk (bzero a ?t) a = replicate BSIZE 0" using zero by (simp add: bzero_def)
    show "used (bzero a ?t) c \<longleftrightarrow> used s c \<or> c = a" if "unat c < size_of s" for c
      using used_put_other [of a ?t c] ne(1) that ut by (simp add: bzero_def)
    show "fs_blk (bzero a ?t) b = fs_blk s b" if "b \<noteq> a" "b \<notin> bitmap_area (fs_sb s)" for b
      using that BBLOCK_area [OF a(1)] by (auto simp: bzero_def)
  qed (simp_all add: bzero_def)
qed

section \<open>The block map of an inode\<close>

definition fblock :: "fs \<Rightarrow> nat \<Rightarrow> nat \<Rightarrow> u32" where
  "fblock s i k =
     (if k < NDIRECT then ip_addrs (ino s i) ! k
      else if ip_addrs (ino s i) ! NDIRECT = 0 then 0
      else get32 (4 * (k - NDIRECT)) (fs_blk s (ip_addrs (ino s i) ! NDIRECT)))"

text \<open>All blocks of an inode: those of its contents, and the indirect block as number \<open>MAXFILE\<close>.\<close>

definition slot :: "fs \<Rightarrow> nat \<Rightarrow> nat \<Rightarrow> u32" where
  "slot s i k = (if k = MAXFILE then ip_addrs (ino s i) ! NDIRECT else fblock s i k)"

definition own :: "fs \<Rightarrow> nat \<Rightarrow> u32 set" where
  "own s i = {a. a \<noteq> 0 \<and> (\<exists>k \<le> MAXFILE. slot s i k = a)}"

definition ino_ok :: "fs \<Rightarrow> nat \<Rightarrow> bool" where
  "ino_ok s i \<longleftrightarrow> i < length (fs_itable s) \<and> length (ip_addrs (ino s i)) = NDIRECT + 1 \<and> unat (ip_inum (ino s i)) < unat (sb_ninodes (fs_sb s))
     \<and> (\<forall>a \<in> own s i. used s a \<and> unat a < size_of s \<and> a \<notin> meta (fs_sb s))
     \<and> (\<forall>k \<le> MAXFILE. \<forall>j \<le> MAXFILE. slot s i k = slot s i j \<longrightarrow> slot s i k \<noteq> 0 \<longrightarrow> k = j)"

lemma ino_okD:
  assumes "ino_ok s i"
  shows "i < length (fs_itable s)" "length (ip_addrs (ino s i)) = NDIRECT + 1" "unat (ip_inum (ino s i)) < unat (sb_ninodes (fs_sb s))"
    "a \<in> own s i \<Longrightarrow> used s a \<and> unat a < size_of s \<and> a \<notin> meta (fs_sb s)"
    "k \<le> MAXFILE \<Longrightarrow> j \<le> MAXFILE \<Longrightarrow> slot s i k = slot s i j \<Longrightarrow> slot s i k \<noteq> 0 \<Longrightarrow> k = j"
  using assms by (simp_all add: ino_ok_def)

text \<open>The byte at offset \<open>p\<close>; blocks that are not there read as zero.\<close>

definition content :: "fs \<Rightarrow> nat \<Rightarrow> nat \<Rightarrow> u8" where
  "content s i p = (let a = fblock s i (p div BSIZE) in if a = 0 then 0 else fs_blk s a ! (p mod BSIZE))"

text \<open>
  A change of the file of inode \<open>i\<close> that leaves everything else alone: the other entries of the inode table, and
  every used block that is not one of the file's, of the bitmap or of the inode blocks.
\<close>

definition keeps :: "nat \<Rightarrow> fs \<Rightarrow> fs \<Rightarrow> bool" where
  "keeps i s s' \<longleftrightarrow> fs_sb s' = fs_sb s \<and> map_ok s' \<and> ino_ok s' i \<and> length (fs_itable s') = length (fs_itable s)
     \<and> (\<forall>j. j \<noteq> i \<longrightarrow> ino s' j = ino s j) \<and> (\<exists>as sz. ino s' i = (ino s i)\<lparr>ip_addrs := as, ip_size := sz\<rparr>)
     \<and> (\<forall>b. unat b < size_of s \<longrightarrow> used s b \<longrightarrow> used s' b)
     \<and> (\<forall>b. unat b < size_of s \<longrightarrow> used s b \<longrightarrow> b \<notin> own s i \<longrightarrow>
          b \<notin> own s' i \<and> (b \<notin> bitmap_area (fs_sb s) \<union> inode_area (fs_sb s) \<longrightarrow> fs_blk s' b = fs_blk s b))"

lemma keeps_refl: "map_ok s \<Longrightarrow> ino_ok s i \<Longrightarrow> keeps i s s"
  unfolding keeps_def by (intro conjI exI [of _ "ip_addrs (ino s i)"] exI [of _ "ip_size (ino s i)"]) simp_all

lemma keeps_trans:
  assumes "keeps i s s1" "keeps i s1 s2"
  shows "keeps i s s2"
proof -
  obtain as sz bs tz where "ino s1 i = (ino s i)\<lparr>ip_addrs := as, ip_size := sz\<rparr>" "ino s2 i = (ino s1 i)\<lparr>ip_addrs := bs, ip_size := tz\<rparr>"
    using assms unfolding keeps_def by blast
  then have "ino s2 i = (ino s i)\<lparr>ip_addrs := bs, ip_size := tz\<rparr>" by simp
  then show ?thesis using assms unfolding keeps_def by auto
qed

lemma keepsD:
  assumes "keeps i s s'"
  shows "fs_sb s' = fs_sb s" "map_ok s'" "ino_ok s' i" "length (fs_itable s') = length (fs_itable s)" "ip_inum (ino s' i) = ip_inum (ino s i)"
    "ip_type (ino s' i) = ip_type (ino s i)" "ip_dev (ino s' i) = ip_dev (ino s i)" "j \<noteq> i \<Longrightarrow> ino s' j = ino s j"
    "ip_valid (ino s' i) = ip_valid (ino s i)" "ip_nlink (ino s' i) = ip_nlink (ino s i)" "ip_lock (ino s' i) = ip_lock (ino s i)" "ip_ref (ino s' i) = ip_ref (ino s i)"
  using assms unfolding keeps_def by auto


lemma slot_data: "k < MAXFILE \<Longrightarrow> slot s i k = fblock s i k"
  by (simp add: slot_def)

lemma slot_own: "k \<le> MAXFILE \<Longrightarrow> slot s i k \<noteq> 0 \<Longrightarrow> slot s i k \<in> own s i"
  by (auto simp: own_def)

lemma content_cong:
  assumes "fblock s' i k = fblock s i k" "fblock s i k \<noteq> 0 \<Longrightarrow> fs_blk s' (fblock s i k) = fs_blk s (fblock s i k)" "p div BSIZE = k"
  shows "content s' i p = content s i p"
  using assms by (simp add: content_def Let_def)

text \<open>Giving an inode a fresh, zeroed block where it had none.\<close>

lemma grow:
  assumes s: "map_ok s" "ino_ok s i" and k: "k \<le> MAXFILE" "slot s i k = 0"
    and a: "a \<noteq> 0" "unat a < size_of s" "\<not> used s a" "a \<notin> meta (fs_sb s)"
    and s': "map_ok s'" "fs_sb s' = fs_sb s" "length (fs_itable s') = length (fs_itable s)" "\<forall>j. j \<noteq> i \<longrightarrow> ino s' j = ino s j"
      "ino s' i = (ino s i)\<lparr>ip_addrs := as\<rparr>" "length as = NDIRECT + 1" "\<forall>j \<le> MAXFILE. slot s' i j = (if j = k then a else slot s i j)"
      "\<forall>c. unat c < size_of s \<longrightarrow> used s' c = (used s c \<or> c = a)" "fs_blk s' a = replicate BSIZE 0"
      "\<forall>b. b \<noteq> a \<longrightarrow> b \<notin> bitmap_area (fs_sb s) \<longrightarrow> b = 0 \<or> b \<noteq> slot s i MAXFILE \<longrightarrow> fs_blk s' b = fs_blk s b"
  shows "keeps i s s'" "\<And>p. p div BSIZE < MAXFILE \<Longrightarrow> content s' i p = content s i p"
proof -
  have na: "slot s i j \<noteq> a" if "j \<le> MAXFILE" for j using slot_own [OF that] a(1,3) ino_okD(4) [OF s(2)] by metis
  have own: "own s' i = insert a (own s i)"
    using s'(7) k a(1) unfolding own_def by (auto split: if_splits) metis
  have "ino_ok s' i"
    unfolding ino_ok_def
  proof (intro conjI ballI allI impI)
    show "i < length (fs_itable s')" "length (ip_addrs (ino s' i)) = NDIRECT + 1" "unat (ip_inum (ino s' i)) < unat (sb_ninodes (fs_sb s'))"
      using ino_okD(1,3) [OF s(2)] s'(2,3,5,6) by simp_all
    show "used s' c" "unat c < size_of s'" "c \<notin> meta (fs_sb s')" if "c \<in> own s' i" for c
      using that own a ino_okD(4) [OF s(2), of c] s'(2,8) by auto
    show "q = j" if "q \<le> MAXFILE" "j \<le> MAXFILE" "slot s' i q = slot s' i j" "slot s' i q \<noteq> 0" for q j
      using that s'(7) na [of q] na [of j] ino_okD(5) [OF s(2), of q j] by (auto split: if_splits)
  qed
  moreover have "\<exists>as sz. ino s' i = (ino s i)\<lparr>ip_addrs := as, ip_size := sz\<rparr>"
    using s'(5) by (intro exI [of _ as] exI [of _ "ip_size (ino s i)"]) simp
  moreover have "b \<notin> own s' i \<and> (b \<notin> bitmap_area (fs_sb s) \<union> inode_area (fs_sb s) \<longrightarrow> fs_blk s' b = fs_blk s b)"
    if "used s b" "b \<notin> own s i" "unat b < size_of s" for b
  proof -
    have "b \<noteq> a" using that(1) a(3) by blast
    moreover have "b = 0 \<or> b \<noteq> slot s i MAXFILE" using slot_own [of MAXFILE s i] that(2) by auto
    ultimately show ?thesis using that(2) own s'(10) by auto
  qed
  ultimately show "keeps i s s'" using s' by (auto simp: keeps_def)
  show "content s' i p = content s i p" if "p div BSIZE < MAXFILE" for p
  proof (cases "p div BSIZE = k")
    case True
    then have "fblock s i k = 0" "fblock s' i k = a" using that k(2) s'(7) slot_data [of k s i] slot_data [of k s' i] by simp_all
    then show ?thesis using True s'(9) a(1) by (simp add: content_def BSIZE_def)
  next
    case False
    let ?k = "p div BSIZE"
    have f: "fblock s' i ?k = fblock s i ?k" using that False s'(7) slot_data by (metis less_imp_le)
    show ?thesis
    proof (rule content_cong [OF f])
      assume nz: "fblock s i ?k \<noteq> 0"
      have sl: "slot s i ?k = fblock s i ?k" by (rule slot_data [OF that])
      have "fblock s i ?k \<in> own s i" using slot_own [of ?k s i] that nz sl by simp
      then have "fblock s i ?k \<notin> bitmap_area (fs_sb s)" using ino_okD(4) [OF s(2)] area_meta by blast
      moreover have "fblock s i ?k \<noteq> slot s i MAXFILE" using ino_okD(5) [OF s(2), of ?k MAXFILE] that nz sl by auto
      moreover have "fblock s i ?k \<noteq> a" using na [of ?k] that sl by simp
      ultimately show "fs_blk s' (fblock s i ?k) = fs_blk s (fblock s i ?k)" using s'(10) by blast
    qed simp
  qed
qed


lemma get32_zero: "off + 4 \<le> n \<Longrightarrow> get32 off (replicate n 0) = 0"
  by (simp add: get32_def)

lemma indirect_range: "k < MAXFILE \<Longrightarrow> 4 * (k - NDIRECT) + 4 \<le> BSIZE" "NDIRECT < MAXFILE"
  by (simp_all add: MAXFILE_def NDIRECT_def NINDIRECT_def BSIZE_def)

lemma set_addr_simps [simp]:
  "fs_sb (set_addr i k a s) = fs_sb s" "fs_blk (set_addr i k a s) = fs_blk s" "length (fs_itable (set_addr i k a s)) = length (fs_itable s)"
  "fs_logged (set_addr i k a s) = fs_logged s"
  by (simp_all add: set_addr_def upd_ino_def)

lemma ino_set_addr:
  "i < length (fs_itable s) \<Longrightarrow> ino (set_addr i k a s) j = (if j = i then (ino s i)\<lparr>ip_addrs := (ip_addrs (ino s i))[k := a]\<rparr> else ino s j)"
  by (auto simp: set_addr_def upd_ino_def)

lemma used_cong: "fs_blk s' = fs_blk s \<Longrightarrow> fs_sb s' = fs_sb s \<Longrightarrow> used s' = used s"
  by (simp add: used_def fun_eq_iff)

lemma map_ok_cong: "fs_blk s' = fs_blk s \<Longrightarrow> fs_sb s' = fs_sb s \<Longrightarrow> map_ok s' = map_ok s"
  using used_cong [of s' s] by (simp add: map_ok_def)

lemma fblock_cong:
  "ip_addrs (ino s' i) = ip_addrs (ino s i) \<Longrightarrow> (ip_addrs (ino s i) ! NDIRECT \<noteq> 0 \<Longrightarrow> fs_blk s' (ip_addrs (ino s i) ! NDIRECT) = fs_blk s (ip_addrs (ino s i) ! NDIRECT))
    \<Longrightarrow> fblock s' i k = fblock s i k"
  by (simp add: fblock_def)

text \<open>The slot that entry \<open>k\<close> of the address array is.\<close>

definition aslot :: "nat \<Rightarrow> nat" where "aslot k = (if k = NDIRECT then MAXFILE else k)"

lemma slot_aslot: "k \<le> NDIRECT \<Longrightarrow> slot s i (aslot k) = ip_addrs (ino s i) ! k"
  using indirect_range(2) by (auto simp: aslot_def slot_def fblock_def)

lemma set_addr_slots:
  assumes "ino_ok s i" "k \<le> NDIRECT" "ip_addrs (ino s i) ! k = 0" "a \<noteq> 0" "fs_itable s1 = fs_itable s" "fs_blk s1 a = replicate BSIZE 0"
    and ind: "ip_addrs (ino s i) ! NDIRECT \<noteq> 0 \<Longrightarrow> fs_blk s1 (ip_addrs (ino s i) ! NDIRECT) = fs_blk s (ip_addrs (ino s i) ! NDIRECT)"
    and j: "j \<le> MAXFILE"
  shows "slot (set_addr i k a s1) i j = (if j = aslot k then a else slot s i j)"
proof -
  let ?s = "set_addr i k a s1" let ?as = "ip_addrs (ino s i)"
  have as: "ip_addrs (ino ?s i) = ?as[k := a]" using assms(1,5) by (simp add: ino_set_addr ino_okD(1))
  have len: "length ?as = NDIRECT + 1" by (rule ino_okD(2) [OF assms(1)])
  consider "j = MAXFILE" | "j < NDIRECT" | "NDIRECT \<le> j" "j < MAXFILE" using j by linarith
  then show ?thesis
  proof cases
    case 3
    have z: "get32 (4 * (j - NDIRECT)) (replicate BSIZE 0) = 0" by (rule get32_zero [OF indirect_range(1) [OF 3(2)]])
    show ?thesis
    proof (cases "k = NDIRECT")
      case True
      then show ?thesis using 3 as len assms(3,6) z by (simp add: slot_def fblock_def aslot_def)
    next
      case False
      then show ?thesis using 3 as len assms(2) ind by (auto simp: slot_def fblock_def aslot_def)
    qed
  qed (use as len assms(2) indirect_range(2) in \<open>auto simp: slot_def fblock_def aslot_def nth_list_update\<close>)
qed

definition full :: "fs \<Rightarrow> bool" where
  "full s \<longleftrightarrow> (\<forall>c. unat c < size_of s \<longrightarrow> used s c)"

lemma addr_slot_spec:
  assumes "map_ok s" "ino_ok s i" "k \<le> NDIRECT"
  obtains a s' where "addr_slot i k s = (a, s')" "keeps i s s'" "\<forall>p. p div BSIZE < MAXFILE \<longrightarrow> content s' i p = content s i p"
    "a = 0 \<longrightarrow> full s' \<and> s' = s" "\<forall>j \<le> MAXFILE. slot s' i j = (if j = aslot k then a else slot s i j)" "ip_size (ino s' i) = ip_size (ino s i)"
    "set (fs_logged s') \<subseteq> set (fs_logged s) \<union> bitmap_area (fs_sb s) \<union> {a}"
proof (cases "ip_addrs (ino s i) ! k \<noteq> 0")
  case True
  show ?thesis
    by (rule that [of "ip_addrs (ino s i) ! k" s]) (use True keeps_refl [OF assms(1,2)] slot_aslot [OF assms(3), of s i] in \<open>auto simp: addr_slot_def\<close>)
next
  case False
  note z = False [simplified]
  show ?thesis
  proof (rule balloc_cases [OF assms(1)])
    assume b: "balloc s = (0, s)" "\<And>c. unat c < size_of s \<Longrightarrow> used s c"
    show ?thesis
      by (rule that [of 0 s]) (use b z keeps_refl [OF assms(1,2)] slot_aslot [OF assms(3), of s i] in \<open>auto simp: addr_slot_def full_def\<close>)
  next
    fix a s1
    assume b: "balloc s = (a, s1)" "a \<noteq> 0" "unat a < size_of s" "\<not> used s a" "a \<notin> meta (fs_sb s)" "map_ok s1" "fs_sb s1 = fs_sb s"
      "fs_itable s1 = fs_itable s" "fs_blk s1 a = replicate BSIZE 0" "\<And>b. b \<noteq> a \<Longrightarrow> b \<notin> bitmap_area (fs_sb s) \<Longrightarrow> fs_blk s1 b = fs_blk s b"
      "\<And>c. unat c < size_of s \<Longrightarrow> used s1 c \<longleftrightarrow> used s c \<or> c = a" "fs_logged s1 = List.insert a (List.insert (BBLOCK (unat a) (fs_sb s)) (fs_logged s))"
    let ?s = "set_addr i k a s1"
    have i: "i < length (fs_itable s1)" using ino_okD(1) [OF assms(2)] b(8) by simp
    have ind: "fs_blk s1 (ip_addrs (ino s i) ! NDIRECT) = fs_blk s (ip_addrs (ino s i) ! NDIRECT)" if "ip_addrs (ino s i) ! NDIRECT \<noteq> 0"
    proof -
      have "ip_addrs (ino s i) ! NDIRECT \<in> own s i" using slot_own [of MAXFILE s i] that by (simp add: slot_def)
      then show ?thesis using ino_okD(4) [OF assms(2)] b(4) area_meta(1) by (intro b(10)) blast+
    qed
    note sl = set_addr_slots [OF assms(2,3) z b(2,8,9) ind]
    have u: "used ?s = used s1" "map_ok ?s" using used_cong [of ?s s1] map_ok_cong [of ?s s1] b(6) by simp_all
    have ka: "aslot k \<le> MAXFILE" "slot s i (aslot k) = 0" using slot_aslot [OF assms(3), of s i] z assms(3) indirect_range(2) by (auto simp: aslot_def)
    have oth: "\<forall>j. j \<noteq> i \<longrightarrow> ino ?s j = ino s j" "ino ?s i = (ino s i)\<lparr>ip_addrs := (ip_addrs (ino s i))[k := a]\<rparr>"
      using i b(8) by (simp_all add: ino_set_addr)
    have g: "keeps i s ?s" "\<And>p. p div BSIZE < MAXFILE \<Longrightarrow> content ?s i p = content s i p"
      using grow [OF assms(1,2) ka b(2-5) u(2) _ _ oth _ _ _ _] b(7-11) u(1) sl ino_okD(2) [OF assms(2)] by simp_all
    show ?thesis
    proof (rule that [of a ?s])
      show "addr_slot i k s = (a, ?s)" using z b(1,2) by (simp add: addr_slot_def)
      show "set (fs_logged ?s) \<subseteq> set (fs_logged s) \<union> bitmap_area (fs_sb s) \<union> {a}" using b(3,12) BBLOCK_area by auto
    qed (use g sl b(2) oth in simp_all)
  qed
qed


lemma put_entry_slots:
  assumes "ino_ok s i" "ip_addrs (ino s i) ! NDIRECT = ind" "ind \<noteq> 0" "NDIRECT \<le> bn" "bn < MAXFILE" "fs_itable s1 = fs_itable s" "fs_blk s1 ind = fs_blk s ind"
    "length (fs_blk s ind) = BSIZE" "j \<le> MAXFILE"
  shows "slot (put_block ind (put32 (4 * (bn - NDIRECT)) a) s1) i j = (if j = bn then a else slot s i j)"
proof -
  let ?q = "4 * (bn - NDIRECT)"
  have q: "?q + 4 \<le> BSIZE" by (rule indirect_range(1) [OF assms(5)])
  have o: "get32 (4 * (j - NDIRECT)) (put32 ?q a (fs_blk s ind)) = get32 (4 * (j - NDIRECT)) (fs_blk s ind)" if "NDIRECT \<le> j" "j < MAXFILE" "j \<noteq> bn"
    using that assms(4,8) q indirect_range(1) [OF that(2)] by (intro get32_put32_other) auto
  show ?thesis using assms(2-4,5-9) q o by (auto simp: slot_def fblock_def)
qed

lemma bmap_entry:
  assumes "map_ok s" "ino_ok s i" "ip_addrs (ino s i) ! NDIRECT = ind" "ind \<noteq> 0" "NDIRECT \<le> bn" "bn < MAXFILE" "fblock s i bn = 0"
    and b: "balloc s = (a, s1)" "a \<noteq> 0"
  defines "s' \<equiv> put_block ind (put32 (4 * (bn - NDIRECT)) a) s1"
  shows "keeps i s s'" "\<And>p. p div BSIZE < MAXFILE \<Longrightarrow> content s' i p = content s i p"
    "\<And>j. j \<le> MAXFILE \<Longrightarrow> slot s' i j = (if j = bn then a else slot s i j)" "ip_size (ino s' i) = ip_size (ino s i)"
    "set (fs_logged s') \<subseteq> set (fs_logged s) \<union> bitmap_area (fs_sb s) \<union> {a, ind}"
proof -
  obtain c: "unat a < size_of s" "\<not> used s a" "a \<notin> meta (fs_sb s)" "map_ok s1" "fs_sb s1 = fs_sb s"
      "fs_itable s1 = fs_itable s" "fs_blk s1 a = replicate BSIZE 0" "\<forall>b. b \<noteq> a \<longrightarrow> b \<notin> bitmap_area (fs_sb s) \<longrightarrow> fs_blk s1 b = fs_blk s b"
      "\<forall>c. unat c < size_of s \<longrightarrow> used s1 c = (used s c \<or> c = a)" "fs_logged s1 = List.insert a (List.insert (BBLOCK (unat a) (fs_sb s)) (fs_logged s))"
    by (rule balloc_cases [OF assms(1)]) (use b in auto)
  have own: "ind \<in> own s i" using slot_own [of MAXFILE s i] assms(3,4) by (simp add: slot_def)
  then have ind: "ind \<noteq> a" "ind \<notin> bitmap_area (fs_sb s)" using ino_okD(4) [OF assms(2) own] c(2) area_meta(1) by blast+
  then have bi: "fs_blk s1 ind = fs_blk s ind" using c(8) by blast
  have len: "length (fs_blk s ind) = BSIZE" by (rule map_okD(1) [OF assms(1)])
  note sl = put_entry_slots [OF assms(2-6) c(6) bi len]
  then show "\<And>j. j \<le> MAXFILE \<Longrightarrow> slot s' i j = (if j = bn then a else slot s i j)" by (simp add: s'_def)
  have m: "map_ok s'" unfolding s'_def using c(4,5) ind(2) bi len indirect_range(1) [OF assms(6)] by (intro map_ok_put) simp_all
  have u: "\<forall>c. unat c < size_of s \<longrightarrow> used s' c = (used s c \<or> c = a)" using used_put_other [of ind s1] ind(2) c(5,9) by (simp add: s'_def)
  have z: "slot s i bn = 0" using assms(6,7) by (simp add: slot_data)
  have "ino s' i = (ino s i)\<lparr>ip_addrs := ip_addrs (ino s i)\<rparr>" using c(6) by (simp add: s'_def)
  then show "keeps i s s'" "\<And>p. p div BSIZE < MAXFILE \<Longrightarrow> content s' i p = content s i p"
    using grow [OF assms(1,2) less_imp_le [OF assms(6)] z b(2) c(1-3) m, where as = "ip_addrs (ino s i)"]
      c(5-8) u sl ino_okD(2) [OF assms(2)] ind(1) assms(3,4) by (auto simp: s'_def slot_def)
  show "ip_size (ino s' i) = ip_size (ino s i)" using c(6) by (simp add: s'_def)
  show "set (fs_logged s') \<subseteq> set (fs_logged s) \<union> bitmap_area (fs_sb s) \<union> {a, ind}" using c(1,10) BBLOCK_area by (auto simp: s'_def)
qed

lemma bmap_spec:
  assumes "map_ok s" "ino_ok s i" "bn < MAXFILE"
  obtains a s' where "bmap i bn s = Ok (a, s')" "keeps i s s'" "\<forall>p. p div BSIZE < MAXFILE \<longrightarrow> content s' i p = content s i p"
    "a = 0 \<longrightarrow> full s'" "\<forall>j < MAXFILE. fblock s' i j = (if j = bn then a else fblock s i j)" "ip_size (ino s' i) = ip_size (ino s i)"
    "fblock s i bn \<noteq> 0 \<longrightarrow> s' = s" "set (fs_logged s') \<subseteq> set (fs_logged s) \<union> bitmap_area (fs_sb s) \<union> {a, slot s' i MAXFILE}"
    "slot s i MAXFILE \<noteq> 0 \<longrightarrow> slot s' i MAXFILE = slot s i MAXFILE"
proof (cases "bn < NDIRECT")
  case True
  then have k: "bn \<le> NDIRECT" "aslot bn = bn" by (simp_all add: aslot_def)
  obtain a s' where r: "addr_slot i bn s = (a, s')" "keeps i s s'" "\<forall>p. p div BSIZE < MAXFILE \<longrightarrow> content s' i p = content s i p"
    "a = 0 \<longrightarrow> full s' \<and> s' = s" "\<forall>j \<le> MAXFILE. slot s' i j = (if j = bn then a else slot s i j)" "ip_size (ino s' i) = ip_size (ino s i)"
    "set (fs_logged s') \<subseteq> set (fs_logged s) \<union> bitmap_area (fs_sb s) \<union> {a}"
    using addr_slot_spec [OF assms(1,2) k(1), unfolded k(2)] .
  show ?thesis
  proof (rule that [OF _ r(2,3) _ _ r(6)])
    show "bmap i bn s = Ok (a, s')" using True r(1) by (simp add: bmap_def)
    show "\<forall>j < MAXFILE. fblock s' i j = (if j = bn then a else fblock s i j)" using r(5) by (auto simp: slot_data [symmetric])
    show "fblock s i bn \<noteq> 0 \<longrightarrow> s' = s" using True r(1) by (auto simp: fblock_def addr_slot_def)
    show "set (fs_logged s') \<subseteq> set (fs_logged s) \<union> bitmap_area (fs_sb s) \<union> {a, slot s' i MAXFILE}"
      using r(7) by auto
    show "slot s i MAXFILE \<noteq> 0 \<longrightarrow> slot s' i MAXFILE = slot s i MAXFILE" using r(5) True indirect_range(2) by simp
  qed (use r(4) in auto)
next
  case False
  then have ge: "NDIRECT \<le> bn" "bn - NDIRECT < NINDIRECT" using assms(3) by (simp_all add: MAXFILE_def)
  have ak: "aslot NDIRECT = MAXFILE" by (simp add: aslot_def)
  obtain ind s1 where r: "addr_slot i NDIRECT s = (ind, s1)" "keeps i s s1" "\<forall>p. p div BSIZE < MAXFILE \<longrightarrow> content s1 i p = content s i p"
    "ind = 0 \<longrightarrow> full s1 \<and> s1 = s" "\<forall>j \<le> MAXFILE. slot s1 i j = (if j = MAXFILE then ind else slot s i j)" "ip_size (ino s1 i) = ip_size (ino s i)"
    "set (fs_logged s1) \<subseteq> set (fs_logged s) \<union> bitmap_area (fs_sb s) \<union> {ind}"
    using addr_slot_spec [OF assms(1,2) order_refl, unfolded ak] .
  note k1 = keepsD [OF r(2)]
  have fb: "fblock s1 i j = fblock s i j" if "j < MAXFILE" for j using spec [OF r(5), of j] that by (simp add: slot_data)
  have ind: "ip_addrs (ino s1 i) ! NDIRECT = ind" using spec [OF r(5), of MAXFILE] by (simp add: slot_def)
  have same: "s1 = s" if "fblock s i bn \<noteq> 0" using that r(1) ge(1) by (auto simp: fblock_def addr_slot_def split: if_splits)
  have isame: "slot s i MAXFILE \<noteq> 0 \<longrightarrow> ind = slot s i MAXFILE" using r(1) by (auto simp: addr_slot_def slot_def split: if_splits)
  have zero: "fblock s i bn = 0" if "ind = 0" using that ind fb [OF assms(3)] ge(1) by (simp add: fblock_def)
  consider (none) "ind = 0" | (there) "ind \<noteq> 0" "fblock s1 i bn \<noteq> 0" | (new) "ind \<noteq> 0" "fblock s1 i bn = 0" by blast
  then show ?thesis
  proof cases
    case none
    show ?thesis
      by (rule that [of 0 s1]) (use r none ge zero fb same ind isame in \<open>auto simp: bmap_def slot_def\<close>)
  next
    case there
    have e: "get32 (4 * (bn - NDIRECT)) (fs_blk s1 ind) = fblock s1 i bn" using ind there(1) ge(1) by (simp add: fblock_def)
    show ?thesis
      by (rule that [of "fblock s1 i bn" s1]) (use r there ge fb same ind e isame in \<open>auto simp: bmap_def slot_def\<close>)
  next
    case new
    have e: "get32 (4 * (bn - NDIRECT)) (fs_blk s1 ind) = 0" using ind new ge(1) by (simp add: fblock_def)
    show ?thesis
    proof (cases "balloc s1")
      case (Pair a s2)
      let ?t = "if a \<noteq> 0 then put_block ind (put32 (4 * (bn - NDIRECT)) a) s2 else s2"
      have bm: "bmap i bn s = Ok (a, ?t)" using r(1) new(1) e ge Pair by (simp add: bmap_def Let_def)
      show ?thesis
      proof (cases "a = 0")
        case True
        have f: "s2 = s1" "full s1" by (rule balloc_cases [OF k1(2)]; use Pair True in \<open>auto simp: full_def\<close>)+
        show ?thesis
          by (rule that [OF bm]) (use True f r new fb same ind isame assms(3) in \<open>auto simp: slot_def\<close>)
      next
        case False
        note b = bmap_entry [OF k1(2,3) ind new(1) ge(1) assms(3) new(2) Pair False]
        let ?s = "put_block ind (put32 (4 * (bn - NDIRECT)) a) s2"
        have t: "?t = ?s" using False by simp
        show ?thesis
        proof (rule that [OF bm [unfolded t] keeps_trans [OF r(2) b(1)]])
          show "\<forall>p. p div BSIZE < MAXFILE \<longrightarrow> content ?s i p = content s i p" using b(2) r(3) by simp
          show "\<forall>j < MAXFILE. fblock ?s i j = (if j = bn then a else fblock s i j)" using b(3) fb by (auto simp: slot_data [symmetric])
          show "set (fs_logged ?s) \<subseteq> set (fs_logged s) \<union> bitmap_area (fs_sb s) \<union> {a, slot ?s i MAXFILE}"
            using b(3) [of MAXFILE] b(5) r(7) k1(1) ind assms(3) by (auto simp: slot_def)
          show "slot s i MAXFILE \<noteq> 0 \<longrightarrow> slot ?s i MAXFILE = slot s i MAXFILE" using b(3) [of MAXFILE] isame ind assms(3) by (simp add: slot_def)
        qed (use False b(4) r(6) new(2) fb [OF assms(3)] in simp_all)
      qed
    qed
  qed
qed


section \<open>Changing one data block\<close>

lemma keeps_data:
  assumes "map_ok s" "ino_ok s i" "a \<in> own s i" "a \<noteq> slot s i MAXFILE" "length (f (fs_blk s a)) = BSIZE"
  shows "keeps i s (put_block a f s)" "fblock (put_block a f s) i k = fblock s i k"
proof -
  let ?s = "put_block a f s"
  have a: "a \<noteq> 0" "a \<notin> bitmap_area (fs_sb s)" using assms(3) ino_okD(4) [OF assms(2,3)] area_meta(1) by (auto simp: own_def)
  have fb: "fblock ?s i k = fblock s i k" for k using assms(4) by (intro fblock_cong) (simp_all add: slot_def)
  then show "fblock ?s i k = fblock s i k" .
  have sl: "slot ?s i = slot s i" using fb by (simp add: slot_def fun_eq_iff)
  then have ow: "own ?s i = own s i" by (simp add: own_def)
  have u: "used ?s c = used s c" if "unat c < size_of s" for c by (rule used_put_other [OF a(2) that])
  have "ino_ok ?s i" using assms(2) u ow sl unfolding ino_ok_def by simp
  moreover have "\<exists>as sz. ino ?s i = (ino s i)\<lparr>ip_addrs := as, ip_size := sz\<rparr>"
    by (intro exI [of _ "ip_addrs (ino s i)"] exI [of _ "ip_size (ino s i)"]) simp
  ultimately show "keeps i s ?s" using map_ok_put [where f = f, OF assms(1) a(2) assms(5)] u ow assms(3) by (auto simp: keeps_def)
qed

lemma block_offset: "(p :: nat) div BSIZE = off div BSIZE \<Longrightarrow> p = off div BSIZE * BSIZE + p mod BSIZE"
  by (metis div_mult_mod_eq)

lemma write_block:
  assumes "map_ok s" "ino_ok s i" "off div BSIZE < MAXFILE" "fblock s i (off div BSIZE) = a" "a \<noteq> 0" "off mod BSIZE + length bs \<le> BSIZE"
  defines "s' \<equiv> put_block a (splice (off mod BSIZE) bs) s"
  shows "keeps i s s'" "\<And>k. fblock s' i k = fblock s i k"
    "\<And>p. p div BSIZE < MAXFILE \<Longrightarrow> content s' i p = (if off \<le> p \<and> p < off + length bs then bs ! (p - off) else content s i p)"
proof -
  let ?k = "off div BSIZE"
  have sl: "slot s i ?k = a" using assms(3,4) by (simp add: slot_data)
  then have own: "a \<in> own s i" using slot_own [of ?k s i] assms(3,5) by simp
  have ne: "a \<noteq> slot s i MAXFILE" using ino_okD(5) [OF assms(2), of ?k MAXFILE] assms(3,5) sl by auto
  have len: "length (fs_blk s a) = BSIZE" by (rule map_okD(1) [OF assms(1)])
  show "keeps i s s'" "\<And>k. fblock s' i k = fblock s i k"
    unfolding s'_def using keeps_data [OF assms(1,2) own ne] len assms(6) by simp_all
  note fb = this(2)
  show "content s' i p = (if off \<le> p \<and> p < off + length bs then bs ! (p - off) else content s i p)" if p: "p div BSIZE < MAXFILE" for p
  proof (cases "p div BSIZE = ?k")
    case True
    have pm: "p mod BSIZE < BSIZE" by (simp add: BSIZE_def)
    have "content s' i p = splice (off mod BSIZE) bs (fs_blk s a) ! (p mod BSIZE)"
      using True fb assms(4,5) by (simp add: content_def s'_def)
    then have c: "content s' i p = (if off mod BSIZE \<le> p mod BSIZE \<and> p mod BSIZE < off mod BSIZE + length bs then bs ! (p mod BSIZE - off mod BSIZE) else fs_blk s a ! (p mod BSIZE))"
      using nth_splice [of "off mod BSIZE" bs "fs_blk s a" "p mod BSIZE"] assms(6) len pm by simp
    have "p = ?k * BSIZE + p mod BSIZE" "off = ?k * BSIZE + off mod BSIZE" using block_offset [OF True] by simp_all
    then have "off mod BSIZE \<le> p mod BSIZE \<longleftrightarrow> off \<le> p" "p mod BSIZE < off mod BSIZE + length bs \<longleftrightarrow> p < off + length bs" "p mod BSIZE - off mod BSIZE = p - off" by linarith+
    then show ?thesis using c True assms(4,5) by (simp add: content_def)
  next
    case False
    have "fblock s i (p div BSIZE) \<noteq> a"
    proof
      assume "fblock s i (p div BSIZE) = a"
      then have "slot s i (p div BSIZE) = slot s i ?k" using p sl by (simp add: slot_data)
      then show False using ino_okD(5) [OF assms(2), of "p div BSIZE" ?k] p assms(3,5) sl False by simp
    qed
    then have "content s' i p = content s i p" using fb by (simp add: content_def s'_def Let_def)
    moreover have "\<not> (off \<le> p \<and> p < off + length bs)"
    proof
      assume "off \<le> p \<and> p < off + length bs"
      moreover have "off = ?k * BSIZE + off mod BSIZE" by simp
      ultimately have "?k * BSIZE \<le> p" "p < ?k * BSIZE + BSIZE" using assms(6) by linarith+
      then have "p div BSIZE = ?k" by (intro div_nat_eqI) (simp_all add: mult.commute)
      then show False using False by simp
    qed
    ultimately show ?thesis by presburger
  qed
qed


section \<open>Reading and writing\<close>

declare writei_loop.simps [simp del] readi_loop.simps [simp del]

lemma step_len_bounds: "step_len l off \<le> l" "off mod BSIZE + step_len l off \<le> BSIZE"
  by (auto simp: step_len_def BSIZE_def min_def)

lemma next_block: "off div BSIZE \<le> k \<Longrightarrow> off mod BSIZE + m \<le> BSIZE \<Longrightarrow> k = off div BSIZE \<or> (off + m) div BSIZE \<le> k"
proof -
  assume a: "off div BSIZE \<le> k" "off mod BSIZE + m \<le> BSIZE"
  have "off = off div BSIZE * BSIZE + off mod BSIZE" by simp
  then have "off + m \<le> off div BSIZE * BSIZE + BSIZE" using a(2) by linarith
  then have "off + m \<le> Suc (off div BSIZE) * BSIZE" by simp
  then have "(off + m) div BSIZE \<le> Suc (off div BSIZE) * BSIZE div BSIZE" by (rule div_le_mono)
  then have "(off + m) div BSIZE \<le> Suc (off div BSIZE)" by (simp add: BSIZE_def)
  then show ?thesis using a(1) by linarith
qed

lemma within_block: "off mod BSIZE + j < BSIZE \<Longrightarrow> (off + j) div BSIZE = off div BSIZE \<and> (off + j) mod BSIZE = off mod BSIZE + j"
proof -
  assume a: "off mod BSIZE + j < BSIZE"
  have e: "off + j = off mod BSIZE + j + off div BSIZE * BSIZE" by simp
  have "(off mod BSIZE + j + off div BSIZE * BSIZE) div BSIZE = off div BSIZE" using a by (subst div_mult_self1) (simp_all add: BSIZE_def)
  moreover have "(off mod BSIZE + j + off div BSIZE * BSIZE) mod BSIZE = off mod BSIZE + j" using a by (simp only: mod_mult_self1 mod_less)
  ultimately show ?thesis using e by metis
qed

lemma in_file: "off < MAXFILE * BSIZE \<Longrightarrow> off div BSIZE < MAXFILE"
  by (simp add: less_mult_imp_div_less)

text \<open>
  The two ends of a transfer as interfaces: a source that holds the bytes \<open>data\<close> while \<open>I\<close> holds of its memory,
  and a sink of room \<open>cap\<close> where \<open>D got\<close> says that the bytes \<open>got\<close> have arrived.
\<close>

locale source =
  fixes rd :: "'m copy_in" and I :: "'m \<Rightarrow> bool" and data :: "u8 list"
  assumes rd_ok: "I mem \<Longrightarrow> off + m \<le> length data \<Longrightarrow> \<exists>mem'. rd off m mem = Ok (0, take m (drop off data), mem') \<and> I mem'"
begin

definition written :: "nat \<Rightarrow> nat \<Rightarrow> nat \<Rightarrow> nat \<Rightarrow> fs \<Rightarrow> fs \<Rightarrow> bool" where
  "written i tot off t s s' \<longleftrightarrow> keeps i s s' \<and> ip_size (ino s' i) = ip_size (ino s i)
     \<and> (\<forall>p. p div BSIZE < MAXFILE \<longrightarrow> content s' i p = (if off \<le> p \<and> p < off + (t - tot) then data ! (tot + (p - off)) else content s i p))
     \<and> (slot s i MAXFILE \<noteq> 0 \<longrightarrow> slot s' i MAXFILE = slot s i MAXFILE)
     \<and> set (fs_logged s') \<subseteq> set (fs_logged s) \<union> bitmap_area (fs_sb s) \<union> {0, slot s' i MAXFILE} \<union> fblock s' i ` {k. off div BSIZE \<le> k \<and> k * BSIZE < off + (t - tot)}
     \<and> (\<forall>k < MAXFILE. (fblock s i k \<noteq> 0 \<longrightarrow> fblock s' i k = fblock s i k) \<and> (tot < t \<longrightarrow> off div BSIZE \<le> k \<longrightarrow> k * BSIZE < off + (t - tot) \<longrightarrow> fblock s' i k \<noteq> 0))"

lemma written_step:
  assumes "keeps i s s1" "\<forall>p. p div BSIZE < MAXFILE \<longrightarrow> content s1 i p = content s i p" "\<forall>j < MAXFILE. fblock s1 i j = (if j = off div BSIZE then a else fblock s i j)"
    "ip_size (ino s1 i) = ip_size (ino s i)" "fblock s i (off div BSIZE) \<noteq> 0 \<longrightarrow> s1 = s" "a \<noteq> 0"
      "set (fs_logged s1) \<subseteq> set (fs_logged s) \<union> bitmap_area (fs_sb s) \<union> {a, slot s1 i MAXFILE}" "slot s i MAXFILE \<noteq> 0 \<longrightarrow> slot s1 i MAXFILE = slot s i MAXFILE"
    and k: "off div BSIZE < MAXFILE" and m: "off mod BSIZE + m \<le> BSIZE" "0 < m" "tot + m \<le> length data"
  shows "written i tot off (tot + m) s (put_block a (splice (off mod BSIZE) (take m (drop tot data))) s1)"
proof -
  let ?b = "take m (drop tot data)"
  have len: "length ?b = m" using m(3) by simp
  have fa: "fblock s1 i (off div BSIZE) = a" using assms(3) k by simp
  note w = write_block [OF keepsD(2,3) [OF assms(1)] k fa assms(6), of ?b]
  have nth: "?b ! (p - off) = data ! (tot + (p - off))" if "off \<le> p" "p < off + m" for p using that m(3) by simp
  have only: "j = off div BSIZE" if "off div BSIZE \<le> j" "j * BSIZE < off + m" for j
  proof (rule ccontr)
    assume "j \<noteq> off div BSIZE"
    then have "(off + m) div BSIZE \<le> j" using next_block [OF that(1) m(1)] by simp
    moreover have "off + m \<le> off div BSIZE * BSIZE + BSIZE" using m(1) div_mult_mod_eq [of off BSIZE] by linarith
    moreover have "Suc (off div BSIZE) * BSIZE \<le> j * BSIZE" using that(1) \<open>j \<noteq> off div BSIZE\<close> by (intro mult_right_mono) simp_all
    ultimately show False using that(2) by simp
  qed
  have old: "fblock s i (off div BSIZE) \<noteq> 0 \<longrightarrow> fblock s i (off div BSIZE) = a" using assms(5) fa by auto
  show ?thesis
    unfolding written_def
  proof (intro conjI allI impI)
    show "keeps i s (put_block a (splice (off mod BSIZE) ?b) s1)" using keeps_trans [OF assms(1) w(1)] len m(1) by simp
    show "ip_size (ino (put_block a (splice (off mod BSIZE) ?b) s1) i) = ip_size (ino s i)" using assms(4) by simp
    have mx: "slot (put_block a (splice (off mod BSIZE) ?b) s1) i MAXFILE = slot s1 i MAXFILE" by (simp add: slot_def)
    then show "slot s i MAXFILE \<noteq> 0 \<Longrightarrow> slot (put_block a (splice (off mod BSIZE) ?b) s1) i MAXFILE = slot s i MAXFILE" using assms(8) by simp
    have "off div BSIZE * BSIZE < off + m" using div_times_less_eq_dividend [of off BSIZE] m(2) by linarith
    then have "a \<in> fblock (put_block a (splice (off mod BSIZE) ?b) s1) i ` {k. off div BSIZE \<le> k \<and> k * BSIZE < off + (tot + m - tot)}"
      using w(2) [of "off div BSIZE"] len m(1) fa by (intro image_eqI [of _ _ "off div BSIZE"]) simp_all
    then show "set (fs_logged (put_block a (splice (off mod BSIZE) ?b) s1)) \<subseteq> set (fs_logged s) \<union> bitmap_area (fs_sb s) \<union> {0, slot (put_block a (splice (off mod BSIZE) ?b) s1) i MAXFILE}
        \<union> fblock (put_block a (splice (off mod BSIZE) ?b) s1) i ` {k. off div BSIZE \<le> k \<and> k * BSIZE < off + (tot + m - tot)}"
      unfolding mx using assms(7) by auto
    show "content (put_block a (splice (off mod BSIZE) ?b) s1) i p = (if off \<le> p \<and> p < off + (tot + m - tot) then data ! (tot + (p - off)) else content s i p)"
      if p: "p div BSIZE < MAXFILE" for p
    proof -
      have "content (put_block a (splice (off mod BSIZE) ?b) s1) i p = (if off \<le> p \<and> p < off + m then ?b ! (p - off) else content s i p)"
        using w(3) [OF _ p] len m(1) assms(2) p by simp
      also have "\<dots> = (if off \<le> p \<and> p < off + m then data ! (tot + (p - off)) else content s i p)" using nth by (rule if_cong [OF refl _ refl]) blast+
      finally show ?thesis by simp
    qed
    show "fblock (put_block a (splice (off mod BSIZE) ?b) s1) i j = fblock s i j" if "j < MAXFILE" "fblock s i j \<noteq> 0" for j
      using w(2) len m(1) assms(3) that old by auto
    show "fblock (put_block a (splice (off mod BSIZE) ?b) s1) i j \<noteq> 0" if "off div BSIZE \<le> j" "j * BSIZE < off + (tot + m - tot)" for j
      using w(2) len m(1) only [OF that(1)] that(2) fa assms(6) by simp
  qed
qed

lemma writtenD:
  assumes "written i tot off t s s'"
  shows "keeps i s s'" "ip_size (ino s' i) = ip_size (ino s i)"
    "p div BSIZE < MAXFILE \<Longrightarrow> content s' i p = (if off \<le> p \<and> p < off + (t - tot) then data ! (tot + (p - off)) else content s i p)"
    "k < MAXFILE \<Longrightarrow> fblock s i k \<noteq> 0 \<Longrightarrow> fblock s' i k = fblock s i k"
    "k < MAXFILE \<Longrightarrow> tot < t \<Longrightarrow> off div BSIZE \<le> k \<Longrightarrow> k * BSIZE < off + (t - tot) \<Longrightarrow> fblock s' i k \<noteq> 0"
    "slot s i MAXFILE \<noteq> 0 \<longrightarrow> slot s' i MAXFILE = slot s i MAXFILE"
    "set (fs_logged s') \<subseteq> set (fs_logged s) \<union> bitmap_area (fs_sb s) \<union> {0, slot s' i MAXFILE} \<union> fblock s' i ` {k. off div BSIZE \<le> k \<and> k * BSIZE < off + (t - tot)}"
  using assms unfolding written_def by blast+

lemma written_trans:
  assumes "written i tot off u s s1" "written i u (off + (u - tot)) t s1 s'" "tot \<le> u" "u \<le> t" "off mod BSIZE + (u - tot) \<le> BSIZE" "tot < u"
    "off + (t - tot) \<le> MAXFILE * BSIZE"
  shows "written i tot off t s s'"
  unfolding written_def
proof (intro conjI allI impI)
  note w = writtenD [OF assms(1)] and v = writtenD [OF assms(2)]
  have r: "off + (u - tot) + (t - u) = off + (t - tot)" using assms(3,4) by simp
  show "keeps i s s'" "ip_size (ino s' i) = ip_size (ino s i)" using w(2) v(2) keeps_trans [OF w(1) v(1)] by simp_all
  show "content s' i p = (if off \<le> p \<and> p < off + (t - tot) then data ! (tot + (p - off)) else content s i p)" if p: "p div BSIZE < MAXFILE" for p
  proof -
    have e: "u + (p - (off + (u - tot))) = tot + (p - off)" if "off + (u - tot) \<le> p" using that assms(3) by linarith
    have l: "off + (u - tot) \<le> off + (t - tot)" using assms(4) by linarith
    show ?thesis
    proof (cases "off + (u - tot) \<le> p")
      case True
      then have "off \<le> p" "\<not> p < off + (u - tot)" by linarith+
      then show ?thesis unfolding v(3) [OF p] w(3) [OF p] r e [OF True] using True by (simp only: simp_thms if_True if_False)
    next
      case False
      then have "p < off + (u - tot)" "p < off + (t - tot)" using l by linarith+
      then show ?thesis unfolding v(3) [OF p] w(3) [OF p] r using False by (simp only: simp_thms if_True if_False)
    qed
  qed
  show "fblock s' i k = fblock s i k" if "k < MAXFILE" "fblock s i k \<noteq> 0" for k using w(4) [OF that] v(4) [of k] that by simp
  show "slot s' i MAXFILE = slot s i MAXFILE" if "slot s i MAXFILE \<noteq> 0" using that w(6) v(6) by simp
  show "set (fs_logged s') \<subseteq> set (fs_logged s) \<union> bitmap_area (fs_sb s) \<union> {0, slot s' i MAXFILE} \<union> fblock s' i ` {k. off div BSIZE \<le> k \<and> k * BSIZE < off + (t - tot)}" (is "_ \<subseteq> ?U")
  proof -
    have "slot s1 i MAXFILE = 0 \<or> slot s1 i MAXFILE = slot s' i MAXFILE" using v(6) by auto
    moreover have "fblock s1 i ` {k. off div BSIZE \<le> k \<and> k * BSIZE < off + (u - tot)} \<subseteq> fblock s' i ` {k. off div BSIZE \<le> k \<and> k * BSIZE < off + (t - tot)}"
    proof
      fix b assume "b \<in> fblock s1 i ` {k. off div BSIZE \<le> k \<and> k * BSIZE < off + (u - tot)}"
      then obtain k where k: "b = fblock s1 i k" "off div BSIZE \<le> k" "k * BSIZE < off + (u - tot)" by blast
      have lt: "k * BSIZE < off + (t - tot)" using k(3) assms(4) by linarith
      then have "k * BSIZE < MAXFILE * BSIZE" using assms(7) by linarith
      then have "k < MAXFILE" by simp
      then have "fblock s' i k = b" using k w(5) [OF _ assms(6)] v(4) by simp
      then show "b \<in> fblock s' i ` {k. off div BSIZE \<le> k \<and> k * BSIZE < off + (t - tot)}" using k(2) lt by blast
    qed
    ultimately have l1: "set (fs_logged s1) \<subseteq> ?U" using w(7) by blast
    have f1: "fblock s' i ` {k. (off + (u - tot)) div BSIZE \<le> k \<and> k * BSIZE < off + (u - tot) + (t - u)} \<subseteq> fblock s' i ` {k. off div BSIZE \<le> k \<and> k * BSIZE < off + (t - tot)}"
      unfolding r by (intro image_mono) (auto intro: order_trans [OF div_le_mono [of off "off + (u - tot)" BSIZE]])
    show ?thesis
    proof (rule order_trans [OF v(7)], intro Un_least)
      show "fblock s' i ` {k. (off + (u - tot)) div BSIZE \<le> k \<and> k * BSIZE < off + (u - tot) + (t - u)} \<subseteq> ?U" using f1 by (rule order_trans) (rule Un_upper2)
    qed (use l1 keepsD(1) [OF w(1)] in auto)
  qed
  show "fblock s' i k \<noteq> 0" if k: "k < MAXFILE" "off div BSIZE \<le> k" "k * BSIZE < off + (t - tot)" for k
  proof (cases "k * BSIZE < off + (u - tot)")
    case True
    then show ?thesis using w(5) [OF k(1) assms(6) k(2)] v(4) [OF k(1)] by simp
  next
    case False
    have "off div BSIZE * BSIZE \<le> off" by (rule div_times_less_eq_dividend)
    then have "off div BSIZE * BSIZE < off + (u - tot)" using assms(6) by linarith
    then have "k \<noteq> off div BSIZE" using False by blast
    then have "(off + (u - tot)) div BSIZE \<le> k" using next_block [OF k(2) assms(5)] by simp
    moreover have "u < t" using False k(3) assms(3,4) by linarith
    ultimately show ?thesis using v(5) [OF k(1)] k(3) r by simp
  qed
qed

lemma writei_loop_ok:
  assumes "map_ok s" "ino_ok s i" "I mem" "tot \<le> n" "n \<le> length data" "off + (n - tot) \<le> MAXFILE * BSIZE"
  shows "\<exists>t s' mem'. writei_loop rd i tot off n s mem = Ok (t, off + (t - tot), s', mem') \<and> tot \<le> t \<and> t \<le> n \<and> written i tot off t s s'
    \<and> (t < n \<longrightarrow> full s') \<and> I mem'"
  using assms(1-4,6)
proof (induction "n - tot" arbitrary: tot off s mem rule: less_induct)
  case less
  show ?case
  proof (cases "tot < n")
    case False
    have "written i tot off tot s s" using keeps_refl [OF less.prems(1,2)] div_mult_mod_eq [of off BSIZE] by (auto simp: written_def)
    then show ?thesis using False less.prems(3,4) by (subst writei_loop.simps) auto
  next
    case True
    then have k: "off div BSIZE < MAXFILE" using less.prems(5) by (intro in_file) simp
    obtain a s1 where b: "bmap i (off div BSIZE) s = Ok (a, s1)" "keeps i s s1" "\<forall>p. p div BSIZE < MAXFILE \<longrightarrow> content s1 i p = content s i p"
      "a = 0 \<longrightarrow> full s1" "\<forall>j < MAXFILE. fblock s1 i j = (if j = off div BSIZE then a else fblock s i j)" "ip_size (ino s1 i) = ip_size (ino s i)"
      "fblock s i (off div BSIZE) \<noteq> 0 \<longrightarrow> s1 = s" "set (fs_logged s1) \<subseteq> set (fs_logged s) \<union> bitmap_area (fs_sb s) \<union> {a, slot s1 i MAXFILE}"
      "slot s i MAXFILE \<noteq> 0 \<longrightarrow> slot s1 i MAXFILE = slot s i MAXFILE" by (rule bmap_spec [OF less.prems(1,2) k])
    show ?thesis
    proof (cases "a = 0")
      case True
      have "written i tot off tot s s1" using b(2-9) True by (auto simp: written_def)
      moreover have "writei_loop rd i tot off n s mem = Ok (tot, off, s1, mem)" using \<open>tot < n\<close> b(1) True by (subst writei_loop.simps) simp
      ultimately show ?thesis using b(4) True \<open>tot < n\<close> less.prems(3) by auto
    next
      case False
      define m where "m = step_len (n - tot) off"
      have m: "0 < m" "m \<le> n - tot" "off mod BSIZE + m \<le> BSIZE" using True step_len_bounds by (simp_all add: m_def)
      have le: "tot + m \<le> length data" using m(2) assms(5) True by linarith
      obtain mem1 where rd: "rd tot m mem = Ok (0, take m (drop tot data), mem1)" "I mem1" using rd_ok [OF less.prems(3) le] by blast
      define s2 where "s2 = put_block a (splice (off mod BSIZE) (take m (drop tot data))) s1"
      have w: "written i tot off (tot + m) s s2" unfolding s2_def
        by (rule written_step [OF b(2,3,5,6,7) False b(8,9) k m(3,1) le])
      then have k2: "map_ok s2" "ino_ok s2 i" using keepsD(2,3) unfolding written_def by blast+
      have eq: "writei_loop rd i tot off n s mem = writei_loop rd i (tot + m) (off + m) n s2 mem1"
        using \<open>tot < n\<close> b(1) False rd(1) by (subst writei_loop.simps) (simp add: m_def s2_def Let_def)
      have lt: "n - (tot + m) < n - tot" "tot + m \<le> n" "off + m + (n - (tot + m)) \<le> MAXFILE * BSIZE" using m True less.prems(5) by linarith+
      obtain t s' mem' where t: "writei_loop rd i (tot + m) (off + m) n s2 mem1 = Ok (t, off + m + (t - (tot + m)), s', mem')" "tot + m \<le> t" "t \<le> n"
        "written i (tot + m) (off + m) t s2 s'" "t < n \<longrightarrow> full s'" "I mem'"
        using less.hyps [OF lt(1) k2 rd(2) lt(2,3)] by blast
      have "off + m + (t - (tot + m)) = off + (t - tot)" using t(2) by simp
      moreover have "off + (t - tot) \<le> MAXFILE * BSIZE" using t(3) less.prems(5) by linarith
      ultimately show ?thesis using eq t m written_trans [OF w, of t s'] by auto
    qed
  qed
qed

end


section \<open>Writing the inode back\<close>

lemma dip_off_range: "dip_off inum + 64 \<le> BSIZE"
proof -
  have "inum mod 16 < (16 :: nat)" by simp
  then show ?thesis by (simp add: dip_off_def IPB_def BSIZE_def)
qed

lemma put_addrs:
  assumes "off + 64 \<le> length d" "m \<le> NDIRECT + 1"
  shows "length (fold (\<lambda>k. put32 (off + 12 + 4 * k) (f k)) [0..<m] d) = length d"
    "\<And>j. j \<le> NDIRECT \<Longrightarrow> get32 (off + 12 + 4 * j) (fold (\<lambda>k. put32 (off + 12 + 4 * k) (f k)) [0..<m] d) = (if j < m then f j else get32 (off + 12 + 4 * j) d)"
    "\<And>p. p < length d \<Longrightarrow> p < off + 12 \<or> off + 64 \<le> p \<Longrightarrow> fold (\<lambda>k. put32 (off + 12 + 4 * k) (f k)) [0..<m] d ! p = d ! p"
proof -
  have "length (fold (\<lambda>k. put32 (off + 12 + 4 * k) (f k)) [0..<m] d) = length d
    \<and> (\<forall>j \<le> NDIRECT. get32 (off + 12 + 4 * j) (fold (\<lambda>k. put32 (off + 12 + 4 * k) (f k)) [0..<m] d) = (if j < m then f j else get32 (off + 12 + 4 * j) d))
    \<and> (\<forall>p < length d. p < off + 12 \<or> off + 64 \<le> p \<longrightarrow> fold (\<lambda>k. put32 (off + 12 + 4 * k) (f k)) [0..<m] d ! p = d ! p)"
    using assms(2)
  proof (induction m)
    case (Suc m)
    let ?d = "fold (\<lambda>k. put32 (off + 12 + 4 * k) (f k)) [0..<m] d"
    have IH: "length ?d = length d" "\<forall>j \<le> NDIRECT. get32 (off + 12 + 4 * j) ?d = (if j < m then f j else get32 (off + 12 + 4 * j) d)"
      "\<forall>p < length d. p < off + 12 \<or> off + 64 \<le> p \<longrightarrow> ?d ! p = d ! p" using Suc by simp_all
    have m: "off + 12 + 4 * m + 4 \<le> length ?d" using Suc.prems assms(1) IH(1) by (simp add: NDIRECT_def)
    have "get32 (off + 12 + 4 * j) (put32 (off + 12 + 4 * m) (f m) ?d) = (if j < Suc m then f j else get32 (off + 12 + 4 * j) d)" if j: "j \<le> NDIRECT" for j
    proof (cases "j = m")
      case False
      have "get32 (off + 12 + 4 * j) (put32 (off + 12 + 4 * m) (f m) ?d) = get32 (off + 12 + 4 * j) ?d"
        using m j assms(1) IH(1) False by (intro get32_put32_other) (auto simp: NDIRECT_def)
      then show ?thesis using IH(2) j False by auto
    qed (use get32_put32 [OF m] in simp)
    moreover have "put32 (off + 12 + 4 * m) (f m) ?d ! p = d ! p" if "p < length d" "p < off + 12 \<or> off + 64 \<le> p" for p
      using nth_splice [of "off + 12 + 4 * m" "le32 (f m)" ?d p] m that IH(1,3) Suc.prems by (auto simp: put32_def NDIRECT_def)
    ultimately show ?case using IH(1) m by simp
  qed simp
  then show "length (fold (\<lambda>k. put32 (off + 12 + 4 * k) (f k)) [0..<m] d) = length d"
    "\<And>j. j \<le> NDIRECT \<Longrightarrow> get32 (off + 12 + 4 * j) (fold (\<lambda>k. put32 (off + 12 + 4 * k) (f k)) [0..<m] d) = (if j < m then f j else get32 (off + 12 + 4 * j) d)"
    "\<And>p. p < length d \<Longrightarrow> p < off + 12 \<or> off + 64 \<le> p \<Longrightarrow> fold (\<lambda>k. put32 (off + 12 + 4 * k) (f k)) [0..<m] d ! p = d ! p"
    by blast+
qed

lemma length_put_dinode:
  assumes "off + 64 \<le> length d"
  shows "length (put_dinode off ip d) = length d"
  unfolding put_dinode_def using assms by (subst put_addrs(1)) simp_all

lemma IBLOCK_area: "i < unat (sb_ninodes sb) \<Longrightarrow> IBLOCK i sb \<in> inode_area sb"
  by (simp add: inode_area_def)

lemma keeps_inode_block:
  assumes "map_ok s" "ino_ok s i" "b \<in> inode_area (fs_sb s)" "length (f (fs_blk s b)) = BSIZE"
  shows "keeps i s (put_block b f s)" "\<And>k. fblock (put_block b f s) i k = fblock s i k"
    "\<And>p. p div BSIZE < MAXFILE \<Longrightarrow> content (put_block b f s) i p = content s i p"
proof -
  let ?s = "put_block b f s"
  have b: "b \<notin> bitmap_area (fs_sb s)" "b \<notin> own s i"
    using assms(3) map_okD(2) [OF assms(1)] ino_okD(4) [OF assms(2), of b] area_meta(2) by blast+
  have "ip_addrs (ino s i) ! NDIRECT \<noteq> b" if "ip_addrs (ino s i) ! NDIRECT \<noteq> 0"
    using slot_own [of MAXFILE s i] that b(2) by (auto simp: slot_def)
  then show fb: "fblock ?s i k = fblock s i k" for k by (intro fblock_cong) auto
  have sl: "slot ?s i = slot s i" using fb by (simp add: slot_def fun_eq_iff)
  then have ow: "own ?s i = own s i" by (simp add: own_def)
  have u: "used ?s c = used s c" if "unat c < size_of s" for c by (rule used_put_other [OF b(1) that])
  have "ino_ok ?s i" using assms(2) u ow sl unfolding ino_ok_def by simp
  moreover have "\<exists>as sz. ino ?s i = (ino s i)\<lparr>ip_addrs := as, ip_size := sz\<rparr>"
    by (intro exI [of _ "ip_addrs (ino s i)"] exI [of _ "ip_size (ino s i)"]) simp
  ultimately show "keeps i s ?s" using map_ok_put [where f = f, OF assms(1) b(1) assms(4)] u ow assms(3) by (auto simp: keeps_def)
  show "content ?s i p = content s i p" if "p div BSIZE < MAXFILE" for p
  proof (rule content_cong [OF fb])
    assume "fblock s i (p div BSIZE) \<noteq> 0"
    then have "fblock s i (p div BSIZE) \<in> own s i" using slot_own [of "p div BSIZE" s i] that by (simp add: slot_data)
    then show "fs_blk ?s (fblock s i (p div BSIZE)) = fs_blk s (fblock s i (p div BSIZE))" using b(2) by auto
  qed simp
qed

lemma iupdate_ok:
  assumes "map_ok s" "ino_ok s i"
  shows "keeps i s (iupdate i s)" "\<And>k. fblock (iupdate i s) i k = fblock s i k" "ino (iupdate i s) i = ino s i"
    "\<And>p. p div BSIZE < MAXFILE \<Longrightarrow> content (iupdate i s) i p = content s i p"
  unfolding iupdate_def Let_def
  using keeps_inode_block [OF assms IBLOCK_area [OF ino_okD(3) [OF assms(2)]]] length_put_dinode dip_off_range map_okD(1) [OF assms(1)] by simp_all

lemma keeps_size:
  fixes sz :: u32
  assumes "map_ok s" "ino_ok s i"
  defines "s' \<equiv> upd_ino i (\<lambda>ip. ip\<lparr>ip_size := sz\<rparr>) s"
  shows "keeps i s s'" "\<And>k. fblock s' i k = fblock s i k" "\<And>p. content s' i p = content s i p" "ip_size (ino s' i) = sz"
proof -
  have i: "i < length (fs_itable s)" by (rule ino_okD(1) [OF assms(2)])
  have e: "ino s' i = (ino s i)\<lparr>ip_size := sz\<rparr>" "fs_blk s' = fs_blk s" "fs_sb s' = fs_sb s" "\<And>j. j \<noteq> i \<Longrightarrow> ino s' j = ino s j" "length (fs_itable s') = length (fs_itable s)"
    using i by (simp_all add: s'_def upd_ino_def)
  show fb: "fblock s' i k = fblock s i k" for k by (simp add: fblock_def e(1,2))
  show "content s' i p = content s i p" for p using fb by (simp add: content_def Let_def e(2))
  show "ip_size (ino s' i) = sz" by (simp add: e(1))
  have sl: "slot s' i = slot s i" using fb by (simp add: slot_def e(1) fun_eq_iff)
  have ow: "own s' i = own s i" by (simp add: own_def sl)
  have u: "used s' = used s" "map_ok s'" using used_cong map_ok_cong assms(1) e(2,3) by blast+
  have ok: "ino_ok s' i" using assms(2) unfolding ino_ok_def ow sl u e by simp
  have "\<exists>as sz. ino s' i = (ino s i)\<lparr>ip_addrs := as, ip_size := sz\<rparr>"
    using e(1) by (intro exI [of _ "ip_addrs (ino s i)"] exI [of _ sz]) simp
  then show "keeps i s s'" unfolding keeps_def u ow e(2) using u(2) ok e(3-5) by simp
qed


section \<open>Files\<close>

definition file_ok :: "fs \<Rightarrow> nat \<Rightarrow> bool" where
  "file_ok s i \<longleftrightarrow> map_ok s \<and> ino_ok s i \<and> unat (ip_size (ino s i)) \<le> MAXFILE * BSIZE
     \<and> (\<forall>k. k * BSIZE < unat (ip_size (ino s i)) \<longrightarrow> fblock s i k \<noteq> 0)"

abbreviation fsize :: "fs \<Rightarrow> nat \<Rightarrow> nat" where "fsize s i \<equiv> unat (ip_size (ino s i))"

lemma file_okD:
  assumes "file_ok s i"
  shows "map_ok s" "ino_ok s i" "fsize s i \<le> MAXFILE * BSIZE" "k * BSIZE < fsize s i \<Longrightarrow> fblock s i k \<noteq> 0"
  using assms by (simp_all add: file_ok_def)

lemma MAXFILE_bytes: "MAXFILE * BSIZE = 274432"
  by (simp add: MAXFILE_def NDIRECT_def NINDIRECT_def BSIZE_def)

lemma unat_of_nat32: "t < 2 ^ 32 \<Longrightarrow> unat (of_nat t :: u32) = t"
  by (simp add: unat_of_nat)

lemma unat_add32: "unat a + unat b < 2 ^ 32 \<Longrightarrow> unat (a + b :: u32) = unat a + unat b"
  by (simp add: unat_word_ariths)

lemma full_keeps: "full s \<Longrightarrow> keeps i s s' \<Longrightarrow> full s'"
  unfolding full_def keeps_def by auto

context source
begin

lemma writei_ok:
  assumes "file_ok s i" "I mem" "unat off \<le> fsize s i" "unat n = length data" "unat off + unat n \<le> MAXFILE * BSIZE"
  shows "\<exists>t s' mem'. writei rd i off n s mem = Ok (int t, s', mem') \<and> t \<le> length data \<and> file_ok s' i \<and> keeps i s s' \<and> (t < length data \<longrightarrow> full s') \<and> I mem'
    \<and> fsize s' i = max (fsize s i) (unat off + t)
    \<and> (\<forall>p < MAXFILE * BSIZE. content s' i p = (if unat off \<le> p \<and> p < unat off + t then data ! (p - unat off) else content s i p))
    \<and> set (fs_logged s') \<subseteq> set (fs_logged s) \<union> bitmap_area (fs_sb s) \<union> {0, slot s' i MAXFILE, IBLOCK (unat (ip_inum (ino s i))) (fs_sb s)}
        \<union> fblock s' i ` {k. unat off div BSIZE \<le> k \<and> k * BSIZE < unat off + t}"
proof -
  note f = file_okD [OF assms(1)]
  obtain t s1 mem' where w: "writei_loop rd i 0 (unat off) (unat n) s mem = Ok (t, unat off + (t - 0), s1, mem')" "t \<le> unat n" "written i 0 (unat off) t s s1" "t < unat n \<longrightarrow> full s1" "I mem'"
    using writei_loop_ok [OF f(1,2) assms(2), of 0 "unat n" "unat off"] assms(4,5) by auto
  note d = writtenD [OF w(3)]
  note k1 = keepsD [OF d(1)]
  have big: "unat off + unat n < 2 ^ 32" "t < 2 ^ 31" "unat off + t < 2 ^ 32" using assms(5) w(2) by (simp_all add: MAXFILE_bytes)
  let ?o = "unat off + t"
  define s2 where "s2 = (if ?o > fsize s1 i then upd_ino i (\<lambda>ip. ip\<lparr>ip_size := of_nat ?o\<rparr>) s1 else s1)"
  note z = keeps_size [OF k1(2,3), of "of_nat ?o"]
  have s2: "keeps i s1 s2" "\<And>k. fblock s2 i k = fblock s1 i k" "\<And>p. content s2 i p = content s1 i p" "fsize s2 i = max (fsize s i) ?o"
    using z keeps_refl [OF k1(2,3)] d(2) unat_of_nat32 [OF big(3)] unfolding s2_def by (simp_all add: max_def del: of_nat_add)
  note k2 = keepsD [OF s2(1)]
  note u = iupdate_ok [OF k2(2,3)]
  have keep: "keeps i s (iupdate i s2)" by (rule keeps_trans [OF d(1) keeps_trans [OF s2(1) u(1)]])
  have wr: "writei rd i off n s mem = Ok (int t, iupdate i s2, mem')"
  proof -
    have "\<not> off + n < off" "\<not> off > ip_size (ino s i)" using unat_add32 [OF big(1)] assms(3) by (simp_all add: word_less_nat_alt)
    moreover have "\<not> unat (off + n) > MAXFILE * BSIZE" using unat_add32 [OF big(1)] assms(5) by simp
    ultimately show ?thesis using w(1) sint_of_nat32 [OF big(2)] by (simp add: writei_def s2_def Let_def)
  qed
  have size: "fsize (iupdate i s2) i = max (fsize s i) ?o" using u(3) s2(4) by simp
  have map: "fblock (iupdate i s2) i k \<noteq> 0" if k: "k * BSIZE < max (fsize s i) ?o" for k
  proof -
    have "max (fsize s i) ?o \<le> MAXFILE * BSIZE" using f(3) w(2) assms(5) by simp
    then have "k * BSIZE < MAXFILE * BSIZE" using k by (rule order_less_le_trans [rotated])
    then have lt: "k < MAXFILE" by simp
    show ?thesis
    proof (cases "k * BSIZE < fsize s i")
      case True
      then show ?thesis using u(2) s2(2) d(4) [OF lt] f(4) by simp
    next
      case False
      then have "k * BSIZE < unat off + (t - 0)" "0 < t" "unat off \<le> k * BSIZE" using k assms(3) by auto
      moreover have "unat off div BSIZE \<le> k" using div_le_mono [OF \<open>unat off \<le> k * BSIZE\<close>, of BSIZE] by (simp add: BSIZE_def)
      ultimately show ?thesis using u(2) s2(2) d(5) [OF lt] by simp
    qed
  qed
  have "file_ok (iupdate i s2) i"
    unfolding file_ok_def using keepsD(2,3) [OF keep] size map f(3) w(2) assms(5) by simp
  moreover have "content (iupdate i s2) i p = (if unat off \<le> p \<and> p < ?o then data ! (p - unat off) else content s i p)" if "p < MAXFILE * BSIZE" for p
    using u(4) [OF in_file [OF that]] s2(3) d(3) [OF in_file [OF that]] by simp
  moreover have "set (fs_logged (iupdate i s2)) \<subseteq> set (fs_logged s) \<union> bitmap_area (fs_sb s) \<union> {0, slot (iupdate i s2) i MAXFILE, IBLOCK (unat (ip_inum (ino s i))) (fs_sb s)}
      \<union> fblock (iupdate i s2) i ` {k. unat off div BSIZE \<le> k \<and> k * BSIZE < unat off + t}"
  proof -
    have "slot (iupdate i s2) i MAXFILE = slot s1 i MAXFILE" using u(3) ino_okD(1) [OF k1(3)] by (simp add: slot_def s2_def upd_ino_def)
    moreover have "fs_logged s2 = fs_logged s1" by (simp add: s2_def upd_ino_def)
    moreover have "fblock (iupdate i s2) i = fblock s1 i" using u(2) s2(2) by (simp add: fun_eq_iff)
    ultimately show ?thesis using d(7) k1(1,5) keepsD(1,5) [OF s2(1)] by (auto simp: iupdate_def Let_def)
  qed
  moreover have "t < length data \<longrightarrow> full (iupdate i s2)" using w(4) assms(4) full_keeps [OF full_keeps [OF _ s2(1)] u(1)] by simp
  ultimately show ?thesis using wr keep size w(2,5) assms(4) by (intro exI [of _ t] exI [of _ "iupdate i s2"] exI [of _ mem']) simp
qed

end

interpretation ksource: source kcopyin "\<lambda>buf. buf = data" data for data
  by unfold_locales (auto simp: kcopyin_def)

locale sink =
  fixes cp :: "'m copy_out" and D :: "u8 list \<Rightarrow> 'm \<Rightarrow> bool" and cap :: nat
  assumes cp_ok: "D got mem \<Longrightarrow> length got + length bs \<le> cap \<Longrightarrow> \<exists>mem'. cp (length got) bs mem = Ok (0, mem') \<and> D (got @ bs) mem'"
begin

lemma readi_loop_ok:
  assumes "map_ok s" "\<And>k. off div BSIZE \<le> k \<Longrightarrow> k * BSIZE < off + (n - length got) \<Longrightarrow> fblock s i k \<noteq> 0" "ino_ok s i" "D got mem" "length got \<le> n" "n \<le> cap"
    "off + (n - length got) \<le> MAXFILE * BSIZE"
  shows "\<exists>mem'. readi_loop cp i (length got) off n s mem = Ok (of_nat n, s, mem') \<and> D (got @ map (content s i) [off..<off + (n - length got)]) mem'"
  using assms(2,4,5,7)
proof (induction "n - length got" arbitrary: got off mem rule: less_induct)
  case less
  show ?case
  proof (cases "length got < n")
    case False
    then show ?thesis using less.prems(2,3) by (subst readi_loop.simps) simp
  next
    case True
    then have k: "off div BSIZE < MAXFILE" using less.prems(4) by (intro in_file) simp
    have "off div BSIZE * BSIZE \<le> off" by (rule div_times_less_eq_dividend)
    then have "off div BSIZE * BSIZE < off + (n - length got)" using True by linarith
    then have nz: "fblock s i (off div BSIZE) \<noteq> 0" by (rule less.prems(1) [OF order_refl])
    obtain a s1 where b: "bmap i (off div BSIZE) s = Ok (a, s1)" "\<forall>j < MAXFILE. fblock s1 i j = (if j = off div BSIZE then a else fblock s i j)"
      "fblock s i (off div BSIZE) \<noteq> 0 \<longrightarrow> s1 = s" by (rule bmap_spec [OF assms(1,3) k])
    have b1: "bmap i (off div BSIZE) s = Ok (fblock s i (off div BSIZE), s)" using b nz k by auto
    define m where "m = step_len (n - length got) off"
    let ?a = "fblock s i (off div BSIZE)"
    have m: "0 < m" "m \<le> n - length got" "off mod BSIZE + m \<le> BSIZE" using True step_len_bounds by (simp_all add: m_def)
    have ct: "take m (drop (off mod BSIZE) (fs_blk s ?a)) = map (content s i) [off..<off + m]" (is "?l = ?r")
    proof (rule nth_equalityI)
      show "length ?l = length ?r" using m(3) map_okD(1) [OF assms(1), of ?a] by simp
      fix j assume "j < length ?l"
      then have j: "j < m" using m(3) map_okD(1) [OF assms(1), of ?a] by simp
      have "(off + j) div BSIZE = off div BSIZE" "(off + j) mod BSIZE = off mod BSIZE + j"
        using j m(3) within_block [of off j] by simp_all
      then show "?l ! j = ?r ! j" using j m(3) map_okD(1) [OF assms(1), of ?a] nz by (simp add: content_def)
    qed
    have l: "length (got @ ?l) = length got + m" using m(3) map_okD(1) [OF assms(1), of ?a] by simp
    have fits: "length got + length ?l \<le> cap" using l m(2) True assms(6) by simp
    obtain mem1 where c: "cp (length got) ?l mem = Ok (0, mem1)" "D (got @ ?l) mem1"
      using cp_ok [OF less.prems(2) fits] by blast
    have eq: "readi_loop cp i (length got) off n s mem = readi_loop cp i (length (got @ ?l)) (off + m) n s mem1"
      using True b1 nz c(1) unfolding l by (subst readi_loop.simps) (simp add: m_def Let_def)
    have h: "n - length (got @ ?l) < n - length got" "length (got @ ?l) \<le> n" "off + m + (n - length (got @ ?l)) \<le> MAXFILE * BSIZE"
      unfolding l using m True less.prems(4) by linarith+
    have "off div BSIZE \<le> (off + m) div BSIZE" by (simp add: div_le_mono)
    then have "(off + m) div BSIZE \<le> k \<Longrightarrow> k * BSIZE < off + m + (n - length (got @ ?l)) \<Longrightarrow> fblock s i k \<noteq> 0" for k
      unfolding l using m(2) True by (intro less.prems(1)) simp_all
    note h = h this
    obtain mem' where r: "readi_loop cp i (length (got @ ?l)) (off + m) n s mem1 = Ok (of_nat n, s, mem')"
      "D ((got @ ?l) @ map (content s i) [off + m..<off + m + (n - length (got @ ?l))]) mem'"
      using less.hyps [OF h(1) h(4) c(2) h(2,3)] by blast
    have "[off..<off + (n - length got)] = [off..<off + m] @ [off + m..<off + m + (n - length (got @ ?l))]"
      using m(2) True unfolding l by (subst upt_add_eq_append [symmetric]) simp_all
    then show ?thesis using eq r by (simp add: ct)
  qed
qed

lemma readi_ok:
  assumes "file_ok s i" "D [] mem" "unat off \<le> fsize s i" "unat off + unat n < 2 ^ 32"
  defines "m \<equiv> min (unat n) (fsize s i - unat off)"
  assumes "m \<le> cap"
  shows "\<exists>mem'. readi cp i off n s mem = Ok (int m, s, mem') \<and> D (map (content s i) [unat off..<unat off + m]) mem'"
proof -
  note f = file_okD [OF assms(1)]
  let ?n = "if off + n > ip_size (ino s i) then ip_size (ino s i) - off else n"
  have le: "off \<le> ip_size (ino s i)" using assms(3) by (simp add: word_le_nat_alt)
  have un: "unat (off + n) = unat off + unat n" by (rule unat_add32 [OF assms(4)])
  have n: "unat ?n = m" using un unat_sub [OF le] assms(3) by (auto simp: m_def word_less_nat_alt)
  have m: "unat off + m \<le> fsize s i" using assms(3) by (auto simp: m_def)
  have nz: "fblock s i k \<noteq> 0" if "k * BSIZE < unat off + (m - length [])" for k using that m by (intro f(4)) simp
  obtain mem' where r: "readi_loop cp i 0 (unat off) m s mem = Ok (of_nat m, s, mem')" "D (map (content s i) [unat off..<unat off + m]) mem'"
    using readi_loop_ok [of s "unat off" m "[]" i mem, OF f(1) nz f(2) assms(2)] assms(6) m f(3) by auto
  have "\<not> off > ip_size (ino s i)" "\<not> off + n < off" using le un by (simp_all add: word_less_nat_alt word_le_nat_alt)
  moreover have "m < 2 ^ 31" using m f(3) by (simp add: MAXFILE_bytes)
  ultimately show ?thesis using r n sint_of_nat32 [of m] by (simp add: readi_def Let_def)
qed

end


interpretation ksink: sink kcopyout "\<lambda>got buf. length buf = cap \<and> take (length got) buf = got" cap for cap
proof unfold_locales
  fix got bs mem :: "u8 list"
  assume a: "length mem = cap \<and> take (length got) mem = got" "length got + length bs \<le> cap"
  then have "length (splice (length got) bs mem) = cap" by simp
  moreover have "take (length (got @ bs)) (splice (length got) bs mem) = got @ bs" using a by (simp add: splice_def)
  ultimately show "\<exists>mem'. kcopyout (length got) bs mem = Ok (0, mem') \<and> length mem' = cap \<and> take (length (got @ bs)) mem' = got @ bs"
    by (simp add: kcopyout_def)
qed

lemma kreadi:
  assumes "file_ok s i" "unat off \<le> fsize s i" "unat off + unat n \<le> fsize s i" "length buf = unat n"
  shows "readi kcopyout i off n s buf = Ok (int (unat n), s, map (content s i) [unat off..<unat off + unat n])"
proof -
  have b: "unat off + unat n < 2 ^ 32" using assms(3) file_okD(3) [OF assms(1)] by (simp add: MAXFILE_bytes)
  have m: "min (unat n) (fsize s i - unat off) = unat n" using assms(2,3) by simp
  show ?thesis using ksink.readi_ok [OF assms(1) _ assms(2) b, of buf "unat n"] assms(4) unfolding m by auto
qed

text \<open>What a change to file \<open>i\<close> means for another file.\<close>

lemma keeps_other:
  assumes "keeps i s s'" "ino_ok s j" "i \<noteq> j" "own s i \<inter> own s j = {}"
  shows "ino s' j = ino s j" "ino_ok s' j" "own s' i \<inter> own s' j = {}" "\<And>k. fblock s' j k = fblock s j k"
    "\<And>p. p div BSIZE < MAXFILE \<Longrightarrow> content s' j p = content s j p"
proof -
  note k = keepsD [OF assms(1)]
  show ino: "ino s' j = ino s j" using k(8) [of j] assms(3) by simp
  have blk: "fs_blk s' b = fs_blk s b" "used s' b" "b \<notin> own s' i" if "b \<in> own s j" for b
  proof -
    have b: "used s b" "unat b < size_of s" "b \<notin> meta (fs_sb s)" "b \<notin> own s i" using ino_okD(4) [OF assms(2) that] that assms(4) by auto
    then have "b \<notin> bitmap_area (fs_sb s) \<union> inode_area (fs_sb s)" using area_meta by blast
    then show "fs_blk s' b = fs_blk s b" "used s' b" "b \<notin> own s' i" using assms(1) b unfolding keeps_def by blast+
  qed
  have "fs_blk s' (ip_addrs (ino s j) ! NDIRECT) = fs_blk s (ip_addrs (ino s j) ! NDIRECT)" if "ip_addrs (ino s j) ! NDIRECT \<noteq> 0"
    using slot_own [of MAXFILE s j] that by (intro blk(1)) (simp add: slot_def)
  then show fb: "fblock s' j q = fblock s j q" for q using ino by (intro fblock_cong) simp_all
  have sl: "slot s' j = slot s j" using fb ino by (simp add: slot_def fun_eq_iff)
  then have ow: "own s' j = own s j" by (simp add: own_def)
  show "own s' i \<inter> own s' j = {}" using blk(3) ow by auto
  show "ino_ok s' j" using assms(2) blk(2) unfolding ino_ok_def ow sl ino k(1,4) by blast
  show "content s' j p = content s j p" if "p div BSIZE < MAXFILE" for p
  proof (rule content_cong [OF fb])
    assume "fblock s j (p div BSIZE) \<noteq> 0"
    then show "fs_blk s' (fblock s j (p div BSIZE)) = fs_blk s (fblock s j (p div BSIZE))"
      using slot_own [of "p div BSIZE" s j] that by (intro blk(1)) (simp add: slot_data)
  qed simp
qed

text \<open>A small disk: 30 blocks, inodes in block 2, the bitmap in block 3, two empty files.\<close>

definition demo_inode :: "u32 \<Rightarrow> u16 \<Rightarrow> inode" where
  "demo_inode inum type = \<lparr>ip_dev = 1, ip_inum = inum, ip_ref = 1, ip_lock = \<lparr>sl_locked = False, sl_pid = 0\<rparr>, ip_valid = True, ip_type = type, ip_major = 0,
     ip_minor = 0, ip_nlink = 1, ip_size = 0, ip_addrs = replicate (NDIRECT + 1) 0\<rparr>"

definition demo_fs :: fs where
  "demo_fs = \<lparr>fs_sb = \<lparr>sb_magic = FSMAGIC, sb_size = 30, sb_nblocks = 20, sb_ninodes = 16, sb_nlog = 0, sb_logstart = 2, sb_inodestart = 2, sb_bmapstart = 3\<rparr>,
     fs_blk = (\<lambda>_. replicate BSIZE 0)(3 := 15 # replicate (BSIZE - 1) 0), fs_logged = [],
     fs_itable = [demo_inode 1 T_DIR, demo_inode 2 T_FILE]\<rparr>"

lemma demo_map: "map_ok demo_fs"
proof -
  let ?sb = "fs_sb demo_fs"
  have B: "BBLOCK b ?sb = 3" if "b < 30" for b using that by (simp add: BBLOCK_def demo_fs_def BPB_def BSIZE_def)
  have I: "IBLOCK i ?sb = 2" if "i < 16" for i using that by (simp add: IBLOCK_def demo_fs_def IPB_def BSIZE_def)
  have areas: "bitmap_area ?sb \<subseteq> {3}" "inode_area ?sb \<subseteq> {2}" using B I by (auto simp: bitmap_area_def inode_area_def demo_fs_def)
  have "used demo_fs b" if "b = 0 \<or> b = 2 \<or> b = 3" for b
  proof -
    have u: "unat b = 0 \<or> unat b = 2 \<or> unat b = 3" using that by auto
    then have "BBLOCK (unat b) ?sb = 3" by (intro B) auto
    then show ?thesis using u by (auto simp: used_def in_use_def demo_fs_def BPB_def BSIZE_def)
  qed
  moreover have "unat b < size_of demo_fs" if "b = 0 \<or> b = 2 \<or> b = 3" for b :: u32 using that by (auto simp: demo_fs_def)
  moreover have "b = 0 \<or> b = 2 \<or> b = 3" if "b \<in> meta ?sb" for b using that areas by (auto simp: meta_def)
  moreover have "length (fs_blk demo_fs b) = BSIZE" for b by (simp add: demo_fs_def) (simp add: BSIZE_def)
  ultimately show ?thesis using areas unfolding map_ok_def by (auto simp: demo_fs_def)
qed

lemma demo_ino:
  assumes "i < 2"
  shows "own demo_fs i = {}" "file_ok demo_fs i"
proof -
  have i: "i = 0 \<or> i = 1" using assms by auto
  have as: "ip_addrs (ino demo_fs i) = replicate (NDIRECT + 1) 0" "ip_size (ino demo_fs i) = 0" "i < length (fs_itable demo_fs)"
    "unat (ip_inum (ino demo_fs i)) < unat (sb_ninodes (fs_sb demo_fs))" using i by (auto simp: demo_fs_def demo_inode_def)
  have z: "replicate (NDIRECT + 1) (0 :: u32) ! k = 0" if "k \<le> NDIRECT" for k using that by (intro nth_replicate) simp
  have sl: "slot demo_fs i k = 0" for k unfolding slot_def fblock_def as(1) using z by (simp del: replicate_Suc replicate.simps)
  then show o: "own demo_fs i = {}" by (simp add: own_def)
  have "ino_ok demo_fs i" unfolding ino_ok_def o using as sl by simp
  then show "file_ok demo_fs i" using demo_map as(2) by (simp add: file_ok_def)
qed

section \<open>Properties\<close>

text \<open>C34. Reading back what was written. Writing \<open>data\<close> at an offset up to the end of a well-formed file, within the
  maximal file size, succeeds with \<open>t\<close> bytes, all of them unless the disk is full; the file stays well formed, its
  size becomes the maximum of the old size and the end of the write, reading the range gives the
  bytes written and every other byte of the file is unchanged.\<close>

theorem writei_readi_roundtrip:
  assumes "file_ok s i" and "unat off \<le> fsize s i" and "unat off + length data \<le> MAXFILE * BSIZE"
  shows "\<exists>t s' mem. writei kcopyin i off (of_nat (length data)) s data = Ok (int t, s', mem) \<and> t \<le> length data \<and> (t < length data \<longrightarrow> full s')
    \<and> file_ok s' i \<and> fsize s' i = max (fsize s i) (unat off + t)
    \<and> readi kcopyout i off (of_nat t) s' (replicate t 0) = Ok (int t, s', take t data)
    \<and> (\<forall>p < MAXFILE * BSIZE. p < unat off \<or> unat off + t \<le> p \<longrightarrow> content s' i p = content s i p)"
proof -
  have n: "unat (of_nat (length data) :: u32) = length data" using assms(3) by (intro unat_of_nat32) (simp add: MAXFILE_bytes)
  obtain t s' mem where w: "writei kcopyin i off (of_nat (length data)) s data = Ok (int t, s', mem)" "t \<le> length data" "file_ok s' i" "t < length data \<longrightarrow> full s'"
    "fsize s' i = max (fsize s i) (unat off + t)"
    "\<forall>p < MAXFILE * BSIZE. content s' i p = (if unat off \<le> p \<and> p < unat off + t then data ! (p - unat off) else content s i p)"
    using ksource.writei_ok [OF assms(1) refl assms(2) n] assms(3) unfolding n by blast
  have t: "unat (of_nat t :: u32) = t" using assms(3) w(2) by (intro unat_of_nat32) (simp add: MAXFILE_bytes)
  have "readi kcopyout i off (of_nat t) s' (replicate t 0) = Ok (int t, s', map (content s' i) [unat off..<unat off + t])"
    using kreadi [OF w(3), of off "of_nat t" "replicate t 0"] assms(2) w(5) t by simp
  moreover have "map (content s' i) [unat off..<unat off + t] = take t data"
    using w(2,6) assms(3) by (intro nth_equalityI) simp_all
  ultimately show ?thesis using w by (intro exI [of _ t] exI [of _ s'] exI [of _ mem]) simp
qed

theorem writei_readi_roundtrip_witness:
  "\<exists>t s' mem. writei kcopyin 1 0 3 demo_fs [104, 105, 33] = Ok (int t, s', mem) \<and> readi kcopyout 1 0 (of_nat t) s' (replicate t 0) = Ok (int t, s', take t [104, 105, 33])"
  using writei_readi_roundtrip [of demo_fs 1 0 "[104, 105, 33]"] demo_ino(2) [of 1] by (auto simp: MAXFILE_bytes)

text \<open>C35. Writing to one file changes no other: whatever the outcome, the other inodes of the table and the contents of every file
  whose blocks are disjoint from those of the written one are as before, and the blocks remain disjoint.\<close>

theorem writei_isolated:
  assumes "file_ok s i" and "file_ok s j" and "i \<noteq> j" and "own s i \<inter> own s j = {}"
    and "unat off \<le> fsize s i" and "unat off + length data \<le> MAXFILE * BSIZE"
  shows "\<exists>r s' mem. writei kcopyin i off (of_nat (length data)) s data = Ok (r, s', mem) \<and> ino s' j = ino s j \<and> file_ok s' j
    \<and> own s' i \<inter> own s' j = {} \<and> (\<forall>p < MAXFILE * BSIZE. content s' j p = content s j p)"
proof -
  have n: "unat (of_nat (length data) :: u32) = length data" using assms(6) by (intro unat_of_nat32) (simp add: MAXFILE_bytes)
  obtain t s' mem where w: "writei kcopyin i off (of_nat (length data)) s data = Ok (int t, s', mem)" "keeps i s s'"
    using ksource.writei_ok [OF assms(1) refl assms(5) n] assms(6) unfolding n by blast
  note k = keeps_other [OF w(2) file_okD(2) [OF assms(2)] assms(3,4)]
  show ?thesis
    using w(1) k keepsD(2) [OF w(2)] assms(2) in_file by (intro exI [of _ "int t"] exI [of _ s'] exI [of _ mem]) (auto simp: file_ok_def)
qed

theorem writei_isolated_witness:
  "\<exists>r s' mem. writei kcopyin 1 0 3 demo_fs [104, 105, 33] = Ok (r, s', mem) \<and> ino s' 0 = ino demo_fs 0 \<and> content s' 0 5 = content demo_fs 0 5"
  using writei_isolated [of demo_fs 1 0 0 "[104, 105, 33]"] demo_ino [of 0] demo_ino [of 1] by (auto simp: MAXFILE_bytes)

text \<open>The small disk with one entry, named \<open>a\<close>, in its directory.\<close>

definition demo_dir_fs :: fs where
  "demo_dir_fs = demo_fs\<lparr>fs_blk := (fs_blk demo_fs)(1 := [2, 0, 97] @ replicate (BSIZE - 3) 0),
     fs_itable := [(demo_inode 1 T_DIR)\<lparr>ip_size := 16, ip_addrs := 1 # replicate NDIRECT 0\<rparr>, demo_inode 2 T_FILE]
       @ replicate (NINODE - 2) ((demo_inode 0 0)\<lparr>ip_ref := 0\<rparr>)\<rparr>"

lemma demo_dir_fs_file: "file_ok demo_dir_fs 0" "own demo_dir_fs 0 = {1}" "used demo_dir_fs 1"
proof -
  have as: "ip_addrs (ino demo_dir_fs 0) = 1 # replicate NDIRECT 0" "fsize demo_dir_fs 0 = 16"
    "0 < length (fs_itable demo_dir_fs)" "ip_inum (ino demo_dir_fs 0) = 1" "fs_sb demo_dir_fs = fs_sb demo_fs"
    by (simp_all add: demo_dir_fs_def demo_inode_def)
  have fb: "fblock demo_dir_fs 0 k = (if k = 0 then 1 else 0)" for k
    unfolding fblock_def as(1) by (auto simp: NDIRECT_def nth_Cons' simp del: replicate_Suc)
  have sl: "slot demo_dir_fs 0 k = (if k = 0 then 1 else 0)" for k
    unfolding slot_def fb as(1) by (auto simp: NDIRECT_def MAXFILE_def NINDIRECT_def BSIZE_def nth_Cons' simp del: replicate_Suc)
  show own: "own demo_dir_fs 0 = {1}" by (auto simp: own_def sl)
  have B: "BBLOCK b (fs_sb demo_fs) = 3" if "b < 30" for b using that by (simp add: BBLOCK_def demo_fs_def BPB_def BSIZE_def)
  have I: "IBLOCK i (fs_sb demo_fs) = 2" if "i < 16" for i using that by (simp add: IBLOCK_def demo_fs_def IPB_def BSIZE_def)
  have meta: "1 \<notin> meta (fs_sb demo_fs)" using B I by (auto simp: meta_def bitmap_area_def inode_area_def demo_fs_def)
  have blk: "fs_blk demo_dir_fs b = fs_blk demo_fs b" if "b \<noteq> 1" for b using that by (simp add: demo_dir_fs_def)
  have len: "length (fs_blk demo_dir_fs b) = BSIZE" for b using demo_map by (auto simp: demo_dir_fs_def map_ok_def BSIZE_def)
  have us: "used demo_dir_fs b = used demo_fs b" if "unat b < 30" for b
    using B [OF that] blk [of 3] by (simp add: used_def as(5))
  have "map_ok demo_dir_fs" using demo_map len us unfolding map_ok_def as(5) by (auto simp: demo_fs_def)
  moreover show u: "used demo_dir_fs 1" using us [of 1] B [of 1] by (simp add: used_def in_use_def demo_fs_def BPB_def BSIZE_def)
  have "ino_ok demo_dir_fs 0" unfolding ino_ok_def own sl as(1,4,5) using as(3) meta u by (auto simp: demo_fs_def)
  ultimately show "file_ok demo_dir_fs 0" using as(2) fb by (auto simp: file_ok_def MAXFILE_def NDIRECT_def NINDIRECT_def BSIZE_def)
qed

end
