(* ===== verification/Dir.thy ===== *)
theory Dir
  imports FsInv
begin

text \<open>
  Directories and path names. A directory is abstracted to the map from names to inode numbers that it
  stands for; \<open>dirlookup\<close> and \<open>dirlink\<close> are shown to be lookup and update of this map, and \<open>skipelem\<close> to
  split a path at its slashes.
\<close>

declare dirlookup_loop.simps [simp del] empty_loop.simps [simp del] namex_loop.simps [simp del]

section \<open>Directories as maps\<close>

text \<open>A name as far as \<open>namecmp\<close> looks at it.\<close>

definition canon :: "u8 list \<Rightarrow> u8 list" where
  "canon name = cbytes (take DIRSIZ name)"

definition c_name :: "u8 list \<Rightarrow> bool" where
  "c_name name \<longleftrightarrow> DIRSIZ \<le> length name \<or> 0 \<in> set name"

lemma namecmp_canon: "c_name a \<Longrightarrow> c_name b \<Longrightarrow> namecmp a b = 0 \<longleftrightarrow> canon a = canon b"
  unfolding namecmp_def canon_def c_name_def by (rule strncmp_eq_0)

definition dir_ok :: "fs \<Rightarrow> nat \<Rightarrow> bool" where
  "dir_ok s i \<longleftrightarrow> file_ok s i \<and> 16 dvd fsize s i \<and> ip_type (ino s i) = T_DIR"

definition nents :: "fs \<Rightarrow> nat \<Rightarrow> nat" where "nents s i = fsize s i div 16"

definition ent :: "fs \<Rightarrow> nat \<Rightarrow> nat \<Rightarrow> u8 list" where
  "ent s i k = map (content s i) [16 * k..<16 * k + 16]"

definition names :: "u8 list \<Rightarrow> fs \<Rightarrow> nat \<Rightarrow> nat \<Rightarrow> bool" where
  "names nm s i k \<longleftrightarrow> de_inum (ent s i k) \<noteq> 0 \<and> canon (de_name (ent s i k)) = nm"

definition dir_map :: "fs \<Rightarrow> nat \<Rightarrow> u8 list \<Rightarrow> u16 option" where
  "dir_map s i nm = map_option (\<lambda>k. de_inum (ent s i k)) (find (names nm s i) [0..<nents s i])"

lemma length_ent [simp]: "length (ent s i k) = 16"
  by (simp add: ent_def)

lemma ent_c_name: "c_name (de_name (ent s i k))"
  by (simp add: c_name_def DIRSIZ_def)

lemma read_ent:
  assumes "dir_ok s i" "k < nents s i" "length buf = 16"
  shows "readi kcopyout i (of_nat (16 * k)) 16 s buf = Ok (16, s, ent s i k)"
proof -
  have f: "file_ok s i" "16 * nents s i = fsize s i" using assms(1) by (simp_all add: dir_ok_def nents_def)
  have "16 * k + 16 \<le> fsize s i" using f(2) assms(2) by linarith
  moreover have "unat (of_nat (16 * k) :: u32) = 16 * k"
    using calculation file_okD(3) [OF f(1)] by (intro unat_of_nat32) (simp add: MAXFILE_bytes)
  ultimately show ?thesis using kreadi [OF f(1), of "of_nat (16 * k)" 16 buf] assms(3) by (simp add: ent_def del: of_nat_mult)
qed

lemma dirlookup_loop_spec:
  assumes "dir_ok s i" "c_name name" "k \<le> nents s i"
  shows "dirlookup_loop i name (16 * k) (fsize s i) s =
    (case find (names (canon name) s i) [k..<nents s i] of
       None \<Rightarrow> Ok (None, s)
     | Some j \<Rightarrow> bind_res (iget (ip_dev (ino s i)) (ucast (de_inum (ent s i j))) s) (\<lambda>(q, s1). Ok (Some (q, 16 * j), s1)))"
  using assms(3)
proof (induction "nents s i - k" arbitrary: k)
  case 0
  then have "k = nents s i" "\<not> 16 * k < fsize s i" using assms(1) by (auto simp: dir_ok_def nents_def)
  then show ?case by (subst dirlookup_loop.simps) simp
next
  case (Suc m)
  then have k: "k < nents s i" by simp
  then have lt: "16 * k < fsize s i" using assms(1) by (auto simp: dir_ok_def nents_def)
  have IH: "dirlookup_loop i name (16 * Suc k) (fsize s i) s =
    (case find (names (canon name) s i) [Suc k..<nents s i] of
       None \<Rightarrow> Ok (None, s)
     | Some j \<Rightarrow> bind_res (iget (ip_dev (ino s i)) (ucast (de_inum (ent s i j))) s) (\<lambda>(q, s1). Ok (Some (q, 16 * j), s1)))"
    using Suc(2) k by (intro Suc(1)) simp_all
  have n: "de_inum (ent s i k) \<noteq> 0 \<and> namecmp name (de_name (ent s i k)) = 0 \<longleftrightarrow> names (canon name) s i k"
    using namecmp_canon [OF assms(2) ent_c_name, of s i k] by (auto simp: names_def)
  have up: "[k..<nents s i] = k # [Suc k..<nents s i]" using k by (rule upt_conv_Cons)
  have "dirlookup_loop i name (16 * k) (fsize s i) s =
    (if names (canon name) s i k then bind_res (iget (ip_dev (ino s i)) (ucast (de_inum (ent s i k))) s) (\<lambda>(q, s1). Ok (Some (q, 16 * k), s1))
     else dirlookup_loop i name (16 * Suc k) (fsize s i) s)"
    using lt read_ent [OF assms(1) k, of "replicate 16 0"] n by (subst dirlookup_loop.simps) (simp add: add.commute)
  then show ?case unfolding IH up by simp
qed

lemma dirlookup_spec:
  assumes "dir_ok s i" "c_name name"
  shows "dirlookup i name s =
    (case find (names (canon name) s i) [0..<nents s i] of
       None \<Rightarrow> Ok (None, s)
     | Some j \<Rightarrow> bind_res (iget (ip_dev (ino s i)) (ucast (de_inum (ent s i j))) s) (\<lambda>(q, s1). Ok (Some (q, 16 * j), s1)))"
  using dirlookup_loop_spec [OF assms, of 0] assms(1) by (simp add: dirlookup_def dir_ok_def)

lemma empty_loop_spec:
  assumes "dir_ok s i" "k \<le> nents s i" "length de = 16"
  shows "\<exists>j de'. empty_loop i (16 * k) (fsize s i) s de = Ok (16 * j, s, de') \<and> length de' = 16 \<and> k \<le> j \<and> j \<le> nents s i
    \<and> (j < nents s i \<longrightarrow> de_inum (ent s i j) = 0)"
  using assms(2,3)
proof (induction "nents s i - k" arbitrary: k de)
  case 0
  then have "k = nents s i" "\<not> 16 * k < fsize s i" using assms(1) by (auto simp: dir_ok_def nents_def)
  then show ?case using 0 by (subst empty_loop.simps) auto
next
  case (Suc m)
  then have k: "k < nents s i" by simp
  then have lt: "16 * k < fsize s i" using assms(1) by (auto simp: dir_ok_def nents_def)
  have step: "empty_loop i (16 * k) (fsize s i) s de =
    (if de_inum (ent s i k) = 0 then Ok (16 * k, s, ent s i k) else empty_loop i (16 * Suc k) (fsize s i) s (ent s i k))"
    using lt read_ent [OF assms(1) k Suc.prems(2)] by (subst empty_loop.simps) (simp add: add.commute)
  show ?case
  proof (cases "de_inum (ent s i k) = 0")
    case True
    then show ?thesis using step k by (intro exI [of _ k] exI [of _ "ent s i k"]) simp
  next
    case False
    have mk: "m = nents s i - Suc k" using Suc(2) by simp
    obtain j de' where "empty_loop i (16 * Suc k) (fsize s i) s (ent s i k) = Ok (16 * j, s, de')" "length de' = 16" "Suc k \<le> j" "j \<le> nents s i"
      "j < nents s i \<longrightarrow> de_inum (ent s i j) = 0"
      using Suc(1) [OF mk _ length_ent, of s i k] k by auto
    then show ?thesis using step False by (intro exI [of _ j] exI [of _ de']) simp
  qed
qed

section \<open>Adding an entry\<close>

lemma new_dirent:
  fixes w :: u16
  assumes "length de = 16" "c_name name"
  defines "de1 \<equiv> put16 0 w (take 2 de @ strncpy (de_name de) name DIRSIZ)"
  shows "length de1 = 16" "de_inum de1 = w" "canon (de_name de1) = canon name"
proof -
  have l: "length (strncpy (de_name de) name DIRSIZ) = 14" using length_strncpy [of DIRSIZ "de_name de" name] assms(1) by (simp add: DIRSIZ_def)
  then show "length de1 = 16" "de_inum de1 = w" using assms(1) by (simp_all add: de1_def)
  have "de_name de1 = strncpy (de_name de) name DIRSIZ" using assms(1) by (simp add: de1_def put16_def splice_def)
  also have "\<dots> = canon name @ replicate (DIRSIZ - length (canon name)) 0"
    using strncpy_take [of DIRSIZ "de_name de" name] assms(1,2) by (simp add: canon_def c_name_def DIRSIZ_def)
  finally have e: "de_name de1 = canon name @ replicate (DIRSIZ - length (canon name)) 0" .
  have "length (canon name) \<le> DIRSIZ" by (simp add: canon_def cbytes_def) (metis length_takeWhile_le length_take min.bounded_iff order_trans)
  then have "take DIRSIZ (de_name de1) = de_name de1" using e by simp
  moreover have "cbytes (canon name) = canon name" "0 \<notin> set (canon name)" by (simp_all add: canon_def cbytes_no_0)
  ultimately show "canon (de_name de1) = canon name" unfolding canon_def [of "de_name de1"] by (simp add: e cbytes_append)
qed

lemma ent_written:
  assumes "\<forall>p < MAXFILE * BSIZE. content s' i p = (if off \<le> p \<and> p < off + 16 then data ! (p - off) else content s i p)"
    and "off = 16 * j" "length data = 16" "16 * k + 16 \<le> MAXFILE * BSIZE"
  shows "ent s' i k = (if k = j then data else ent s i k)"
proof (rule nth_equalityI)
  show "length (ent s' i k) = length (if k = j then data else ent s i k)" using assms(3) by simp
  fix q assume "q < length (ent s' i k)"
  then have q: "q < 16" by simp
  have c: "ent s' i k ! q = (if off \<le> 16 * k + q \<and> 16 * k + q < off + 16 then data ! (16 * k + q - off) else content s i (16 * k + q))"
    using q assms(1,4) by (simp add: ent_def)
  have "off \<le> 16 * k + q \<and> 16 * k + q < off + 16 \<longleftrightarrow> k = j" using q assms(2) by (cases k j rule: linorder_cases) auto
  then show "ent s' i k ! q = (if k = j then data else ent s i k) ! q" using c q assms(2) by (simp add: ent_def)
qed

lemma find_cong_list: "(\<And>x. x \<in> set xs \<Longrightarrow> P x = Q x) \<Longrightarrow> find P xs = find Q xs"
  by (induction xs) auto

lemma find_snoc: "\<not> P y \<Longrightarrow> find P (xs @ [y]) = find P xs"
  by (induction xs) auto

lemma find_unique:
  assumes "k < n" "P k" "\<And>j. j < n \<Longrightarrow> j \<noteq> k \<Longrightarrow> \<not> P j"
  shows "find P [0..<n] = Some k"
  using assms by (auto simp: find_Some_iff intro!: exI [of _ k])

lemma dir_map_add:
  assumes ents: "\<And>k. k < nents s' i \<Longrightarrow> ent s' i k = (if k = j then de else ent s i k)"
    and n: "nents s' i = max (nents s i) (Suc j)" "j \<le> nents s i" "j < nents s i \<longrightarrow> de_inum (ent s i j) = 0"
    and de: "de_inum de = w" "canon (de_name de) = nm" "w \<noteq> 0" and new: "dir_map s i nm = None"
  shows "dir_map s' i = (dir_map s i)(nm \<mapsto> w)"
proof
  fix x
  have old: "\<not> names nm s i k" if "k < nents s i" for k using new that by (auto simp: dir_map_def find_None_iff)
  show "dir_map s' i x = ((dir_map s i)(nm \<mapsto> w)) x"
  proof (cases "x = nm")
    case True
    have "find (names nm s' i) [0..<nents s' i] = Some j"
    proof (rule find_unique)
      show "j < nents s' i" using n(1) by simp
      then show "names nm s' i j" using ents [of j] de by (simp add: names_def)
      show "\<not> names nm s' i k" if "k < nents s' i" "k \<noteq> j" for k
        using ents [OF that(1)] that old [of k] n(1,2) by (simp add: names_def)
    qed
    then show ?thesis using True ents [of j] n(1) de(1) by (simp add: dir_map_def)
  next
    case False
    have same: "names x s' i k \<longleftrightarrow> names x s i k" if "k < nents s i" for k
      using ents [of k] that n(1,3) de False by (auto simp: names_def)
    have c: "find (names x s' i) [0..<nents s i] = find (names x s i) [0..<nents s i]" using same by (intro find_cong_list) simp
    have "find (names x s' i) [0..<nents s' i] = find (names x s i) [0..<nents s i]"
    proof (cases "j < nents s i")
      case True
      then have "nents s' i = nents s i" using n(1) by simp
      then show ?thesis using c by simp
    next
      case f: False
      then have e: "j = nents s i" "nents s' i = Suc (nents s i)" using n(1,2) by simp_all
      have "\<not> names x s' i j" using ents [of j] e de(2) False by (simp add: names_def)
      then show ?thesis using c e by (simp add: find_snoc)
    qed
    moreover have "de_inum (ent s' i k) = de_inum (ent s i k)" if "find (names x s i) [0..<nents s i] = Some k" for k
    proof -
      have k: "k < nents s i" "names x s i k" using find_SomeD [OF that] by simp_all
      then have "k \<noteq> j" using n(3) by (auto simp: names_def)
      then show ?thesis using ents [of k] k(1) n(1) by simp
    qed
    ultimately show ?thesis using False by (cases "find (names x s i) [0..<nents s i]") (simp_all add: dir_map_def)
  qed
qed

section \<open>Paths\<close>

text \<open>The elements of a path: what is between slashes, empty pieces left out.\<close>

fun pieces :: "u8 list \<Rightarrow> u8 list \<Rightarrow> u8 list list" where
  "pieces acc [] = (if acc = [] then [] else [acc])"
| "pieces acc (c # cs) = (if c = SLASH then (if acc = [] then pieces [] cs else acc # pieces [] cs) else pieces (acc @ [c]) cs)"

definition elems :: "u8 list \<Rightarrow> u8 list list" where
  "elems path = pieces [] path"

lemma elems_drop_slashes: "elems (dropWhile (\<lambda>c. c = SLASH) path) = elems path"
  by (induction path) (simp_all add: elems_def)

lemma pieces_element:
  "acc \<noteq> [] \<or> (path \<noteq> [] \<and> hd path \<noteq> SLASH) \<Longrightarrow>
    pieces acc path = (acc @ takeWhile (\<lambda>c. c \<noteq> SLASH) path) # elems (dropWhile (\<lambda>c. c \<noteq> SLASH) path)"
  by (induction acc path rule: pieces.induct) (auto simp: elems_def)

lemma skipelem_elems:
  "skipelem path name = None \<longleftrightarrow> elems path = []"
  "skipelem path name = Some (rest, nm) \<Longrightarrow> \<exists>e. elems path = e # elems rest \<and> SLASH \<notin> set e \<and> e \<noteq> [] \<and> set e \<subseteq> set path
     \<and> nm = (if length e \<ge> DIRSIZ then splice 0 (take DIRSIZ e) name else splice 0 (e @ [0]) name)"
proof -
  let ?s = "dropWhile (\<lambda>c. c = SLASH) path"
  have hd: "hd ?s \<noteq> SLASH" if "?s \<noteq> []" using hd_dropWhile [of "\<lambda>c. c = SLASH" path] that by auto
  have el: "elems path = takeWhile (\<lambda>c. c \<noteq> SLASH) ?s # elems (dropWhile (\<lambda>c. c = SLASH) (dropWhile (\<lambda>c. c \<noteq> SLASH) ?s))" if "?s \<noteq> []"
    using pieces_element [of "[]" ?s] hd [OF that] that elems_drop_slashes by (metis append_Nil elems_def)
  have nil: "elems path = []" if "?s = []" using elems_drop_slashes [of path] that by (metis elems_def pieces.simps(1))
  show "skipelem path name = None \<longleftrightarrow> elems path = []"
    unfolding skipelem_def Let_def using el nil by auto
  show "\<exists>e. elems path = e # elems rest \<and> SLASH \<notin> set e \<and> e \<noteq> [] \<and> set e \<subseteq> set path
     \<and> nm = (if length e \<ge> DIRSIZ then splice 0 (take DIRSIZ e) name else splice 0 (e @ [0]) name)" if a: "skipelem path name = Some (rest, nm)"
  proof -
    let ?e = "takeWhile (\<lambda>c. c \<noteq> SLASH) ?s"
    have s: "?s \<noteq> []" using a unfolding skipelem_def Let_def by (auto split: if_splits)
    have r: "rest = dropWhile (\<lambda>c. c = SLASH) (dropWhile (\<lambda>c. c \<noteq> SLASH) ?s)"
      "nm = (if length ?e \<ge> DIRSIZ then splice 0 (take DIRSIZ ?e) name else splice 0 (?e @ [0]) name)"
      using a s unfolding skipelem_def Let_def by (auto split: if_splits)
    have "?e \<noteq> []" using s hd [OF s] by (cases ?s) auto
    moreover have "SLASH \<notin> set ?e" by (auto dest: set_takeWhileD)
    moreover have "set ?e \<subseteq> set path" using set_takeWhileD set_dropWhileD by fastforce
    ultimately show ?thesis using el [OF s] r by blast
  qed
qed

lemma skipelem_canon:
  assumes "skipelem path name = Some (rest, nm)" "length name = DIRSIZ" "0 \<notin> set path"
  shows "\<exists>e. elems path = e # elems rest \<and> canon nm = take DIRSIZ e \<and> length nm = DIRSIZ \<and> c_name nm"
proof -
  obtain e where e: "elems path = e # elems rest" "set e \<subseteq> set path" "nm = (if length e \<ge> DIRSIZ then splice 0 (take DIRSIZ e) name else splice 0 (e @ [0]) name)"
    using skipelem_elems(2) [OF assms(1)] by blast
  have z: "0 \<notin> set (take DIRSIZ e)" "0 \<notin> set e" using e(2) assms(3) by (auto dest: in_set_takeD)
  have "cbytes x = x" if "0 \<notin> set x" for x :: "u8 list" using that by (induction x) auto
  then have "canon nm = take DIRSIZ e" "length nm = DIRSIZ"
    using e(3) z assms(2) by (auto simp: canon_def splice_def cbytes_append min_def split: if_splits)
  then show ?thesis using e(1) by (auto simp: c_name_def)
qed


section \<open>Properties\<close>

context source
begin

text \<open>A write within one block writes all or nothing.\<close>

lemma one_block:
  assumes "map_ok s" "ino_ok s i" "I mem" "n = length data" "off mod BSIZE + n \<le> BSIZE" "off + n \<le> MAXFILE * BSIZE"
    "writei_loop rd i 0 off n s mem = Ok (t, off', s', mem')"
  shows "t = 0 \<or> t = n"
proof (cases "n = 0")
  case True
  then show ?thesis using assms(7) by (subst (asm) writei_loop.simps) simp
next
  case False
  then have k: "off div BSIZE < MAXFILE" using assms(6) by (intro in_file) simp
  obtain a s1 where b: "bmap i (off div BSIZE) s = Ok (a, s1)" by (rule bmap_spec [OF assms(1,2) k])
  have m: "step_len n off = n" using assms(5) by (simp add: step_len_def)
  obtain mem1 where r: "rd 0 n mem = Ok (0, data, mem1)" using rd_ok [OF assms(3), of 0 n] assms(4) by auto
  have fin: "writei_loop rd i n (off + n) n x y = Ok (n, off + n, x, y)" for x y by (subst writei_loop.simps) simp
  show ?thesis using assms(7) False b m r fin by (subst (asm) writei_loop.simps) (auto simp: Let_def split: if_splits)
qed

lemma writei_one_block:
  assumes "file_ok s i" "I mem" "unat off \<le> fsize s i" "unat n = length data" "unat off + unat n \<le> MAXFILE * BSIZE" "unat off mod BSIZE + unat n \<le> BSIZE"
    "writei rd i off n s mem = Ok (int t, s', mem')"
  shows "t = 0 \<or> t = length data"
proof -
  note f = file_okD [OF assms(1)]
  have "unat off + unat n < 2 ^ 32" using assms(5) by (simp add: MAXFILE_bytes)
  then have "\<not> off + n < off" "\<not> off > ip_size (ino s i)" "\<not> unat (off + n) > MAXFILE * BSIZE" using unat_add32 assms(3,5) by (simp_all add: word_less_nat_alt)
  then obtain u o1 s1 where w: "writei_loop rd i 0 (unat off) (unat n) s mem = Ok (u, o1, s1, mem')" "sint (of_nat u :: u32) = int t"
    using assms(7) by (auto simp: writei_def Let_def)
  have u: "u = 0 \<or> u = unat n" by (rule one_block [OF f(1,2) assms(2,4,6,5) w(1)])
  then have "u < 2 ^ 31" using assms(5) by (auto simp: MAXFILE_bytes)
  then show ?thesis using w(2) sint_of_nat32 [of u] u assms(4) by auto
qed

end

text \<open>C37. \<open>dirlookup\<close> is lookup in the map of the directory: it finds nothing and changes nothing when the name is
  not bound, and otherwise gets the inode with the number the name is bound to.\<close>

theorem dirlookup_is_lookup:
  assumes "dir_ok s i" and "c_name name"
  shows "case dir_map s i (canon name) of
      None \<Rightarrow> dirlookup i name s = Ok (None, s)
    | Some w \<Rightarrow> \<exists>k < nents s i. dirlookup i name s = bind_res (iget (ip_dev (ino s i)) (ucast w) s) (\<lambda>(q, s1). Ok (Some (q, 16 * k), s1))"
proof (cases "find (names (canon name) s i) [0..<nents s i]")
  case None
  then show ?thesis using dirlookup_spec [OF assms] by (simp add: dir_map_def)
next
  case (Some k)
  then show ?thesis using dirlookup_spec [OF assms] find_SomeD [OF Some] by (auto simp: dir_map_def)
qed

lemma demo_dir: "dir_ok demo_fs 0" "nents demo_fs 0 = 0" "fsize demo_fs 0 = 0"
  using demo_ino(2) [of 0] by (simp_all add: dir_ok_def nents_def demo_fs_def demo_inode_def)

lemma demo_dir_fs_ok: "dir_ok demo_dir_fs 0"
proof -
  have "fsize demo_dir_fs 0 = 16" "ip_type (ino demo_dir_fs 0) = T_DIR" by (simp_all add: demo_dir_fs_def demo_inode_def)
  then show ?thesis using demo_dir_fs_file(1) by (simp add: dir_ok_def)
qed

lemma demo_dir_fs_map: "dir_map demo_dir_fs 0 (canon [97, 0]) = Some 2"
proof -
  have c: "content demo_dir_fs 0 p = (if p = 0 then 2 else if p = 2 then 97 else 0)" if "p < 16" for p
    using that by (auto simp: content_def fblock_def demo_dir_fs_def demo_inode_def BSIZE_def NDIRECT_def nth_Cons' nth_append)
  have "ent demo_dir_fs 0 0 = [2, 0, 97, 0, 0, 0, 0, 0, 0, 0, 0, 0, 0, 0, 0, 0]"
    by (simp add: ent_def c upt_rec)
  moreover have "nents demo_dir_fs 0 = 1" by (simp add: nents_def demo_dir_fs_def)
  ultimately show ?thesis by (simp add: dir_map_def names_def canon_def cbytes_def DIRSIZ_def get16_def)
qed

theorem dirlookup_is_lookup_witness:
  "dirlookup 0 [97, 0] demo_fs = Ok (None, demo_fs)
   \<and> (\<exists>k < nents demo_dir_fs 0. dirlookup 0 [97, 0] demo_dir_fs = bind_res (iget 1 2 demo_dir_fs) (\<lambda>(q, s1). Ok (Some (q, 16 * k), s1)))"
proof -
  have c: "c_name [97, 0]" by (simp add: c_name_def)
  have d: "ip_dev (ino demo_dir_fs 0) = 1" by (simp add: demo_dir_fs_def demo_inode_def)
  have "dirlookup 0 [97, 0] demo_fs = Ok (None, demo_fs)"
    using dirlookup_is_lookup [OF demo_dir(1) c] demo_dir(2) by (simp add: dir_map_def)
  then show ?thesis using dirlookup_is_lookup [OF demo_dir_fs_ok c] unfolding demo_dir_fs_map d by simp
qed

lemma dirlink_absent:
  assumes "dir_ok s i" and "c_name name" and "dir_map s i (canon name) = None" and "ucast inum \<noteq> (0 :: u16)" and "fsize s i + 16 \<le> MAXFILE * BSIZE"
  shows "\<exists>r s'. dirlink pid i name inum s = Ok (r, s') \<and> dir_ok s' i
    \<and> (r = 0 \<and> dir_map s' i = (dir_map s i)(canon name \<mapsto> ucast inum) \<or> r = - 1 \<and> full s' \<and> dir_map s' i = dir_map s i)"
proof -
  have f: "file_ok s i" "fsize s i = 16 * nents s i" "ip_type (ino s i) = T_DIR" using assms(1) by (simp_all add: dir_ok_def nents_def)
  have look: "dirlookup i name s = Ok (None, s)" using dirlookup_spec [OF assms(1,2)] assms(3) by (simp add: dir_map_def)
  obtain j de where e: "empty_loop i 0 (fsize s i) s (replicate 16 0) = Ok (16 * j, s, de)" "length de = 16" "j \<le> nents s i" "j < nents s i \<longrightarrow> de_inum (ent s i j) = 0"
    using empty_loop_spec [OF assms(1), of 0 "replicate 16 0"] by auto
  define de1 where "de1 = put16 0 (ucast inum) (take 2 de @ strncpy (de_name de) name DIRSIZ)"
  note d = new_dirent [OF e(2) assms(2), where w = "ucast inum", folded de1_def]
  have off: "unat (of_nat (16 * j) :: u32) = 16 * j" using e(3) f(2) assms(5) by (intro unat_of_nat32) (simp add: MAXFILE_bytes)
  have le: "16 * j \<le> fsize s i" "16 * j + 16 \<le> MAXFILE * BSIZE" using e(3) f(2) assms(5) by simp_all
  obtain t s' mem where w: "writei kcopyin i (of_nat (16 * j)) 16 s de1 = Ok (int t, s', mem)" "file_ok s' i" "keeps i s s'" "t < 16 \<longrightarrow> full s'"
    "fsize s' i = max (fsize s i) (16 * j + t)" "\<forall>p < MAXFILE * BSIZE. content s' i p = (if 16 * j \<le> p \<and> p < 16 * j + t then de1 ! (p - 16 * j) else content s i p)"
    using ksource.writei_ok [OF f(1) refl, of "of_nat (16 * j)" 16 de1] unfolding off d(1) using le by auto
  have "16 * j mod BSIZE + 16 \<le> BSIZE"
  proof -
    have "16 * j mod 1024 = 16 * (j mod 64)" using mult_mod_right [of 16 j 64] by simp
    moreover have "j mod 64 < 64" by simp
    ultimately show ?thesis by (simp add: BSIZE_def)
  qed
  then have t: "t = 0 \<or> t = 16" using ksource.writei_one_block [OF f(1) refl _ _ _ _ w(1)] unfolding off d(1) using le by auto
  have dl: "dirlink pid i name inum s = Ok (if int t \<noteq> 16 then - 1 else 0, s')"
    using look e(1) w(1) by (simp add: dirlink_def de1_def Let_def)
  have ty: "ip_type (ino s' i) = T_DIR" using keepsD(6) [OF w(3)] f(3) by simp
  show ?thesis
  proof (cases "t = 0")
    case True
    have n: "nents s' i = nents s i" "fsize s' i = fsize s i" using True w(5) le(1) by (simp_all add: nents_def)
    have "ent s' i k = ent s i k" if "k < nents s i" for k using that w(6) True f(2) assms(5) by (auto simp: ent_def)
    then have "find (names x s' i) [0..<nents s i] = find (names x s i) [0..<nents s i]" for x by (intro find_cong_list) (simp add: names_def)
    then have "dir_map s' i = dir_map s i" using n \<open>\<And>k. k < nents s i \<Longrightarrow> ent s' i k = ent s i k\<close>
      by (auto simp: dir_map_def fun_eq_iff option.map_comp intro!: option.map_cong dest: find_SomeD)
    then show ?thesis using dl w(2,4) ty True assms(1) n(2) by (simp add: dir_ok_def)
  next
    case False
    then have t16: "t = 16" using t by simp
    have n: "nents s' i = max (nents s i) (Suc j)" unfolding nents_def w(5) using t16 f(2) e(3) by (auto simp: max_def)
    have ents: "ent s' i k = (if k = j then de1 else ent s i k)" if "k < nents s' i" for k
      using ent_written [OF w(6) [unfolded t16] refl d(1), of k] that n le(2) f(2) assms(5) by simp
    have "dir_map s' i = (dir_map s i)(canon name \<mapsto> ucast inum)"
      by (rule dir_map_add [OF ents n e(3,4) d(2,3) assms(4,3)])
    moreover have "dir_ok s' i" using w(2,5) ty t16 f(2) by (auto simp: dir_ok_def max_def)
    ultimately show ?thesis using dl t16 by simp
  qed
qed

text \<open>What a lookup and the release of what it found leave behind: at most another entry of the inode table that names the inode and is free.\<close>

lemma iget_iput:
  assumes "length (fs_itable s) = NINODE" "0 < ip_ref (ino s i)" "\<exists>j < NINODE. ip_ref (ino s j) = 0"
  shows "\<exists>j s1 s2. iget dev inum s = Ok (j, s1) \<and> iput pid j s1 = Ok s2 \<and> fs_sb s2 = fs_sb s \<and> fs_blk s2 = fs_blk s
    \<and> length (fs_itable s2) = length (fs_itable s) \<and> ino s2 i = ino s i"
proof (cases "find (\<lambda>i. ip_ref (ino s i) > 0 \<and> ip_dev (ino s i) = dev \<and> ip_inum (ino s i) = inum) [0..<NINODE]")
  case (Some j)
  then have j: "j < NINODE" "ip_ref (ino s j) > 0" by (auto dest: find_SomeD)
  then have "iput pid j (upd_ino j (\<lambda>ip. ip\<lparr>ip_ref := ip_ref ip + 1\<rparr>) s) = Ok s"
    using assms(1) by (simp add: iput_def upd_ino_def)
  with Some show ?thesis by (auto simp: iget_def)
next
  case None
  have "find (\<lambda>i. ip_ref (ino s i) = 0) [0..<NINODE] \<noteq> None" using assms(3) by (auto simp: find_None_iff)
  then obtain j where f: "find (\<lambda>i. ip_ref (ino s i) = 0) [0..<NINODE] = Some j" by blast
  then have j: "j < NINODE" "ip_ref (ino s j) = 0" by (auto dest: find_SomeD)
  let ?s1 = "upd_ino j (\<lambda>ip. ip\<lparr>ip_dev := dev, ip_inum := inum, ip_ref := 1, ip_valid := False\<rparr>) s"
  have "iput pid j ?s1 = Ok (upd_ino j (\<lambda>ip. ip\<lparr>ip_ref := ip_ref ip - 1\<rparr>) ?s1)"
    using assms(1) j(1) by (simp add: iput_def upd_ino_def)
  moreover have "iget dev inum s = Ok (j, ?s1)" unfolding iget_def None f by simp
  moreover have "j \<noteq> i" using j(2) assms(2) by auto
  moreover define s2 where "s2 = upd_ino j (\<lambda>ip. ip\<lparr>ip_ref := ip_ref ip - 1\<rparr>) ?s1"
  ultimately have "iget dev inum s = Ok (j, ?s1)" "iput pid j ?s1 = Ok s2" "fs_sb s2 = fs_sb s" "fs_blk s2 = fs_blk s"
    "length (fs_itable s2) = length (fs_itable s)" "ino s2 i = ino s i" by (simp_all add: s2_def upd_ino_def)
  then show ?thesis by blast
qed

lemma dir_frame:
  assumes "fs_sb s' = fs_sb s" "fs_blk s' = fs_blk s" "length (fs_itable s') = length (fs_itable s)" "ino s' i = ino s i"
  shows "dir_ok s' i = dir_ok s i" "dir_map s' i = dir_map s i"
proof -
  have fb: "fblock s' i = fblock s i" using assms by (simp add: fblock_def fun_eq_iff)
  have c: "content s' i = content s i" unfolding content_def [abs_def] fb assms(2) ..
  have sl: "slot s' i = slot s i" using fb assms by (simp add: slot_def fun_eq_iff)
  have "own s' i = own s i" "used s' = used s" using sl assms by (simp_all add: own_def used_def fun_eq_iff)
  then show "dir_ok s' i = dir_ok s i" using sl fb assms by (simp add: dir_ok_def file_ok_def map_ok_def ino_ok_def)
  show "dir_map s' i = dir_map s i" unfolding dir_map_def [abs_def] names_def [abs_def] ent_def nents_def c assms(4) ..
qed

lemma dirlink_present:
  assumes "dir_ok s i" "c_name name" "dir_map s i (canon name) \<noteq> None"
    and "length (fs_itable s) = NINODE" "0 < ip_ref (ino s i)" "\<exists>j < NINODE. ip_ref (ino s j) = 0"
  shows "\<exists>s'. dirlink pid i name inum s = Ok (- 1, s') \<and> dir_ok s' i \<and> dir_map s' i = dir_map s i \<and> fs_blk s' = fs_blk s"
proof -
  obtain k where k: "find (names (canon name) s i) [0..<nents s i] = Some k" using assms(3) by (auto simp: dir_map_def)
  obtain j s1 s2 where g: "iget (ip_dev (ino s i)) (ucast (de_inum (ent s i k))) s = Ok (j, s1)" "iput pid j s1 = Ok s2"
    "fs_sb s2 = fs_sb s" "fs_blk s2 = fs_blk s" "length (fs_itable s2) = length (fs_itable s)" "ino s2 i = ino s i"
    using iget_iput [OF assms(4-6)] by blast
  have "dirlink pid i name inum s = Ok (- 1, s2)" using dirlookup_spec [OF assms(1,2)] k g(1,2) by (simp add: dirlink_def)
  with dir_frame [OF g(3-6)] g(4) assms(1) show ?thesis by simp
qed

text \<open>C36. \<open>dirlink\<close> is an update of the map of the directory. A name that is not bound is bound to the new inode number, and nothing else changes in the map;
  this fails only when the disk is full, and then changes no binding. A name that is bound is refused with \<open>-1\<close>: the map and
  the disk stay as they are, and the reference that the lookup took is given back. (The lookup needs a free entry in the
  inode table, and the directory is in use.)\<close>

theorem dirlink_is_update:
  assumes "dir_ok s i" and "c_name name" and "ucast inum \<noteq> (0 :: u16)" and "fsize s i + 16 \<le> MAXFILE * BSIZE"
  shows "case dir_map s i (canon name) of
      None \<Rightarrow> \<exists>r s'. dirlink pid i name inum s = Ok (r, s') \<and> dir_ok s' i
        \<and> (r = 0 \<and> dir_map s' i = (dir_map s i)(canon name \<mapsto> ucast inum) \<or> r = - 1 \<and> full s' \<and> dir_map s' i = dir_map s i)
    | Some w \<Rightarrow> length (fs_itable s) = NINODE \<longrightarrow> 0 < ip_ref (ino s i) \<longrightarrow> (\<exists>j < NINODE. ip_ref (ino s j) = 0) \<longrightarrow>
        (\<exists>s'. dirlink pid i name inum s = Ok (- 1, s') \<and> dir_ok s' i \<and> dir_map s' i = dir_map s i \<and> fs_blk s' = fs_blk s)"
proof (cases "dir_map s i (canon name)")
  case None
  then show ?thesis using dirlink_absent [OF assms(1,2) None assms(3,4)] by simp
next
  case (Some w)
  then show ?thesis using dirlink_present [OF assms(1,2), of pid inum] by simp
qed

theorem dirlink_is_update_witness:
  "(\<exists>r s'. dirlink 1 0 [97, 0] 2 demo_fs = Ok (r, s') \<and> dir_ok s' 0
     \<and> (r = 0 \<and> dir_map s' 0 = (dir_map demo_fs 0)(canon [97, 0] \<mapsto> 2) \<or> r = - 1 \<and> full s' \<and> dir_map s' 0 = dir_map demo_fs 0))
   \<and> (\<exists>s'. dirlink 1 0 [97, 0] 3 demo_dir_fs = Ok (- 1, s') \<and> dir_map s' 0 = dir_map demo_dir_fs 0)"
proof -
  have n: "dir_map demo_fs 0 (canon [97, 0]) = None" using demo_dir(2) by (simp add: dir_map_def)
  have t: "length (fs_itable demo_dir_fs) = NINODE" "0 < ip_ref (ino demo_dir_fs 0)" "ip_ref (ino demo_dir_fs 2) = 0" "fsize demo_dir_fs 0 = 16"
    by (simp_all add: demo_dir_fs_def demo_inode_def NINODE_def)
  have "\<exists>j < NINODE. ip_ref (ino demo_dir_fs j) = 0" using t(3) by (intro exI [of _ 2]) (simp add: NINODE_def)
  then show ?thesis
    using dirlink_is_update [OF demo_dir(1), of "[97, 0]" 2 1] demo_dir(3) n
      dirlink_is_update [OF demo_dir_fs_ok, of "[97, 0]" 3 1] demo_dir_fs_map t by (auto simp: c_name_def MAXFILE_bytes)
qed

text \<open>\<open>skipelem\<close> takes the first element off a path: it fails exactly when the path has none, and otherwise returns a
  path with the remaining elements and stores the first, cut to \<open>DIRSIZ\<close> bytes, in the name.\<close>

theorem skipelem_takes_first:
  assumes "length name = DIRSIZ" and "0 \<notin> set path"
  shows "case skipelem path name of
      None \<Rightarrow> elems path = []
    | Some (rest, nm) \<Rightarrow> length rest < length path \<and> length nm = DIRSIZ \<and> (\<exists>e. elems path = e # elems rest \<and> canon nm = take DIRSIZ e)"
  using skipelem_elems(1) [of path name] skipelem_canon [OF _ assms] skipelem_shorter by (cases "skipelem path name") fastforce+

theorem skipelem_takes_first_witness:
  "\<exists>rest nm e. skipelem [47, 47, 97, 47, 98] (replicate DIRSIZ 0) = Some (rest, nm) \<and> elems [47, 47, 97, 47, 98] = e # elems rest \<and> canon nm = take DIRSIZ e"
proof -
  have "elems [47, 47, 97, 47, 98] \<noteq> []" by (simp add: elems_def SLASH_def)
  then show ?thesis using skipelem_takes_first [of "replicate DIRSIZ 0" "[47, 47, 97, 47, 98]"] by (auto split: option.splits)
qed

end
