(* ===== verification/FsLog.thy ===== *)
theory FsLog
  imports Fs
begin

text \<open>
  The file system on top of the log and the buffer cache. \<open>fs.c\<close> changes a block by \<open>bread\<close>, a change of the
  buffer, \<open>log_write\<close> and \<open>brelse\<close>; the model of the file system does it by \<open>put_block\<close>. This theory shows
  that the sequence of calls refines the abstract update.
\<close>

definition change_block :: "int \<Rightarrow> u32 \<Rightarrow> u32 \<Rightarrow> (block \<Rightarrow> block) \<Rightarrow> log \<Rightarrow> bio \<Rightarrow> (log \<times> bio) res" where
  "change_block pid dev b f l s =
     bind_res (bread pid dev b s) (\<lambda>(h, s1).
     bind_res (log_write h l (set_data h (f (bf_data (bc_buf s1 ! h))) s1)) (\<lambda>(l1, s2).
     bind_res (brelse pid h s2) (\<lambda>s3. Ok (l1, s3))))"

text \<open>The blocks of the current transaction keep their buffers.\<close>

definition pinned :: "u32 \<Rightarrow> log \<Rightarrow> bio \<Rightarrow> bool" where
  "pinned dev l s \<longleftrightarrow> (\<forall>b \<in> set (take (ntx l) (lg_block l)). 0 < rc dev s b)"

text \<open>What a state of the file system says of the cache and the log.\<close>

definition represents :: "u32 \<Rightarrow> log \<Rightarrow> u32 set list \<Rightarrow> bio \<Rightarrow> fs \<Rightarrow> bool" where
  "represents dev l us s st \<longleftrightarrow> bio_inv dev s \<and> log_inv l us \<and> pinned dev l s \<and> fs_blk st = view dev s
     \<and> set (fs_logged st) = set (take (ntx l) (lg_block l))"

section \<open>Properties\<close>

text \<open>C39. The block updates of the file system refine the update of its block map: when an operation has logged fewer than
  \<open>MAXOPBLOCKS\<close> different blocks and a buffer is free, reading a block, changing it, logging and releasing it succeeds and
  leaves cache and log in a state that represents the updated map; no lock is kept and the disk itself is
  not written before the commit.\<close>

theorem change_block_refines:
  assumes "represents dev l us s st" and "\<not> held dev s b" and "rc dev s b < 2 ^ 32 - 2" and "card {c. 0 < rc dev s c} < NBUF"
    and "card (us ! i) < MAXOPBLOCKS" and "i < length us"
  shows "\<exists>l' s'. change_block pid dev b f l s = Ok (l', s') \<and> represents dev l' (us[i := insert b (us ! i)]) s' (put_block b f st)
    \<and> held dev s' = held dev s \<and> bc_disk s' = bc_disk s"
proof -
  note r = assms(1) [unfolded represents_def]
  obtain h s1 where s1: "bread pid dev b s = Ok (h, s1)" "bio_inv dev s1" "has_buf pid dev s1 h b" "view dev s1 = view dev s" "rc dev s1 = (rc dev s)(b := rc dev s b + 1)"
    "held dev s1 = (held dev s)(b := True)" "bc_disk s1 = bc_disk s"
    using bcache.fetch_ok [of dev s b pid] r assms(2-4) by auto
  define x where "x = f (view dev s b)"
  define s2 where "s2 = set_data h x s1"
  have d: "bf_data (bc_buf s1 ! h) = view dev s b" using bcache.data_ok [OF s1(2,3)] s1(4) by simp
  note p = bcache.put_ok [OF s1(2,3), of x, folded s2_def]
  have h2: "bio_inv dev s2" "has_buf pid dev s2 h b" "rc dev s2 b < 2 ^ 32 - 1" using p s1(3,5) assms(3) by auto
  have no: "bf_blockno (bc_buf s2 ! h) = b" by (rule has_bufD(3) [OF h2(1,2)])
  have n: "lg_n l < int LOGBLOCKS" "us \<noteq> []" using r blocks_left_pos [OF assms(6,5)] assms(6) by (auto simp: log_inv_def)
  obtain l1 s3 where s3: "log_write h l s2 = Ok (l1, s3)" "bio_inv dev s3" "has_buf pid dev s3 h b" "view dev s3 = view dev s2" "held dev s3 = held dev s2"
    "bc_disk s3 = bc_disk s2" "1 < rc dev s3 b" "\<forall>c. c \<noteq> b \<longrightarrow> rc dev s3 c = rc dev s c" "set (take (ntx l1) (lg_block l1)) = insert b (set (take (ntx l) (lg_block l)))"
  proof (rule log_write_cases [of l us h s2])
    show "log_inv l us" "lg_n l < int LOGBLOCKS" "us \<noteq> []" using r n by simp_all
  next
    assume a: "log_write h l s2 = Ok (l, s2)" "bf_blockno (bc_buf s2 ! h) \<in> set (take (ntx l) (lg_block l))"
    then have "0 < rc dev s b" using r no by (auto simp: pinned_def)
    then show thesis using that [OF a(1) h2(1,2)] p s1(5) a(2) no by auto
  next
    fix l' assume a: "log_write h l s2 = Ok (l', bpin h s2)" "lg_n l' = lg_n l + 1" "take (ntx l') (lg_block l') = take (ntx l) (lg_block l) @ [bf_blockno (bc_buf s2 ! h)]"
    note q = bpin_ok [OF h2]
    show thesis using that [OF a(1) q(1) q(7) [OF h2(2)]] q p s1(5) a(3) no by auto
  qed
  obtain s4 where s4: "brelse pid h s3 = Ok s4" "bio_inv dev s4" "view dev s4 = view dev s3" "rc dev s4 = (rc dev s3)(b := rc dev s3 b - 1)"
    "held dev s4 = (held dev s3)(b := False)" "bc_disk s4 = bc_disk s3" using brelse_ok [OF s3(2,3)] s3(7) by auto
  have "change_block pid dev b f l s = Ok (l1, s4)" using s1(1) d s3(1) s4(1) by (simp add: change_block_def s2_def x_def)
  moreover have "log_inv l1 (us[i := insert b (us ! i)])" using log_write_inv [OF _ assms(6,5) s3(1), unfolded no] r by blast
  moreover have "pinned dev l1 s4" using r s3(7-9) s4(4) by (auto simp: pinned_def)
  moreover have "view dev s4 = (view dev s)(b := x)" using s4(3) s3(4) p s1(4) by simp
  moreover have "held dev s4 = held dev s" "bc_disk s4 = bc_disk s" using s4(5,6) s3(5,6) p s1(6,7) assms(2) by (auto simp: fun_eq_iff)
  ultimately show ?thesis using r s3(9) s4(2) by (auto simp: represents_def x_def put_block_def)
qed

theorem change_block_refines_witness:
  "\<exists>st l' s'. change_block 1 1 7 (\<lambda>_. [9]) (log0\<lparr>lg_outstanding := 1\<rparr>) (binit (bcache0 (\<lambda>_. []))) = Ok (l', s') \<and> represents 1 l' [{7}] s' (put_block 7 (\<lambda>_. [9]) st)"
proof -
  let ?l = "log0\<lparr>lg_outstanding := 1\<rparr>" let ?s = "binit (bcache0 (\<lambda>_. []))"
  let ?st = "\<lparr>fs_sb = undefined, fs_blk = \<lambda>_. [], fs_logged = [], fs_itable = []\<rparr>"
  note b = binit_ok [of 1 "\<lambda>_. []", OF one_neq_zero]
  have "represents 1 ?l [{}] ?s ?st"
    using b(1,2) by (simp add: represents_def log_inv_def pinned_def log0_def LOGBLOCKS_def MAXOPBLOCKS_def)
  from change_block_refines [OF this b(4), of 7 0 1 "\<lambda>_. [9]"] b(3) show ?thesis by (auto simp: NBUF_def MAXOPBLOCKS_def)
qed
end
