(* ===== verification/Kalloc.thy ===== *)
theory Kalloc
  imports Memlayout
begin

text \<open>
  The physical page allocator, \<open>xv6/kernel/kalloc.c\<close>. Physical memory is a map from page addresses and
  word indices to 64-bit words; the free list runs through the first word of each free page, as in the
  code. The linker symbol \<open>end\<close> is a field of the state. The locale states what a page allocator
  promises to its clients, and the free list is an instance of it.
\<close>

section \<open>Memory\<close>

type_synonym mem = "u64 \<Rightarrow> nat \<Rightarrow> u64"

text \<open>\<open>memset(pg, c, PGSIZE)\<close>: every word of the page is eight copies of the byte.\<close>

definition rep8 :: "u8 \<Rightarrow> u64" where
  "rep8 c = ucast c * 0x0101010101010101"

definition memset_page :: "u64 \<Rightarrow> u8 \<Rightarrow> mem \<Rightarrow> mem" where
  "memset_page pg c m = m(pg := (\<lambda>_. rep8 c))"

definition set_word :: "u64 \<Rightarrow> nat \<Rightarrow> u64 \<Rightarrow> mem \<Rightarrow> mem" where
  "set_word pg i v m = m(pg := (m pg)(i := v))"

section \<open>The allocator\<close>

record kmem =
  km_freelist :: u64
  km_cells :: mem
  km_end :: u64

definition page_ok :: "u64 \<Rightarrow> u64 \<Rightarrow> bool" where
  "page_ok kend pa \<longleftrightarrow> page_aligned pa \<and> kend \<le> pa \<and> pa < PHYSTOP"

definition kfree :: "u64 \<Rightarrow> kmem \<Rightarrow> kmem res" where
  "kfree pa k =
     (if pa mod PGSIZE \<noteq> 0 \<or> pa < km_end k \<or> pa \<ge> PHYSTOP then Panic ''kfree''
      else
        (let m1 = memset_page pa 1 (km_cells k)
         in Ok (k\<lparr>km_cells := set_word pa 0 (km_freelist k) m1, km_freelist := pa\<rparr>)))"

definition kalloc :: "kmem \<Rightarrow> u64 \<times> kmem" where
  "kalloc k =
     (let r = km_freelist k;
          k1 = (if r \<noteq> 0 then k\<lparr>km_freelist := km_cells k r 0\<rparr> else k)
      in (r, if r \<noteq> 0 then k1\<lparr>km_cells := memset_page r 5 (km_cells k1)\<rparr> else k1))"

function freerange_loop :: "u64 \<Rightarrow> u64 \<Rightarrow> kmem \<Rightarrow> kmem res" where
  "freerange_loop p pa_end k =
     (if unat p + 4096 \<le> unat pa_end
      then bind_res (kfree p k) (freerange_loop (p + PGSIZE) pa_end)
      else Ok k)"
  by pat_completeness auto
termination
proof (relation "measure (\<lambda>(p, e, k). unat e - unat p)")
  fix p pa_end :: u64 and k x :: kmem
  assume le: "unat p + 4096 \<le> unat pa_end"
  have "unat pa_end < 2 ^ 64" using unsigned_less [of pa_end] by simp
  then have "unat (p + PGSIZE) = unat p + 4096" using le by (simp add: PGSIZE_def unat_word_ariths)
  with le show "((p + PGSIZE, pa_end, x), p, pa_end, k) \<in> measure (\<lambda>(p, e, k). unat e - unat p)" by simp
qed simp

declare freerange_loop.simps [simp del]

definition freerange :: "u64 \<Rightarrow> u64 \<Rightarrow> kmem \<Rightarrow> kmem res" where
  "freerange pa_start pa_end k = freerange_loop (PGROUNDUP pa_start) pa_end k"

definition kinit :: "mem \<Rightarrow> u64 \<Rightarrow> kmem res" where
  "kinit m kend = freerange kend PHYSTOP \<lparr>km_freelist = 0, km_cells = m, km_end = kend\<rparr>"

section \<open>The free list\<close>

fun flist :: "mem \<Rightarrow> u64 \<Rightarrow> u64 list \<Rightarrow> bool" where
  "flist m p [] \<longleftrightarrow> p = 0"
| "flist m p (q # qs) \<longleftrightarrow> p = q \<and> q \<noteq> 0 \<and> flist m (m q 0) qs"

lemma flist_unique: "flist m p qs \<Longrightarrow> flist m p rs \<Longrightarrow> qs = rs"
  by (induction qs arbitrary: p rs) (case_tac rs; auto)+

lemma flist_frame: "q \<notin> set qs \<Longrightarrow> flist (m(q := w)) p qs = flist m p qs"
  by (induction qs arbitrary: p) auto

definition free_pages :: "kmem \<Rightarrow> u64 set" where
  "free_pages k = {q. \<exists>qs. flist (km_cells k) (km_freelist k) qs \<and> q \<in> set qs}"

definition kmem_inv :: "kmem \<Rightarrow> bool" where
  "kmem_inv k \<longleftrightarrow> 0 < km_end k \<and> (\<exists>qs. flist (km_cells k) (km_freelist k) qs \<and> distinct qs
     \<and> (\<forall>q \<in> set qs. page_ok (km_end k) q))"

lemma free_pages_eq: "flist (km_cells k) (km_freelist k) qs \<Longrightarrow> free_pages k = set qs"
  by (auto simp: free_pages_def dest: flist_unique)

lemma kmem_inv_cases:
  assumes "kmem_inv k"
  obtains qs where "flist (km_cells k) (km_freelist k) qs" "distinct qs" "free_pages k = set qs"
    "\<forall>q \<in> set qs. page_ok (km_end k) q" "0 < km_end k"
  using assms free_pages_eq by (auto simp: kmem_inv_def)

lemma page_ok_nonzero: "page_ok kend p \<Longrightarrow> 0 < kend \<Longrightarrow> p \<noteq> 0"
  by (auto simp: page_ok_def)

text \<open>
  What a page allocator promises: allocation fails exactly when nothing is free; a page handed out was
  free and no longer is; pages that are not free keep their contents; a freed page becomes free again;
  and freeing a page of the managed range that is in use never fails.
\<close>

locale page_allocator =
  fixes alloc :: "'s \<Rightarrow> u64 \<times> 's" and free :: "u64 \<Rightarrow> 's \<Rightarrow> 's res"
    and inv :: "'s \<Rightarrow> bool" and pages :: "'s \<Rightarrow> u64 set" and cell :: "'s \<Rightarrow> mem" and managed :: "'s \<Rightarrow> u64 \<Rightarrow> bool"
  assumes finite_pages: "inv s \<Longrightarrow> finite (pages s)"
    and alloc_none: "inv s \<Longrightarrow> pages s = {} \<Longrightarrow> alloc s = (0, s)"
    and alloc_some: "inv s \<Longrightarrow> pages s \<noteq> {} \<Longrightarrow> alloc s = (p, s1) \<Longrightarrow>
      p \<in> pages s \<and> p \<noteq> 0 \<and> inv s1 \<and> pages s1 = pages s - {p} \<and> managed s1 = managed s
      \<and> (\<forall>q. q \<noteq> p \<longrightarrow> cell s1 q = cell s q)"
    and free_ok: "inv s \<Longrightarrow> managed s p \<Longrightarrow> p \<notin> pages s \<Longrightarrow>
      \<exists>s1. free p s = Ok s1 \<and> inv s1 \<and> pages s1 = insert p (pages s) \<and> managed s1 = managed s
      \<and> (\<forall>q. q \<noteq> p \<longrightarrow> cell s1 q = cell s q)"
    and pages_managed: "inv s \<Longrightarrow> p \<in> pages s \<Longrightarrow> managed s p"
begin

lemma alloc_zero_iff: "inv s \<Longrightarrow> fst (alloc s) = 0 \<longleftrightarrow> pages s = {}"
  using alloc_none [of s] alloc_some [of s "fst (alloc s)" "snd (alloc s)"] by (cases "pages s = {}") auto

lemma alloc_free_restores:
  assumes "inv s" "pages s \<noteq> {}" "alloc s = (p, s1)"
  shows "\<exists>s2. free p s1 = Ok s2 \<and> inv s2 \<and> pages s2 = pages s"
proof -
  note a = alloc_some [OF assms]
  have "managed s1 p" using a pages_managed [OF assms(1)] by auto
  with a free_ok [of s1 p] show ?thesis by auto
qed

text \<open>Successive allocations hand out different pages until nothing is left.\<close>

lemma alloc_twice_distinct:
  assumes "inv s" "pages s \<noteq> {}" "alloc s = (p, s1)" "alloc s1 = (q, s2)" "q \<noteq> 0"
  shows "p \<noteq> q" "pages s2 = pages s - {p, q}" "inv s2"
proof -
  note a = alloc_some [OF assms(1-3)]
  have ne: "pages s1 \<noteq> {}" using alloc_zero_iff [of s1] a assms(4,5) by auto
  note b = alloc_some [OF _ ne assms(4)]
  from a b show "p \<noteq> q" "pages s2 = pages s - {p, q}" "inv s2" by auto
qed

lemma free_alloc_card:
  assumes "inv s" "managed s p" "p \<notin> pages s" "free p s = Ok s1"
  shows "card (pages s1) = Suc (card (pages s))"
  using free_ok [OF assms(1-3)] assms(3,4) finite_pages [OF assms(1)] by auto

end

lemma kalloc_some:
  assumes inv: "kmem_inv k" and ne: "free_pages k \<noteq> {}" and al: "kalloc k = (p, k1)"
  shows "p \<in> free_pages k" "p \<noteq> 0" "kmem_inv k1" "free_pages k1 = free_pages k - {p}" "km_end k1 = km_end k"
    and "\<And>q. q \<noteq> p \<Longrightarrow> km_cells k1 q = km_cells k q"
proof -
  obtain qs where qs: "flist (km_cells k) (km_freelist k) qs" "distinct qs" "free_pages k = set qs"
    "\<forall>q \<in> set qs. page_ok (km_end k) q" "0 < km_end k" using inv by (rule kmem_inv_cases)
  then obtain rs where r: "qs = km_freelist k # rs" "km_freelist k \<noteq> 0"
    using ne by (cases qs) auto
  then have k1: "p = km_freelist k" "k1 = k\<lparr>km_freelist := km_cells k p 0, km_cells := memset_page p 5 (km_cells k)\<rparr>"
    using al by (auto simp: kalloc_def Let_def)
  have fl: "flist (km_cells k1) (km_freelist k1) rs"
    using qs(1,2) r k1 by (simp add: memset_page_def flist_frame)
  show "p \<in> free_pages k" "p \<noteq> 0" using qs(3) r k1 by simp_all
  show "km_end k1 = km_end k" using k1 by simp
  show "\<And>q. q \<noteq> p \<Longrightarrow> km_cells k1 q = km_cells k q" using k1 by (simp add: memset_page_def)
  show "free_pages k1 = free_pages k - {p}" using free_pages_eq [OF fl] qs(2,3) r k1 by auto
  show "kmem_inv k1" using fl qs r k1 by (auto simp: kmem_inv_def)
qed

lemma kalloc_none: "kmem_inv k \<Longrightarrow> free_pages k = {} \<Longrightarrow> kalloc k = (0, k)"
proof -
  assume inv: "kmem_inv k" and none: "free_pages k = {}"
  obtain qs where "flist (km_cells k) (km_freelist k) qs" "free_pages k = set qs" using inv by (rule kmem_inv_cases)
  with none have "km_freelist k = 0" by simp
  then show "kalloc k = (0, k)" by (simp add: kalloc_def)
qed

lemma kfree_some:
  assumes inv: "kmem_inv k" and p: "page_ok (km_end k) p" "p \<notin> free_pages k"
  shows "\<exists>k1. kfree p k = Ok k1 \<and> kmem_inv k1 \<and> free_pages k1 = insert p (free_pages k) \<and> km_end k1 = km_end k
    \<and> (\<forall>q. q \<noteq> p \<longrightarrow> km_cells k1 q = km_cells k q)"
proof -
  obtain qs where qs: "flist (km_cells k) (km_freelist k) qs" "distinct qs" "free_pages k = set qs"
    "\<forall>q \<in> set qs. page_ok (km_end k) q" "0 < km_end k" using inv by (rule kmem_inv_cases)
  let ?k = "k\<lparr>km_cells := set_word p 0 (km_freelist k) (memset_page p 1 (km_cells k)), km_freelist := p\<rparr>"
  have run: "kfree p k = Ok ?k" using p by (auto simp: kfree_def page_ok_def page_aligned_def Let_def)
  have nz: "p \<noteq> 0" using p(1) qs(5) by (rule page_ok_nonzero)
  have fl: "flist (km_cells ?k) (km_freelist ?k) (p # qs)"
    using qs(1,3) p(2) nz by (simp add: set_word_def memset_page_def flist_frame)
  have "free_pages ?k = insert p (free_pages k)" using free_pages_eq [OF fl] qs(3) by simp
  moreover have "kmem_inv ?k" unfolding kmem_inv_def
    using fl qs p by (intro conjI exI [of _ "p # qs"]) auto
  ultimately show ?thesis using run by (auto simp: set_word_def memset_page_def)
qed

interpretation kmem_alloc: page_allocator kalloc kfree kmem_inv free_pages km_cells "\<lambda>k. page_ok (km_end k)"
proof unfold_locales
  fix k assume "kmem_inv k"
  then show "finite (free_pages k)" by (rule kmem_inv_cases) simp
next
  fix k assume "kmem_inv k" "free_pages k = {}"
  then show "kalloc k = (0, k)" by (rule kalloc_none)
next
  fix k p k1 assume "kmem_inv k" "free_pages k \<noteq> {}" "kalloc k = (p, k1)"
  then show "p \<in> free_pages k \<and> p \<noteq> 0 \<and> kmem_inv k1 \<and> free_pages k1 = free_pages k - {p}
     \<and> page_ok (km_end k1) = page_ok (km_end k) \<and> (\<forall>q. q \<noteq> p \<longrightarrow> km_cells k1 q = km_cells k q)"
    using kalloc_some by metis
next
  fix k p assume "kmem_inv k" "page_ok (km_end k) p" "p \<notin> free_pages k"
  then show "\<exists>k1. kfree p k = Ok k1 \<and> kmem_inv k1 \<and> free_pages k1 = insert p (free_pages k)
     \<and> page_ok (km_end k1) = page_ok (km_end k) \<and> (\<forall>q. q \<noteq> p \<longrightarrow> km_cells k1 q = km_cells k q)"
    using kfree_some [of k p] by auto
next
  fix k p assume "kmem_inv k" "p \<in> free_pages k"
  then show "page_ok (km_end k) p" by (metis kmem_inv_cases)
qed

section \<open>Start-up\<close>

lemma unat_PHYSTOP: "unat PHYSTOP = 0x88000000"
  by (simp add: PHYSTOP_def KERNBASE_def)

lemma aligned_below_PHYSTOP:
  assumes "page_aligned q"
  shows "q < PHYSTOP \<longleftrightarrow> unat q + 4096 \<le> unat PHYSTOP"
proof -
  have "4096 dvd unat q" using assms by (simp add: page_aligned_iff mod_eq_0_iff_dvd)
  then obtain m where "unat q = 4096 * m" by (elim dvdE)
  then show ?thesis by (auto simp: word_less_nat_alt unat_PHYSTOP)
qed

lemma next_page:
  assumes "unat p + 4096 \<le> unat PHYSTOP"
  shows "unat (p + PGSIZE) = unat p + 4096"
  using assms by (simp add: PGSIZE_def unat_word_ariths unat_PHYSTOP)

lemma freerange_loop_spec:
  assumes "kmem_inv k" "page_aligned p" "km_end k \<le> p" "\<forall>q \<in> free_pages k. q < p"
  shows "\<exists>k1. freerange_loop p PHYSTOP k = Ok k1 \<and> kmem_inv k1 \<and> km_end k1 = km_end k
    \<and> free_pages k1 = free_pages k \<union> {q. page_aligned q \<and> p \<le> q \<and> q < PHYSTOP}"
  using assms
proof (induction p PHYSTOP k rule: freerange_loop.induct)
  case (1 p k)
  show ?case
  proof (cases "unat p + 4096 \<le> unat PHYSTOP")
    case True
    let ?P = "\<lambda>p. {q. page_aligned q \<and> p \<le> q \<and> q < PHYSTOP}"
    have p: "page_ok (km_end k) p" "p \<notin> free_pages k"
      using "1.prems" True aligned_below_PHYSTOP [of p] by (auto simp: page_ok_def)
    obtain k1 where k1: "kfree p k = Ok k1" "kmem_inv k1" "free_pages k1 = insert p (free_pages k)" "km_end k1 = km_end k"
      using kfree_some [OF "1.prems"(1) p] by blast
    have np: "unat (p + PGSIZE) = unat p + 4096" using True by (rule next_page)
    have al: "page_aligned (p + PGSIZE)" using "1.prems"(2) np by (simp add: page_aligned_iff)
    have lt: "p < p + PGSIZE" using np by (simp add: word_less_nat_alt)
    have fr: "\<forall>q \<in> free_pages k1. q < p + PGSIZE" using "1.prems"(4) k1(3) lt by auto
    have en: "km_end k1 \<le> p + PGSIZE" using "1.prems"(3) k1(4) lt by auto
    from "1.hyps" [OF True k1(2) al en fr] obtain k2 where
      k2: "freerange_loop (p + PGSIZE) PHYSTOP k1 = Ok k2" "kmem_inv k2" "km_end k2 = km_end k1"
      "free_pages k2 = free_pages k1 \<union> ?P (p + PGSIZE)" by (elim exE conjE)
    have "?P p = insert p (?P (p + PGSIZE))"
    proof -
      have "q = p \<or> p + PGSIZE \<le> q" if "page_aligned q" "p \<le> q" for q
      proof -
        have "4096 dvd unat q" "4096 dvd unat p" using that "1.prems"(2) by (simp_all add: page_aligned_iff mod_eq_0_iff_dvd)
        then obtain a b where ab: "unat q = 4096 * a" "unat p = 4096 * b" by (elim dvdE) blast
        moreover have "unat p \<le> unat q" using that(2) by (simp add: word_le_nat_alt)
        ultimately have "b \<le> a" by simp
        then have "a = b \<or> b + 1 \<le> a" by linarith
        then have "unat q = unat p \<or> unat p + 4096 \<le> unat q" unfolding ab by auto
        then show ?thesis using np by (auto simp: word_le_nat_alt word_unat_eq_iff)
      qed
      then show ?thesis using p(1) lt by (auto simp: page_ok_def)
    qed
    with k1 k2 True show ?thesis by (subst freerange_loop.simps) auto
  next
    case False
    have "{q. page_aligned q \<and> p \<le> q \<and> q < PHYSTOP} = {}"
      using False aligned_below_PHYSTOP by (auto simp: word_le_nat_alt)
    with False "1.prems" show ?thesis by (subst freerange_loop.simps) auto
  qed
qed

lemma le_PGROUNDUP:
  assumes "0 < a" "a \<le> PHYSTOP"
  shows "page_aligned q \<and> PGROUNDUP a \<le> q \<longleftrightarrow> page_aligned q \<and> a \<le> q"
proof -
  have "unat a \<le> unat PHYSTOP" using assms(2) by (simp add: word_le_nat_alt)
  then have up: "unat (PGROUNDUP a) = (unat a + 4095) div 4096 * 4096" by (intro unat_PGROUNDUP) (simp add: unat_PHYSTOP)
  have "(unat a + 4095) div 4096 * 4096 \<le> unat q \<longleftrightarrow> unat a \<le> unat q" if "unat q mod 4096 = 0"
  proof -
    from that obtain m where q: "unat q = 4096 * m" by (auto simp: mod_eq_0_iff_dvd elim: dvdE)
    have "(unat a + 4095) div 4096 * 4096 \<le> 4096 * m \<longleftrightarrow> (unat a + 4095) div 4096 < Suc m" by auto
    also have "\<dots> \<longleftrightarrow> unat a + 4095 < Suc m * 4096" by (rule div_less_iff_less_mult) simp
    also have "\<dots> \<longleftrightarrow> unat a \<le> 4096 * m" by auto
    finally show ?thesis unfolding q .
  qed
  then show ?thesis using up by (auto simp: page_aligned_iff word_le_nat_alt)
qed

section \<open>Properties\<close>

text \<open>Page allocation: from any state of the free list, \<open>kalloc\<close> returns 0 exactly when no page is free,
  otherwise a free page that is no longer free; freeing it again restores the set of free pages; and
  no page but the one handed out or taken back changes its contents.\<close>

theorem kalloc_kfree_correct:
  assumes "kmem_inv k" and "kalloc k = (p, k1)"
  shows "(p = 0 \<longleftrightarrow> free_pages k = {})
    \<and> (p \<noteq> 0 \<longrightarrow> p \<in> free_pages k \<and> free_pages k1 = free_pages k - {p} \<and> (\<forall>q. q \<noteq> p \<longrightarrow> km_cells k1 q = km_cells k q)
       \<and> (\<exists>k2. kfree p k1 = Ok k2 \<and> kmem_inv k2 \<and> free_pages k2 = free_pages k \<and> (\<forall>q. q \<noteq> p \<longrightarrow> km_cells k2 q = km_cells k q)))"
proof (cases "free_pages k = {}")
  case True
  with kmem_alloc.alloc_none [OF assms(1)] assms(2) show ?thesis by auto
next
  case False
  note a = kmem_alloc.alloc_some [OF assms(1) False assms(2)]
  then have "page_ok (km_end k1) p" "p \<notin> free_pages k1" using kmem_alloc.pages_managed [OF assms(1)] by auto
  with kmem_alloc.free_ok [of k1 p] a obtain k2 where
    "kfree p k1 = Ok k2" "kmem_inv k2" "free_pages k2 = insert p (free_pages k1)" "\<forall>q. q \<noteq> p \<longrightarrow> km_cells k2 q = km_cells k1 q"
    by blast
  with a False show ?thesis by (auto simp: insert_absorb)
qed

definition demo_kmem :: kmem where
  "demo_kmem = \<lparr>km_freelist = 0x80001000, km_cells = (\<lambda>_ _. 0), km_end = 0x80000000\<rparr>"

lemma demo_kmem_inv: "kmem_inv demo_kmem" "free_pages demo_kmem = {0x80001000}"
proof -
  have f: "flist (km_cells demo_kmem) (km_freelist demo_kmem) [0x80001000]" by (simp add: demo_kmem_def)
  show "free_pages demo_kmem = {0x80001000}" using free_pages_eq [OF f] by simp
  show "kmem_inv demo_kmem" unfolding kmem_inv_def
    using f by (intro conjI exI [of _ "[0x80001000]"])
      (simp_all add: demo_kmem_def page_ok_def page_aligned_def PGSIZE_def PHYSTOP_def KERNBASE_def)
qed

theorem kalloc_kfree_correct_witness:
  "\<exists>k2. kfree 0x80001000 (snd (kalloc demo_kmem)) = Ok k2 \<and> free_pages k2 = {0x80001000}"
proof -
  have "kalloc demo_kmem = (0x80001000, snd (kalloc demo_kmem))" by (simp add: kalloc_def demo_kmem_def Let_def)
  from kalloc_kfree_correct [OF demo_kmem_inv(1) this] show ?thesis by (auto simp: demo_kmem_inv)
qed

text \<open>Start-up: \<open>kinit\<close> does not panic and leaves exactly the page-aligned addresses from the end of the
  kernel to the top of physical memory on the free list, each once.\<close>

theorem kinit_frees_all_pages:
  assumes "0 < kend" and "kend \<le> PHYSTOP"
  shows "\<exists>k. kinit m kend = Ok k \<and> kmem_inv k \<and> free_pages k = {q. page_aligned q \<and> kend \<le> q \<and> q < PHYSTOP}"
proof -
  let ?k = "\<lparr>km_freelist = 0, km_cells = m, km_end = kend\<rparr>"
  have f: "flist (km_cells ?k) (km_freelist ?k) []" by simp
  have inv: "kmem_inv ?k" using assms(1) f unfolding kmem_inv_def by (intro conjI exI [of _ "[]"]) simp_all
  have "kend \<le> PGROUNDUP kend" using le_PGROUNDUP [OF assms, of "PGROUNDUP kend"] by simp
  then obtain k where "freerange_loop (PGROUNDUP kend) PHYSTOP ?k = Ok k" "kmem_inv k"
    "free_pages k = free_pages ?k \<union> {q. page_aligned q \<and> PGROUNDUP kend \<le> q \<and> q < PHYSTOP}"
    using freerange_loop_spec [OF inv, of "PGROUNDUP kend"] free_pages_eq [OF f] by auto
  moreover have "{q. page_aligned q \<and> PGROUNDUP kend \<le> q \<and> q < PHYSTOP} = {q. page_aligned q \<and> kend \<le> q \<and> q < PHYSTOP}"
    using le_PGROUNDUP [OF assms] by blast
  ultimately show ?thesis using free_pages_eq [OF f] by (simp add: kinit_def freerange_def)
qed

theorem kinit_frees_all_pages_witness: "\<exists>k. kinit (\<lambda>_ _. 0) 0x80020000 = Ok k \<and> 0x80021000 \<in> free_pages k"
  using kinit_frees_all_pages [where kend = "0x80020000" and m = "\<lambda>_ _. 0"] by (auto simp: PHYSTOP_def KERNBASE_def PGSIZE_def page_aligned_def)

end
