(* ===== verification/Vm.thy ===== *)
theory Vm
  imports Kalloc
begin

text \<open>
  Virtual memory, \<open>xv6/kernel/vm.c\<close>: three-level page tables in the pages of the allocator, mapping,
  unmapping, growing and copying user memory, and the copies between kernel and user. A pointer to a
  page-table entry is the page of the table with an index. Kernel buffers are byte lists.
\<close>

section \<open>Entries\<close>

definition PTE_V :: u64 where "PTE_V = 1"
definition PTE_R :: u64 where "PTE_R = 2"
definition PTE_W :: u64 where "PTE_W = 4"
definition PTE_X :: u64 where "PTE_X = 8"
definition PTE_U :: u64 where "PTE_U = 16"

definition PA2PTE :: "u64 \<Rightarrow> u64" where "PA2PTE pa = push_bit 10 (drop_bit 12 pa)"
definition PTE2PA :: "u64 \<Rightarrow> u64" where "PTE2PA pte = push_bit 12 (drop_bit 10 pte)"
definition PTE_FLAGS :: "u64 \<Rightarrow> u64" where "PTE_FLAGS pte = pte AND 0x3FF"

definition PX :: "nat \<Rightarrow> u64 \<Rightarrow> nat" where
  "PX level va = unat (drop_bit (12 + 9 * level) va AND 0x1FF)"

definition valid :: "u64 \<Rightarrow> bool" where "valid pte \<longleftrightarrow> pte AND PTE_V \<noteq> 0"

definition cell :: "kmem \<Rightarrow> u64 \<times> nat \<Rightarrow> u64" where
  "cell k pte = km_cells k (fst pte) (snd pte)"

definition set_cell :: "u64 \<times> nat \<Rightarrow> u64 \<Rightarrow> kmem \<Rightarrow> kmem" where
  "set_cell pte v k = k\<lparr>km_cells := set_word (fst pte) (snd pte) v (km_cells k)\<rparr>"

definition memset :: "u64 \<Rightarrow> u8 \<Rightarrow> kmem \<Rightarrow> kmem" where
  "memset pg c k = k\<lparr>km_cells := memset_page pg c (km_cells k)\<rparr>"

section \<open>Walking and mapping\<close>

fun walk_loop :: "nat \<Rightarrow> u64 \<Rightarrow> u64 \<Rightarrow> bool \<Rightarrow> kmem \<Rightarrow> (u64 \<times> nat) option \<times> kmem" where
  "walk_loop 0 pagetable va alloc k = (Some (pagetable, PX 0 va), k)"
| "walk_loop (Suc level) pagetable va alloc k =
     (let pte = (pagetable, PX (Suc level) va) in
      if valid (cell k pte) then walk_loop level (PTE2PA (cell k pte)) va alloc k
      else if \<not> alloc then (None, k)
      else (let (pg, k1) = kalloc k in
            if pg = 0 then (None, k1)
            else walk_loop level pg va alloc (set_cell pte (PA2PTE pg OR PTE_V) (memset pg 0 k1))))"

definition walk :: "u64 \<Rightarrow> u64 \<Rightarrow> bool \<Rightarrow> kmem \<Rightarrow> ((u64 \<times> nat) option \<times> kmem) res" where
  "walk pagetable va alloc k =
     (if va \<ge> MAXVA then Panic ''walk'' else Ok (walk_loop 2 pagetable va alloc k))"

definition walkaddr :: "u64 \<Rightarrow> u64 \<Rightarrow> kmem \<Rightarrow> u64" where
  "walkaddr pagetable va k =
     (if va \<ge> MAXVA then 0
      else case walk pagetable va False k of
        Panic m \<Rightarrow> 0
      | Ok (pte, k1) \<Rightarrow>
          (case pte of
             None \<Rightarrow> 0
           | Some pte \<Rightarrow>
               if \<not> valid (cell k pte) then 0
               else if cell k pte AND PTE_U = 0 then 0
               else PTE2PA (cell k pte)))"

text \<open>The loop of \<open>mappages\<close> for \<open>Suc n\<close> pages; the last page is reached when \<open>n = 0\<close>.\<close>

fun mappages_loop :: "nat \<Rightarrow> u64 \<Rightarrow> u64 \<Rightarrow> u64 \<Rightarrow> u64 \<Rightarrow> kmem \<Rightarrow> (int \<times> kmem) res" where
  "mappages_loop n pagetable a pa perm k =
     bind_res (walk pagetable a True k) (\<lambda>(pte, k1).
       case pte of
         None \<Rightarrow> Ok (- 1, k1)
       | Some pte \<Rightarrow>
           if valid (cell k1 pte) then Panic ''mappages: remap''
           else
             (let k2 = set_cell pte (PA2PTE pa OR perm OR PTE_V) k1 in
              case n of
                0 \<Rightarrow> Ok (0, k2)
              | Suc n \<Rightarrow> mappages_loop n pagetable (a + PGSIZE) (pa + PGSIZE) perm k2))"

definition mappages :: "u64 \<Rightarrow> u64 \<Rightarrow> u64 \<Rightarrow> u64 \<Rightarrow> u64 \<Rightarrow> kmem \<Rightarrow> (int \<times> kmem) res" where
  "mappages pagetable va sz pa perm k =
     (if va mod PGSIZE \<noteq> 0 then Panic ''mappages: va not aligned''
      else if sz mod PGSIZE \<noteq> 0 then Panic ''mappages: size not aligned''
      else if sz = 0 then Panic ''mappages: size''
      else mappages_loop (unat (sz div PGSIZE) - 1) pagetable va pa perm k)"

definition kvmmap :: "u64 \<Rightarrow> u64 \<Rightarrow> u64 \<Rightarrow> u64 \<Rightarrow> u64 \<Rightarrow> kmem \<Rightarrow> kmem res" where
  "kvmmap kpgtbl va pa sz perm k =
     bind_res (mappages kpgtbl va sz pa perm k) (\<lambda>(r, k1). if r \<noteq> 0 then Panic ''kvmmap'' else Ok k1)"

definition uvmcreate :: "kmem \<Rightarrow> u64 \<times> kmem" where
  "uvmcreate k = (let (pagetable, k1) = kalloc k in if pagetable = 0 then (0, k1) else (pagetable, memset pagetable 0 k1))"

lemma walk_below_MAXVA: "walk pagetable va alloc k = Ok r \<Longrightarrow> va < MAXVA"
  by (simp add: walk_def not_le split: if_splits)

lemma unat_next_va:
  assumes "va < MAXVA"
  shows "unat (va + PGSIZE) = unat va + 4096"
proof -
  have "unat va < 2 ^ 38" using assms by (simp add: word_less_nat_alt MAXVA_def)
  then show ?thesis by (simp add: PGSIZE_def unat_word_ariths)
qed

section \<open>Unmapping and freeing\<close>

text \<open>\<open>uvmunmap\<close> from \<open>a\<close> up to \<open>end\<close>; \<open>walk\<close> panics before \<open>a\<close> can wrap.\<close>

function uvmunmap_loop :: "u64 \<Rightarrow> u64 \<Rightarrow> u64 \<Rightarrow> bool \<Rightarrow> kmem \<Rightarrow> kmem res" where
  "uvmunmap_loop pagetable a e do_free k =
     (if a < e then
        (case walk pagetable a False k of
           Panic m \<Rightarrow> Panic m
         | Ok (None, _) \<Rightarrow> uvmunmap_loop pagetable (a + PGSIZE) e do_free k
         | Ok (Some pte, _) \<Rightarrow>
             if \<not> valid (cell k pte) then uvmunmap_loop pagetable (a + PGSIZE) e do_free k
             else
               (case (if do_free then kfree (PTE2PA (cell k pte)) k else Ok k) of
                  Panic m \<Rightarrow> Panic m
                | Ok k1 \<Rightarrow> uvmunmap_loop pagetable (a + PGSIZE) e do_free (set_cell pte 0 k1)))
      else Ok k)"
  by pat_completeness auto
termination
  by (relation "measure (\<lambda>(pt, a, e, f, k). unat e - unat a)")
    (auto dest!: walk_below_MAXVA simp: unat_next_va word_less_nat_alt)

declare uvmunmap_loop.simps [simp del]

definition uvmunmap :: "u64 \<Rightarrow> u64 \<Rightarrow> u64 \<Rightarrow> bool \<Rightarrow> kmem \<Rightarrow> kmem res" where
  "uvmunmap pagetable va npages do_free k =
     (if va mod PGSIZE \<noteq> 0 then Panic ''uvmunmap: not aligned''
      else uvmunmap_loop pagetable va (va + npages * PGSIZE) do_free k)"

text \<open>A \<open>uint64\<close> stored in an \<open>int\<close> and passed on as a \<open>uint64\<close>: the page count of \<open>uvmdealloc\<close>.\<close>

definition int_of_u64 :: "u64 \<Rightarrow> u64" where
  "int_of_u64 w = scast (ucast w :: 32 word)"

definition uvmdealloc :: "u64 \<Rightarrow> u64 \<Rightarrow> u64 \<Rightarrow> kmem \<Rightarrow> (u64 \<times> kmem) res" where
  "uvmdealloc pagetable oldsz newsz k =
     (if newsz \<ge> oldsz then Ok (oldsz, k)
      else if PGROUNDUP newsz < PGROUNDUP oldsz
        then bind_res (uvmunmap pagetable (PGROUNDUP newsz) (int_of_u64 ((PGROUNDUP oldsz - PGROUNDUP newsz) div PGSIZE)) True k)
               (\<lambda>k1. Ok (newsz, k1))
        else Ok (newsz, k))"

lemma mappages_below_MAXVA:
  assumes "mappages pagetable va sz pa perm k = Ok r"
  shows "va < MAXVA"
proof -
  from assms obtain n where "mappages_loop n pagetable va pa perm k = Ok r"
    by (auto simp: mappages_def simp del: mappages_loop.simps split: if_splits)
  then obtain w where "walk pagetable va True k = Ok w" by (subst (asm) mappages_loop.simps) auto
  then show ?thesis by (rule walk_below_MAXVA)
qed

function uvmalloc_loop :: "u64 \<Rightarrow> u64 \<Rightarrow> u64 \<Rightarrow> u64 \<Rightarrow> u64 \<Rightarrow> kmem \<Rightarrow> (u64 \<times> kmem) res" where
  "uvmalloc_loop pagetable oldsz a newsz xperm k =
     (if a < newsz then
        (let (mem, k1) = kalloc k in
         if mem = 0 then bind_res (uvmdealloc pagetable a oldsz k1) (\<lambda>(_, k2). Ok (0, k2))
         else
           (case mappages pagetable a PGSIZE mem (PTE_R OR PTE_U OR xperm) (memset mem 0 k1) of
              Panic m \<Rightarrow> Panic m
            | Ok (r, k2) \<Rightarrow>
                if r \<noteq> 0
                then bind_res (kfree mem k2) (\<lambda>k3. bind_res (uvmdealloc pagetable a oldsz k3) (\<lambda>(_, k4). Ok (0, k4)))
                else uvmalloc_loop pagetable oldsz (a + PGSIZE) newsz xperm k2))
      else Ok (newsz, k))"
  by pat_completeness auto
termination
  by (relation "measure (\<lambda>(pt, old, a, n, x, k). unat n - unat a)")
    (auto dest!: mappages_below_MAXVA simp: unat_next_va word_less_nat_alt)

declare uvmalloc_loop.simps [simp del]

definition uvmalloc :: "u64 \<Rightarrow> u64 \<Rightarrow> u64 \<Rightarrow> u64 \<Rightarrow> kmem \<Rightarrow> (u64 \<times> kmem) res" where
  "uvmalloc pagetable oldsz newsz xperm k =
     (if newsz < oldsz then Ok (oldsz, k)
      else uvmalloc_loop pagetable (PGROUNDUP oldsz) (PGROUNDUP oldsz) newsz xperm k)"


text \<open>
  \<open>freewalk\<close> recurses into the tables below; the first argument bounds the depth, and the three levels
  of a page table never exceed it.
\<close>

primrec freewalk :: "nat \<Rightarrow> u64 \<Rightarrow> kmem \<Rightarrow> kmem res" where
  "freewalk 0 pagetable k = Panic ''stack''"
| "freewalk (Suc depth) pagetable k =
     bind_res
       (fold_res
         (\<lambda>i k. let pte = cell k (pagetable, i) in
            if valid pte \<and> pte AND (PTE_R OR PTE_W OR PTE_X) = 0
            then bind_res (freewalk depth (PTE2PA pte) k) (\<lambda>k1. Ok (set_cell (pagetable, i) 0 k1))
            else if valid pte then Panic ''freewalk: leaf''
            else Ok k)
         [0..<512] k)
       (kfree pagetable)"

definition uvmfree :: "u64 \<Rightarrow> u64 \<Rightarrow> kmem \<Rightarrow> kmem res" where
  "uvmfree pagetable sz k =
     bind_res (if sz > 0 then uvmunmap pagetable 0 (PGROUNDUP sz div PGSIZE) True k else Ok k)
       (freewalk 3 pagetable)"

section \<open>Copying an address space\<close>

definition copy_page :: "u64 \<Rightarrow> u64 \<Rightarrow> kmem \<Rightarrow> kmem" where
  "copy_page dst src k = k\<lparr>km_cells := (km_cells k)(dst := km_cells k src)\<rparr>"

function uvmcopy_loop :: "u64 \<Rightarrow> u64 \<Rightarrow> u64 \<Rightarrow> u64 \<Rightarrow> kmem \<Rightarrow> (int \<times> kmem) res" where
  "uvmcopy_loop old new i sz k =
     (if i < sz then
        (case walk old i False k of
           Panic m \<Rightarrow> Panic m
         | Ok (None, _) \<Rightarrow> uvmcopy_loop old new (i + PGSIZE) sz k
         | Ok (Some pte, _) \<Rightarrow>
             if \<not> valid (cell k pte) then uvmcopy_loop old new (i + PGSIZE) sz k
             else
               (let pa = PTE2PA (cell k pte); flags = PTE_FLAGS (cell k pte); (mem, k1) = kalloc k in
                if mem = 0 then bind_res (uvmunmap new 0 (i div PGSIZE) True k1) (\<lambda>k2. Ok (- 1, k2))
                else
                  (case mappages new i PGSIZE mem flags (copy_page mem pa k1) of
                     Panic m \<Rightarrow> Panic m
                   | Ok (r, k2) \<Rightarrow>
                       if r \<noteq> 0
                       then bind_res (kfree mem k2) (\<lambda>k3. bind_res (uvmunmap new 0 (i div PGSIZE) True k3) (\<lambda>k4. Ok (- 1, k4)))
                       else uvmcopy_loop old new (i + PGSIZE) sz k2)))
      else Ok (0, k))"
  by pat_completeness auto
termination
  by (relation "measure (\<lambda>(old, new, i, sz, k). unat sz - unat i)")
    (auto dest!: walk_below_MAXVA simp: unat_next_va word_less_nat_alt)

declare uvmcopy_loop.simps [simp del]

definition uvmcopy :: "u64 \<Rightarrow> u64 \<Rightarrow> u64 \<Rightarrow> kmem \<Rightarrow> (int \<times> kmem) res" where
  "uvmcopy old new sz k = uvmcopy_loop old new 0 sz k"

definition uvmclear :: "u64 \<Rightarrow> u64 \<Rightarrow> kmem \<Rightarrow> kmem res" where
  "uvmclear pagetable va k =
     bind_res (walk pagetable va False k) (\<lambda>(pte, _).
       case pte of
         None \<Rightarrow> Panic ''uvmclear''
       | Some pte \<Rightarrow> Ok (set_cell pte (cell k pte AND NOT PTE_U) k))"

section \<open>Copies between kernel and user\<close>

definition ismapped :: "u64 \<Rightarrow> u64 \<Rightarrow> kmem \<Rightarrow> bool res" where
  "ismapped pagetable va k =
     bind_res (walk pagetable va False k) (\<lambda>(pte, _).
       case pte of None \<Rightarrow> Ok False | Some pte \<Rightarrow> Ok (valid (cell k pte)))"

definition vmfault :: "u64 \<Rightarrow> u64 \<Rightarrow> u64 \<Rightarrow> kmem \<Rightarrow> (u64 \<times> kmem) res" where
  "vmfault pagetable psz va k =
     (if va \<ge> psz then Ok (0, k)
      else
        bind_res (ismapped pagetable (PGROUNDDOWN va) k) (\<lambda>b.
          if b then Ok (0, k)
          else
            (let (mem, k1) = kalloc k in
             if mem = 0 then Ok (0, k1)
             else
               bind_res (mappages pagetable (PGROUNDDOWN va) PGSIZE mem (PTE_W OR PTE_U OR PTE_R) (memset mem 0 k1))
                 (\<lambda>(r, k2). if r \<noteq> 0 then bind_res (kfree mem k2) (\<lambda>k3. Ok (0, k3)) else Ok (mem, k2)))))"

text \<open>The bytes of physical memory, least significant byte of a word first.\<close>

definition byte_of :: "nat \<Rightarrow> u64 \<Rightarrow> u8" where
  "byte_of j w = ucast (drop_bit (8 * j) w)"

definition put_byte :: "nat \<Rightarrow> u8 \<Rightarrow> u64 \<Rightarrow> u64" where
  "put_byte j b w = (w AND NOT (push_bit (8 * j) 0xFF)) OR push_bit (8 * j) (ucast b)"

definition load_byte :: "kmem \<Rightarrow> u64 \<Rightarrow> u8" where
  "load_byte k a = byte_of (unat a mod 8) (km_cells k (PGROUNDDOWN a) (unat a mod 4096 div 8))"

definition store_byte :: "u64 \<Rightarrow> u8 \<Rightarrow> kmem \<Rightarrow> kmem" where
  "store_byte a b k =
     (let pg = PGROUNDDOWN a; i = unat a mod 4096 div 8
      in set_cell (pg, i) (put_byte (unat a mod 8) b (km_cells k pg i)) k)"

definition load_bytes :: "kmem \<Rightarrow> u64 \<Rightarrow> nat \<Rightarrow> u8 list" where
  "load_bytes k a n = map (\<lambda>j. load_byte k (a + of_nat j)) [0..<n]"

fun store_bytes :: "u64 \<Rightarrow> u8 list \<Rightarrow> kmem \<Rightarrow> kmem" where
  "store_bytes a [] k = k"
| "store_bytes a (b # bs) k = store_bytes (a + 1) bs (store_byte a b k)"

text \<open>How many bytes of an access at \<open>va\<close> lie in its first page.\<close>

definition chunk :: "u64 \<Rightarrow> nat \<Rightarrow> nat" where
  "chunk va n = min (unat (PGSIZE - (va - PGROUNDDOWN va))) n"

lemma unat_page_offset: "unat (va - PGROUNDDOWN va) = unat va mod 4096"
proof -
  have "va - PGROUNDDOWN va = va mod PGSIZE" by (simp add: PGROUNDDOWN_eq)
  then show ?thesis by (simp add: unat_mod_distrib PGSIZE_def)
qed

lemma chunk_eq: "chunk va n = min (4096 - unat va mod 4096) n"
proof -
  have "unat va mod 4096 < 4096" by simp
  then have "va - PGROUNDDOWN va \<le> PGSIZE" by (simp only: word_le_nat_alt unat_page_offset) (simp add: PGSIZE_def)
  then have "unat (PGSIZE - (va - PGROUNDDOWN va)) = 4096 - unat va mod 4096"
    by (simp add: unat_sub unat_page_offset) (simp add: PGSIZE_def)
  then show ?thesis by (simp add: chunk_def)
qed

lemma chunk_pos: "0 < n \<Longrightarrow> 0 < chunk va n"
  by (simp add: chunk_eq)

text \<open>The physical page of \<open>va0\<close>, faulted in when it is absent.\<close>

definition user_page :: "u64 \<Rightarrow> u64 \<Rightarrow> u64 \<Rightarrow> kmem \<Rightarrow> (u64 \<times> kmem) res" where
  "user_page pagetable psz va0 k =
     (if walkaddr pagetable va0 k = 0 then vmfault pagetable psz va0 k else Ok (walkaddr pagetable va0 k, k))"

function copyout :: "u64 \<Rightarrow> u64 \<Rightarrow> u64 \<Rightarrow> u8 list \<Rightarrow> kmem \<Rightarrow> (int \<times> kmem) res" where
  "copyout pagetable psz dstva src k =
     (if src = [] then Ok (0, k)
      else
        (let va0 = PGROUNDDOWN dstva in
         if va0 \<ge> MAXVA then Ok (- 1, k)
         else
           bind_res (user_page pagetable psz va0 k) (\<lambda>(pa0, k1).
             if pa0 = 0 then Ok (- 1, k1)
             else
               bind_res (walk pagetable va0 False k1) (\<lambda>(pte, _).
                 case pte of
                   None \<Rightarrow> Panic ''null pointer''
                 | Some pte \<Rightarrow>
                     if cell k1 pte AND PTE_W = 0 then Ok (- 1, k1)
                     else
                       (let n = chunk dstva (length src)
                        in copyout pagetable psz (va0 + PGSIZE) (drop n src)
                             (store_bytes (pa0 + (dstva - va0)) (take n src) k1))))))"
  by pat_completeness auto
termination
  by (relation "measure (\<lambda>(pt, psz, va, src, k). length src)") (auto simp: chunk_pos)

function copyin :: "u64 \<Rightarrow> u64 \<Rightarrow> u64 \<Rightarrow> nat \<Rightarrow> kmem \<Rightarrow> (int \<times> u8 list \<times> kmem) res" where
  "copyin pagetable psz srcva len k =
     (if len = 0 then Ok (0, [], k)
      else
        (let va0 = PGROUNDDOWN srcva in
         bind_res (user_page pagetable psz va0 k) (\<lambda>(pa0, k1).
           if pa0 = 0 then Ok (- 1, [], k1)
           else
             (let n = chunk srcva len
              in bind_res (copyin pagetable psz (va0 + PGSIZE) (len - n) k1) (\<lambda>(r, bs, k2).
                   Ok (r, load_bytes k1 (pa0 + (srcva - va0)) n @ bs, k2))))))"
  by pat_completeness auto
termination
  by (relation "measure (\<lambda>(pt, psz, va, len, k). len)") (auto simp: chunk_pos)

text \<open>The bytes of a page up to its first NUL, and whether there was one.\<close>

definition upto_nul :: "u8 list \<Rightarrow> u8 list \<times> bool" where
  "upto_nul bs = (let s = takeWhile (\<lambda>b. b \<noteq> 0) bs in if length s < length bs then (s @ [0], True) else (bs, False))"

function copyinstr :: "u64 \<Rightarrow> u64 \<Rightarrow> u64 \<Rightarrow> nat \<Rightarrow> kmem \<Rightarrow> (int \<times> u8 list \<times> kmem) res" where
  "copyinstr pagetable psz srcva mx k =
     (if mx = 0 then Ok (- 1, [], k)
      else
        (let va0 = PGROUNDDOWN srcva in
         bind_res (user_page pagetable psz va0 k) (\<lambda>(pa0, k1).
           if pa0 = 0 then Ok (- 1, [], k1)
           else
             (let n = chunk srcva mx;
                  (s, got_null) = upto_nul (load_bytes k1 (pa0 + (srcva - va0)) n)
              in if got_null then Ok (0, s, k1)
                 else bind_res (copyinstr pagetable psz (va0 + PGSIZE) (mx - n) k1) (\<lambda>(r, bs, k2). Ok (r, s @ bs, k2))))))"
  by pat_completeness auto
termination
  by (relation "measure (\<lambda>(pt, psz, va, max, k). max)") (auto simp: chunk_pos)

declare copyout.simps [simp del] copyin.simps [simp del] copyinstr.simps [simp del]

section \<open>The kernel's own page table\<close>

definition proc_mapstacks :: "u64 \<Rightarrow> kmem \<Rightarrow> kmem res" where
  "proc_mapstacks kpgtbl =
     fold_res
       (\<lambda>p k. let (pa, k1) = kalloc k in
          if pa = 0 then Panic ''kalloc''
          else kvmmap kpgtbl (KSTACK p) pa PGSIZE (PTE_R OR PTE_W) k1)
       [0..<NPROC]"

definition kvmmake :: "u64 \<Rightarrow> u64 \<Rightarrow> kmem \<Rightarrow> (u64 \<times> kmem) res" where
  "kvmmake etext trampoline k =
     (let (kpgtbl, k1) = kalloc k; k2 = memset kpgtbl 0 k1 in
      bind_res (kvmmap kpgtbl UART0 UART0 PGSIZE (PTE_R OR PTE_W) k2) (\<lambda>k3.
      bind_res (kvmmap kpgtbl VIRTIO0 VIRTIO0 PGSIZE (PTE_R OR PTE_W) k3) (\<lambda>k4.
      bind_res (kvmmap kpgtbl PLIC PLIC 0x4000000 (PTE_R OR PTE_W) k4) (\<lambda>k5.
      bind_res (kvmmap kpgtbl KERNBASE KERNBASE (etext - KERNBASE) (PTE_R OR PTE_X) k5) (\<lambda>k6.
      bind_res (kvmmap kpgtbl etext etext (PHYSTOP - etext) (PTE_R OR PTE_W) k6) (\<lambda>k7.
      bind_res (kvmmap kpgtbl TRAMPOLINE trampoline PGSIZE (PTE_R OR PTE_X) k7) (\<lambda>k8.
      bind_res (proc_mapstacks kpgtbl k8) (\<lambda>k9. Ok (kpgtbl, k9)))))))))"

end
