(* ===== verification/PageTable.thy ===== *)
theory PageTable
  imports Vm
begin

text \<open>
  What page tables mean: a page table is a partial map from virtual page numbers to entries. The
  invariant says that the tables reachable from a root form a tree of allocated pages; under it the
  operations of \<open>vm.c\<close> are operations on that map and on the sets of free and allocated pages.
\<close>

section \<open>Entries and indices\<close>

lemma page_aligned_bits: "page_aligned a \<longleftrightarrow> (\<forall>n<12. \<not> bit a n)"
proof -
  have "page_aligned a \<longleftrightarrow> take_bit 12 a = 0" by (simp add: page_aligned_def PGSIZE_def take_bit_eq_mod)
  also have "\<dots> \<longleftrightarrow> (\<forall>n<12. \<not> bit a n)"
    by (simp add: bit_eq_iff [of "take_bit 12 a"] bit_take_bit_iff) auto
  finally show ?thesis .
qed

lemma small_iff: "(w::u64) < 1024 \<longleftrightarrow> take_bit 10 w = w"
proof -
  have "take_bit 10 w = w \<longleftrightarrow> unat (take_bit 10 w) = unat w" by (simp add: word_unat_eq_iff)
  also have "\<dots> \<longleftrightarrow> unat w mod 1024 = unat w" by (simp add: take_bit_eq_mod unat_mod_distrib)
  also have "\<dots> \<longleftrightarrow> w < 1024" by (simp add: word_less_nat_alt) (metis mod_less mod_less_divisor zero_less_numeral)
  finally show ?thesis by simp
qed

lemma flag_bits:
  assumes "(perm::u64) < 1024" "10 \<le> n"
  shows "\<not> bit perm n"
proof -
  have "bit perm n \<longleftrightarrow> bit (take_bit 10 perm) n" using assms(1) by (simp add: small_iff)
  then show ?thesis using assms(2) by (simp add: bit_take_bit_iff)
qed

lemma PTE2PA_entry:
  assumes "page_aligned pa" "perm < 1024"
  shows "PTE2PA (PA2PTE pa OR perm) = pa"
proof (rule bit_eqI)
  fix n assume "possible_bit TYPE(64 word) n"
  then have n: "n < 64" by simp
  show "bit (PTE2PA (PA2PTE pa OR perm)) n \<longleftrightarrow> bit pa n"
  proof (cases "n < 12")
    case True
    then show ?thesis using assms(1) by (simp add: PTE2PA_def bit_simps page_aligned_bits)
  next
    case False
    then have "10 \<le> n - 2" by simp
    then have "\<not> bit perm (n - 2)" "10 \<le> n - 2" "n - 2 < 64" using flag_bits [OF assms(2)] n by simp_all
    then show ?thesis using False n
      by (simp add: PTE2PA_def PA2PTE_def bit_push_bit_iff bit_drop_bit_eq bit_or_iff)
  qed
qed

lemma or_V_small: "(perm::u64) < 1024 \<Longrightarrow> perm OR PTE_V < 1024"
  by (simp add: small_iff take_bit_or PTE_V_def)

lemma valid_entry [simp]: "valid (x OR PTE_V)" "valid (x OR (y OR PTE_V))" "\<not> valid 0"
proof -
  have "bit ((x OR PTE_V) AND PTE_V) 0" "bit ((x OR (y OR PTE_V)) AND PTE_V) 0"
    by (simp_all add: PTE_V_def bit_simps)
  then show "valid (x OR PTE_V)" "valid (x OR (y OR PTE_V))" by (auto simp: valid_def)
qed (simp add: valid_def)

lemma PX_div: "l \<le> 2 \<Longrightarrow> PX l va = unat va div 2 ^ (12 + 9 * l) mod 512"
proof -
  assume "l \<le> 2"
  have "drop_bit (12 + 9 * l) va AND 0x1FF = take_bit 9 (drop_bit (12 + 9 * l) va)"
    by (simp add: take_bit_eq_mask mask_eq_decr_exp)
  then have "PX l va = take_bit 9 (drop_bit (12 + 9 * l) (unat va))" using \<open>l \<le> 2\<close>
    by (simp only: PX_def unsigned_take_bit_eq unsigned_drop_bit_eq) (simp add: take_bit_drop_bit min_def)
  then show ?thesis by (simp add: take_bit_eq_mod drop_bit_eq_div)
qed

definition vpn :: "u64 \<Rightarrow> nat" where "vpn va = unat va div 4096"

definition path_of :: "nat \<Rightarrow> nat list" where
  "path_of v = [v mod 512, v div 512 mod 512, v div 262144 mod 512]"

lemma path_of_vpn: "path_of (vpn va) = [PX 0 va, PX 1 va, PX 2 va]"
  by (simp add: path_of_def vpn_def PX_div div_mult2_eq [symmetric])

lemma path_of_inj:
  assumes "path_of v = path_of w" "v < 2 ^ 27" "w < 2 ^ 27"
  shows "v = w"
proof -
  have "u = u mod 512 + 512 * (u div 512 mod 512) + 262144 * (u div 262144 mod 512)" if "u < 2 ^ 27" for u :: nat
  proof -
    have "u div 262144 mod 512 = u div 262144" using that by (simp add: less_mult_imp_div_less)
    moreover have "u div 262144 = u div 512 div 512" by (simp add: div_mult2_eq [symmetric])
    moreover have "u = 512 * (u div 512) + u mod 512" "u div 512 = 512 * (u div 512 div 512) + u div 512 mod 512" by simp_all
    ultimately show ?thesis by linarith
  qed
  from this [OF assms(2)] this [OF assms(3)] assms(1) show ?thesis unfolding path_of_def by (metis list.inject)
qed


section \<open>The tree of tables\<close>

text \<open>
  Paths name tables and entries; the index into the innermost table comes first. \<open>table_at\<close> follows a
  path from the root, \<open>entry\<close> is the valid entry at its end.
\<close>

fun table_at :: "mem \<Rightarrow> u64 \<Rightarrow> nat list \<Rightarrow> u64 option" where
  "table_at m root [] = Some root"
| "table_at m root (i # p) =
     (case table_at m root p of
        None \<Rightarrow> None
      | Some t \<Rightarrow> if valid (m t i) then Some (PTE2PA (m t i)) else None)"

fun entry :: "mem \<Rightarrow> u64 \<Rightarrow> nat list \<Rightarrow> u64 option" where
  "entry m root [] = None"
| "entry m root (i # p) =
     (case table_at m root p of
        None \<Rightarrow> None
      | Some t \<Rightarrow> if valid (m t i) then Some (m t i) else None)"

definition idx_ok :: "nat list \<Rightarrow> bool" where
  "idx_ok p \<longleftrightarrow> (\<forall>i \<in> set p. i < 512)"

definition path_ok :: "nat list \<Rightarrow> bool" where
  "path_ok p \<longleftrightarrow> length p \<le> 2 \<and> idx_ok p"

definition tables :: "u64 \<Rightarrow> kmem \<Rightarrow> u64 set" where
  "tables root k = {t. \<exists>p. path_ok p \<and> table_at (km_cells k) root p = Some t}"

definition pmap :: "u64 \<Rightarrow> kmem \<Rightarrow> nat \<Rightarrow> u64 option" where
  "pmap root k v = entry (km_cells k) root (path_of v)"

text \<open>An interior entry has no permission bits.\<close>

abbreviation RWX :: u64 where "RWX \<equiv> PTE_R OR PTE_W OR PTE_X"

definition pt_inv :: "u64 \<Rightarrow> kmem \<Rightarrow> bool" where
  "pt_inv root k \<longleftrightarrow> kmem_inv k
     \<and> (\<forall>t \<in> tables root k. page_ok (km_end k) t \<and> t \<notin> free_pages k)
     \<and> (\<forall>p q. path_ok p \<longrightarrow> path_ok q \<longrightarrow> table_at (km_cells k) root p \<noteq> None
          \<longrightarrow> table_at (km_cells k) root p = table_at (km_cells k) root q \<longrightarrow> p = q)
     \<and> (\<forall>p e. path_ok p \<longrightarrow> entry (km_cells k) root p = Some e \<longrightarrow> e AND RWX = 0)"

lemma idx_ok_simps [simp]: "idx_ok []" "idx_ok (i # p) \<longleftrightarrow> i < 512 \<and> idx_ok p"
  by (auto simp: idx_ok_def)

lemma path_ok_simps [simp]: "path_ok []" "path_ok (i # p) \<longleftrightarrow> length p \<le> 1 \<and> i < 512 \<and> path_ok p"
  by (auto simp: path_ok_def)

lemma path_of_idx [simp]: "idx_ok (path_of v)"
  by (simp add: path_of_def)

lemma PX_less [simp]: "PX l va < 512"
proof -
  have "drop_bit (12 + 9 * l) va AND 0x1FF = take_bit 9 (drop_bit (12 + 9 * l) va)"
    by (simp add: take_bit_eq_mask mask_eq_decr_exp)
  then have "PX l va = take_bit 9 (unat (drop_bit (12 + 9 * l) va))" by (simp only: PX_def unsigned_take_bit_eq)
  then show ?thesis by (simp add: take_bit_eq_mod)
qed

lemma table_at_entry: "p \<noteq> [] \<Longrightarrow> table_at m root p = map_option PTE2PA (entry m root p)"
  by (cases p) (auto split: option.splits)

lemma tables_I: "path_ok p \<Longrightarrow> table_at (km_cells k) root p = Some t \<Longrightarrow> t \<in> tables root k"
  by (auto simp: tables_def)

lemma root_in_tables [simp]: "root \<in> tables root k"
  by (rule tables_I [of "[]"]) simp_all

lemma pt_inv_table:
  assumes "pt_inv root k" "t \<in> tables root k"
  shows "page_ok (km_end k) t" "t \<notin> free_pages k"
  using assms by (auto simp: pt_inv_def)

lemma pt_inv_kmem: "pt_inv root k \<Longrightarrow> kmem_inv k"
  by (simp add: pt_inv_def)

lemma pt_inv_inj:
  assumes "pt_inv root k" "path_ok p" "path_ok q" "table_at (km_cells k) root p = Some t" "table_at (km_cells k) root q = Some t"
  shows "p = q"
  using assms unfolding pt_inv_def by (metis option.distinct(1))

lemma pt_inv_flags: "pt_inv root k \<Longrightarrow> path_ok p \<Longrightarrow> entry (km_cells k) root p = Some e \<Longrightarrow> e AND RWX = 0"
  by (simp add: pt_inv_def)

lemma pt_invI:
  assumes "kmem_inv k" "\<And>t. t \<in> tables root k \<Longrightarrow> page_ok (km_end k) t \<and> t \<notin> free_pages k"
    and "\<And>p q t. path_ok p \<Longrightarrow> path_ok q \<Longrightarrow> table_at (km_cells k) root p = Some t \<Longrightarrow> table_at (km_cells k) root q = Some t \<Longrightarrow> p = q"
    and "\<And>p e. path_ok p \<Longrightarrow> entry (km_cells k) root p = Some e \<Longrightarrow> e AND RWX = 0"
  shows "pt_inv root k"
  unfolding pt_inv_def using assms by (metis not_Some_eq)

text \<open>Changing pages that are not free leaves the free list alone.\<close>

lemma flist_cong: "(\<And>q. q \<in> set qs \<Longrightarrow> m1 q = m q) \<Longrightarrow> flist m1 p qs = flist m p qs"
  by (induction qs arbitrary: p) auto

lemma kmem_frame:
  assumes "kmem_inv k" "\<And>q. q \<in> free_pages k \<Longrightarrow> m q = km_cells k q"
  shows "kmem_inv (k\<lparr>km_cells := m\<rparr>)" "free_pages (k\<lparr>km_cells := m\<rparr>) = free_pages k"
proof -
  obtain qs where qs: "flist (km_cells k) (km_freelist k) qs" "distinct qs" "free_pages k = set qs"
    "\<forall>q \<in> set qs. page_ok (km_end k) q" "0 < km_end k" using assms(1) by (rule kmem_inv_cases)
  let ?k = "k\<lparr>km_cells := m\<rparr>"
  have fl: "flist (km_cells ?k) (km_freelist ?k) qs" using qs(1) flist_cong [of qs m "km_cells k" "km_freelist k"] assms(2) unfolding qs(3) by simp
  show "free_pages ?k = free_pages k" using free_pages_eq [OF fl] qs(3) by simp
  show "kmem_inv ?k" unfolding kmem_inv_def using fl qs(2,4,5) by (intro conjI exI [of _ qs]) simp_all
qed

section \<open>Grafting a new table\<close>

lemma graft_at:
  assumes inv: "pt_inv root k" and p: "path_ok p" "length p \<le> 1" "table_at (km_cells k) root p = Some t"
    and i: "i < 512" "\<not> valid (km_cells k t i)"
    and pg: "pg \<notin> tables root k" "page_aligned pg"
    and m: "m pg = (\<lambda>_. 0)" "m t = (km_cells k t)(i := PA2PTE pg OR PTE_V)" "\<forall>u. u \<noteq> pg \<longrightarrow> u \<noteq> t \<longrightarrow> m u = km_cells k u"
    and q: "path_ok q"
  shows "table_at m root q = (if q = i # p then Some pg else table_at (km_cells k) root q)"
    and "\<And>j. j < 512 \<Longrightarrow> entry m root (j # q) = (if j # q = i # p then Some (PA2PTE pg OR PTE_V) else entry (km_cells k) root (j # q))"
proof -
  let ?m = "km_cells k"
  have pa: "PTE2PA (PA2PTE pg OR PTE_V) = pg" using pg(2) by (rule PTE2PA_entry) (simp add: PTE_V_def)
  have step: "entry m root (j # r) = (if j # r = i # p then Some (PA2PTE pg OR PTE_V) else entry ?m root (j # r))"
    if r: "path_ok r" "table_at m root r = (if r = i # p then Some pg else table_at ?m root r)" "j < 512" for j r
  proof (cases "r = i # p")
    case True
    then show ?thesis using r(2) p(3) i(2) m(1) by auto
  next
    case False
    show ?thesis
    proof (cases "table_at ?m root r")
      case None
      then show ?thesis using r(2) False p(3) by auto
    next
      case (Some u)
      then have "u \<in> tables root k" using r(1) by (rule tables_I [rotated])
      then have u: "u \<noteq> pg" using pg(1) by auto
      have "u = t \<longleftrightarrow> r = p" using pt_inv_inj [OF inv r(1) p(1) Some] p(3) Some by auto
      then show ?thesis using r(2) False Some u m(2,3) by (auto split: if_splits)
    qed
  qed
  have tab: "table_at m root q = (if q = i # p then Some pg else table_at ?m root q)" if "path_ok q" for q
    using that
  proof (induction q)
    case (Cons j r)
    have e: "entry m root (j # r) = (if j # r = i # p then Some (PA2PTE pg OR PTE_V) else entry ?m root (j # r))"
      using Cons by (intro step) simp_all
    have "table_at m root (j # r) = map_option PTE2PA (entry m root (j # r))" by (rule table_at_entry) simp
    also have "\<dots> = (if j # r = i # p then Some pg else map_option PTE2PA (entry ?m root (j # r)))"
      unfolding e by (cases "j # r = i # p") (simp_all only: pa option.map if_True if_False simp_thms)
    also have "map_option PTE2PA (entry ?m root (j # r)) = table_at ?m root (j # r)" by (rule table_at_entry [symmetric]) simp
    finally show ?case .
  qed simp
  show "table_at m root q = (if q = i # p then Some pg else table_at ?m root q)" using q by (rule tab)
  show "\<And>j. j < 512 \<Longrightarrow> entry m root (j # q) = (if j # q = i # p then Some (PA2PTE pg OR PTE_V) else entry ?m root (j # q))"
    using step [OF q tab [OF q]] .
qed


text \<open>
  How a walk may change memory: it turns free pages into tables. No translation and no page in use
  changes, and tables already there stay where they are.
\<close>

definition grows :: "u64 \<Rightarrow> kmem \<Rightarrow> kmem \<Rightarrow> bool" where
  "grows root k k' \<longleftrightarrow> pt_inv root k' \<and> km_end k' = km_end k
     \<and> (\<forall>q. length q = 3 \<longrightarrow> idx_ok q \<longrightarrow> entry (km_cells k') root q = entry (km_cells k) root q)
     \<and> (\<forall>q t. path_ok q \<longrightarrow> table_at (km_cells k) root q = Some t \<longrightarrow> table_at (km_cells k') root q = Some t)
     \<and> tables root k' \<union> free_pages k' = tables root k \<union> free_pages k
     \<and> free_pages k' \<subseteq> free_pages k
     \<and> (\<forall>u. u \<notin> tables root k \<union> free_pages k \<longrightarrow> km_cells k' u = km_cells k u)"

lemma grows_refl: "pt_inv root k \<Longrightarrow> grows root k k"
  by (simp add: grows_def)

lemma grows_trans: "grows root k k1 \<Longrightarrow> grows root k1 k2 \<Longrightarrow> grows root k k2"
  unfolding grows_def by (intro conjI) (simp_all, blast)

lemma V_no_RWX:
  assumes "page_aligned pg"
  shows "(PA2PTE pg OR PTE_V) AND RWX = 0"
proof (rule bit_eqI)
  fix n
  have rwx: "RWX = 14" by (simp add: PTE_R_def PTE_W_def PTE_X_def)
  have "n < 4 \<and> n \<noteq> 0" if "bit (RWX) n"
  proof -
    have "bit (take_bit 4 (14::u64)) n" using that unfolding rwx by simp
    then have "n < 4" unfolding bit_take_bit_iff by simp
    then show ?thesis using that unfolding rwx by (cases n) simp_all
  qed
  then show "bit ((PA2PTE pg OR PTE_V) AND RWX) n = bit (0::u64) n"
    by (auto simp: bit_and_iff bit_or_iff PA2PTE_def PTE_V_def bit_push_bit_iff bit_1_iff)
qed

lemma kalloc_page:
  assumes "kmem_inv k" "kalloc k = (pg, k1)" "pg \<noteq> 0"
  shows "pg \<in> free_pages k" "page_ok (km_end k) pg" "kmem_inv k1" "free_pages k1 = free_pages k - {pg}"
    "km_end k1 = km_end k" "\<And>q. q \<noteq> pg \<Longrightarrow> km_cells k1 q = km_cells k q"
proof -
  have ne: "free_pages k \<noteq> {}" using kalloc_none [OF assms(1)] assms(2,3) by auto
  show "pg \<in> free_pages k" "kmem_inv k1" "free_pages k1 = free_pages k - {pg}" "km_end k1 = km_end k"
    "\<And>q. q \<noteq> pg \<Longrightarrow> km_cells k1 q = km_cells k q"
    using kalloc_some [OF assms(1) ne assms(2)] by simp_all
  then show "page_ok (km_end k) pg" using kmem_alloc.pages_managed [OF assms(1)] by simp
qed

lemma kalloc_zero:
  assumes "kmem_inv k" "kalloc k = (0, k1)"
  shows "free_pages k = {}" "k1 = k"
proof -
  show e: "free_pages k = {}" using kmem_alloc.alloc_zero_iff [OF assms(1)] assms(2) by simp
  show "k1 = k" using kalloc_none [OF assms(1) e] assms(2) by simp
qed

lemma rep8_0 [simp]: "rep8 0 = 0"
  by (simp add: rep8_def)

lemma graft_grows:
  assumes inv: "pt_inv root k" and p: "path_ok p" "length p \<le> 1" "table_at (km_cells k) root p = Some t"
    and i: "i < 512" "\<not> valid (km_cells k t i)"
    and al: "kalloc k = (pg, k1)" "pg \<noteq> 0"
    and k2: "k2 = set_cell (t, i) (PA2PTE pg OR PTE_V) (memset pg 0 k1)"
  shows "grows root k k2" "table_at (km_cells k2) root (i # p) = Some pg"
proof -
  note a = kalloc_page [OF pt_inv_kmem [OF inv] al]
  have tt: "t \<in> tables root k" using p(1,3) by (rule tables_I)
  note t = pt_inv_table [OF inv tt]
  have pgt: "pg \<notin> tables root k" using pt_inv_table(2) [OF inv] a(1) by auto
  then have ne: "pg \<noteq> t" using tt by auto
  have pga: "page_aligned pg" using a(2) by (simp add: page_ok_def)
  let ?m = "km_cells k2"
  have m: "?m pg = (\<lambda>_. 0)" "?m t = (km_cells k t)(i := PA2PTE pg OR PTE_V)" "\<forall>u. u \<noteq> pg \<longrightarrow> u \<noteq> t \<longrightarrow> ?m u = km_cells k u"
    using ne a(6) by (simp_all add: k2 set_cell_def memset_def set_word_def memset_page_def)
  note g = graft_at [OF inv p i pgt pga m]
  have k2': "k2 = k1\<lparr>km_cells := ?m\<rparr>" by (simp add: k2 set_cell_def memset_def)
  have "?m q = km_cells k1 q" if "q \<in> free_pages k1" for q using that a(4,6) t(2) m(3) by auto
  note fr = kmem_frame [OF a(3) this]
  have ki: "kmem_inv k2" and kf: "free_pages k2 = free_pages k - {pg}" and ke: "km_end k2 = km_end k"
    using fr a(4,5) k2' by (metis, metis, metis kmem.select_convs(3) kmem.surjective kmem.update_convs(2))
  have ip: "path_ok (i # p)" using p(1,2) i(1) by simp
  show tip: "table_at ?m root (i # p) = Some pg" using g(1) [OF ip] by simp
  have none: "table_at (km_cells k) root (i # p) = None" using p(3) i(2) by simp
  have ts: "tables root k2 = insert pg (tables root k)"
  proof (intro set_eqI iffI)
    fix u assume "u \<in> tables root k2"
    then obtain q where q: "path_ok q" "table_at ?m root q = Some u" by (auto simp: tables_def)
    then show "u \<in> insert pg (tables root k)" using g(1) [OF q(1)] tables_I [OF q(1)] by (auto split: if_splits)
  next
    fix u assume "u \<in> insert pg (tables root k)"
    moreover have "u \<in> tables root k2" if "u \<in> tables root k"
    proof -
      from that obtain q where q: "path_ok q" "table_at (km_cells k) root q = Some u" by (auto simp: tables_def)
      then have "q \<noteq> i # p" using none by auto
      then show ?thesis using q g(1) [OF q(1)] by (intro tables_I [OF q(1)]) simp
    qed
    ultimately show "u \<in> tables root k2" using tables_I [OF ip tip] by auto
  qed
  have pi: "pt_inv root k2"
  proof (rule pt_invI)
    show "kmem_inv k2" by (rule ki)
    show "page_ok (km_end k2) u \<and> u \<notin> free_pages k2" if "u \<in> tables root k2" for u
      using that ts a(2) pt_inv_table [OF inv] kf ke by auto
    show "q = r" if "path_ok q" "path_ok r" "table_at ?m root q = Some u" "table_at ?m root r = Some u" for q r u
      using that g(1) [OF that(1)] g(1) [OF that(2)] pt_inv_inj [OF inv that(1,2)] tables_I [OF that(1)] tables_I [OF that(2)] pgt
      by (auto split: if_splits)
    show "e AND RWX = 0" if q: "path_ok q" "entry ?m root q = Some e" for q e
    proof (cases q)
      case (Cons j r)
      with q have r: "path_ok r" "j < 512" by auto
      have "entry ?m root q = (if q = i # p then Some (PA2PTE pg OR PTE_V) else entry (km_cells k) root q)"
        unfolding Cons by (rule g(2) [OF r])
      then show ?thesis using q V_no_RWX [OF pga] pt_inv_flags [OF inv q(1)] by (auto split: if_splits)
    qed (use q in simp)
  qed
  have en: "entry ?m root q = entry (km_cells k) root q" if q: "length q = 3" "idx_ok q" for q
  proof -
    obtain j r where jr: "q = j # r" using q(1) by (cases q) auto
    then have r: "path_ok r" "j < 512" "q \<noteq> i # p" using q p(2) by (auto simp: path_ok_def)
    then have "(j # r = i # p) = False" using jr by blast
    then show ?thesis unfolding jr g(2) [OF r(1,2)] by (simp only: if_False)
  qed
  have tb: "table_at ?m root q = Some u" if "path_ok q" "table_at (km_cells k) root q = Some u" for q u
    using that g(1) [OF that(1)] none by auto
  have fr: "km_cells k2 u = km_cells k u" if "u \<notin> tables root k \<union> free_pages k" for u
  proof -
    have "u \<noteq> pg" "u \<noteq> t" using that a(1) tt by auto
    then show ?thesis using m(3) by simp
  qed
  show "grows root k k2" unfolding grows_def
    using pi ke en tb ts kf a(1) fr by (intro conjI) auto
qed


section \<open>Walking\<close>

lemma path_of_vpn_table: "path_of (vpn va) = PX 0 va # [PX 1 va, PX 2 va]"
  by (simp add: path_of_vpn)

lemma numeral_2_levels: "walk_loop 2 = walk_loop (Suc (Suc 0))"
  by (simp add: numeral_2_eq_2)

text \<open>Without allocation a walk changes nothing and finds the entry when its table is there.\<close>

lemma walk_find:
  assumes "va < MAXVA"
  shows "walk root va False k
    = Ok (map_option (\<lambda>t. (t, PX 0 va)) (table_at (km_cells k) root [PX 1 va, PX 2 va]), k)"
  using assms by (simp add: walk_def not_le numeral_2_levels cell_def Let_def del: One_nat_def)
    (simp add: numeral_2_eq_2)

lemma walk_alloc_level:
  assumes inv: "pt_inv root k" and p: "path_ok p" "length p + Suc l = 2" "table_at (km_cells k) root p = Some t"
    and run: "walk_loop (Suc l) t va True k = (r, k')"
  shows "(r = None \<and> k' = k \<and> free_pages k = {})
    \<or> (\<exists>u k1. grows root k k1 \<and> table_at (km_cells k1) root (PX (Suc l) va # p) = Some u
          \<and> walk_loop l u va True k1 = (r, k'))"
proof (cases "valid (km_cells k t (PX (Suc l) va))")
  case True
  then show ?thesis using run grows_refl [OF inv] p(3) by (auto simp: cell_def Let_def)
next
  case False
  obtain pg k1 where al: "kalloc k = (pg, k1)" by fastforce
  show ?thesis
  proof (cases "pg = 0")
    case True
    then have e: "free_pages k = {}" "k1 = k" using kalloc_zero [OF pt_inv_kmem [OF inv]] al by auto
    have "r = None" "k' = k1" using run al True False by (simp_all add: cell_def Let_def)
    then show ?thesis using e by simp
  next
    case nz: False
    let ?k2 = "set_cell (t, PX (Suc l) va) (PA2PTE pg OR PTE_V) (memset pg 0 k1)"
    have "length p \<le> 1" using p(2) by simp
    note g = graft_grows [OF inv p(1) this p(3) PX_less False al nz refl]
    moreover have "walk_loop l pg va True ?k2 = (r, k')" using run al nz False by (simp add: cell_def Let_def)
    ultimately show ?thesis by blast
  qed
qed

lemma walk_alloc:
  assumes "pt_inv root k" "va < MAXVA"
  obtains r k' where "walk root va True k = Ok (r, k')" "grows root k k'"
    "(r = None \<and> free_pages k' = {}) \<or> (\<exists>t. r = Some (t, PX 0 va) \<and> table_at (km_cells k') root [PX 1 va, PX 2 va] = Some t)"
proof -
  obtain r k' where run: "walk_loop (Suc (Suc 0)) root va True k = (r, k')" by fastforce
  have w: "walk root va True k = Ok (r, k')" using assms(2) run by (simp only: walk_def not_le [symmetric] if_False simp_thms numeral_2_levels)
  have g0: "path_ok []" "length ([]::nat list) + Suc (Suc 0) = 2" "table_at (km_cells k) root [] = Some root" by simp_all
  from walk_alloc_level [OF assms(1) g0 run] show ?thesis
  proof (elim disjE exE conjE)
    assume "r = None" "k' = k" "free_pages k = {}"
    then show ?thesis using that w grows_refl [OF assms(1)] by blast
  next
    fix u k1 assume g: "grows root k k1" and u: "table_at (km_cells k1) root [PX (Suc (Suc 0)) va] = Some u"
      and run1: "walk_loop (Suc 0) u va True k1 = (r, k')"
    have inv1: "pt_inv root k1" using g by (simp add: grows_def)
    have p1: "path_ok [PX (Suc (Suc 0)) va]" "length [PX (Suc (Suc 0)) va] + Suc 0 = 2" by simp_all
    from walk_alloc_level [OF inv1 p1 u run1] show ?thesis
    proof (elim disjE exE conjE)
      assume "r = None" "k' = k1" "free_pages k1 = {}"
      then show ?thesis using that w g by blast
    next
      fix t k2 assume g2: "grows root k1 k2" and t: "table_at (km_cells k2) root [PX (Suc 0) va, PX (Suc (Suc 0)) va] = Some t"
        and "walk_loop 0 t va True k2 = (r, k')"
      then have "r = Some (t, PX 0 va)" "k' = k2" by simp_all
      moreover have "table_at (km_cells k2) root [PX 1 va, PX 2 va] = Some t" using t by (simp only: One_nat_def numeral_2_eq_2)
      ultimately show ?thesis using that [OF w] grows_trans [OF g g2] by blast
    qed
  qed
qed


section \<open>Changing a leaf entry\<close>

lemma pt_inv_leaf:
  assumes inv: "pt_inv root k" and p: "path_ok p" "length p = 2" "table_at (km_cells k) root p = Some t" and i: "i < 512"
    and k1: "k1 = set_cell (t, i) v k"
  shows "pt_inv root k1" "free_pages k1 = free_pages k" "km_end k1 = km_end k" "tables root k1 = tables root k"
    and "\<And>q. path_ok q \<Longrightarrow> table_at (km_cells k1) root q = table_at (km_cells k) root q"
    and "\<And>q. length q = 3 \<Longrightarrow> idx_ok q \<Longrightarrow> entry (km_cells k1) root q
      = (if q = i # p then (if valid v then Some v else None) else entry (km_cells k) root q)"
    and "\<And>u. u \<noteq> t \<Longrightarrow> km_cells k1 u = km_cells k u"
proof -
  let ?m = "km_cells k1"
  have tt: "t \<in> tables root k" using p(1,3) by (rule tables_I)
  have k1': "k1 = k\<lparr>km_cells := ?m\<rparr>" by (simp add: k1 set_cell_def)
  show m: "?m u = km_cells k u" if "u \<noteq> t" for u using that by (simp add: k1 set_cell_def set_word_def)
  have mt: "?m t = (km_cells k t)(i := v)" by (simp add: k1 set_cell_def set_word_def)
  have en: "entry ?m root (j # r) = entry (km_cells k) root (j # r)"
    if r: "path_ok r" "table_at ?m root r = table_at (km_cells k) root r" "r \<noteq> p" for j r
  proof (cases "table_at (km_cells k) root r")
    case (Some u)
    then have "u \<noteq> t" using pt_inv_inj [OF inv r(1) p(1) Some] p(3) r(3) by auto
    then show ?thesis using Some r(2) m by simp
  qed (use r in simp)
  show tab: "table_at ?m root q = table_at (km_cells k) root q" if "path_ok q" for q
    using that
  proof (induction q)
    case (Cons j r)
    then have r: "path_ok r" "table_at ?m root r = table_at (km_cells k) root r" "r \<noteq> p" using p(2) by auto
    show ?case using en [OF r, of j] by (simp only: table_at_entry list.distinct not_False_eq_True)
  qed simp
  show ts: "tables root k1 = tables root k" unfolding tables_def using tab by auto
  have agree: "?m q = km_cells k q" if "q \<in> free_pages k" for q
  proof -
    have "q \<noteq> t" using that pt_inv_table(2) [OF inv tt] by auto
    then show ?thesis by (rule m)
  qed
  show fp: "free_pages k1 = free_pages k" using kmem_frame(2) [OF pt_inv_kmem [OF inv] agree] k1' by simp
  have ki: "kmem_inv k1" using kmem_frame(1) [OF pt_inv_kmem [OF inv] agree] k1' by simp
  show ke: "km_end k1 = km_end k" by (simp add: k1 set_cell_def)
  show "pt_inv root k1"
  proof (rule pt_invI)
    show "kmem_inv k1" by (rule ki)
    show "page_ok (km_end k1) u \<and> u \<notin> free_pages k1" if "u \<in> tables root k1" for u
      using that ts fp ke pt_inv_table [OF inv] by auto
    show "q = r" if "path_ok q" "path_ok r" "table_at ?m root q = Some u" "table_at ?m root r = Some u" for q r u
      using pt_inv_inj [OF inv that(1,2)] that(3,4) tab [OF that(1)] tab [OF that(2)] by simp
    show "e AND RWX = 0" if q: "path_ok q" "entry ?m root q = Some e" for q e
    proof (cases q)
      case (Cons j r)
      with q have r: "path_ok r" "r \<noteq> p" using p(2) by auto
      have "entry ?m root q = entry (km_cells k) root q" unfolding Cons by (rule en [OF r(1) tab [OF r(1)] r(2)])
      then show ?thesis using q pt_inv_flags [OF inv q(1)] by simp
    qed (use q in simp)
  qed
  show "entry ?m root q = (if q = i # p then (if valid v then Some v else None) else entry (km_cells k) root q)"
    if q: "length q = 3" "idx_ok q" for q
  proof -
    obtain j r where jr: "q = j # r" using q(1) by (cases q) auto
    then have r: "path_ok r" using q by (auto simp: path_ok_def)
    show ?thesis
    proof (cases "r = p")
      case True
      then show ?thesis using jr p(3) tab [OF r] mt by auto
    next
      case False
      then show ?thesis using en [OF r tab [OF r] False, of j] jr by (auto simp del: entry.simps)
    qed
  qed
qed

lemma pmap_length: "length (path_of v) = 3"
  by (simp add: path_of_def)

text \<open>Replacing the entry of one virtual page.\<close>

lemma pmap_set_leaf:
  assumes inv: "pt_inv root k" and t: "table_at (km_cells k) root [PX 1 va, PX 2 va] = Some t" and va: "va < MAXVA"
    and k1: "k1 = set_cell (t, PX 0 va) v k" and w: "w < 2 ^ 27"
  shows "pmap root k1 w = (if w = vpn va then (if valid v then Some v else None) else pmap root k w)"
proof -
  have p: "path_ok [PX 1 va, PX 2 va]" "length [PX 1 va, PX 2 va] = 2" by simp_all
  have "unat va < 2 ^ 38" using va by (simp add: word_less_nat_alt MAXVA_def)
  then have "vpn va < 2 ^ 26" by (simp add: vpn_def less_mult_imp_div_less)
  then have "path_of w = path_of (vpn va) \<longleftrightarrow> w = vpn va" using w path_of_inj [of w "vpn va"] by auto
  then show ?thesis
    using pt_inv_leaf(6) [OF inv p t PX_less k1 pmap_length path_of_idx, of w] unfolding pmap_def path_of_vpn_table by simp
qed


section \<open>Mapping a range\<close>

text \<open>What mapping and unmapping keep: pages only move between the free list and the tree of tables.\<close>

definition evolves :: "u64 \<Rightarrow> kmem \<Rightarrow> kmem \<Rightarrow> bool" where
  "evolves root k k' \<longleftrightarrow> pt_inv root k' \<and> km_end k' = km_end k
     \<and> tables root k' \<union> free_pages k' = tables root k \<union> free_pages k
     \<and> free_pages k' \<subseteq> free_pages k
     \<and> (\<forall>u. u \<notin> tables root k \<union> free_pages k \<longrightarrow> km_cells k' u = km_cells k u)"

lemma evolves_refl: "pt_inv root k \<Longrightarrow> evolves root k k"
  by (simp add: evolves_def)

lemma evolves_trans: "evolves root k k1 \<Longrightarrow> evolves root k1 k2 \<Longrightarrow> evolves root k k2"
  unfolding evolves_def by (intro conjI) (simp_all, blast)

lemma grows_evolves: "grows root k k' \<Longrightarrow> evolves root k k'"
  unfolding grows_def evolves_def by blast

lemma grows_pmap: "grows root k k' \<Longrightarrow> pmap root k' = pmap root k"
  unfolding grows_def pmap_def using pmap_length by (intro ext) simp

lemma evolves_leaf:
  assumes "pt_inv root k" "table_at (km_cells k) root [PX 1 va, PX 2 va] = Some t"
  shows "evolves root k (set_cell (t, PX 0 va) v k)"
proof -
  have p: "path_ok [PX 1 va, PX 2 va]" "length [PX 1 va, PX 2 va] = 2" by simp_all
  note l = pt_inv_leaf [OF assms(1) p assms(2) PX_less [of 0 va] refl [of "set_cell (t, PX 0 va) v k"]]
  have "t \<in> tables root k" using p(1) assms(2) by (rule tables_I)
  then have "u \<noteq> t" if "u \<notin> tables root k \<union> free_pages k" for u using that by auto
  then show ?thesis unfolding evolves_def using l(1-4,7) by simp
qed

definition fill :: "(nat \<Rightarrow> u64 option) \<Rightarrow> nat \<Rightarrow> nat \<Rightarrow> u64 \<Rightarrow> u64 \<Rightarrow> nat \<Rightarrow> u64 option" where
  "fill g v n pa perm w =
     (if v \<le> w \<and> w < v + n then Some (PA2PTE (pa + of_nat (w - v) * PGSIZE) OR perm OR PTE_V) else g w)"

lemma fill_0 [simp]: "fill g v 0 pa perm = g"
  by (rule ext) (auto simp: fill_def)

lemma fill_Suc:
  assumes "g1 w = (if w = v then Some (PA2PTE pa OR perm OR PTE_V) else g w)"
  shows "fill g1 (Suc v) n (pa + PGSIZE) perm w = fill g v (Suc n) pa perm w"
proof -
  have e: "pa + PGSIZE + of_nat (w - Suc v) * PGSIZE = pa + of_nat (w - v) * PGSIZE" if "v < w"
  proof -
    have "w - v = Suc (w - Suc v)" using that by simp
    then show ?thesis by (simp add: algebra_simps)
  qed
  show ?thesis
  proof (cases "v < w")
    case True
    have "Suc v \<le> w \<and> w < Suc v + n \<longleftrightarrow> v \<le> w \<and> w < v + Suc n" "w \<noteq> v" using True by auto
    then show ?thesis using assms unfolding fill_def e [OF True] by simp
  next
    case False
    then show ?thesis using assms by (cases "w = v") (simp_all add: fill_def)
  qed
qed

lemma vpn_next: "va < MAXVA \<Longrightarrow> vpn (va + PGSIZE) = Suc (vpn va)"
  by (simp add: vpn_def unat_next_va)

lemma vpn_less: "va < MAXVA \<longleftrightarrow> vpn va < 2 ^ 26"
proof -
  have "va < MAXVA \<longleftrightarrow> unat va < 2 ^ 26 * 4096" by (simp add: word_less_nat_alt MAXVA_def)
  also have "\<dots> \<longleftrightarrow> vpn va < 2 ^ 26" unfolding vpn_def by (rule div_less_iff_less_mult [symmetric]) simp
  finally show ?thesis .
qed

lemma mapped_entry:
  assumes "table_at (km_cells k) root [PX 1 va, PX 2 va] = Some t"
  shows "pmap root k (vpn va) = (if valid (cell k (t, PX 0 va)) then Some (cell k (t, PX 0 va)) else None)"
  using assms unfolding pmap_def path_of_vpn_table by (simp add: cell_def)

text \<open>One round of the loop of \<open>mappages\<close>.\<close>

lemma map_one:
  assumes inv: "pt_inv root k" and va: "va < MAXVA" and none: "pmap root k (vpn va) = None" and e: "valid e"
  obtains (full) k1 where "walk root va True k = Ok (None, k1)" "evolves root k k1" "pmap root k1 = pmap root k" "free_pages k1 = {}"
  | (set) pte k1 where "walk root va True k = Ok (Some pte, k1)" "\<not> valid (cell k1 pte)" "evolves root k (set_cell pte e k1)"
    "\<And>w. w < 2 ^ 27 \<Longrightarrow> pmap root (set_cell pte e k1) w = (if w = vpn va then Some e else pmap root k w)"
proof -
  obtain r k1 where w: "walk root va True k = Ok (r, k1)" "grows root k k1"
    "(r = None \<and> free_pages k1 = {}) \<or> (\<exists>t. r = Some (t, PX 0 va) \<and> table_at (km_cells k1) root [PX 1 va, PX 2 va] = Some t)"
    using walk_alloc [OF inv va] .
  note ev = grows_evolves [OF w(2)] and pm = grows_pmap [OF w(2)]
  have inv1: "pt_inv root k1" using w(2) by (simp add: grows_def)
  show thesis
  proof (cases r)
    case None
    then show ?thesis using full w ev pm by simp
  next
    case (Some pte)
    then obtain t where t: "pte = (t, PX 0 va)" "table_at (km_cells k1) root [PX 1 va, PX 2 va] = Some t" using w(3) by auto
    have nv: "\<not> valid (cell k1 pte)" using mapped_entry [OF t(2)] pm none t(1) by (auto split: if_splits)
    have "evolves root k (set_cell pte e k1)" using evolves_trans [OF ev] evolves_leaf [OF inv1 t(2)] t(1) by blast
    moreover have "pmap root (set_cell pte e k1) v = (if v = vpn va then Some e else pmap root k v)" if "v < 2 ^ 27" for v
      using pmap_set_leaf [OF inv1 t(2) va _ that] pm t(1) e by simp
    ultimately show ?thesis using set w(1) Some nv by blast
  qed
qed

lemma mappages_loop_spec:
  assumes "pt_inv root k" "vpn va + n < 2 ^ 26" "\<forall>j \<le> n. pmap root k (vpn va + j) = None"
  shows "\<exists>r k' j. mappages_loop n root va pa perm k = Ok (r, k') \<and> evolves root k k'
    \<and> (\<forall>w < 2 ^ 27. pmap root k' w = fill (pmap root k) (vpn va) j pa perm w)
    \<and> (r = 0 \<and> j = Suc n \<or> r = - 1 \<and> j \<le> n \<and> free_pages k' = {})"
  using assms
proof (induction n arbitrary: va pa k)
  case (0 va pa k)
  have va: "va < MAXVA" "pmap root k (vpn va) = None" "valid (PA2PTE pa OR perm OR PTE_V)" using "0.prems"(2,3) by (simp_all add: vpn_less)
  from "0.prems"(1) va show ?case
  proof (cases rule: map_one)
    case (full k1)
    then show ?thesis by (intro exI [of _ "- 1"] exI [of _ k1] exI [of _ 0]) simp
  next
    case (set pte k1)
    then show ?thesis
      by (intro exI [of _ 0] exI [of _ "set_cell pte (PA2PTE pa OR perm OR PTE_V) k1"] exI [of _ 1]) (auto simp: fill_def)
  qed
next
  case (Suc n va pa k)
  have va: "va < MAXVA" "pmap root k (vpn va) = None" "valid (PA2PTE pa OR perm OR PTE_V)" using Suc.prems(2) spec [OF Suc.prems(3), of 0] by (simp_all add: vpn_less)
  from Suc.prems(1) va show ?case
  proof (cases rule: map_one)
    case (full k1)
    then show ?thesis by (intro exI [of _ "- 1"] exI [of _ k1] exI [of _ 0]) simp
  next
    case (set pte k1)
    let ?k2 = "set_cell pte (PA2PTE pa OR perm OR PTE_V) k1"
    have "\<exists>r k' j. mappages_loop n root (va + PGSIZE) (pa + PGSIZE) perm ?k2 = Ok (r, k') \<and> evolves root ?k2 k'
      \<and> (\<forall>w < 2 ^ 27. pmap root k' w = fill (pmap root ?k2) (vpn (va + PGSIZE)) j (pa + PGSIZE) perm w)
      \<and> (r = 0 \<and> j = Suc n \<or> r = - 1 \<and> j \<le> n \<and> free_pages k' = {})"
    proof (rule Suc.IH)
      show "pt_inv root ?k2" using set(3) by (simp add: evolves_def)
      show "vpn (va + PGSIZE) + n < 2 ^ 26" using Suc.prems(2) vpn_next [OF va(1)] by simp
      show "\<forall>j \<le> n. pmap root ?k2 (vpn (va + PGSIZE) + j) = None" using Suc.prems(2,3) vpn_next [OF va(1)] set(4) by auto
    qed
    then obtain r k' j where rec: "mappages_loop n root (va + PGSIZE) (pa + PGSIZE) perm ?k2 = Ok (r, k')" "evolves root ?k2 k'"
      "\<And>w. w < 2 ^ 27 \<Longrightarrow> pmap root k' w = fill (pmap root ?k2) (Suc (vpn va)) j (pa + PGSIZE) perm w"
      "r = 0 \<and> j = Suc n \<or> r = - 1 \<and> j \<le> n \<and> free_pages k' = {}" unfolding vpn_next [OF va(1)] by blast
    have "mappages_loop (Suc n) root va pa perm k = Ok (r, k')"
      using set(1,2) rec(1) by (subst mappages_loop.simps) (simp del: mappages_loop.simps)
    moreover have "pmap root k' v = fill (pmap root k) (vpn va) (Suc j) pa perm v" if "v < 2 ^ 27" for v
      using rec(3) [OF that] fill_Suc [of "pmap root ?k2" v "vpn va" pa perm "pmap root k" j] set(4) [OF that] by simp
    ultimately show ?thesis using evolves_trans [OF set(3) rec(2)] rec(4)
      by (intro exI [of _ r] exI [of _ k'] exI [of _ "Suc j"]) auto
  qed
qed


section \<open>Unmapping a range\<close>

text \<open>Memory may change outside the tables without changing what the tables say.\<close>

lemma pt_frame:
  assumes inv: "pt_inv root k" and k1: "kmem_inv k1" "km_end k1 = km_end k"
    and eq: "\<forall>t \<in> tables root k. km_cells k1 t = km_cells k t" and fr: "tables root k \<inter> free_pages k1 = {}"
  shows "pt_inv root k1" "tables root k1 = tables root k" "pmap root k1 = pmap root k"
    "\<And>q. path_ok q \<Longrightarrow> table_at (km_cells k1) root q = table_at (km_cells k) root q"
proof -
  let ?m = "km_cells k1"
  have en: "entry ?m root (j # r) = entry (km_cells k) root (j # r)"
    if "path_ok r" "table_at ?m root r = table_at (km_cells k) root r" for j r
    using that bspec [OF eq tables_I [OF that(1)]] by (auto split: option.split)
  show tab: "table_at ?m root q = table_at (km_cells k) root q" if "path_ok q" for q
    using that
  proof (induction q)
    case (Cons j r)
    then have r: "path_ok r" "table_at ?m root r = table_at (km_cells k) root r" by auto
    show ?case using en [OF r, of j] by (simp only: table_at_entry list.distinct not_False_eq_True)
  qed simp
  show ts: "tables root k1 = tables root k" unfolding tables_def using tab by auto
  show "pmap root k1 = pmap root k"
    unfolding pmap_def path_of_def by (intro ext en tab) simp_all
  show "pt_inv root k1"
  proof (rule pt_invI)
    show "page_ok (km_end k1) u \<and> u \<notin> free_pages k1" if "u \<in> tables root k1" for u
      using that ts k1(2) fr pt_inv_table [OF inv] by auto
    show "q = r" if "path_ok q" "path_ok r" "table_at ?m root q = Some u" "table_at ?m root r = Some u" for q r u
      using pt_inv_inj [OF inv that(1,2)] that(3,4) tab [OF that(1)] tab [OF that(2)] by simp
    show "e AND RWX = 0" if q: "path_ok q" "entry ?m root q = Some e" for q e
    proof (cases q)
      case (Cons j r)
      with q have r: "path_ok r" by auto
      then show ?thesis using en [OF r tab [OF r], of j] q pt_inv_flags [OF inv q(1)] Cons by (simp del: entry.simps)
    qed (use q in simp)
  qed (rule k1)
qed

text \<open>A range of an address space that owns the pages mapped in it.\<close>

definition owns :: "u64 \<Rightarrow> kmem \<Rightarrow> nat set \<Rightarrow> bool" where
  "owns root k V \<longleftrightarrow>
     (\<forall>v \<in> V. \<forall>e. pmap root k v = Some e \<longrightarrow>
        page_ok (km_end k) (PTE2PA e) \<and> PTE2PA e \<notin> free_pages k \<and> PTE2PA e \<notin> tables root k)
     \<and> (\<forall>v \<in> V. \<forall>w \<in> V. \<forall>e f. pmap root k v = Some e \<longrightarrow> pmap root k w = Some f \<longrightarrow> PTE2PA e = PTE2PA f \<longrightarrow> v = w)"

definition pages_of :: "u64 \<Rightarrow> kmem \<Rightarrow> nat set \<Rightarrow> u64 set" where
  "pages_of root k V = {PTE2PA e | v e. v \<in> V \<and> pmap root k v = Some e}"

lemma ownsD:
  assumes "owns root k V" "v \<in> V" "pmap root k v = Some e"
  shows "page_ok (km_end k) (PTE2PA e)" "PTE2PA e \<notin> free_pages k" "PTE2PA e \<notin> tables root k"
    "w \<in> V \<Longrightarrow> pmap root k w = Some f \<Longrightarrow> PTE2PA e = PTE2PA f \<Longrightarrow> v = w"
  using assms unfolding owns_def by blast+

lemma owns_mono: "owns root k W \<Longrightarrow> V \<subseteq> W \<Longrightarrow> owns root k V"
  unfolding owns_def by blast

lemma pages_of_Un: "pages_of root k (V \<union> W) = pages_of root k V \<union> pages_of root k W"
  by (auto simp: pages_of_def)

lemma pages_of_one: "pages_of root k {v} = (case pmap root k v of None \<Rightarrow> {} | Some e \<Rightarrow> {PTE2PA e})"
  by (auto simp: pages_of_def split: option.split)

lemma walk_absent:
  assumes "va < MAXVA" "pmap root k (vpn va) = None"
  shows "walk root va False k = Ok (None, k) \<or> (\<exists>pte. walk root va False k = Ok (Some pte, k) \<and> \<not> valid (cell k pte))"
proof (cases "table_at (km_cells k) root [PX 1 va, PX 2 va]")
  case None
  then show ?thesis by (simp add: walk_find [OF assms(1)] del: table_at.simps)
next
  case (Some t)
  then show ?thesis using mapped_entry [OF Some] assms(2)
    by (auto simp: walk_find [OF assms(1)] simp del: table_at.simps split: if_splits)
qed

lemma walk_present:
  assumes "va < MAXVA" "pmap root k (vpn va) = Some e"
  obtains t where "table_at (km_cells k) root [PX 1 va, PX 2 va] = Some t"
    "walk root va False k = Ok (Some (t, PX 0 va), k)" "cell k (t, PX 0 va) = e" "valid e"
proof -
  obtain t where t: "table_at (km_cells k) root [PX 1 va, PX 2 va] = Some t"
    using assms(2) unfolding pmap_def path_of_vpn_table by (cases "table_at (km_cells k) root [PX 1 va, PX 2 va]") auto
  then show ?thesis using that [OF t] mapped_entry [OF t] assms(2)
    by (simp add: walk_find [OF assms(1)] del: table_at.simps split: if_splits)
qed

text \<open>What unmapping a set of pages does, with or without freeing them.\<close>

definition unmapped :: "u64 \<Rightarrow> bool \<Rightarrow> nat set \<Rightarrow> kmem \<Rightarrow> kmem \<Rightarrow> bool" where
  "unmapped root do_free V k k' \<longleftrightarrow> pt_inv root k' \<and> km_end k' = km_end k \<and> tables root k' = tables root k
     \<and> free_pages k' = free_pages k \<union> (if do_free then pages_of root k V else {})
     \<and> (\<forall>w < 2 ^ 27. pmap root k' w = (if w \<in> V then None else pmap root k w))
     \<and> (\<forall>u. u \<notin> tables root k \<longrightarrow> u \<notin> (if do_free then pages_of root k V else {}) \<longrightarrow> km_cells k' u = km_cells k u)"

lemma unmapped_refl: "pt_inv root k \<Longrightarrow> (\<And>v. v \<in> V \<Longrightarrow> pmap root k v = None) \<Longrightarrow> unmapped root do_free V k k"
  by (auto simp: unmapped_def pages_of_def)

lemma unmapped_trans:
  assumes a: "unmapped root do_free V k k1" and b: "unmapped root do_free W k1 k2"
    and d: "V \<inter> W = {}" "\<forall>w \<in> W. w < 2 ^ 27"
  shows "unmapped root do_free (V \<union> W) k k2"
proof -
  have "pmap root k1 w = pmap root k w" if "w \<in> W" for w using a d that by (auto simp: unmapped_def)
  then have "pages_of root k1 W = pages_of root k W" unfolding pages_of_def by (intro Collect_cong ex_cong1) auto
  then show ?thesis using a b unfolding unmapped_def pages_of_Un by (simp add: Un_assoc)
qed

lemma unmap_one:
  assumes inv: "pt_inv root k" and va: "va < MAXVA" and e: "pmap root k (vpn va) = Some e"
    and own: "do_free \<Longrightarrow> owns root k {vpn va}"
  obtains t k1 k2 where "walk root va False k = Ok (Some (t, PX 0 va), k)" "cell k (t, PX 0 va) = e" "valid e"
    "(if do_free then kfree (PTE2PA e) k else Ok k) = Ok k1" "k2 = set_cell (t, PX 0 va) 0 k1"
    "unmapped root do_free {vpn va} k k2"
proof -
  obtain t where t: "table_at (km_cells k) root [PX 1 va, PX 2 va] = Some t"
    "walk root va False k = Ok (Some (t, PX 0 va), k)" "cell k (t, PX 0 va) = e" "valid e"
    using walk_present [OF va e] .
  have "\<exists>k1. (if do_free then kfree (PTE2PA e) k else Ok k) = Ok k1 \<and> kmem_inv k1 \<and> km_end k1 = km_end k
    \<and> free_pages k1 = free_pages k \<union> (if do_free then {PTE2PA e} else {})
    \<and> (\<forall>u. \<not> (do_free \<and> u = PTE2PA e) \<longrightarrow> km_cells k1 u = km_cells k u) \<and> (do_free \<longrightarrow> PTE2PA e \<notin> tables root k)"
  proof (cases do_free)
    case True
    note o = ownsD [OF own [OF True] singletonI e]
    show ?thesis using kfree_some [OF pt_inv_kmem [OF inv] o(1,2)] o(3) True by auto
  qed (use pt_inv_kmem [OF inv] in simp)
  then obtain k1 where k1: "(if do_free then kfree (PTE2PA e) k else Ok k) = Ok k1" "kmem_inv k1" "km_end k1 = km_end k"
    "free_pages k1 = free_pages k \<union> (if do_free then {PTE2PA e} else {})"
    "\<And>u. \<not> (do_free \<and> u = PTE2PA e) \<Longrightarrow> km_cells k1 u = km_cells k u" "do_free \<Longrightarrow> PTE2PA e \<notin> tables root k" by blast
  have same: "km_cells k1 u = km_cells k u" if "u \<in> tables root k" for u
  proof -
    have "\<not> (do_free \<and> u = PTE2PA e)" using that k1(6) by auto
    then show ?thesis by (rule k1(5))
  qed
  have "tables root k \<inter> free_pages k1 = {}" using k1(4,6) pt_inv_table(2) [OF inv] by (auto split: if_splits)
  moreover have "\<forall>u \<in> tables root k. km_cells k1 u = km_cells k u" using same by blast
  ultimately have fr: "pt_inv root k1" "tables root k1 = tables root k" "pmap root k1 = pmap root k"
    "\<And>q. path_ok q \<Longrightarrow> table_at (km_cells k1) root q = table_at (km_cells k) root q"
    using pt_frame [OF inv k1(2,3)] by blast+
  have p: "path_ok [PX 1 va, PX 2 va]" "length [PX 1 va, PX 2 va] = 2" by simp_all
  have t1: "table_at (km_cells k1) root [PX 1 va, PX 2 va] = Some t" using fr(4) [OF p(1)] t(1) by (simp only:)
  let ?k2 = "set_cell (t, PX 0 va) 0 k1"
  note l = pt_inv_leaf [OF fr(1) p t1 PX_less refl [of ?k2]]
  have tt: "t \<in> tables root k" using p(1) t(1) by (rule tables_I)
  have cells: "km_cells ?k2 u = km_cells k u" if "u \<notin> tables root k" "\<not> (do_free \<and> u = PTE2PA e)" for u
  proof -
    have "u \<noteq> t" using that(1) tt by auto
    then show ?thesis using l(7) k1(5) [OF that(2)] by simp
  qed
  have pm: "pmap root ?k2 w = (if w = vpn va then None else pmap root k w)" if "w < 2 ^ 27" for w
    using pmap_set_leaf [OF fr(1) t1 va refl that, of 0] fr(3) by simp
  have "unmapped root do_free {vpn va} k ?k2"
    unfolding unmapped_def pages_of_one using l(1-4) k1(3,4) fr(2) e pm cells by simp
  then show ?thesis by (rule that [OF t(2-4) k1(1) refl])
qed


lemma owns_unmapped:
  assumes own: "owns root k W" and V: "V \<subseteq> W" "V \<inter> U = {}" "\<forall>v \<in> V. v < 2 ^ 27" and U: "U \<subseteq> W" and u: "unmapped root do_free U k k1"
  shows "owns root k1 V"
proof -
  have same: "pmap root k1 v = pmap root k v" if "v \<in> V" for v using that V u by (auto simp: unmapped_def)
  have nf: "PTE2PA e \<notin> free_pages k1" if v: "v \<in> V" "pmap root k v = Some e" for v e
  proof
    have vW: "v \<in> W" using v(1) V(1) by auto
    assume "PTE2PA e \<in> free_pages k1"
    then have "PTE2PA e \<in> pages_of root k U" using u ownsD(2) [OF own vW v(2)] by (auto simp: unmapped_def split: if_splits)
    then obtain w f where w: "w \<in> U" "pmap root k w = Some f" "PTE2PA e = PTE2PA f" by (auto simp: pages_of_def)
    then show False using ownsD(4) [OF own vW v(2), of w f] v(1) V(2) U by auto
  qed
  have "owns root k V" using own V(1) by (rule owns_mono)
  moreover have "km_end k1 = km_end k" "tables root k1 = tables root k" using u by (simp_all add: unmapped_def)
  ultimately show ?thesis unfolding owns_def using same nf by auto
qed

lemma range_step:
  assumes "va < MAXVA" "vpn va + Suc n \<le> 2 ^ 26"
  shows "va < va + of_nat (Suc n) * PGSIZE" "va + of_nat (Suc n) * PGSIZE = (va + PGSIZE) + of_nat n * PGSIZE"
proof -
  have "unat va < 2 ^ 38" using assms(1) by (simp add: word_less_nat_alt MAXVA_def)
  moreover have "unat ((of_nat (Suc n)::u64) * PGSIZE) = Suc n * 4096"
    using assms(2) by (simp add: unat_word_ariths PGSIZE_def unat_of_nat)
  moreover have "Suc n \<le> 2 ^ 26" using assms(2) by simp
  ultimately show "va < va + of_nat (Suc n) * PGSIZE"
    by (simp add: word_less_nat_alt unat_word_ariths(1) del: of_nat_Suc)
qed (simp add: algebra_simps)

lemma uvmunmap_loop_spec:
  assumes "pt_inv root k" "vpn va + n \<le> 2 ^ 26" "do_free \<Longrightarrow> owns root k {vpn va..<vpn va + n}"
  shows "\<exists>k'. uvmunmap_loop root va (va + of_nat n * PGSIZE) do_free k = Ok k' \<and> unmapped root do_free {vpn va..<vpn va + n} k k'"
  using assms
proof (induction n arbitrary: va k)
  case (0 va k)
  have "unmapped root do_free {} k k" by (rule unmapped_refl [OF "0.prems"(1)]) simp
  then show ?case by (subst uvmunmap_loop.simps) simp
next
  case (Suc n va k)
  let ?W = "{Suc (vpn va)..<Suc (vpn va) + n}"
  have va: "va < MAXVA" using Suc.prems(2) by (simp add: vpn_less)
  have V: "{vpn va..<vpn va + Suc n} = {vpn va} \<union> ?W" by auto
  note own = Suc.prems(3) [unfolded V]
  note lt = range_step [OF va Suc.prems(2)]
  have step: "\<exists>k'. uvmunmap_loop root va (va + of_nat (Suc n) * PGSIZE) do_free k = Ok k' \<and> unmapped root do_free ({vpn va} \<union> ?W) k k'"
    if run: "uvmunmap_loop root va (va + of_nat (Suc n) * PGSIZE) do_free k = uvmunmap_loop root (va + PGSIZE) (va + PGSIZE + of_nat n * PGSIZE) do_free k2"
      and u: "unmapped root do_free {vpn va} k k2" for k2
  proof -
    have "owns root k2 ?W" if do_free using owns_unmapped [OF own [OF that] _ _ _ _ u, of ?W] Suc.prems(2) by auto
    then obtain k' where "uvmunmap_loop root (va + PGSIZE) (va + PGSIZE + of_nat n * PGSIZE) do_free k2 = Ok k'" "unmapped root do_free ?W k2 k'"
      using Suc.IH [of k2 "va + PGSIZE"] Suc.prems(2) u unfolding vpn_next [OF va] by (auto simp: unmapped_def)
    then show ?thesis unfolding run using unmapped_trans [OF u] Suc.prems(2) by auto
  qed
  show ?case unfolding V
  proof (cases "pmap root k (vpn va)")
    case None
    show "\<exists>k'. uvmunmap_loop root va (va + of_nat (Suc n) * PGSIZE) do_free k = Ok k' \<and> unmapped root do_free ({vpn va} \<union> ?W) k k'"
    proof (rule step [of k])
      show "unmapped root do_free {vpn va} k k" using Suc.prems(1) None by (intro unmapped_refl) auto
      show "uvmunmap_loop root va (va + of_nat (Suc n) * PGSIZE) do_free k = uvmunmap_loop root (va + PGSIZE) (va + PGSIZE + of_nat n * PGSIZE) do_free k"
        unfolding lt(2) using walk_absent [OF va None] lt(1) [unfolded lt(2)] by (subst uvmunmap_loop.simps) auto
    qed
  next
    case (Some f)
    have "owns root k {vpn va}" if do_free using owns_mono [OF own [OF that], of "{vpn va}"] by simp
    then obtain t k1 k2 where s: "walk root va False k = Ok (Some (t, PX 0 va), k)" "cell k (t, PX 0 va) = f" "valid f"
      "(if do_free then kfree (PTE2PA f) k else Ok k) = Ok k1" "k2 = set_cell (t, PX 0 va) 0 k1" "unmapped root do_free {vpn va} k k2"
      using unmap_one [OF Suc.prems(1) va Some] by blast
    show "\<exists>k'. uvmunmap_loop root va (va + of_nat (Suc n) * PGSIZE) do_free k = Ok k' \<and> unmapped root do_free ({vpn va} \<union> ?W) k k'"
    proof (rule step [OF _ s(6)])
      show "uvmunmap_loop root va (va + of_nat (Suc n) * PGSIZE) do_free k = uvmunmap_loop root (va + PGSIZE) (va + PGSIZE + of_nat n * PGSIZE) do_free k2"
        unfolding lt(2) using s(1-5) lt(1) [unfolded lt(2)] by (subst uvmunmap_loop.simps) (cases do_free; simp)
    qed
  qed
qed


section \<open>Freeing the tables\<close>

text \<open>The pages of a tree of tables, and trees in which every entry of the lowest level is invalid.\<close>

fun tree_pages :: "mem \<Rightarrow> nat \<Rightarrow> u64 \<Rightarrow> u64 set" where
  "tree_pages m 0 t = {}"
| "tree_pages m (Suc d) t = insert t (\<Union>i \<in> {i. i < 512 \<and> valid (m t i)}. tree_pages m d (PTE2PA (m t i)))"

fun tree_ok :: "mem \<Rightarrow> nat \<Rightarrow> u64 \<Rightarrow> bool" where
  "tree_ok m 0 t \<longleftrightarrow> False"
| "tree_ok m (Suc d) t \<longleftrightarrow>
     (\<forall>i < 512. valid (m t i) \<longrightarrow> m t i AND RWX = 0 \<and> tree_ok m d (PTE2PA (m t i)) \<and> t \<notin> tree_pages m d (PTE2PA (m t i)))
     \<and> (\<forall>i < 512. \<forall>j < 512. i \<noteq> j \<longrightarrow> valid (m t i) \<longrightarrow> valid (m t j) \<longrightarrow>
          tree_pages m d (PTE2PA (m t i)) \<inter> tree_pages m d (PTE2PA (m t j)) = {})"

lemma tree_ok_child:
  assumes "tree_ok m (Suc d) t" "i < 512" "valid (m t i)"
  shows "m t i AND RWX = 0" "tree_ok m d (PTE2PA (m t i))" "t \<notin> tree_pages m d (PTE2PA (m t i))"
  using assms by simp_all

lemma tree_ok_disjoint:
  assumes "tree_ok m (Suc d) t" "i < j" "j < 512" "valid (m t i)" "valid (m t j)"
  shows "tree_pages m d (PTE2PA (m t i)) \<inter> tree_pages m d (PTE2PA (m t j)) = {}"
proof -
  have "i < 512" "i \<noteq> j" using assms(2,3) by simp_all
  with assms show ?thesis unfolding tree_ok.simps by blast
qed

lemma tree_cong:
  "(\<And>u. u \<in> tree_pages m d t \<Longrightarrow> m1 u = m u) \<Longrightarrow> tree_pages m1 d t = tree_pages m d t \<and> tree_ok m1 d t = tree_ok m d t"
proof (induction d arbitrary: t)
  case (Suc d t)
  have t: "m1 t = m t" using Suc.prems by simp
  have c: "tree_pages m1 d (PTE2PA (m t i)) = tree_pages m d (PTE2PA (m t i)) \<and> tree_ok m1 d (PTE2PA (m t i)) = tree_ok m d (PTE2PA (m t i))"
    if "i < 512" "valid (m t i)" for i
    by (rule Suc.IH, rule Suc.prems) (use that in auto)
  have "tree_pages m1 (Suc d) t = tree_pages m (Suc d) t" using c t by auto
  moreover have "tree_ok m1 (Suc d) t = tree_ok m (Suc d) t"
    unfolding tree_ok.simps t using c by (intro arg_cong2 [where f = "(\<and>)"] all_cong imp_cong refl) simp_all
  ultimately show ?case by simp
qed simp

text \<open>
  One entry of the loop of \<open>freewalk\<close>, given that the recursive call is right: the tree below the entry is
  freed and the entry cleared.
\<close>

definition freed :: "u64 set \<Rightarrow> kmem \<Rightarrow> kmem \<Rightarrow> bool" where
  "freed S k k' \<longleftrightarrow> kmem_inv k' \<and> km_end k' = km_end k \<and> free_pages k' = free_pages k \<union> S
     \<and> (\<forall>u. u \<notin> S \<longrightarrow> km_cells k' u = km_cells k u)"

definition freeable :: "u64 set \<Rightarrow> kmem \<Rightarrow> bool" where
  "freeable S k \<longleftrightarrow> kmem_inv k \<and> S \<inter> free_pages k = {} \<and> (\<forall>u \<in> S. page_ok (km_end k) u)"

abbreviation freewalk_body :: "nat \<Rightarrow> u64 \<Rightarrow> nat \<Rightarrow> kmem \<Rightarrow> kmem res" where
  "freewalk_body d t \<equiv> \<lambda>i k. let pte = cell k (t, i) in
     if valid pte \<and> pte AND RWX = 0
     then bind_res (freewalk d (PTE2PA pte) k) (\<lambda>k1. Ok (set_cell (t, i) 0 k1))
     else if valid pte then Panic ''freewalk: leaf'' else Ok k"

lemma freewalk_loop:
  fixes m :: mem
  assumes IH: "\<And>u k. tree_ok (km_cells k) d u \<Longrightarrow> freeable (tree_pages (km_cells k) d u) k
      \<Longrightarrow> \<exists>k'. freewalk d u k = Ok k' \<and> freed (tree_pages (km_cells k) d u) k k'"
    and ok: "tree_ok m (Suc d) t" and fr: "freeable (tree_pages m (Suc d) t) k0" "km_cells k0 = m"
    and n: "n \<le> 512"
  defines "S \<equiv> \<lambda>n. \<Union>i \<in> {i. i < n \<and> valid (m t i)}. tree_pages m d (PTE2PA (m t i))"
  shows "\<exists>k. fold_res (freewalk_body d t) [0..<n] k0 = Ok k \<and> kmem_inv k \<and> km_end k = km_end k0
    \<and> free_pages k = free_pages k0 \<union> S n
    \<and> (\<forall>u. u \<notin> S n \<longrightarrow> u \<noteq> t \<longrightarrow> km_cells k u = m u) \<and> (\<forall>i. n \<le> i \<longrightarrow> km_cells k t i = m t i)"
  using n
proof (induction n)
  case 0
  then show ?case using fr by (simp add: freeable_def S_def)
next
  case (Suc n)
  then obtain k where k: "fold_res (freewalk_body d t) [0..<n] k0 = Ok k" "kmem_inv k" "km_end k = km_end k0"
    "free_pages k = free_pages k0 \<union> S n" "\<And>u. u \<notin> S n \<Longrightarrow> u \<noteq> t \<Longrightarrow> km_cells k u = m u"
    "\<And>i. n \<le> i \<Longrightarrow> km_cells k t i = m t i" by auto
  have run: "fold_res (freewalk_body d t) [0..<Suc n] k0 = freewalk_body d t n k"
    using k(1) by (cases "freewalk_body d t n k") (simp_all add: fold_res_append)
  have c: "cell k (t, n) = m t n" using k(6) by (simp add: cell_def)
  have S: "S (Suc n) = S n \<union> (if valid (m t n) then tree_pages m d (PTE2PA (m t n)) else {})"
    by (auto simp: S_def less_Suc_eq)
  show ?case
  proof (cases "valid (m t n)")
    case False
    then show ?thesis using run k c by (auto simp: S)
  next
    case True
    let ?c = "PTE2PA (m t n)"
    let ?T = "tree_pages m d ?c"
    have n: "n < 512" using Suc.prems by simp
    note okc = tree_ok_child [OF ok n True]
    have "tree_pages m d (PTE2PA (m t i)) \<inter> ?T = {}" if "i < n" "valid (m t i)" for i
      using tree_ok_disjoint [OF ok that(1) n that(2) True] .
    then have dis: "S n \<inter> ?T = {}" by (auto simp: S_def)
    have sub: "?T \<subseteq> tree_pages m (Suc d) t" using True Suc.prems by auto
    have same: "km_cells k u = m u" if "u \<in> ?T" for u using that okc(3) dis by (intro k(5)) auto
    have tc: "tree_pages (km_cells k) d ?c = ?T" "tree_ok (km_cells k) d ?c" using tree_cong [of m d ?c "km_cells k"] same okc(2) by auto
    have fc: "freeable ?T k" unfolding freeable_def k(3,4) using fr(1) [unfolded freeable_def] k(2) sub dis by blast
    obtain k1 where k1: "freewalk d ?c k = Ok k1" "freed ?T k k1" using IH [OF tc(2)] fc tc(1) by auto
    let ?k2 = "set_cell (t, n) 0 k1"
    have nt: "t \<notin> free_pages k1"
    proof -
      have "t \<notin> tree_pages m d (PTE2PA (m t i))" if "i < 512" "valid (m t i)" for i using tree_ok_child(3) [OF ok that] .
      then have "t \<notin> S n" using Suc.prems by (auto simp: S_def)
      moreover have "t \<notin> free_pages k0" using fr(1) by (auto simp: freeable_def)
      ultimately show ?thesis using k1(2) k(4) okc(3) by (simp add: freed_def)
    qed
    have k2: "?k2 = k1\<lparr>km_cells := set_word t n 0 (km_cells k1)\<rparr>" by (simp add: set_cell_def)
    have "set_word t n 0 (km_cells k1) q = km_cells k1 q" if "q \<in> free_pages k1" for q
      using that nt by (auto simp: set_word_def)
    note fk = kmem_frame [OF _ this, folded k2]
    have "kmem_inv ?k2" "free_pages ?k2 = free_pages k1" "km_end ?k2 = km_end k1"
      using fk k1(2) by (simp_all add: freed_def set_cell_def)
    moreover have "km_cells ?k2 u = m u" if "u \<notin> S (Suc n)" "u \<noteq> t" for u
      using that k1(2) k(5) True by (simp add: S freed_def set_cell_def set_word_def)
    moreover have "km_cells ?k2 t i = m t i" if "Suc n \<le> i" for i
      using that k1(2) k(6) okc(3) by (simp add: freed_def set_cell_def set_word_def)
    ultimately show ?thesis unfolding run using c k1 k(3,4) okc(1) True by (auto simp: S freed_def)
  qed
qed

lemma freewalk_spec:
  "tree_ok (km_cells k) d t \<Longrightarrow> freeable (tree_pages (km_cells k) d t) k
    \<Longrightarrow> \<exists>k'. freewalk d t k = Ok k' \<and> freed (tree_pages (km_cells k) d t) k k'"
proof (induction d arbitrary: t k)
  case (Suc d t k)
  let ?m = "km_cells k"
  let ?S = "\<Union>i \<in> {i. i < 512 \<and> valid (?m t i)}. tree_pages ?m d (PTE2PA (?m t i))"
  obtain k1 where k1: "fold_res (freewalk_body d t) [0..<512] k = Ok k1" "kmem_inv k1" "km_end k1 = km_end k"
    "free_pages k1 = free_pages k \<union> ?S" "\<And>u. u \<notin> ?S \<Longrightarrow> u \<noteq> t \<Longrightarrow> km_cells k1 u = ?m u"
    using freewalk_loop [OF Suc.IH Suc.prems refl order_refl] by blast
  have nS: "t \<notin> ?S" using tree_ok_child(3) [OF Suc.prems(1)] by blast
  have "page_ok (km_end k1) t" "t \<notin> free_pages k1" using Suc.prems(2) k1(3,4) nS by (auto simp: freeable_def)
  then obtain k2 where k2: "kfree t k1 = Ok k2" "kmem_inv k2" "free_pages k2 = insert t (free_pages k1)" "km_end k2 = km_end k1"
    "\<forall>q. q \<noteq> t \<longrightarrow> km_cells k2 q = km_cells k1 q" using kfree_some [OF k1(2)] by blast
  have "freed (insert t ?S) k k2" using k2 k1(3-5) by (auto simp: freed_def)
  then show ?case using k1(1) k2(1) by simp
qed simp


lemma table_at_suffix: "table_at m root (r @ p) \<noteq> None \<Longrightarrow> table_at m root p \<noteq> None"
  by (induction r) (auto split: option.splits)

lemma path_ok_append: "path_ok (r @ p) \<Longrightarrow> path_ok p"
  by (auto simp: path_ok_def idx_ok_def)

lemma subtree_pages:
  assumes "length p + d = 2" "path_ok p" "table_at m root p = Some t"
  shows "tree_pages m (Suc d) t = {u. \<exists>r. path_ok (r @ p) \<and> table_at m root (r @ p) = Some u}"
  using assms
proof (induction d arbitrary: p t)
  case (0 p t)
  then have "r = []" if "path_ok (r @ p)" for r using that by (auto simp: path_ok_def)
  then have "(\<exists>r. path_ok (r @ p) \<and> table_at m root (r @ p) = Some u) \<longleftrightarrow> u = t" for u
    using "0.prems"(2,3) by (metis append_Nil option.inject)
  then show ?case by simp
next
  case (Suc d p t)
  let ?sub = "\<lambda>p. {u. \<exists>r. path_ok (r @ p) \<and> table_at m root (r @ p) = Some u}"
  have child: "tree_pages m (Suc d) (PTE2PA (m t i)) = ?sub (i # p)" if "i < 512" "valid (m t i)" for i
    by (rule Suc.IH) (use Suc.prems that in simp_all)
  have "?sub p = insert t (\<Union>i \<in> {i. i < 512 \<and> valid (m t i)}. ?sub (i # p))"
  proof (intro set_eqI iffI)
    fix u assume "u \<in> ?sub p"
    then obtain r where r: "path_ok (r @ p)" "table_at m root (r @ p) = Some u" by auto
    show "u \<in> insert t (\<Union>i \<in> {i. i < 512 \<and> valid (m t i)}. ?sub (i # p))"
    proof (cases r rule: rev_cases)
      case Nil
      then show ?thesis using r Suc.prems(3) by simp
    next
      case (snoc r' i)
      then have s: "path_ok (r' @ i # p)" "table_at m root (r' @ i # p) = Some u" using r by simp_all
      have "i < 512" using path_ok_append [OF s(1)] by simp
      moreover have "valid (m t i)" using table_at_suffix [of m root r' "i # p"] s(2) Suc.prems(3) by (auto split: if_splits)
      ultimately show ?thesis using s by auto
    qed
  next
    fix u assume "u \<in> insert t (\<Union>i \<in> {i. i < 512 \<and> valid (m t i)}. ?sub (i # p))"
    then consider "u = t" | i r where "path_ok ((r @ [i]) @ p)" "table_at m root ((r @ [i]) @ p) = Some u" by auto
    then show "u \<in> ?sub p"
    proof cases
      case 1
      then show ?thesis using Suc.prems(2,3) by (intro CollectI exI [of _ "[]"]) simp
    qed blast
  qed
  then show ?case using child by auto
qed

lemma subtree_ok:
  assumes inv: "pt_inv root k" and none: "\<And>q. length q = 3 \<Longrightarrow> idx_ok q \<Longrightarrow> entry (km_cells k) root q = None"
    and p: "length p + d = 2" "path_ok p" "table_at (km_cells k) root p = Some t"
  shows "tree_ok (km_cells k) (Suc d) t"
  using p
proof (induction d arbitrary: p t)
  case (0 p t)
  have "\<not> valid (km_cells k t i)" if "i < 512" for i
    using none [of "i # p"] that 0 by (auto simp: path_ok_def split: if_splits)
  then show ?case by simp
next
  case (Suc d p t)
  let ?m = "km_cells k"
  have c: "length (i # p) + d = 2" "path_ok (i # p)" "table_at ?m root (i # p) = Some (PTE2PA (?m t i))"
    if "i < 512" "valid (?m t i)" for i using Suc.prems that by simp_all
  have pages: "tree_pages ?m (Suc d) (PTE2PA (?m t i)) = {u. \<exists>r. path_ok (r @ i # p) \<and> table_at ?m root (r @ i # p) = Some u}"
    if "i < 512" "valid (?m t i)" for i by (rule subtree_pages [OF c [OF that]])
  have one: "?m t i AND RWX = 0 \<and> tree_ok ?m (Suc d) (PTE2PA (?m t i)) \<and> t \<notin> tree_pages ?m (Suc d) (PTE2PA (?m t i))"
    if i: "i < 512" "valid (?m t i)" for i
  proof (intro conjI)
    show "?m t i AND RWX = 0" using pt_inv_flags [OF inv c(2) [OF i]] i Suc.prems(3) by simp
    show "tree_ok ?m (Suc d) (PTE2PA (?m t i))" by (rule Suc.IH [OF c [OF i]])
    show "t \<notin> tree_pages ?m (Suc d) (PTE2PA (?m t i))"
    proof
      assume "t \<in> tree_pages ?m (Suc d) (PTE2PA (?m t i))"
      then obtain r where "path_ok (r @ i # p)" "table_at ?m root (r @ i # p) = Some t" unfolding pages [OF i] by blast
      then have "p = r @ i # p" using pt_inv_inj [OF inv Suc.prems(2) _ Suc.prems(3)] by blast
      then have "length p = length (r @ i # p)" by (rule arg_cong)
      then show False by simp
    qed
  qed
  have "tree_pages ?m (Suc d) (PTE2PA (?m t i)) \<inter> tree_pages ?m (Suc d) (PTE2PA (?m t j)) = {}"
    if i: "i < 512" "valid (?m t i)" and j: "j < 512" "valid (?m t j)" and "i \<noteq> j" for i j
  proof -
    have ne: "r @ i # p \<noteq> s @ j # p" for r s
    proof
      assume "r @ i # p = s @ j # p"
      then have "(r @ [i]) @ p = (s @ [j]) @ p" by simp
      then have "r @ [i] = s @ [j]" by (simp only: append_same_eq)
      then show False using \<open>i \<noteq> j\<close> by simp
    qed
    have False if "path_ok (r @ i # p)" "table_at ?m root (r @ i # p) = Some u" "path_ok (s @ j # p)" "table_at ?m root (s @ j # p) = Some u" for r s u
      using pt_inv_inj [OF inv that(1,3,2,4)] ne by simp
    then show ?thesis unfolding pages [OF i] pages [OF j] by blast
  qed
  with one show ?case by (simp only: tree_ok.simps) blast
qed

lemma idx_ok_path_of:
  assumes "length q = 3" "idx_ok q"
  obtains v where "v < 2 ^ 27" "q = path_of v"
proof -
  obtain a b c where q: "q = [a, b, c]" using assms(1) by (auto simp: length_Suc_conv numeral_3_eq_3)
  have l: "a < 512" "b < 512" "c < 512" using assms(2) q by simp_all
  let ?v = "a + 512 * (b + 512 * c)"
  have "(a + 512 * x) mod 512 = a" "(a + 512 * x) div 512 = x" for x using l by simp_all
  note this [of "b + 512 * c"]
  moreover have "?v div 262144 = ?v div 512 div 512" by (simp add: div_mult2_eq [symmetric])
  ultimately have "path_of ?v = q" using l unfolding q path_of_def by simp
  moreover have "?v < 2 ^ 27" using l by simp
  ultimately show ?thesis using that by blast
qed

lemma freewalk_frees_tables:
  assumes inv: "pt_inv root k" and none: "\<And>v. v < 2 ^ 27 \<Longrightarrow> pmap root k v = None"
  shows "\<exists>k'. freewalk 3 root k = Ok k' \<and> freed (tables root k) k k'"
proof -
  let ?m = "km_cells k"
  have e: "entry ?m root q = None" if "length q = 3" "idx_ok q" for q
    using idx_ok_path_of [OF that] none unfolding pmap_def by metis
  have p: "length ([]::nat list) + 2 = 2" "path_ok []" "table_at ?m root [] = Some root" by simp_all
  have three: "(3::nat) = Suc 2" by simp
  have pg: "tree_pages ?m 3 root = tables root k" unfolding three subtree_pages [OF p] by (simp add: tables_def)
  have ok: "tree_ok ?m 3 root" unfolding three by (rule subtree_ok [OF inv e p])
  have "freeable (tables root k) k" using pt_inv_table [OF inv] pt_inv_kmem [OF inv] by (auto simp: freeable_def)
  then show ?thesis using freewalk_spec [OF ok] unfolding pg by blast
qed


section \<open>Growing and shrinking\<close>

text \<open>The number of pages a size takes.\<close>

definition npages :: "u64 \<Rightarrow> nat" where "npages sz = (unat sz + 4095) div 4096"

lemma unat_MAXVA: "unat MAXVA = 2 ^ 38"
  by (simp add: MAXVA_def)

lemma unat_round:
  assumes "sz \<le> MAXVA"
  shows "unat (PGROUNDUP sz) = npages sz * 4096" "npages sz \<le> 2 ^ 26" "vpn (PGROUNDUP sz) = npages sz"
proof -
  have sz: "unat sz \<le> 2 ^ 38" using assms unat_MAXVA by (simp add: word_le_nat_alt)
  then show u: "unat (PGROUNDUP sz) = npages sz * 4096" unfolding npages_def by (intro unat_PGROUNDUP) simp
  then show "vpn (PGROUNDUP sz) = npages sz" by (simp add: vpn_def)
  have "npages sz \<le> (2 ^ 38 + 4095) div 4096" unfolding npages_def using sz by (intro div_le_mono) simp
  then show "npages sz \<le> 2 ^ 26" by simp
qed

lemma unat_pages: "n \<le> 2 ^ 26 \<Longrightarrow> unat ((of_nat n :: u64) * PGSIZE) = n * 4096"
  by (simp add: unat_word_ariths PGSIZE_def unat_of_nat)

lemma page_address: "n \<le> 2 ^ 26 \<Longrightarrow> unat a = n * 4096 \<Longrightarrow> a = of_nat n * PGSIZE"
  by (simp add: word_unat_eq_iff unat_pages)

lemma vpn_page: "n \<le> 2 ^ 26 \<Longrightarrow> vpn (of_nat n * PGSIZE) = n"
  by (simp add: vpn_def unat_pages)

lemma page_address_aligned: "n \<le> 2 ^ 26 \<Longrightarrow> page_aligned (of_nat n * PGSIZE)"
  by (simp add: page_aligned_iff unat_pages)

lemma PGROUNDUP_page: "n \<le> 2 ^ 26 \<Longrightarrow> PGROUNDUP (of_nat n * PGSIZE) = of_nat n * PGSIZE"
proof -
  assume n: "n \<le> 2 ^ 26"
  have "unat (PGROUNDUP (of_nat n * PGSIZE)) = (n * 4096 + 4095) div 4096 * 4096"
    using n by (subst unat_PGROUNDUP) (simp_all add: unat_pages)
  also have "(n * 4096 + 4095) div 4096 = n" by simp
  finally show ?thesis using n by (intro page_address)
qed

lemma int_of_u64_small: "n < 2 ^ 31 \<Longrightarrow> int_of_u64 (of_nat n) = of_nat n"
proof -
  assume n: "n < 2 ^ 31"
  have "int n < 2 ^ 31" using n by simp
  then have s: "sint (of_nat n :: 32 word) = int n" by (simp only: signed_of_nat) (simp add: signed_take_bit_int_eq_self)
  have "(ucast (of_nat n :: u64) :: 32 word) = of_nat (take_bit 64 n)" by (simp only: unsigned_of_nat) simp
  also have "take_bit 64 n = n" using n by (intro take_bit_nat_eq_self) simp
  finally have "int_of_u64 (of_nat n) = word_of_int (sint (of_nat n :: 32 word))" unfolding int_of_u64_def by (simp only: scast_eq)
  then show ?thesis unfolding s by simp
qed

lemma div_PGSIZE: "n \<le> 2 ^ 26 \<Longrightarrow> (of_nat n * PGSIZE) div PGSIZE = (of_nat n :: u64)"
proof -
  assume n: "n \<le> 2 ^ 26"
  have "unat (x div PGSIZE) = unat x div 4096" for x :: u64 by (simp add: unat_div_distrib PGSIZE_def)
  then have "unat ((of_nat n * PGSIZE) div PGSIZE) = unat ((of_nat n :: u64) * PGSIZE) div 4096" .
  also have "\<dots> = n" using n by (simp add: unat_pages)
  also have "n = unat (of_nat n :: u64)" using n by (simp add: unat_of_nat)
  finally show ?thesis by (simp add: word_unat_eq_iff)
qed

lemma uvmunmap_spec:
  assumes "pt_inv root k" "v + n \<le> 2 ^ 26" "do_free \<Longrightarrow> owns root k {v..<v + n}"
  shows "\<exists>k'. uvmunmap root (of_nat v * PGSIZE) (of_nat n) do_free k = Ok k' \<and> unmapped root do_free {v..<v + n} k k'"
proof -
  have v: "v \<le> 2 ^ 26" using assms(2) by simp
  have "\<not> of_nat v * PGSIZE mod PGSIZE \<noteq> 0" using page_address_aligned [OF v] by (simp add: page_aligned_def)
  then have "uvmunmap root (of_nat v * PGSIZE) (of_nat n) do_free k
    = uvmunmap_loop root (of_nat v * PGSIZE) (of_nat v * PGSIZE + of_nat n * PGSIZE) do_free k"
    by (simp only: uvmunmap_def if_False)
  then show ?thesis using uvmunmap_loop_spec [of root k "of_nat v * PGSIZE" n do_free] assms vpn_page [OF v] by simp
qed

lemma uvmdealloc_spec:
  assumes inv: "pt_inv root k" and sz: "newsz < oldsz" "oldsz \<le> MAXVA" and own: "owns root k {npages newsz..<npages oldsz}"
  shows "\<exists>k'. uvmdealloc root oldsz newsz k = Ok (newsz, k') \<and> unmapped root True {npages newsz..<npages oldsz} k k'"
proof -
  have le: "newsz \<le> MAXVA" using sz by auto
  note o = unat_round [OF sz(2)] and n = unat_round [OF le]
  have mono: "npages newsz \<le> npages oldsz" using sz(1) unfolding npages_def by (intro div_le_mono) (simp add: word_less_nat_alt)
  show ?thesis
  proof (cases "npages newsz < npages oldsz")
    case False
    then have "\<not> PGROUNDUP newsz < PGROUNDUP oldsz" using o(1) n(1) by (simp add: word_less_nat_alt)
    moreover have "unmapped root True {} k k" by (rule unmapped_refl [OF inv]) simp
    moreover have "\<not> oldsz \<le> newsz" using sz(1) by (simp add: not_le)
    ultimately show ?thesis using False by (simp add: uvmdealloc_def)
  next
    case True
    have lt: "PGROUNDUP newsz < PGROUNDUP oldsz" using True o(1) n(1) by (simp add: word_less_nat_alt)
    define d where "d = npages oldsz - npages newsz"
    have d: "npages newsz + d = npages oldsz" using mono by (simp add: d_def)
    have "unat (PGROUNDUP oldsz - PGROUNDUP newsz) = d * 4096"
      using lt o(1) n(1) by (simp add: unat_sub d_def diff_mult_distrib)
    then have e: "PGROUNDUP oldsz - PGROUNDUP newsz = of_nat d * PGSIZE" using o(2) d by (intro page_address) simp_all
    have "int_of_u64 ((PGROUNDUP oldsz - PGROUNDUP newsz) div PGSIZE) = of_nat d"
      unfolding e using o(2) d by (simp add: div_PGSIZE int_of_u64_small)
    moreover have "PGROUNDUP newsz = of_nat (npages newsz) * PGSIZE" using n(1,2) by (intro page_address)
    moreover have "\<exists>k'. uvmunmap root (of_nat (npages newsz) * PGSIZE) (of_nat d) True k = Ok k' \<and> unmapped root True {npages newsz..<npages newsz + d} k k'"
      by (rule uvmunmap_spec [OF inv]) (use o(2) d own in simp_all)
    ultimately show ?thesis using sz(1) lt unfolding uvmdealloc_def d by auto
  qed
qed


text \<open>Taking a page from the free list does not disturb an address space.\<close>

lemma take_page:
  assumes inv: "pt_inv root k" and al: "kalloc k = (mem, k1)" "mem \<noteq> 0"
    and k2: "kmem_inv k2" "km_end k2 = km_end k" "free_pages k2 = free_pages k - {mem}" "\<And>u. u \<noteq> mem \<Longrightarrow> km_cells k2 u = km_cells k u"
  shows "pt_inv root k2" "tables root k2 = tables root k" "pmap root k2 = pmap root k"
    "mem \<in> free_pages k" "mem \<notin> tables root k" "page_ok (km_end k) mem"
proof -
  note a = kalloc_page [OF pt_inv_kmem [OF inv] al]
  show m: "mem \<in> free_pages k" "page_ok (km_end k) mem" using a by simp_all
  show n: "mem \<notin> tables root k" using pt_inv_table(2) [OF inv] m(1) by auto
  have same: "\<forall>t \<in> tables root k. km_cells k2 t = km_cells k t"
  proof
    fix t assume "t \<in> tables root k"
    then have "t \<noteq> mem" using n by auto
    then show "km_cells k2 t = km_cells k t" by (rule k2(4))
  qed
  have "tables root k \<inter> free_pages k2 = {}" using k2(3) pt_inv_table(2) [OF inv] by auto
  from pt_frame [OF inv k2(1,2) same this]
  show "pt_inv root k2" "tables root k2 = tables root k" "pmap root k2 = pmap root k" by simp_all
qed

lemma memset_alloc:
  assumes "kmem_inv k" "kalloc k = (mem, k1)" "mem \<noteq> 0"
  defines "k2 \<equiv> memset mem 0 k1"
  shows "kmem_inv k2" "km_end k2 = km_end k" "free_pages k2 = free_pages k - {mem}"
    "\<And>u. u \<noteq> mem \<Longrightarrow> km_cells k2 u = km_cells k u" "km_cells k2 mem = (\<lambda>_. 0)"
proof -
  note a = kalloc_page [OF assms(1-3)]
  have k2: "k2 = k1\<lparr>km_cells := memset_page mem 0 (km_cells k1)\<rparr>" by (simp add: k2_def memset_def)
  have "memset_page mem 0 (km_cells k1) q = km_cells k1 q" if "q \<in> free_pages k1" for q
    using that a(4) by (auto simp: memset_page_def)
  from kmem_frame [OF a(3) this] a(4) show "kmem_inv k2" "free_pages k2 = free_pages k - {mem}" unfolding k2 by simp_all
  show "km_end k2 = km_end k" using a(5) by (simp add: k2)
  show "km_cells k2 u = km_cells k u" if "u \<noteq> mem" for u using a(6) that by (simp add: k2 memset_page_def)
  show "km_cells k2 mem = (\<lambda>_. 0)" by (simp add: k2 memset_page_def)
qed

text \<open>All pages an address space accounts for: free ones, its tables and the pages it maps.\<close>

definition accounted :: "u64 \<Rightarrow> kmem \<Rightarrow> nat set \<Rightarrow> u64 set" where
  "accounted root k V = free_pages k \<union> tables root k \<union> pages_of root k V"

lemma mappages_page:
  assumes "page_aligned a"
  shows "mappages root a PGSIZE pa perm k = mappages_loop 0 root a pa perm k"
  using assms unfolding mappages_def page_aligned_def by (simp add: PGSIZE_def del: mappages_loop.simps)

lemma pages_of_cong: "(\<And>v. v \<in> V \<Longrightarrow> pmap root k v = pmap root k' v) \<Longrightarrow> pages_of root k V = pages_of root k' V"
  unfolding pages_of_def by (intro Collect_cong ex_cong1) auto

lemma unmapped_accounted:
  assumes "unmapped root True V k k'" "\<forall>w \<in> W. w < 2 ^ 27" "V \<subseteq> W"
  shows "accounted root k' W = accounted root k W"
proof -
  have "pmap root k' w = (if w \<in> V then None else pmap root k w)" if "w \<in> W" for w using assms(1,2) that by (simp add: unmapped_def)
  then have "pages_of root k' W = pages_of root k (W - V)"
    unfolding pages_of_def by (intro Collect_cong ex_cong1) (auto split: if_splits)
  moreover have "W = V \<union> (W - V)" using assms(3) by auto
  then have "pages_of root k W = pages_of root k V \<union> pages_of root k (W - V)" by (metis pages_of_Un)
  ultimately show ?thesis using assms(1) by (auto simp: accounted_def unmapped_def)
qed

lemma owns_add:
  assumes own: "owns root k V" and V: "\<forall>v \<in> V. v < 2 ^ 27" and n: "n < 2 ^ 27" "pmap root k n = None"
    and pm: "\<And>w. w < 2 ^ 27 \<Longrightarrow> pmap root k3 w = (if w = n then Some e0 else pmap root k w)" and P: "PTE2PA e0 = mem"
    and mem: "mem \<in> free_pages k" "page_ok (km_end k) mem"
    and ex: "free_pages k3 \<union> tables root k3 \<subseteq> free_pages k \<union> tables root k" "mem \<notin> free_pages k3 \<union> tables root k3"
    and ke: "km_end k3 = km_end k"
  shows "owns root k3 (insert n V)" "pages_of root k3 (insert n V) = insert mem (pages_of root k (insert n V))"
proof -
  have sp: "v = n \<and> PTE2PA e = mem \<or> v \<noteq> n \<and> v \<in> V \<and> pmap root k v = Some e"
    if "v \<in> insert n V" "pmap root k3 v = Some e" for v e
    using that pm [OF n(1)] pm [of v] V P by (cases "v = n") auto
  have old: "page_ok (km_end k) (PTE2PA e)" "PTE2PA e \<notin> free_pages k3 \<union> tables root k3" "PTE2PA e \<noteq> mem"
    if "v \<in> V" "pmap root k v = Some e" for v e
    using ownsD [OF own that] ex(1) mem(1) by auto
  show "owns root k3 (insert n V)"
  proof (unfold owns_def, intro conjI ballI allI impI)
    fix v e assume v: "v \<in> insert n V" "pmap root k3 v = Some e"
    show "page_ok (km_end k3) (PTE2PA e)" "PTE2PA e \<notin> free_pages k3" "PTE2PA e \<notin> tables root k3"
      using sp [OF v] old [of v e] ex(2) mem(2) ke by auto
    fix w f assume w: "w \<in> insert n V" "pmap root k3 w = Some f" "PTE2PA e = PTE2PA f"
    show "v = w" using sp [OF v] sp [OF w(1,2)] w(3) old(3) [of v e] old(3) [of w f] ownsD(4) [OF own, of v e w f] by auto
  qed
  show "pages_of root k3 (insert n V) = insert mem (pages_of root k (insert n V))"
  proof (intro set_eqI iffI)
    fix u assume "u \<in> pages_of root k3 (insert n V)"
    then show "u \<in> insert mem (pages_of root k (insert n V))" using sp unfolding pages_of_def by blast
  next
    fix u assume "u \<in> insert mem (pages_of root k (insert n V))"
    then have "u = mem \<or> (\<exists>v e. v \<in> V \<and> v \<noteq> n \<and> pmap root k v = Some e \<and> u = PTE2PA e)" using n(2) unfolding pages_of_def by auto
    then show "u \<in> pages_of root k3 (insert n V)"
    proof (elim disjE exE conjE)
      assume "u = mem"
      then show ?thesis using pm [OF n(1)] P unfolding pages_of_def by force
    next
      fix v e assume v: "v \<in> V" "v \<noteq> n" "pmap root k v = Some e" "u = PTE2PA e"
      then have "pmap root k3 v = Some e" using pm [of v] V by auto
      then show ?thesis using v unfolding pages_of_def by blast
    qed
  qed
qed

text \<open>
  Giving a virtual page a fresh zeroed page: it succeeds, or fails with no memory left and gives the page
  back.
\<close>

lemma alloc_one:
  assumes inv: "pt_inv root k" and own: "owns root k V" and V: "\<forall>v \<in> V. v < 2 ^ 27"
    and n: "n < 2 ^ 26" "pmap root k n = None" and perm: "perm < 1024"
    and al: "kalloc k = (mem, k1)" "mem \<noteq> 0"
  defines "a \<equiv> of_nat n * PGSIZE"
  obtains (ok) k3 where "mappages root a PGSIZE mem perm (memset mem 0 k1) = Ok (0, k3)" "pt_inv root k3" "owns root k3 (insert n V)"
      "km_end k3 = km_end k" "\<And>w. w < 2 ^ 27 \<Longrightarrow> pmap root k3 w = (if w = n then Some (PA2PTE mem OR perm OR PTE_V) else pmap root k w)"
      "km_cells k3 mem = (\<lambda>_. 0)" "mem \<in> free_pages k" "page_aligned mem"
      "accounted root k3 (insert n V) = accounted root k (insert n V)"
      "\<And>u. u \<notin> free_pages k \<union> tables root k \<Longrightarrow> km_cells k3 u = km_cells k u"
      "free_pages k3 \<union> tables root k3 \<subseteq> free_pages k \<union> tables root k"
  | (full) k3 k4 where "mappages root a PGSIZE mem perm (memset mem 0 k1) = Ok (- 1, k3)" "kfree mem k3 = Ok k4"
      "pt_inv root k4" "owns root k4 V" "km_end k4 = km_end k" "\<And>w. w < 2 ^ 27 \<Longrightarrow> pmap root k4 w = pmap root k w"
      "accounted root k4 V = accounted root k V"
      "\<And>u. u \<notin> free_pages k \<union> tables root k \<Longrightarrow> km_cells k4 u = km_cells k u"
proof -
  let ?k2 = "memset mem 0 k1"
  note m = memset_alloc [OF pt_inv_kmem [OF inv] al]
  note t = take_page [OF inv al m(1-3) m(4)]
  have vn: "vpn a = n" using n(1) unfolding a_def by (intro vpn_page) simp
  have ala: "page_aligned a" using n(1) unfolding a_def by (intro page_address_aligned) simp
  obtain r k3 j where r: "mappages root a PGSIZE mem perm ?k2 = Ok (r, k3)" "evolves root ?k2 k3"
    "\<forall>w < 2 ^ 27. pmap root k3 w = fill (pmap root ?k2) n j mem perm w"
    "r = 0 \<and> j = 1 \<or> r = - 1 \<and> j \<le> 0 \<and> free_pages k3 = {}"
    using mappages_loop_spec [of root ?k2 a 0 mem perm] t(1,3) n vn mappages_page [OF ala, of root mem perm ?k2] by auto
  have ts: "tables root k3 \<union> free_pages k3 = tables root k \<union> (free_pages k - {mem})" "free_pages k3 \<subseteq> free_pages k - {mem}"
    and inv3: "pt_inv root k3" "km_end k3 = km_end k"
    and c3: "\<And>u. u \<notin> tables root k \<union> (free_pages k - {mem}) \<Longrightarrow> km_cells k3 u = km_cells ?k2 u"
    using r(2) t(2) m(2,3) unfolding evolves_def by auto
  have mt: "mem \<notin> tables root k3" "mem \<notin> free_pages k3" using ts t(5) by auto
  have pal: "page_aligned mem" using t(6) by (simp add: page_ok_def)
  have P: "PTE2PA (PA2PTE mem OR perm OR PTE_V) = mem" by (rule PTE2PA_entry [OF pal or_V_small [OF perm]])
  have old: "page_ok (km_end k) (PTE2PA e)" "PTE2PA e \<notin> free_pages k3" "PTE2PA e \<notin> tables root k3" "PTE2PA e \<noteq> mem"
    if "v \<in> V" "pmap root k v = Some e" for v e
    using ownsD [OF own that] ts t(4) by auto
  have c3': "km_cells k3 u = km_cells k u" if "u \<notin> free_pages k \<union> tables root k" for u
  proof -
    have "u \<noteq> mem" "u \<notin> tables root k \<union> (free_pages k - {mem})" using that t(4) by auto
    then show ?thesis using c3 m(4) by simp
  qed
  from r(4) show thesis
  proof (elim disjE conjE)
    assume r0: "r = 0" "j = 1"
    have pm: "pmap root k3 w = (if w = n then Some (PA2PTE mem OR perm OR PTE_V) else pmap root k w)" if "w < 2 ^ 27" for w
      using r(3) r0 that t(3) by (auto simp: fill_def)
    have n27: "n < 2 ^ 27" using n(1) by simp
    have ex: "free_pages k3 \<union> tables root k3 \<subseteq> free_pages k \<union> tables root k" "mem \<notin> free_pages k3 \<union> tables root k3"
      using ts t(4) mt by auto
    have own3: "owns root k3 (insert n V)" and "pages_of root k3 (insert n V) = insert mem (pages_of root k (insert n V))"
      using owns_add [OF own V n27 n(2) pm P t(4,6) ex inv3(2)] by simp_all
    then have acc: "accounted root k3 (insert n V) = accounted root k (insert n V)"
      using ts t(4) unfolding accounted_def by auto
    have z: "km_cells k3 mem = (\<lambda>_. 0)" using c3 [of mem] t(5) m(5) by auto
    show thesis by (rule ok [OF _ inv3(1) own3 inv3(2) pm z t(4) pal acc c3' ex(1)]) (use r(1) r0 in simp)
  next
    assume r1: "r = - 1" "j \<le> 0" "free_pages k3 = {}"
    have pm: "pmap root k3 w = pmap root k w" if "w < 2 ^ 27" for w using r(3) r1 that t(3) by simp
    obtain k4 where k4: "kfree mem k3 = Ok k4" "kmem_inv k4" "free_pages k4 = insert mem (free_pages k3)" "km_end k4 = km_end k3"
      "\<forall>q. q \<noteq> mem \<longrightarrow> km_cells k4 q = km_cells k3 q"
      using kfree_some [OF pt_inv_kmem [OF inv3(1)], of mem] t(6) mt(2) inv3(2) by auto
    have same: "\<forall>u \<in> tables root k3. km_cells k4 u = km_cells k3 u" using k4(5) mt(1) by auto
    have "tables root k3 \<inter> free_pages k4 = {}" using k4(3) mt(1) pt_inv_table(2) [OF inv3(1)] by auto
    note f = pt_frame [OF inv3(1) k4(2,4) same this]
    have own4: "owns root k4 V"
      unfolding owns_def using f(2,3) k4(3,4) pm V old own inv3(2) by (auto simp: owns_def)
    have "pages_of root k4 V = pages_of root k V" using f(3) pm V by (intro pages_of_cong) auto
    then have acc: "accounted root k4 V = accounted root k V" using f(2) k4(3) ts t(4) unfolding accounted_def by auto
    have c4: "km_cells k4 u = km_cells k u" if "u \<notin> free_pages k \<union> tables root k" for u
    proof -
      have "u \<noteq> mem" using that t(4) by auto
      then show ?thesis using c3' [OF that] k4(5) by simp
    qed
    show thesis by (rule full [OF _ k4(1) f(1) own4 _ _ acc c4]) (use r(1) r1 k4(4) inv3(2) f(3) pm in simp_all)
  qed
qed


definition grown :: "u64 \<Rightarrow> u64 \<Rightarrow> nat \<Rightarrow> nat \<Rightarrow> kmem \<Rightarrow> kmem \<Rightarrow> bool" where
  "grown root perm n N k k' \<longleftrightarrow> pt_inv root k' \<and> owns root k' {..<N} \<and> km_end k' = km_end k
     \<and> accounted root k' {..<N} = accounted root k {..<N}
     \<and> (\<forall>w < 2 ^ 27. if n \<le> w \<and> w < N
          then \<exists>pg. pmap root k' w = Some (PA2PTE pg OR perm OR PTE_V) \<and> page_aligned pg \<and> km_cells k' pg = (\<lambda>_. 0)
          else pmap root k' w = pmap root k w)
     \<and> (\<forall>u. u \<notin> free_pages k \<union> tables root k \<longrightarrow> km_cells k' u = km_cells k u)"

definition shrunk :: "u64 \<Rightarrow> nat \<Rightarrow> nat \<Rightarrow> kmem \<Rightarrow> kmem \<Rightarrow> bool" where
  "shrunk root n N k k' \<longleftrightarrow> pt_inv root k' \<and> owns root k' {..<N} \<and> km_end k' = km_end k
     \<and> accounted root k' {..<N} = accounted root k {..<N}
     \<and> (\<forall>w < 2 ^ 27. pmap root k' w = (if n \<le> w \<and> w < N then None else pmap root k w))"

lemma owns_weaken: "owns root k V \<Longrightarrow> (\<And>w. w \<in> W \<Longrightarrow> w \<in> V \<or> pmap root k w = None) \<Longrightarrow> owns root k W"
  unfolding owns_def by (metis option.distinct(1))

lemma npages_page: "n \<le> 2 ^ 26 \<Longrightarrow> npages (of_nat n * PGSIZE) = n"
  by (simp add: npages_def unat_pages)

lemma page_le_MAXVA: "n \<le> 2 ^ 26 \<Longrightarrow> of_nat n * PGSIZE \<le> MAXVA"
  by (simp add: word_le_nat_alt unat_pages unat_MAXVA)

lemma page_less: "n \<le> 2 ^ 26 \<Longrightarrow> m \<le> 2 ^ 26 \<Longrightarrow> (of_nat m * PGSIZE < of_nat n * PGSIZE) = (m < n)"
  by (simp add: word_less_nat_alt unat_pages)

lemma dealloc_back:
  assumes inv: "pt_inv root k" and own: "owns root k {..<N}" and n: "n0 \<le> n" "n \<le> N" "N \<le> 2 ^ 26"
    and none: "\<And>w. n \<le> w \<Longrightarrow> w < N \<Longrightarrow> pmap root k w = None"
  shows "\<exists>sz k'. uvmdealloc root (of_nat n * PGSIZE) (of_nat n0 * PGSIZE) k = Ok (sz, k') \<and> shrunk root n0 N k k'"
proof -
  have b: "n0 \<le> 2 ^ 26" "n \<le> 2 ^ 26" using n by simp_all
  have "\<exists>sz k'. uvmdealloc root (of_nat n * PGSIZE) (of_nat n0 * PGSIZE) k = Ok (sz, k') \<and> unmapped root True {n0..<n} k k'"
  proof (cases "n0 < n")
    case False
    have "\<not> of_nat n0 * PGSIZE < of_nat n * PGSIZE" using False b by (simp add: page_less)
    moreover have "unmapped root True {n0..<n} k k" using inv False by (intro unmapped_refl) auto
    ultimately show ?thesis by (auto simp: uvmdealloc_def not_less)
  next
    case True
    have lt: "(of_nat n0 * PGSIZE :: u64) < of_nat n * PGSIZE" using True b by (simp add: page_less)
    have "owns root k {n0..<n}" using n by (intro owns_mono [OF own]) auto
    then show ?thesis using uvmdealloc_spec [OF inv lt page_le_MAXVA [OF b(2)]] b by (auto simp: npages_page)
  qed
  then obtain sz k' where k': "uvmdealloc root (of_nat n * PGSIZE) (of_nat n0 * PGSIZE) k = Ok (sz, k')" "unmapped root True {n0..<n} k k'"
    by blast
  have pm: "pmap root k' w = (if n0 \<le> w \<and> w < N then None else pmap root k w)" if "w < 2 ^ 27" for w
    using k'(2) that none [of w] n by (auto simp: unmapped_def)
  have "owns root k' {..<n0}" by (rule owns_unmapped [OF own _ _ _ _ k'(2)]) (use n in auto)
  then have "owns root k' {..<N}" by (rule owns_weaken) (use pm n in auto)
  moreover have "accounted root k' {..<N} = accounted root k {..<N}" by (rule unmapped_accounted [OF k'(2)]) (use n in auto)
  ultimately have "shrunk root n0 N k k'" using k'(2) pm by (simp add: shrunk_def unmapped_def)
  then show ?thesis using k'(1) by blast
qed

lemma grown_step:
  assumes a: "pt_inv root k1" "owns root k1 {..<N}" "km_end k1 = km_end k" "accounted root k1 {..<N} = accounted root k {..<N}"
    and pm: "\<And>w. w < 2 ^ 27 \<Longrightarrow> pmap root k1 w = (if w = n then Some (PA2PTE mem OR perm OR PTE_V) else pmap root k w)"
    and z: "km_cells k1 mem = (\<lambda>_. 0)" "page_aligned mem" "perm < 1024"
    and fr: "\<And>u. u \<notin> free_pages k \<union> tables root k \<Longrightarrow> km_cells k1 u = km_cells k u"
    and n: "n < N" "N \<le> 2 ^ 26" and sub: "free_pages k1 \<union> tables root k1 \<subseteq> free_pages k \<union> tables root k"
    and g: "grown root perm (Suc n) N k1 k'"
  shows "grown root perm n N k k'"
proof -
  have n27: "n < 2 ^ 27" using n by simp
  have P: "PTE2PA (PA2PTE mem OR perm OR PTE_V) = mem" by (rule PTE2PA_entry [OF z(2) or_V_small [OF z(3)]])
  have "mem \<notin> free_pages k1" "mem \<notin> tables root k1" using ownsD(2,3) [OF a(2), of n] pm [OF n27] n(1) P by auto
  then have zm: "km_cells k' mem = (\<lambda>_. 0)" using g z(1) by (simp add: grown_def)
  have "if n \<le> w \<and> w < N
      then \<exists>pg. pmap root k' w = Some (PA2PTE pg OR perm OR PTE_V) \<and> page_aligned pg \<and> km_cells k' pg = (\<lambda>_. 0)
      else pmap root k' w = pmap root k w" if w: "w < 2 ^ 27" for w
  proof (cases "w = n")
    case True
    then show ?thesis using g pm [OF n27] n27 zm z(2) n(1) unfolding grown_def by auto
  next
    case False
    then have "n \<le> w \<longleftrightarrow> Suc n \<le> w" by auto
    then show ?thesis using g pm [OF w] w False unfolding grown_def by (auto split: if_splits)
  qed
  moreover have "km_cells k' u = km_cells k u" if "u \<notin> free_pages k \<union> tables root k" for u
    using g fr [OF that] that sub unfolding grown_def by auto
  ultimately show ?thesis using g a(3,4) unfolding grown_def by simp
qed

lemma shrunk_step:
  assumes "shrunk root n0 N k1 k'" "km_end k1 = km_end k" "accounted root k1 {..<N} = accounted root k {..<N}"
    and "\<And>w. w < 2 ^ 27 \<Longrightarrow> \<not> (n0 \<le> w \<and> w < N) \<Longrightarrow> pmap root k1 w = pmap root k w"
  shows "shrunk root n0 N k k'"
  using assms unfolding shrunk_def by auto

lemma uvmalloc_loop_spec:
  assumes "pt_inv root k" "owns root k {..<N}" "n0 \<le> n" "n \<le> N" "N = npages newsz" "newsz \<le> MAXVA"
    and "\<And>w. n \<le> w \<Longrightarrow> w < N \<Longrightarrow> pmap root k w = None" "PTE_R OR PTE_U OR xperm < 1024"
  shows "\<exists>sz k'. uvmalloc_loop root (of_nat n0 * PGSIZE) (of_nat n * PGSIZE) newsz xperm k = Ok (sz, k')
    \<and> (sz = newsz \<and> grown root (PTE_R OR PTE_U OR xperm) n N k k' \<or> sz = 0 \<and> shrunk root n0 N k k')"
  using assms
proof (induction "N - n" arbitrary: n k)
  case (0 n k)
  have N: "N \<le> 2 ^ 26" using unat_round(2) [OF "0.prems"(6)] "0.prems"(5) by simp
  have "\<not> of_nat n * PGSIZE < newsz"
  proof -
    have "unat newsz \<le> N * 4096" using "0.prems"(5) by (simp add: npages_def) 
    then show ?thesis using 0 N by (simp add: word_less_nat_alt unat_pages not_less)
  qed
  moreover have "grown root (PTE_R OR PTE_U OR xperm) n N k k" using 0 by (auto simp: grown_def)
  ultimately show ?case by (subst uvmalloc_loop.simps) simp
next
  case (Suc d n k)
  let ?perm = "PTE_R OR PTE_U OR xperm"
  have N: "N \<le> 2 ^ 26" using unat_round(2) [OF Suc.prems(6)] Suc.prems(5) by simp
  have nN: "n < N" using Suc.hyps(2) by simp
  have lt: "of_nat n * PGSIZE < newsz"
  proof -
    have "Suc n \<le> (unat newsz + 4095) div 4096" using nN Suc.prems(5) by (simp add: npages_def)
    then have "n * 4096 < unat newsz" by simp
    then show ?thesis using nN N by (simp add: word_less_nat_alt unat_pages)
  qed
  have nx: "of_nat n * PGSIZE + PGSIZE = of_nat (Suc n) * PGSIZE" by (simp add: algebra_simps)
  obtain mem k1 where al: "kalloc k = (mem, k1)" by fastforce
  show ?case
  proof (cases "mem = 0")
    case True
    then have k1: "k1 = k" using kalloc_zero [OF pt_inv_kmem [OF Suc.prems(1)]] al by simp
    obtain sz k' where "uvmdealloc root (of_nat n * PGSIZE) (of_nat n0 * PGSIZE) k = Ok (sz, k')" "shrunk root n0 N k k'"
      using dealloc_back [OF Suc.prems(1-4) N Suc.prems(7)] by blast
    then show ?thesis using lt al True k1 by (subst uvmalloc_loop.simps) simp
  next
    case False
    have V: "\<forall>v \<in> {..<N}. v < 2 ^ 27" "insert n {..<N} = {..<N}" using N nN by auto
    have nn: "n < 2 ^ 26" "pmap root k n = None" using nN N Suc.prems(7) by simp_all
    from Suc.prems(1,2) V(1) nn Suc.prems(8) al False show ?thesis
    proof (cases rule: alloc_one)
      case (ok k3)
      have ok': "owns root k3 {..<N}" "accounted root k3 {..<N} = accounted root k {..<N}" using ok(3,9) V(2) by simp_all
      have none: "pmap root k3 w = None" if "Suc n \<le> w" "w < N" for w using ok(5) [of w] that Suc.prems(7) [of w] N by simp
      have dn: "d = N - Suc n" "n0 \<le> Suc n" "Suc n \<le> N" using Suc.hyps(2) nN Suc.prems(3) by simp_all
      obtain sz k' where rec: "uvmalloc_loop root (of_nat n0 * PGSIZE) (of_nat (Suc n) * PGSIZE) newsz xperm k3 = Ok (sz, k')"
        "sz = newsz \<and> grown root ?perm (Suc n) N k3 k' \<or> sz = 0 \<and> shrunk root n0 N k3 k'"
        using Suc.hyps(1) [OF dn(1) ok(2) ok'(1) dn(2,3) Suc.prems(5,6) none Suc.prems(8)] by blast
      have run: "uvmalloc_loop root (of_nat n0 * PGSIZE) (of_nat n * PGSIZE) newsz xperm k = Ok (sz, k')"
        using lt al False ok(1) rec(1) unfolding nx [symmetric] by (subst uvmalloc_loop.simps) simp
      have "grown root ?perm n N k k'" if "grown root ?perm (Suc n) N k3 k'"
        by (rule grown_step [OF ok(2) ok'(1) ok(4) ok'(2) ok(5,6,8) Suc.prems(8) ok(10) nN N ok(11) that])
      moreover have "shrunk root n0 N k k'" if "shrunk root n0 N k3 k'"
        by (rule shrunk_step [OF that ok(4) ok'(2)]) (use ok(5) Suc.prems(3) nN in auto)
      ultimately show ?thesis using run rec(2) by blast
    next
      case (full k3 k4)
      obtain sz k' where k': "uvmdealloc root (of_nat n * PGSIZE) (of_nat n0 * PGSIZE) k4 = Ok (sz, k')" "shrunk root n0 N k4 k'"
        using dealloc_back [OF full(3,4) Suc.prems(3,4) N] full(6) Suc.prems(7) N by force
      have "shrunk root n0 N k k'" by (rule shrunk_step [OF k'(2) full(5,7)]) (use full(6) in auto)
      then show ?thesis using lt al False full(1,2) k'(1) by (subst uvmalloc_loop.simps) simp
    qed
  qed
qed


section \<open>The life of an address space\<close>

lemma uvmalloc_spec:
  assumes inv: "pt_inv root k" and own: "owns root k {..<npages newsz}" and sz: "oldsz \<le> newsz" "newsz \<le> MAXVA"
    and none: "\<And>w. npages oldsz \<le> w \<Longrightarrow> w < npages newsz \<Longrightarrow> pmap root k w = None" and perm: "PTE_R OR PTE_U OR xperm < 1024"
  shows "\<exists>s k'. uvmalloc root oldsz newsz xperm k = Ok (s, k')
    \<and> (s = newsz \<and> grown root (PTE_R OR PTE_U OR xperm) (npages oldsz) (npages newsz) k k'
       \<or> s = 0 \<and> shrunk root (npages oldsz) (npages newsz) k k')"
proof -
  have le: "oldsz \<le> MAXVA" using sz by auto
  have e: "PGROUNDUP oldsz = of_nat (npages oldsz) * PGSIZE" using unat_round [OF le] by (intro page_address)
  have mono: "npages oldsz \<le> npages newsz" using sz(1) unfolding npages_def by (intro div_le_mono) (simp add: word_le_nat_alt)
  have "\<not> newsz < oldsz" using sz(1) by auto
  then show ?thesis unfolding uvmalloc_def e
    using uvmalloc_loop_spec [OF inv own order_refl mono refl sz(2) none perm] by simp
qed

lemma entry_zero_page: "m root = (\<lambda>_. 0) \<Longrightarrow> table_at m root (i # p) = None \<and> entry m root (i # p) = None"
proof (induction p arbitrary: i)
  case (Cons j p)
  then have "table_at m root (j # p) = None" by blast
  then show ?case by (simp del: table_at.simps add: table_at.simps(2) [of m root i])
qed simp

lemma uvmcreate_spec:
  assumes "kmem_inv k" "uvmcreate k = (root, k1)" "root \<noteq> 0"
  shows "pt_inv root k1" "tables root k1 = {root}" "\<And>v. pmap root k1 v = None" "free_pages k1 = free_pages k - {root}"
    "root \<in> free_pages k" "km_end k1 = km_end k"
proof -
  obtain k0 where al: "kalloc k = (root, k0)" "k1 = memset root 0 k0"
    using assms(2,3) by (auto simp: uvmcreate_def split: prod.splits if_splits)
  note a = kalloc_page [OF assms(1) al(1) assms(3)] and m = memset_alloc [OF assms(1) al(1) assms(3), folded al(2)]
  note z = entry_zero_page [of "km_cells k1" root, OF m(5)]
  show fp: "free_pages k1 = free_pages k - {root}" "km_end k1 = km_end k" and r: "root \<in> free_pages k" using m a by simp_all
  have tab: "table_at (km_cells k1) root p = Some t \<longleftrightarrow> p = [] \<and> t = root" for p t
    using z by (cases p) (auto simp del: table_at.simps(2))
  show ts: "tables root k1 = {root}" unfolding tables_def tab by auto
  show "pmap root k1 v = None" for v unfolding pmap_def path_of_def using z by blast
  show "pt_inv root k1"
  proof (rule pt_invI)
    show "page_ok (km_end k1) t \<and> t \<notin> free_pages k1" if "t \<in> tables root k1" for t using that ts fp a(2) by simp
    show "e AND RWX = 0" if "entry (km_cells k1) root p = Some e" for p e using that z by (cases p) (auto simp del: entry.simps(2))
  qed (use m(1) tab in auto)
qed

lemma uvmfree_spec:
  assumes inv: "pt_inv root k" and own: "owns root k {..<npages sz}" and sz: "sz \<le> MAXVA"
    and none: "\<And>v. v < 2 ^ 27 \<Longrightarrow> npages sz \<le> v \<Longrightarrow> pmap root k v = None"
  shows "\<exists>k'. uvmfree root sz k = Ok k' \<and> kmem_inv k' \<and> free_pages k' = accounted root k {..<npages sz}"
proof -
  let ?n = "npages sz"
  note n = unat_round [OF sz]
  have "\<exists>k1. (if sz > 0 then uvmunmap root 0 (PGROUNDUP sz div PGSIZE) True k else Ok k) = Ok k1 \<and> unmapped root True {..<?n} k k1"
  proof (cases "sz > 0")
    case False
    then have "sz = 0" by (simp add: word_gt_0)
    then have "?n = 0" by (simp add: npages_def)
    moreover have "unmapped root True {} k k" by (rule unmapped_refl [OF inv]) simp
    ultimately show ?thesis using False by simp
  next
    case True
    have d: "PGROUNDUP sz div PGSIZE = of_nat ?n" using page_address [OF n(2,1)] n(2) by (simp add: div_PGSIZE)
    have "\<exists>k'. uvmunmap root (of_nat 0 * PGSIZE) (of_nat ?n) True k = Ok k' \<and> unmapped root True {0..<0 + ?n} k k'"
      by (rule uvmunmap_spec [OF inv]) (use n(2) own in \<open>simp_all add: lessThan_atLeast0\<close>)
    then show ?thesis using True d by (simp add: lessThan_atLeast0)
  qed
  then obtain k1 where k1: "(if sz > 0 then uvmunmap root 0 (PGROUNDUP sz div PGSIZE) True k else Ok k) = Ok k1"
    "unmapped root True {..<?n} k k1" by blast
  have "pmap root k1 v = None" if "v < 2 ^ 27" for v using k1(2) none [OF that] that by (auto simp: unmapped_def)
  then obtain k2 where k2: "freewalk 3 root k1 = Ok k2" "freed (tables root k1) k1 k2"
    using freewalk_frees_tables [of root k1] k1(2) by (auto simp: unmapped_def)
  have "free_pages k2 = accounted root k {..<?n}" using k1(2) k2(2) by (auto simp: accounted_def unmapped_def freed_def)
  moreover have "uvmfree root sz k = Ok k2" using k1(1) k2(1) by (simp add: uvmfree_def)
  ultimately show ?thesis using k2(2) by (auto simp: freed_def)
qed

section \<open>Properties\<close>

text \<open>C22. Mapping: for an aligned range of \<open>n\<close> pages below \<open>MAXVA\<close> with no page mapped yet, \<open>mappages\<close> does not
  panic; it either installs exactly the \<open>n\<close> translations asked for, leaving every other translation of
  the address space as it was, or fails with \<open>-1\<close> when no page is left for a table. The tables remain
  a tree of allocated pages.\<close>

theorem mappages_maps_range:
  assumes "pt_inv root k" and "page_aligned va" and "0 < n" and "vpn va + n \<le> 2 ^ 26"
    and "\<forall>j < n. pmap root k (vpn va + j) = None"
  shows "\<exists>r k'. mappages root va (of_nat n * PGSIZE) pa perm k = Ok (r, k') \<and> pt_inv root k'
    \<and> (if r = 0
       then \<forall>w < 2 ^ 27. pmap root k' w
              = (if vpn va \<le> w \<and> w < vpn va + n then Some (PA2PTE (pa + of_nat (w - vpn va) * PGSIZE) OR perm OR PTE_V) else pmap root k w)
       else r = - 1 \<and> free_pages k' = {})"
proof -
  have n: "n \<le> 2 ^ 26" using assms(4) by simp
  have u: "unat (of_nat n * PGSIZE :: u64) = n * 4096" using n by (rule unat_pages)
  have "(of_nat n * PGSIZE) mod PGSIZE = (0 :: u64)" using page_address_aligned [OF n] by (simp add: page_aligned_def)
  moreover have "of_nat n * PGSIZE \<noteq> (0 :: u64)" using u assms(3) by (metis mult_eq_0_iff neq0_conv unat_0 zero_neq_numeral)
  moreover have "unat ((of_nat n * PGSIZE :: u64) div PGSIZE) - 1 = n - 1" using n by (simp add: div_PGSIZE unat_of_nat)
  ultimately have run: "mappages root va (of_nat n * PGSIZE) pa perm k = mappages_loop (n - 1) root va pa perm k"
    using assms(2) unfolding page_aligned_def by (simp only: mappages_def if_False simp_thms)
  have "vpn va + (n - 1) < 2 ^ 26" "\<forall>j \<le> n - 1. pmap root k (vpn va + j) = None" using assms(3-5) by auto
  then obtain r k' j where "mappages_loop (n - 1) root va pa perm k = Ok (r, k')" "evolves root k k'"
    "\<forall>w < 2 ^ 27. pmap root k' w = fill (pmap root k) (vpn va) j pa perm w"
    "r = 0 \<and> j = Suc (n - 1) \<or> r = - 1 \<and> j \<le> n - 1 \<and> free_pages k' = {}"
    using mappages_loop_spec [OF assms(1)] by blast
  then show ?thesis unfolding run using assms(3)
    by (intro exI [of _ r] exI [of _ k']) (auto simp: evolves_def fill_def simp del: mappages_loop.simps)
qed

text \<open>C23. No page is lost: creating an address space, growing it to any size up to \<open>MAXVA\<close>, whether or not memory
  runs out on the way, and freeing it again never panics and leaves exactly the pages free that were
  free before.\<close>

theorem address_space_returns_pages:
  assumes "kmem_inv k" and "uvmcreate k = (root, k1)" and "root \<noteq> 0" and "sz \<le> MAXVA" and "PTE_R OR PTE_U OR xperm < 1024"
  shows "\<exists>s k2 k3. uvmalloc root 0 sz xperm k1 = Ok (s, k2) \<and> (s = sz \<or> s = 0)
    \<and> uvmfree root s k2 = Ok k3 \<and> kmem_inv k3 \<and> free_pages k3 = free_pages k"
proof -
  note c = uvmcreate_spec [OF assms(1-3)]
  have own: "owns root k1 {..<npages sz}" using c(3) by (simp add: owns_def)
  have acc: "accounted root k1 V = free_pages k" for V using c by (auto simp: accounted_def pages_of_def)
  have z: "npages 0 = 0" by (simp add: npages_def)
  have "\<exists>s k2. uvmalloc root 0 sz xperm k1 = Ok (s, k2)
    \<and> (s = sz \<and> grown root (PTE_R OR PTE_U OR xperm) 0 (npages sz) k1 k2 \<or> s = 0 \<and> shrunk root 0 (npages sz) k1 k2)"
    using uvmalloc_spec [OF c(1) own _ assms(4) _ assms(5), of 0] c(3) unfolding z by simp
  then obtain s k2 where s: "uvmalloc root 0 sz xperm k1 = Ok (s, k2)"
    "s = sz \<and> grown root (PTE_R OR PTE_U OR xperm) 0 (npages sz) k1 k2 \<or> s = 0 \<and> shrunk root 0 (npages sz) k1 k2" by blast
  from s(2) show ?thesis
  proof (elim disjE conjE)
    assume g: "s = sz" "grown root (PTE_R OR PTE_U OR xperm) 0 (npages sz) k1 k2"
    then have k2: "pt_inv root k2" "owns root k2 {..<npages sz}" "\<And>v. v < 2 ^ 27 \<Longrightarrow> npages sz \<le> v \<Longrightarrow> pmap root k2 v = None"
      "accounted root k2 {..<npages sz} = free_pages k"
      using acc c(3) by (auto simp: grown_def split: if_splits)
    show ?thesis using s(1) g(1) k2(4) uvmfree_spec [OF k2(1,2) assms(4) k2(3)] by auto
  next
    assume g: "s = 0" "shrunk root 0 (npages sz) k1 k2"
    then have pm: "\<And>v. v < 2 ^ 27 \<Longrightarrow> pmap root k2 v = None" using c(3) by (simp add: shrunk_def)
    have "pages_of root k2 {..<npages sz} = {}" using pm unat_round(2) [OF assms(4)] by (auto simp: pages_of_def)
    moreover have "accounted root k2 {..<npages sz} = free_pages k" using g(2) acc by (simp add: shrunk_def)
    moreover have "pages_of root k2 {..<npages 0} = {}" by (simp add: z pages_of_def)
    ultimately have a2: "accounted root k2 {..<npages 0} = free_pages k" by (simp add: accounted_def)
    have k2: "pt_inv root k2" "owns root k2 {..<npages 0}" using g(2) by (simp_all add: shrunk_def owns_def z)
    show ?thesis using s(1) g(1) a2 uvmfree_spec [OF k2 _ pm] by auto
  qed
qed


text \<open>An address space over the one-page memory of the allocator's example.\<close>

lemma demo_root: "uvmcreate demo_kmem = (0x80001000, snd (uvmcreate demo_kmem))"
  by (simp add: uvmcreate_def kalloc_def demo_kmem_def Let_def)

theorem mappages_maps_range_witness:
  "\<exists>r k'. mappages 0x80001000 0 (of_nat 1 * PGSIZE) 0x80002000 PTE_R (snd (uvmcreate demo_kmem)) = Ok (r, k')
     \<and> pt_inv 0x80001000 k'"
proof -
  note c = uvmcreate_spec [OF demo_kmem_inv(1) demo_root]
  have "vpn 0 + 1 \<le> 2 ^ 26" "page_aligned 0" by (simp_all add: vpn_def page_aligned_def)
  from mappages_maps_range [OF c(1) this(2) _ this(1), of "0x80002000" PTE_R] c(3) show ?thesis by auto
qed

theorem address_space_returns_pages_witness:
  "\<exists>s k2 k3. uvmalloc 0x80001000 0 8192 PTE_W (snd (uvmcreate demo_kmem)) = Ok (s, k2)
     \<and> uvmfree 0x80001000 s k2 = Ok k3 \<and> free_pages k3 = {0x80001000}"
proof -
  have "(8192 :: u64) \<le> MAXVA" "PTE_R OR PTE_U OR PTE_W < 1024"
    by (simp_all add: MAXVA_def PTE_R_def PTE_U_def PTE_W_def)
  with address_space_returns_pages [OF demo_kmem_inv(1) demo_root, of 8192 PTE_W] show ?thesis by (auto simp: demo_kmem_inv)
qed

end
