(* ===== verification/UserMem.thy ===== *)
theory UserMem
  imports PageTable
begin

text \<open>
  The bytes of user memory as the copies between kernel and user see them: \<open>copyin\<close>, \<open>copyout\<close> and
  \<open>copyinstr\<close> read and write one flat sequence of bytes across page boundaries.
\<close>

section \<open>Bytes\<close>

lemma put_byte_mask: "put_byte j b w = (w AND NOT (push_bit (8 * j) (mask 8))) OR push_bit (8 * j) (ucast b)"
  by (simp add: put_byte_def mask_eq_decr_exp)

lemma byte_put_same: "j < 8 \<Longrightarrow> byte_of j (put_byte j b w) = b"
  by (rule bit_eqI) (auto simp: byte_of_def put_byte_mask bit_simps)

lemma byte_put_other:
  assumes "j < 8" "i < 8" "i \<noteq> j"
  shows "byte_of i (put_byte j b w) = byte_of i w"
proof (rule bit_eqI)
  fix n assume "possible_bit TYPE(8 word) n"
  then have n: "n < 8" by simp
  have "8 * j \<le> 8 * i + n \<Longrightarrow> \<not> 8 * i + n - 8 * j < 8" using n assms by (cases "i < j") auto
  moreover from this have "8 * j \<le> 8 * i + n \<Longrightarrow> \<not> bit b (8 * i + n - 8 * j)" using bit_imp_le_length [of b "8 * i + n - 8 * j"] by auto
  ultimately show "bit (byte_of i (put_byte j b w)) n = bit (byte_of i w) n"
    using n assms by (auto simp: byte_of_def put_byte_mask bit_simps)
qed

lemma page_split: "c = a" if "PGROUNDDOWN c = PGROUNDDOWN a" "unat c mod 4096 div 8 = unat a mod 4096 div 8" "unat c mod 8 = unat a mod 8"
proof -
  have m: "unat x mod 8 = unat x mod 4096 mod 8" for x :: u64 by (simp add: mod_mod_cancel)
  have "unat c mod 4096 = unat a mod 4096" using that(2,3) unfolding m by (metis div_mult_mod_eq)
  moreover have "unat c div 4096 = unat a div 4096" using that(1) by (metis unat_PGROUNDDOWN mult_cancel2 zero_neq_numeral)
  ultimately have "unat c = unat a" by (metis div_mult_mod_eq)
  then show ?thesis by (simp add: word_unat_eq_iff)
qed

lemma load_store_byte: "load_byte (store_byte a b k) c = (if c = a then b else load_byte k c)"
proof (cases "PGROUNDDOWN c = PGROUNDDOWN a \<and> unat c mod 4096 div 8 = unat a mod 4096 div 8")
  case True
  then have "c = a \<longleftrightarrow> unat c mod 8 = unat a mod 8" using page_split by auto
  then show ?thesis using True byte_put_same [of "unat a mod 8"] byte_put_other [of "unat a mod 8" "unat c mod 8"]
    by (simp add: load_byte_def store_byte_def set_cell_def set_word_def Let_def)
next
  case False
  then show ?thesis by (auto simp: load_byte_def store_byte_def set_cell_def set_word_def Let_def)
qed

lemma store_byte_frame:
  "km_freelist (store_byte a b k) = km_freelist k" "km_end (store_byte a b k) = km_end k"
  "u \<noteq> PGROUNDDOWN a \<Longrightarrow> km_cells (store_byte a b k) u = km_cells k u"
  by (simp_all add: store_byte_def set_cell_def set_word_def Let_def)

text \<open>An access that stays inside one page.\<close>

lemma PGROUNDDOWN_offset:
  assumes "page_aligned p" "j < 4096"
  shows "PGROUNDDOWN (p + of_nat j) = p" "unat (p + of_nat j) = unat p + j"
proof -
  have p: "unat p mod 4096 = 0" using assms(1) by (simp add: page_aligned_iff)
  then obtain q where q: "unat p = 4096 * q" by (auto simp: mod_eq_0_iff_dvd elim: dvdE)
  have "unat p < 2 ^ 64" using unsigned_less [of p] by simp
  then have "4096 * q < 4096 * 2 ^ 52" unfolding q by simp
  then have "q < 2 ^ 52" by simp
  then have "4096 * q + j < 2 ^ 64" using assms(2) by simp
  then show u: "unat (p + of_nat j) = unat p + j" using assms(2) q by (simp add: unat_word_ariths unat_of_nat)
  have "unat (PGROUNDDOWN (p + of_nat j)) = unat p" unfolding unat_PGROUNDDOWN u q using assms(2) by simp
  then show "PGROUNDDOWN (p + of_nat j) = p" by (simp add: word_unat_eq_iff)
qed

lemma store_bytes_page:
  assumes "page_aligned p" "j + length bs \<le> 4096"
  shows "km_freelist (store_bytes (p + of_nat j) bs k) = km_freelist k" "km_end (store_bytes (p + of_nat j) bs k) = km_end k"
    "\<And>u. u \<noteq> p \<Longrightarrow> km_cells (store_bytes (p + of_nat j) bs k) u = km_cells k u"
    "\<And>i. i < 4096 \<Longrightarrow> load_byte (store_bytes (p + of_nat j) bs k) (p + of_nat i)
       = (if j \<le> i \<and> i < j + length bs then bs ! (i - j) else load_byte k (p + of_nat i))"
proof -
  have "km_freelist (store_bytes (p + of_nat j) bs k) = km_freelist k \<and> km_end (store_bytes (p + of_nat j) bs k) = km_end k
    \<and> (\<forall>u. u \<noteq> p \<longrightarrow> km_cells (store_bytes (p + of_nat j) bs k) u = km_cells k u)
    \<and> (\<forall>i < 4096. load_byte (store_bytes (p + of_nat j) bs k) (p + of_nat i)
       = (if j \<le> i \<and> i < j + length bs then bs ! (i - j) else load_byte k (p + of_nat i)))"
    using assms(2)
  proof (induction bs arbitrary: j k)
    case (Cons b bs j k)
    have j: "j < 4096" "Suc j + length bs \<le> 4096" using Cons.prems by simp_all
    note P = PGROUNDDOWN_offset [OF assms(1) j(1)]
    have nx: "p + of_nat j + 1 = p + of_nat (Suc j)" by simp
    let ?k = "store_byte (p + of_nat j) b k"
    note f = store_byte_frame [where a = "p + of_nat j" and b = b and k = k, unfolded P(1)]
    have eq: "p + of_nat i = p + of_nat j \<longleftrightarrow> i = j" if "i < 4096" for i
      using P(2) PGROUNDDOWN_offset(2) [OF assms(1) that] by (metis add_left_cancel)
    have "load_byte (store_bytes (p + of_nat (Suc j)) bs ?k) (p + of_nat i)
       = (if j \<le> i \<and> i < j + length (b # bs) then (b # bs) ! (i - j) else load_byte k (p + of_nat i))" if "i < 4096" for i
    proof (cases "i = j")
      case True
      then show ?thesis using Cons.IH [OF j(2), of ?k] that by (simp add: load_store_byte)
    next
      case False
      then have "Suc j \<le> i \<longleftrightarrow> j \<le> i" "j \<le> i \<Longrightarrow> (b # bs) ! (i - j) = bs ! (i - Suc j)" by (auto simp: nth_Cons' )
      then show ?thesis using Cons.IH [OF j(2), of ?k] that False eq [OF that] by (simp add: load_store_byte)
    qed
    then show ?case using Cons.IH [OF j(2), of ?k] f unfolding store_bytes.simps nx by simp
  qed auto
  then show "km_freelist (store_bytes (p + of_nat j) bs k) = km_freelist k" "km_end (store_bytes (p + of_nat j) bs k) = km_end k"
    "\<And>u. u \<noteq> p \<Longrightarrow> km_cells (store_bytes (p + of_nat j) bs k) u = km_cells k u"
    "\<And>i. i < 4096 \<Longrightarrow> load_byte (store_bytes (p + of_nat j) bs k) (p + of_nat i)
       = (if j \<le> i \<and> i < j + length bs then bs ! (i - j) else load_byte k (p + of_nat i))"
    by blast+
qed


section \<open>User memory as a sequence of bytes\<close>

definition ubyte :: "u64 \<Rightarrow> kmem \<Rightarrow> nat \<Rightarrow> u8" where
  "ubyte root k A = load_byte k (PTE2PA (the (pmap root k (A div 4096))) + of_nat (A mod 4096))"

definition readable :: "u64 \<Rightarrow> kmem \<Rightarrow> nat set \<Rightarrow> bool" where
  "readable root k V \<longleftrightarrow> (\<forall>v \<in> V. \<exists>e. pmap root k v = Some e \<and> e AND PTE_U \<noteq> 0)"

definition writable :: "u64 \<Rightarrow> kmem \<Rightarrow> nat set \<Rightarrow> bool" where
  "writable root k V \<longleftrightarrow> (\<forall>v \<in> V. \<exists>e. pmap root k v = Some e \<and> e AND PTE_U \<noteq> 0 \<and> e AND PTE_W \<noteq> 0)"

lemma writable_readable: "writable root k V \<Longrightarrow> readable root k V"
  unfolding readable_def writable_def by blast

lemma owned_page:
  assumes "pt_inv root k" "owns root k V" "v \<in> V" "pmap root k v = Some e"
  shows "PTE2PA e \<noteq> 0" "page_aligned (PTE2PA e)"
proof -
  have ok: "page_ok (km_end k) (PTE2PA e)" using ownsD(1) [OF assms(2-4)] .
  then show "page_aligned (PTE2PA e)" by (simp add: page_ok_def)
  have "0 < km_end k" using pt_inv_kmem [OF assms(1)] by (simp add: kmem_inv_def)
  with ok show "PTE2PA e \<noteq> 0" by (rule page_ok_nonzero)
qed

lemma walkaddr_mapped:
  assumes "va < MAXVA" "pmap root k (vpn va) = Some e" "e AND PTE_U \<noteq> 0"
  shows "walkaddr root va k = PTE2PA e"
proof -
  obtain t where "walk root va False k = Ok (Some (t, PX 0 va), k)" "cell k (t, PX 0 va) = e" "valid e"
    using walk_present [OF assms(1,2)] by blast
  moreover have "\<not> MAXVA \<le> va" using assms(1) by (simp add: not_le)
  ultimately show ?thesis using assms(3) by (simp add: walkaddr_def)
qed

lemma user_page_mapped:
  assumes "va < MAXVA" "pmap root k (vpn va) = Some e" "e AND PTE_U \<noteq> 0" "PTE2PA e \<noteq> 0"
  shows "user_page root psz va k = Ok (PTE2PA e, k)"
  using walkaddr_mapped [OF assms(1-3)] assms(4) by (simp add: user_page_def)

text \<open>The page an access starts in, and where the next one starts.\<close>

lemma first_page:
  assumes "unat va + len \<le> 2 ^ 38" "0 < len"
  shows "PGROUNDDOWN va < MAXVA" "vpn (PGROUNDDOWN va) = unat va div 4096" "unat (PGROUNDDOWN va + PGSIZE) = (unat va div 4096 + 1) * 4096"
    "va - PGROUNDDOWN va = of_nat (unat va mod 4096)" "(unat va div 4096 + 1) * 4096 \<le> 2 ^ 38"
    "chunk va len = min (4096 - unat va mod 4096) len"
    "chunk va len < len \<Longrightarrow> unat va + chunk va len = (unat va div 4096 + 1) * 4096"
proof -
  have "unat va < 2 ^ 38" using assms by simp
  then have d: "unat va div 4096 < 2 ^ 26" by (simp add: less_mult_imp_div_less)
  show v: "vpn (PGROUNDDOWN va) = unat va div 4096" by (simp add: vpn_def unat_PGROUNDDOWN)
  then show lt: "PGROUNDDOWN va < MAXVA" using d by (simp add: vpn_less)
  show "unat (PGROUNDDOWN va + PGSIZE) = (unat va div 4096 + 1) * 4096" using unat_next_va [OF lt] by (simp add: unat_PGROUNDDOWN)
  show "va - PGROUNDDOWN va = of_nat (unat va mod 4096)" 
    unfolding unat_page_offset [symmetric] by simp
  show "(unat va div 4096 + 1) * 4096 \<le> 2 ^ 38" using d by simp
  show c: "chunk va len = min (4096 - unat va mod 4096) len" by (rule chunk_eq)
  assume "chunk va len < len"
  then have "chunk va len = 4096 - unat va mod 4096" unfolding c by linarith
  moreover have "x + (4096 - r) = (d + 1) * 4096" if "x = d * 4096 + r" "r < 4096" for x d r :: nat using that by simp
  from this [of "unat va" "unat va div 4096" "unat va mod 4096"]
  have "unat va + (4096 - unat va mod 4096) = (unat va div 4096 + 1) * 4096" by simp
  ultimately show "unat va + chunk va len = (unat va div 4096 + 1) * 4096" by simp
qed

lemma in_first_page:
  assumes "j < (4096::nat) - A mod 4096"
  shows "(A + j) div 4096 = A div 4096" "(A + j) mod 4096 = A mod 4096 + j"
proof -
  have A: "A = A div 4096 * 4096 + A mod 4096" by simp
  then have "A + j = A div 4096 * 4096 + (A mod 4096 + j)" by linarith
  moreover have "A mod 4096 + j < 4096" using assms by simp
  ultimately show "(A + j) div 4096 = A div 4096" "(A + j) mod 4096 = A mod 4096 + j"
    by (metis add.commute add_cancel_right_right div_less div_mult_self3 zero_neq_numeral, metis mod_less mod_mult_self3)
qed

lemma copyin_spec:
  assumes "pt_inv root k" "owns root k V" "readable root k V" "unat va + len \<le> 2 ^ 38"
    and "\<forall>A. unat va \<le> A \<and> A < unat va + len \<longrightarrow> A div 4096 \<in> V"
  shows "copyin root psz va len k = Ok (0, map (ubyte root k) [unat va..<unat va + len], k)"
  using assms(4,5)
proof (induction len arbitrary: va rule: less_induct)
  case (less len va)
  show ?case
  proof (cases "len = 0")
    case True
    then show ?thesis by (subst copyin.simps) simp
  next
    case False
    note f = first_page [OF less.prems(1)]
    let ?n = "chunk va len" and ?va = "PGROUNDDOWN va + PGSIZE"
    have pos: "0 < len" "0 < ?n" "?n \<le> len" "?n \<le> 4096 - unat va mod 4096" using False chunk_pos f(6) by simp_all
    have inV: "unat va div 4096 \<in> V" using less.prems(2) pos(1) by auto
    then obtain e where e: "pmap root k (unat va div 4096) = Some e" "e AND PTE_U \<noteq> 0" using assms(3) by (auto simp: readable_def)
    note nz = owned_page(1) [OF assms(1,2) inV e(1)]
    have up: "user_page root psz (PGROUNDDOWN va) k = Ok (PTE2PA e, k)"
      using user_page_mapped [OF f(1)] f(2) e pos(1) nz by simp
    have "copyin root psz ?va (len - ?n) k = Ok (0, map (ubyte root k) [unat va + ?n..<unat va + len], k)"
    proof (cases "?n < len")
      case True
      have "copyin root psz ?va (len - ?n) k = Ok (0, map (ubyte root k) [unat ?va..<unat ?va + (len - ?n)], k)"
        by (rule less.IH) (use pos f(3,7) True less.prems in auto)
      moreover have "unat ?va = unat va + ?n" using f(3,7) pos(1) True by simp
      moreover have "unat va + ?n + (len - ?n) = unat va + len" using True by simp
      ultimately show ?thesis by (simp only:)
    next
      case False
      then have "?n = len" using pos(3) by simp
      then show ?thesis by (subst copyin.simps) simp
    qed
    moreover have "load_bytes k (PTE2PA e + (va - PGROUNDDOWN va)) ?n = map (ubyte root k) [unat va..<unat va + ?n]"
    proof (rule nth_equalityI)
      fix j assume "j < length (load_bytes k (PTE2PA e + (va - PGROUNDDOWN va)) ?n)"
      then have j: "j < ?n" "j < 4096 - unat va mod 4096" using pos(4) by (simp_all add: load_bytes_def)
      show "load_bytes k (PTE2PA e + (va - PGROUNDDOWN va)) ?n ! j = map (ubyte root k) [unat va..<unat va + ?n] ! j"
        using j(1) e(1) in_first_page [OF j(2)] by (simp add: load_bytes_def ubyte_def f(4) [OF pos(1)] add.assoc)
    qed (simp add: load_bytes_def)
    ultimately have "copyin root psz va len k = Ok (0, map (ubyte root k) [unat va..<unat va + ?n] @ map (ubyte root k) [unat va + ?n..<unat va + len], k)"
      using False up nz by (subst copyin.simps) (simp add: Let_def)
    also have "map (ubyte root k) [unat va..<unat va + ?n] @ map (ubyte root k) [unat va + ?n..<unat va + len]
      = map (ubyte root k) [unat va..<unat va + len]"
      using upt_add_eq_append [of "unat va" "unat va + ?n" "len - ?n"] pos(3) by simp
    finally show ?thesis .
  qed
qed


text \<open>Writing into a page the address space owns changes no table, no free page and no other page.\<close>

lemma store_owned:
  assumes inv: "pt_inv root k" and own: "owns root k V" and v: "v \<in> V" "pmap root k v = Some e"
    and j: "j + length bs \<le> 4096"
  defines "k' \<equiv> store_bytes (PTE2PA e + of_nat j) bs k"
  shows "pt_inv root k'" "pmap root k' = pmap root k" "tables root k' = tables root k" "free_pages k' = free_pages k" "km_end k' = km_end k"
    "\<And>A. A div 4096 \<in> V \<Longrightarrow> pmap root k (A div 4096) \<noteq> None \<Longrightarrow> ubyte root k' A
       = (if A div 4096 = v \<and> j \<le> A mod 4096 \<and> A mod 4096 < j + length bs then bs ! (A mod 4096 - j) else ubyte root k A)"
proof -
  note o = ownsD [OF own v] and al = owned_page(2) [OF inv own v]
  note s = store_bytes_page [OF al j, where k = k, folded k'_def]
  have k': "k' = k\<lparr>km_cells := km_cells k'\<rparr>" using s(1,2) by simp
  have "km_cells k' q = km_cells k q" if "q \<in> free_pages k" for q using that o(2) by (intro s(3)) auto
  note fr = kmem_frame [OF pt_inv_kmem [OF inv] this]
  show fp: "free_pages k' = free_pages k" and ke: "km_end k' = km_end k" using fr(2) k' s(2) by simp_all
  have ki: "kmem_inv k'" using fr(1) k' by simp
  have same: "\<forall>t \<in> tables root k. km_cells k' t = km_cells k t"
  proof
    fix t assume "t \<in> tables root k"
    then show "km_cells k' t = km_cells k t" using o(3) by (intro s(3)) auto
  qed
  have "tables root k \<inter> free_pages k' = {}" using fp pt_inv_table(2) [OF inv] by auto
  note f = pt_frame [OF inv ki ke same this]
  show "pt_inv root k'" "tables root k' = tables root k" and pm: "pmap root k' = pmap root k" using f by simp_all
  fix A assume A: "A div 4096 \<in> V" "pmap root k (A div 4096) \<noteq> None"
  then obtain f where f: "pmap root k (A div 4096) = Some f" by auto
  have lt: "A mod 4096 < 4096" by simp
  show "ubyte root k' A = (if A div 4096 = v \<and> j \<le> A mod 4096 \<and> A mod 4096 < j + length bs then bs ! (A mod 4096 - j) else ubyte root k A)"
  proof (cases "A div 4096 = v")
    case True
    then have "f = e" using f v(2) by simp
    then show ?thesis using True s(4) [OF lt] f unfolding ubyte_def pm by simp
  next
    case False
    then have ne: "PTE2PA f \<noteq> PTE2PA e" using o(4) [OF A(1) f] by auto
    note g = PGROUNDDOWN_offset(1) [OF owned_page(2) [OF inv own A(1) f] lt]
    show ?thesis using False f s(3) [OF ne] unfolding ubyte_def pm by (simp add: load_byte_def g)
  qed
qed

lemma owns_same:
  assumes "owns root k V" "pmap root k' = pmap root k" "tables root k' = tables root k" "free_pages k' = free_pages k" "km_end k' = km_end k"
  shows "owns root k' V"
  using assms by (simp add: owns_def)

lemma copyout_spec:
  assumes "pt_inv root k" "owns root k V" "writable root k V" "unat va + length src \<le> 2 ^ 38"
    and "\<forall>A. unat va \<le> A \<and> A < unat va + length src \<longrightarrow> A div 4096 \<in> V"
  shows "\<exists>k'. copyout root psz va src k = Ok (0, k') \<and> pt_inv root k' \<and> pmap root k' = pmap root k
    \<and> tables root k' = tables root k \<and> free_pages k' = free_pages k \<and> km_end k' = km_end k
    \<and> (\<forall>A. A div 4096 \<in> V \<longrightarrow> ubyte root k' A
         = (if unat va \<le> A \<and> A < unat va + length src then src ! (A - unat va) else ubyte root k A))"
  using assms
proof (induction "length src" arbitrary: src va k rule: less_induct)
  case (less src va k)
  show ?case
  proof (cases "src = []")
    case True
    then show ?thesis using less.prems(1) by (subst copyout.simps) auto
  next
    case False
    then have pos0: "0 < length src" by simp
    note f = first_page [OF less.prems(4) pos0]
    let ?n = "chunk va (length src)" and ?va = "PGROUNDDOWN va + PGSIZE" and ?A = "unat va"
    have pos: "0 < ?n" "?n \<le> length src" "?n \<le> 4096 - ?A mod 4096" using pos0 chunk_pos f(6) by simp_all
    have inV: "?A div 4096 \<in> V" using less.prems(5) pos0 by auto
    then obtain e where e: "pmap root k (?A div 4096) = Some e" "e AND PTE_U \<noteq> 0" "e AND PTE_W \<noteq> 0" using less.prems(3) by (auto simp: writable_def)
    note nz = owned_page(1) [OF less.prems(1,2) inV e(1)]
    have up: "user_page root psz (PGROUNDDOWN va) k = Ok (PTE2PA e, k)" using user_page_mapped [OF f(1)] f(2) e nz by simp
    obtain t where t: "walk root (PGROUNDDOWN va) False k = Ok (Some t, k)" "cell k t = e"
      using walk_present [OF f(1)] f(2) e(1) by (metis (no_types))
    let ?k = "store_bytes (PTE2PA e + (va - PGROUNDDOWN va)) (take ?n src) k"
    have run: "copyout root psz va src k = copyout root psz ?va (drop ?n src) ?k"
      using False f(1) [folded not_le] up t e(3) nz by (subst copyout.simps) (simp add: Let_def)
    have len: "?A mod 4096 + length (take ?n src) \<le> 4096" "length (take ?n src) = ?n" using pos by simp_all
    note s = store_owned [OF less.prems(1,2) inV e(1) len(1), folded f(4)]
    have wr: "writable root ?k V" using less.prems(3) s(2) by (simp add: writable_def)
    note ow = owns_same [OF less.prems(2) s(2-5)]
    have ub: "ubyte root ?k A = (if ?A \<le> A \<and> A < ?A + ?n then src ! (A - ?A) else ubyte root k A)" if "A div 4096 \<in> V" for A
    proof -
      have "pmap root k (A div 4096) \<noteq> None" using less.prems(3) that by (auto simp: writable_def)
      note u = s(6) [OF that this]
      have range: "A div 4096 = ?A div 4096 \<and> ?A mod 4096 \<le> A mod 4096 \<and> A mod 4096 < ?A mod 4096 + ?n \<longleftrightarrow> ?A \<le> A \<and> A < ?A + ?n"
      proof
        assume "?A \<le> A \<and> A < ?A + ?n"
        then obtain i where i: "A = ?A + i" "i < ?n" by (auto simp: le_iff_add)
        then have "i < 4096 - ?A mod 4096" using pos(3) by linarith
        from in_first_page [OF this] i
        show "A div 4096 = ?A div 4096 \<and> ?A mod 4096 \<le> A mod 4096 \<and> A mod 4096 < ?A mod 4096 + ?n" by simp
      next
        assume "A div 4096 = ?A div 4096 \<and> ?A mod 4096 \<le> A mod 4096 \<and> A mod 4096 < ?A mod 4096 + ?n"
        then show "?A \<le> A \<and> A < ?A + ?n" using div_mult_mod_eq [of A 4096] div_mult_mod_eq [of ?A 4096] by linarith
      qed
      show ?thesis
      proof (cases "?A \<le> A \<and> A < ?A + ?n")
        case True
        then have c: "A div 4096 = ?A div 4096" "?A mod 4096 \<le> A mod 4096" "A mod 4096 < ?A mod 4096 + ?n" using range by blast+
        have "A mod 4096 - ?A mod 4096 = A - ?A"
          using c(1) div_mult_mod_eq [of A 4096] div_mult_mod_eq [of ?A 4096] by linarith
        moreover have "take ?n src ! (A - ?A) = src ! (A - ?A)" using True by (intro nth_take) linarith
        ultimately have "ubyte root ?k A = src ! (A - ?A)" using u c len(2) by simp
        then show ?thesis using True by simp
      next
        case False
        then show ?thesis using range u len(2) by auto
      qed
    qed
    show ?thesis
    proof (cases "?n < length src")
      case True
      have va': "unat ?va = ?A + ?n" using f(3,7) True by simp
      have "\<exists>k'. copyout root psz ?va (drop ?n src) ?k = Ok (0, k') \<and> pt_inv root k' \<and> pmap root k' = pmap root ?k
        \<and> tables root k' = tables root ?k \<and> free_pages k' = free_pages ?k \<and> km_end k' = km_end ?k
        \<and> (\<forall>A. A div 4096 \<in> V \<longrightarrow> ubyte root k' A
           = (if unat ?va \<le> A \<and> A < unat ?va + length (drop ?n src) then drop ?n src ! (A - unat ?va) else ubyte root ?k A))"
        by (rule less.hyps) (use pos True s(1) ow wr less.prems(4,5) va' in auto)
      then obtain k' where k': "copyout root psz ?va (drop ?n src) ?k = Ok (0, k')" "pt_inv root k'" "pmap root k' = pmap root ?k"
        "tables root k' = tables root ?k" "free_pages k' = free_pages ?k" "km_end k' = km_end ?k"
        "\<And>A. A div 4096 \<in> V \<Longrightarrow> ubyte root k' A
           = (if unat ?va \<le> A \<and> A < unat ?va + length (drop ?n src) then drop ?n src ! (A - unat ?va) else ubyte root ?k A)" by blast
      have "ubyte root k' A = (if ?A \<le> A \<and> A < ?A + length src then src ! (A - ?A) else ubyte root k A)" if "A div 4096 \<in> V" for A
        using k'(7) [OF that] ub [OF that] va' True by auto
      then show ?thesis unfolding run using k'(1-6) s(2-5) by auto
    next
      case False
      then have "?n = length src" using pos(2) by simp
      then have "copyout root psz ?va (drop ?n src) ?k = Ok (0, ?k)" by (subst copyout.simps) simp
      then show ?thesis unfolding run using s(1-5) ub \<open>?n = length src\<close> by simp
    qed
  qed
qed


lemma takeWhile_shorter: "length (takeWhile P xs) < length xs \<longleftrightarrow> (\<exists>x \<in> set xs. \<not> P x)"
  by (induction xs) auto

lemma upto_nul_append:
  "upto_nul (xs @ ys) = (if 0 \<in> set xs then upto_nul xs else (xs @ fst (upto_nul ys), snd (upto_nul ys)))"
proof (cases "0 \<in> set xs")
  case True
  have "takeWhile (\<lambda>b. b \<noteq> 0) (xs @ ys) = takeWhile (\<lambda>b. b \<noteq> 0) xs" using True by (intro takeWhile_append1) auto
  moreover have "length (takeWhile (\<lambda>b. b \<noteq> 0) xs) < length xs"
    using True by (simp add: takeWhile_shorter)
  ultimately show ?thesis using True by (simp add: upto_nul_def Let_def)
next
  case False
  then have "takeWhile (\<lambda>b. b \<noteq> 0) (xs @ ys) = xs @ takeWhile (\<lambda>b. b \<noteq> 0) ys" by (intro takeWhile_append2) auto
  then show ?thesis using False by (simp add: upto_nul_def Let_def)
qed

lemma upto_nul_found: "snd (upto_nul xs) \<longleftrightarrow> 0 \<in> set xs"
  by (auto simp: upto_nul_def Let_def takeWhile_shorter)

lemma copyinstr_spec:
  assumes "pt_inv root k" "owns root k V" "readable root k V" "unat va + mx \<le> 2 ^ 38"
    and "\<forall>A. unat va \<le> A \<and> A < unat va + length (fst (upto_nul (map (ubyte root k) [unat va..<unat va + mx]))) \<longrightarrow> A div 4096 \<in> V"
  shows "copyinstr root psz va mx k
    = (case upto_nul (map (ubyte root k) [unat va..<unat va + mx]) of (s, got) \<Rightarrow> Ok (if got then 0 else - 1, s, k))"
  using assms(4,5)
proof (induction mx arbitrary: va rule: less_induct)
  case (less mx va)
  show ?case
  proof (cases "mx = 0")
    case True
    then show ?thesis by (subst copyinstr.simps) (simp add: upto_nul_def)
  next
    case False
    note f = first_page [OF less.prems(1)]
    let ?n = "chunk va mx" and ?va = "PGROUNDDOWN va + PGSIZE"
    let ?bs = "map (ubyte root k) [unat va..<unat va + ?n]" and ?cs = "map (ubyte root k) [unat va + ?n..<unat va + mx]"
    have pos: "0 < mx" "0 < ?n" "?n \<le> mx" "?n \<le> 4096 - unat va mod 4096" using False chunk_pos f(6) by simp_all
    have sp: "map (ubyte root k) [unat va..<unat va + mx] = ?bs @ ?cs"
      using upt_add_eq_append [of "unat va" "unat va + ?n" "mx - ?n"] pos(3) by simp
    have "fst (upto_nul (b # xs)) \<noteq> []" for b xs by (simp add: upto_nul_def Let_def)
    then have "0 < length (fst (upto_nul (?bs @ ?cs)))" using pos(2) by (cases "?bs @ ?cs") (auto simp: upt_rec)
    then have inV: "unat va div 4096 \<in> V" using less.prems(2) unfolding sp by auto
    then obtain e where e: "pmap root k (unat va div 4096) = Some e" "e AND PTE_U \<noteq> 0" using assms(3) by (auto simp: readable_def)
    note nz = owned_page(1) [OF assms(1,2) inV e(1)]
    have up: "user_page root psz (PGROUNDDOWN va) k = Ok (PTE2PA e, k)"
      using user_page_mapped [OF f(1)] f(2) e pos(1) nz by simp
    have ld: "load_bytes k (PTE2PA e + (va - PGROUNDDOWN va)) ?n = ?bs"
    proof (rule nth_equalityI)
      fix j assume "j < length (load_bytes k (PTE2PA e + (va - PGROUNDDOWN va)) ?n)"
      then have j: "j < ?n" "j < 4096 - unat va mod 4096" using pos(4) by (simp_all add: load_bytes_def)
      show "load_bytes k (PTE2PA e + (va - PGROUNDDOWN va)) ?n ! j = ?bs ! j"
        using j(1) e(1) in_first_page [OF j(2)] by (simp add: load_bytes_def ubyte_def f(4) [OF pos(1)] add.assoc)
    qed (simp add: load_bytes_def)
    show ?thesis
    proof (cases "0 \<in> set ?bs")
      case True
      then obtain s where "upto_nul ?bs = (s, True)" using upto_nul_found [of ?bs] by (cases "upto_nul ?bs") auto
      then show ?thesis using True False up nz ld
        unfolding sp upto_nul_append by (subst copyinstr.simps) (simp add: Let_def)
    next
      case no: False
      then have u: "upto_nul ?bs = (?bs, False)" using upto_nul_append [of ?bs "[]"] by (simp add: upto_nul_def)
      have rec: "copyinstr root psz ?va (mx - ?n) k = (case upto_nul ?cs of (s, got) \<Rightarrow> Ok (if got then 0 else - 1, s, k))"
      proof (cases "?n < mx")
        case True
        have va': "unat ?va = unat va + ?n" "unat va + ?n + (mx - ?n) = unat va + mx" using f(3,7) pos(1) True by simp_all
        have "copyinstr root psz ?va (mx - ?n) k
          = (case upto_nul (map (ubyte root k) [unat ?va..<unat ?va + (mx - ?n)]) of (s, got) \<Rightarrow> Ok (if got then 0 else - 1, s, k))"
        proof (rule less.IH)
          show "\<forall>A. unat ?va \<le> A \<and> A < unat ?va + length (fst (upto_nul (map (ubyte root k) [unat ?va..<unat ?va + (mx - ?n)]))) \<longrightarrow> A div 4096 \<in> V"
            using less.prems(2) no unfolding sp upto_nul_append va' by simp
        qed (use pos va' less.prems(1) in auto)
        then show ?thesis unfolding va' .
      next
        case False
        then have "?n = mx" using pos(3) by simp
        then show ?thesis by (subst copyinstr.simps) (simp add: upto_nul_def)
      qed
      show ?thesis using False up nz ld u rec no
        unfolding sp upto_nul_append by (subst copyinstr.simps) (simp add: Let_def split: prod.split)
    qed
  qed
qed

section \<open>Properties\<close>

text \<open>C30. Copies between kernel and user memory: over pages the process owns and may write, \<open>copyout\<close> succeeds for
  any address and length, across any number of page boundaries; a following \<open>copyin\<close> of the same range
  returns exactly the bytes written; every other byte of the process's memory, every translation and
  every free page is as before.\<close>

theorem copyout_copyin_roundtrip:
  assumes "pt_inv root k" and "owns root k V" and "writable root k V" and "unat va + length src \<le> 2 ^ 38"
    and "\<forall>A. unat va \<le> A \<and> A < unat va + length src \<longrightarrow> A div 4096 \<in> V"
  shows "\<exists>k'. copyout root psz va src k = Ok (0, k') \<and> copyin root psz va (length src) k' = Ok (0, src, k')
    \<and> pmap root k' = pmap root k \<and> free_pages k' = free_pages k
    \<and> (\<forall>A. A div 4096 \<in> V \<longrightarrow> \<not> (unat va \<le> A \<and> A < unat va + length src) \<longrightarrow> ubyte root k' A = ubyte root k A)"
proof -
  obtain k' where k': "copyout root psz va src k = Ok (0, k')" "pt_inv root k'" "pmap root k' = pmap root k"
    "tables root k' = tables root k" "free_pages k' = free_pages k" "km_end k' = km_end k"
    "\<And>A. A div 4096 \<in> V \<Longrightarrow> ubyte root k' A = (if unat va \<le> A \<and> A < unat va + length src then src ! (A - unat va) else ubyte root k A)"
    using copyout_spec [OF assms, of psz] by blast
  have "writable root k' V" using assms(3) k'(3) by (simp add: writable_def)
  then have "copyin root psz va (length src) k' = Ok (0, map (ubyte root k') [unat va..<unat va + length src], k')"
    using copyin_spec [OF k'(2) owns_same [OF assms(2) k'(3-6)] writable_readable assms(4,5)] by blast
  moreover have "map (ubyte root k') [unat va..<unat va + length src] = src"
    using k'(7) assms(5) by (intro nth_equalityI) auto
  ultimately show ?thesis using k' by auto
qed

text \<open>Reading a string from user memory: \<open>copyinstr\<close> returns the bytes up to and including the first NUL
  when there is one among the first \<open>max\<close> bytes, and fails otherwise; only the pages up to that byte
  need to be mapped.\<close>

theorem copyinstr_reads_string:
  assumes "pt_inv root k" and "owns root k V" and "readable root k V" and "unat va + mx \<le> 2 ^ 38"
    and "\<forall>A. unat va \<le> A \<and> A \<le> unat va + n \<longrightarrow> A div 4096 \<in> V"
    and "n < mx" and "ubyte root k (unat va + n) = 0" and "\<forall>i < n. ubyte root k (unat va + i) \<noteq> 0"
  shows "copyinstr root psz va mx k = Ok (0, map (ubyte root k) [unat va..<unat va + n] @ [0], k)"
proof -
  let ?b = "map (ubyte root k) [unat va..<unat va + n]"
  have "[unat va..<unat va + mx] = [unat va..<unat va + n] @ (unat va + n) # [Suc (unat va + n)..<unat va + mx]"
    using upt_add_eq_append [of "unat va" "unat va + n" "mx - n"] assms(6) by (simp add: upt_conv_Cons)
  then have sp: "map (ubyte root k) [unat va..<unat va + mx] = ?b @ 0 # map (ubyte root k) [Suc (unat va + n)..<unat va + mx]"
    using assms(7) by simp
  have "ubyte root k A \<noteq> 0" if "unat va \<le> A" "A < unat va + n" for A using assms(8) that by (metis le_add_diff_inverse nat_add_left_cancel_less)
  then have "0 \<notin> set ?b" by (auto simp: image_iff)
  moreover have "upto_nul (0 # xs) = ([0], True)" for xs by (simp add: upto_nul_def)
  ultimately have u: "upto_nul (map (ubyte root k) [unat va..<unat va + mx]) = (?b @ [0], True)"
    unfolding sp upto_nul_append by simp
  show ?thesis using copyinstr_spec [OF assms(1-4), of psz] assms(5) unfolding u by simp
qed


text \<open>A one-page address space: three tables at 0x80001000 to 0x80003000 and the page 0x80004000 at address 0.\<close>

definition demo_cells :: mem where
  "demo_cells pg i =
     (if i \<noteq> 0 then 0
      else if pg = 0x80001000 then PA2PTE 0x80002000 OR PTE_V
      else if pg = 0x80002000 then PA2PTE 0x80003000 OR PTE_V
      else if pg = 0x80003000 then PA2PTE 0x80004000 OR (PTE_W OR PTE_U OR PTE_R) OR PTE_V
      else 0)"

definition demo_space :: kmem where
  "demo_space = \<lparr>km_freelist = 0, km_cells = demo_cells, km_end = 0x80000000\<rparr>"

lemma demo_entry:
  "PTE2PA (PA2PTE 0x80002000 OR PTE_V) = 0x80002000" "PTE2PA (PA2PTE 0x80003000 OR PTE_V) = 0x80003000"
  "PTE2PA (PA2PTE 0x80004000 OR (PTE_W OR PTE_U OR PTE_R) OR PTE_V) = 0x80004000"
  by (simp_all add: PTE2PA_def PA2PTE_def PTE_V_def PTE_W_def PTE_U_def PTE_R_def)

lemma demo_table_at:
  "path_ok p \<Longrightarrow> table_at demo_cells 0x80001000 p
     = (if p = [] then Some 0x80001000 else if p = [0] then Some 0x80002000 else if p = [0, 0] then Some 0x80003000 else None)"
proof -
  assume "path_ok p"
  then consider "p = []" | i where "p = [i]" | i j where "p = [i, j]" 
    by (cases p; cases "tl p"; cases "tl (tl p)") (auto simp: path_ok_def)
  then show ?thesis by cases (simp_all add: demo_cells_def demo_entry)
qed

lemma demo_free: "kmem_inv demo_space" "free_pages demo_space = {}"
proof -
  have f: "flist (km_cells demo_space) (km_freelist demo_space) []" by (simp add: demo_space_def)
  show "free_pages demo_space = {}" using free_pages_eq [OF f] by simp
  show "kmem_inv demo_space" unfolding kmem_inv_def using f by (intro conjI exI [of _ "[]"]) (simp_all add: demo_space_def)
qed

lemma demo_tables: "tables 0x80001000 demo_space = {0x80001000, 0x80002000, 0x80003000}"
proof -
  have "path_ok []" "path_ok [0]" "path_ok [0, 0]" by simp_all
  from this [THEN demo_table_at] this show ?thesis unfolding tables_def demo_space_def
    by (auto simp: demo_table_at simp del: table_at.simps path_ok_simps split: if_splits)
qed

lemma demo_inv: "pt_inv 0x80001000 demo_space"
proof (rule pt_invI)
  show "page_ok (km_end demo_space) t \<and> t \<notin> free_pages demo_space" if "t \<in> tables 0x80001000 demo_space" for t
    using that unfolding demo_tables demo_free by (auto simp: demo_space_def page_ok_def page_aligned_def PGSIZE_def PHYSTOP_def KERNBASE_def)
  show "p = q" if "path_ok p" "path_ok q" "table_at (km_cells demo_space) 0x80001000 p = Some t" "table_at (km_cells demo_space) 0x80001000 q = Some t" for p q t
    using that by (simp add: demo_space_def demo_table_at split: if_splits)
  show "e AND RWX = 0" if p: "path_ok p" "entry (km_cells demo_space) 0x80001000 p = Some e" for p e
  proof (cases p)
    case (Cons i q)
    then have q: "path_ok q" "length q \<le> 1" using p(1) by auto
    then have "q = [] \<or> q = [0]" using p(2) Cons demo_table_at [OF q(1)] by (auto simp: demo_space_def split: if_splits)
    then show ?thesis using p(2) Cons demo_table_at [OF q(1)]
      by (auto simp: demo_space_def demo_cells_def V_no_RWX page_aligned_def PGSIZE_def split: if_splits)
  qed (use p in simp)
qed (rule demo_free)

lemma demo_pmap: "pmap 0x80001000 demo_space 0 = Some (PA2PTE 0x80004000 OR (PTE_W OR PTE_U OR PTE_R) OR PTE_V)"
proof -
  have "path_ok [0, 0]" by simp
  from demo_table_at [OF this] show ?thesis
    by (simp add: pmap_def path_of_def demo_space_def demo_cells_def del: table_at.simps)
qed

lemma demo_owns: "owns 0x80001000 demo_space {0}" "writable 0x80001000 demo_space {0}"
  by (simp_all add: owns_def writable_def demo_pmap demo_entry demo_tables demo_free)
    (simp_all add: demo_space_def page_ok_def page_aligned_def PGSIZE_def PHYSTOP_def KERNBASE_def PA2PTE_def PTE_V_def PTE_W_def PTE_U_def PTE_R_def)

theorem copyout_copyin_roundtrip_witness:
  "\<exists>k'. copyout 0x80001000 4096 10 [1, 2, 3] demo_space = Ok (0, k') \<and> copyin 0x80001000 4096 10 3 k' = Ok (0, [1, 2, 3], k')"
  using copyout_copyin_roundtrip [OF demo_inv demo_owns, of 10 "[1, 2, 3]" 4096] by (auto simp: numeral_3_eq_3)

theorem copyinstr_reads_string_witness: "copyinstr 0x80001000 4096 10 128 demo_space = Ok (0, [0], demo_space)"
proof -
  have "load_byte demo_space (0x80004000 + 10) = 0"
    by (simp add: load_byte_def demo_space_def demo_cells_def byte_of_def)
  then have "ubyte 0x80001000 demo_space 10 = 0" by (simp add: ubyte_def demo_pmap demo_entry)
  then show ?thesis
    using copyinstr_reads_string [OF demo_inv demo_owns(1) writable_readable [OF demo_owns(2)], of 10 128 0 4096] by simp
qed

end
