(* ===== verification/Pipe.thy ===== *)
theory Pipe
  imports Ring
begin

text \<open>
  Pipes, \<open>xv6/kernel/pipe.c\<close>. A call that sleeps is cut into segments: a segment runs with the
  pipe's lock held from entry, or from a wakeup, until the call returns or sleeps again, and carries
  its loop counter over the sleep. The copies from and to user memory are arguments.
\<close>

section \<open>Model\<close>

definition PIPESIZE :: nat where "PIPESIZE = 512"

record pipe =
  pi_data :: "u8 list"
  pi_nread :: u32
  pi_nwrite :: u32
  pi_readopen :: bool
  pi_writeopen :: bool

text \<open>The sleep channels \<open>&pi->nread\<close> and \<open>&pi->nwrite\<close>.\<close>

datatype pchan = NRead | NWrite

text \<open>How a segment ends: the value returned, or asleep on a channel with the loop counter.\<close>

datatype seg = Returned int | Asleep pchan int

text \<open>The part of \<open>pipealloc\<close> that sets up the pipe in a fresh page with contents \<open>page\<close>.\<close>

definition pipeinit :: "u8 list \<Rightarrow> pipe" where
  "pipeinit page = \<lparr>pi_data = page, pi_nread = 0, pi_nwrite = 0, pi_readopen = True, pi_writeopen = True\<rparr>"

text \<open>\<open>pipeclose\<close>: the pipe, the channel woken, and whether its page is freed.\<close>

definition pipeclose :: "pipe \<Rightarrow> bool \<Rightarrow> pipe \<times> pchan \<times> bool" where
  "pipeclose pi writable =
     (let (pi1, ch) = (if writable then (pi\<lparr>pi_writeopen := False\<rparr>, NRead)
                       else (pi\<lparr>pi_readopen := False\<rparr>, NWrite))
      in (pi1, ch, \<not> pi_readopen pi1 \<and> \<not> pi_writeopen pi1))"

definition pipe_put :: "u8 \<Rightarrow> pipe \<Rightarrow> pipe" where
  "pipe_put ch pi = pi\<lparr>pi_data := ring_set (pi_data pi) (pi_nwrite pi) ch, pi_nwrite := pi_nwrite pi + 1\<rparr>"

definition pipe_full :: "pipe \<Rightarrow> bool" where
  "pipe_full pi \<longleftrightarrow> pi_nwrite pi = pi_nread pi + of_nat PIPESIZE"

definition pipe_get :: "pipe \<Rightarrow> u8 \<times> pipe" where
  "pipe_get pi = (ring_at (pi_data pi) (pi_nread pi), pi\<lparr>pi_nread := pi_nread pi + 1\<rparr>)"

definition pipe_empty :: "pipe \<Rightarrow> bool" where
  "pipe_empty pi \<longleftrightarrow> pi_nread pi = pi_nwrite pi"

text \<open>
  A segment of \<open>pipewrite\<close> from counter \<open>i\<close>: \<open>killed i\<close> is what \<open>killed(pr)\<close> returns and \<open>rd i\<close> the
  byte \<open>copyin\<close> reads, \<open>None\<close> if the address faults, in the round with that counter. It yields how the
  segment ends, the pipe, the bytes stored and the channels woken.
\<close>

function pipewrite ::
  "(int \<Rightarrow> bool) \<Rightarrow> (int \<Rightarrow> u8 option) \<Rightarrow> int \<Rightarrow> int \<Rightarrow> pipe \<Rightarrow> seg \<times> pipe \<times> u8 list \<times> pchan list" where
  "pipewrite killed rd n i pi =
     (if i < n then
        if \<not> pi_readopen pi \<or> killed i then (Returned (- 1), pi, [], [])
        else if pipe_full pi then (Asleep NWrite i, pi, [], [NRead])
        else (case rd i of
                None \<Rightarrow> (Returned (if i = 0 then - 1 else i), pi, [], [NRead])
              | Some ch \<Rightarrow>
                  let (s, pi1, st, wk) = pipewrite killed rd n (i + 1) (pipe_put ch pi)
                  in (s, pi1, ch # st, wk))
      else (Returned i, pi, [], [NRead]))"
  by pat_completeness auto
termination
  by (relation "measure (\<lambda>(k, r, n, i, pi). nat (n - i))") auto

text \<open>The copying loop of \<open>piperead\<close>; \<open>wr i\<close> says whether \<open>copyout\<close> of byte \<open>i\<close> succeeds. It returns
  the counter, the pipe and the bytes copied out.\<close>

function piperead_copy :: "(int \<Rightarrow> bool) \<Rightarrow> int \<Rightarrow> int \<Rightarrow> pipe \<Rightarrow> int \<times> pipe \<times> u8 list" where
  "piperead_copy wr n i pi =
     (if i < n then
        if pipe_empty pi then (i, pi, [])
        else let (ch, pi1) = pipe_get pi in
          if \<not> wr i then ((if i = 0 then - 1 else i), pi, [])
          else let (r, pi2, out) = piperead_copy wr n (i + 1) pi1 in (r, pi2, ch # out)
      else (i, pi, []))"
  by pat_completeness auto
termination
  by (relation "measure (\<lambda>(w, n, i, pi). nat (n - i))") auto

definition piperead :: "bool \<Rightarrow> (int \<Rightarrow> bool) \<Rightarrow> int \<Rightarrow> pipe \<Rightarrow> seg \<times> pipe \<times> u8 list \<times> pchan list" where
  "piperead killed wr n pi =
     (if pipe_empty pi \<and> pi_writeopen pi
      then if killed then (Returned (- 1), pi, [], []) else (Asleep NRead 0, pi, [], [])
      else let (r, pi1, out) = piperead_copy wr n 0 pi in (Returned r, pi1, out, [NWrite]))"

section \<open>A pipe is a bounded queue\<close>

definition pipe_bytes :: "pipe \<Rightarrow> u8 list" where
  "pipe_bytes pi = ring_content (pi_data pi) (pi_nread pi) (pi_nwrite pi)"

definition pipe_ok :: "pipe \<Rightarrow> bool" where
  "pipe_ok pi \<longleftrightarrow> length (pi_data pi) = PIPESIZE \<and> unat (pi_nwrite pi - pi_nread pi) \<le> PIPESIZE"

lemma pipe_ring_size: "pipe_ok pi \<Longrightarrow> ring_size (pi_data pi)"
proof -
  have "(512 :: nat) dvd 2 ^ 32" by simp
  then show "pipe_ok pi \<Longrightarrow> ring_size (pi_data pi)" by (simp add: pipe_ok_def ring_size_def PIPESIZE_def)
qed

lemma pipe_full_iff: "pipe_full pi \<longleftrightarrow> unat (pi_nwrite pi - pi_nread pi) = PIPESIZE"
proof -
  have "pipe_full pi \<longleftrightarrow> pi_nwrite pi - pi_nread pi = of_nat PIPESIZE" by (auto simp: pipe_full_def diff_eq_eq)
  also have "\<dots> \<longleftrightarrow> unat (pi_nwrite pi - pi_nread pi) = unat (of_nat PIPESIZE :: u32)" by (simp add: word_unat_eq_iff)
  also have "unat (of_nat PIPESIZE :: u32) = PIPESIZE" by (simp add: PIPESIZE_def)
  finally show ?thesis .
qed

interpretation pipe_queue: bounded_queue pipe_bytes pipe_ok PIPESIZE pipe_put pipe_get pipe_full pipe_empty
proof unfold_locales
  fix pi x
  assume ok: "pipe_ok pi" and room: "\<not> pipe_full pi"
  then have lt: "unat (pi_nwrite pi - pi_nread pi) < length (pi_data pi)"
    unfolding pipe_full_iff by (simp add: pipe_ok_def)
  show *: "pipe_bytes (pipe_put x pi) = pipe_bytes pi @ [x]"
    using ring_push [OF pipe_ring_size [OF ok] lt] by (simp add: pipe_bytes_def pipe_put_def)
  have "length (pipe_bytes (pipe_put x pi)) = Suc (length (pipe_bytes pi))" unfolding * by simp
  with lt ok show "pipe_ok (pipe_put x pi)"
    by (simp add: pipe_ok_def pipe_put_def pipe_bytes_def)
next
  fix pi
  assume ok: "pipe_ok pi" and ne: "\<not> pipe_empty pi"
  then show *: "pipe_bytes pi = fst (pipe_get pi) # pipe_bytes (snd (pipe_get pi))"
    using ring_pop by (simp add: pipe_bytes_def pipe_get_def pipe_empty_def)
  have "length (pipe_bytes pi) = Suc (length (pipe_bytes (snd (pipe_get pi))))" by (subst *) simp
  with ok show "pipe_ok (snd (pipe_get pi))" by (simp add: pipe_ok_def pipe_get_def pipe_bytes_def)
next
  fix pi
  assume "pipe_ok pi"
  then show "pipe_full pi = (length (pipe_bytes pi) = PIPESIZE)" "pipe_empty pi = (pipe_bytes pi = [])"
    "length (pipe_bytes pi) \<le> PIPESIZE"
    by (simp_all add: pipe_full_iff pipe_bytes_def pipe_empty_def pipe_ok_def ring_content_Nil_iff)
qed

lemma pipe_put_open [simp]:
  "pi_readopen (pipe_put x pi) = pi_readopen pi" "pi_writeopen (pipe_put x pi) = pi_writeopen pi"
  by (simp_all add: pipe_put_def)

lemma pipe_get_open [simp]:
  "pi_readopen (snd (pipe_get pi)) = pi_readopen pi" "pi_writeopen (snd (pipe_get pi)) = pi_writeopen pi"
  by (simp_all add: pipe_get_def)

section \<open>Segments\<close>

text \<open>What a writing segment does when it runs from counter \<open>i\<close> and stores \<open>j - i\<close> bytes.\<close>

definition write_seg_ok :: "(int \<Rightarrow> bool) \<Rightarrow> (int \<Rightarrow> u8 option) \<Rightarrow> int \<Rightarrow> int \<Rightarrow> pipe \<Rightarrow> seg \<times> pipe \<times> u8 list \<times> pchan list \<Rightarrow> bool" where
  "write_seg_ok killed rd n i pi res \<longleftrightarrow>
     (case res of (s, pi1, st, wk) \<Rightarrow>
        (let j = i + int (length st) in
         pipe_ok pi1 \<and> pi_readopen pi1 = pi_readopen pi \<and> pi_writeopen pi1 = pi_writeopen pi
         \<and> pipe_bytes pi1 = pipe_bytes pi @ st \<and> map Some st = map rd [i..j - 1]
         \<and> (case s of
              Asleep ch m \<Rightarrow> ch = NWrite \<and> m = j \<and> j < n \<and> pipe_full pi1 \<and> wk = [NRead]
            | Returned r \<Rightarrow>
                (if j < n \<and> (\<not> pi_readopen pi \<or> killed j) then r = - 1 \<and> wk = []
                 else wk = [NRead] \<and> (if j < n then rd j = None \<and> r = (if j = 0 then - 1 else j) else r = j \<and> (i \<le> n \<longrightarrow> j = n))))))"

lemma upto_Cons: "i < j \<Longrightarrow> [i..j - 1] = i # [i + 1..j - 1]" for i j :: int
  by (subst upto.simps) auto

lemma pipewrite_seg: "pipe_ok pi \<Longrightarrow> write_seg_ok killed rd n i pi (pipewrite killed rd n i pi)"
proof (induction killed rd n i pi rule: pipewrite.induct)
  case (1 killed rd n i pi)
  show ?case
  proof (cases "i < n \<and> pi_readopen pi \<and> \<not> killed i \<and> \<not> pipe_full pi \<and> rd i \<noteq> None")
    case False
    then show ?thesis using "1.prems"
      by (subst pipewrite.simps) (auto simp: write_seg_ok_def Let_def)
  next
    case True
    then obtain ch where ch: "rd i = Some ch" by auto
    obtain s pi1 st wk where r: "pipewrite killed rd n (i + 1) (pipe_put ch pi) = (s, pi1, st, wk)"
      by (cases "pipewrite killed rd n (i + 1) (pipe_put ch pi)")
    have step: "pipewrite killed rd n i pi = (s, pi1, ch # st, wk)"
      using True ch r by (subst pipewrite.simps) simp
    have "write_seg_ok killed rd n (i + 1) (pipe_put ch pi) (s, pi1, st, wk)"
      using "1.IH" [of ch] True ch r "1.prems" pipe_queue.put_inv by auto
    moreover have "pipe_bytes (pipe_put ch pi) = pipe_bytes pi @ [ch]"
      using True "1.prems" pipe_queue.put_abs by blast
    moreover have "[i..i + int (length (ch # st)) - 1] = i # [i + 1..i + 1 + int (length st) - 1]"
      using upto_Cons [of i "i + 1 + int (length st)"] by simp
    ultimately show ?thesis using True ch unfolding step
      by (auto simp: write_seg_ok_def Let_def algebra_simps split: seg.splits if_splits)
  qed
qed

lemma piperead_copy_seg:
  "pipe_ok pi \<Longrightarrow> 0 \<le> i \<Longrightarrow> piperead_copy wr n i pi = (r, pi1, out) \<Longrightarrow>
   pipe_ok pi1 \<and> pi_readopen pi1 = pi_readopen pi \<and> pi_writeopen pi1 = pi_writeopen pi
   \<and> pipe_bytes pi = out @ pipe_bytes pi1 \<and> (i \<le> n \<longrightarrow> i + int (length out) \<le> n)
   \<and> (let j = i + int (length out) in
      if j < n \<and> pipe_bytes pi1 \<noteq> [] then \<not> wr j \<and> r = (if j = 0 then - 1 else j) else r = j)"
proof (induction wr n i pi arbitrary: r pi1 out rule: piperead_copy.induct)
  case (1 wr n i pi)
  show ?case
  proof (cases "i < n \<and> \<not> pipe_empty pi \<and> wr i")
    case False
    then have "out = []" "pi1 = pi" and r: "r = (if i < n \<and> \<not> pipe_empty pi \<and> i = 0 then - 1 else i)"
      using "1.prems"(3) by (subst (asm) piperead_copy.simps; auto simp: Let_def split: if_splits prod.splits)+
    with False "1.prems" show ?thesis by (auto simp: pipe_queue.empty_iff Let_def)
  next
    case True
    obtain ch pi2 where g: "pipe_get pi = (ch, pi2)" by (cases "pipe_get pi")
    obtain r' pi3 out' where c: "piperead_copy wr n (i + 1) pi2 = (r', pi3, out')"
      by (cases "piperead_copy wr n (i + 1) pi2")
    have res: "r = r'" "pi1 = pi3" "out = ch # out'"
      using "1.prems"(3) True g c by (subst (asm) piperead_copy.simps; simp)+
    have q: "pipe_ok pi2" "pipe_bytes pi = ch # pipe_bytes pi2" "pi_readopen pi2 = pi_readopen pi" "pi_writeopen pi2 = pi_writeopen pi"
      using pipe_queue.get_inv [of pi] pipe_queue.get_abs [of pi] pipe_get_open [of pi] True "1.prems"(1) g by simp_all
    have "pipe_ok pi3 \<and> pi_readopen pi3 = pi_readopen pi2 \<and> pi_writeopen pi3 = pi_writeopen pi2
      \<and> pipe_bytes pi2 = out' @ pipe_bytes pi3 \<and> (i + 1 \<le> n \<longrightarrow> i + 1 + int (length out') \<le> n)
      \<and> (let j = i + 1 + int (length out') in
         if j < n \<and> pipe_bytes pi3 \<noteq> [] then \<not> wr j \<and> r' = (if j = 0 then - 1 else j) else r' = j)"
      using "1.IH" [of "(ch, pi2)" ch pi2] True g c q(1) "1.prems"(2) by simp
    with q True show ?thesis unfolding res by (auto simp: Let_def algebra_simps)
  qed
qed

declare pipewrite.simps [simp del] piperead_copy.simps [simp del]

section \<open>Readers and writers together\<close>

text \<open>Any interleaving of segments of any number of readers and writers and of closes, with all bytes
  stored and all bytes delivered so far.\<close>

inductive pipe_reachable :: "pipe \<Rightarrow> u8 list \<Rightarrow> u8 list \<Rightarrow> bool" where
  alloc: "length page = PIPESIZE \<Longrightarrow> pipe_reachable (pipeinit page) [] []"
| wr: "pipe_reachable pi stored delivered \<Longrightarrow> pipewrite killed rd n i pi = (s, pi1, st, wk) \<Longrightarrow>
    pipe_reachable pi1 (stored @ st) delivered"
| rd: "pipe_reachable pi stored delivered \<Longrightarrow> piperead killed wr n pi = (s, pi1, out, wk) \<Longrightarrow>
    pipe_reachable pi1 stored (delivered @ out)"
| cl: "pipe_reachable pi stored delivered \<Longrightarrow> pipeclose pi writable = (pi1, ch, freed) \<Longrightarrow>
    pipe_reachable pi1 stored delivered"

lemma pipeinit_ok: "length page = PIPESIZE \<Longrightarrow> pipe_ok (pipeinit page) \<and> pipe_bytes (pipeinit page) = []"
  by (simp add: pipeinit_def pipe_ok_def pipe_bytes_def)

lemma pipe_reachable_inv:
  "pipe_reachable pi stored delivered \<Longrightarrow> pipe_ok pi \<and> stored = delivered @ pipe_bytes pi"
proof (induction rule: pipe_reachable.induct)
  case (alloc page)
  then show ?case by (simp add: pipeinit_ok)
next
  case (wr pi stored delivered killed rdf n i s pi1 st wk)
  then show ?case using pipewrite_seg [of pi killed rdf n i] by (simp add: write_seg_ok_def Let_def)
next
  case (rd pi stored delivered killed wrf n s pi1 out wk)
  show ?case
  proof (cases "pipe_empty pi \<and> pi_writeopen pi")
    case True
    with rd show ?thesis by (auto simp: piperead_def split: if_splits)
  next
    case False
    then obtain r where "piperead_copy wrf n 0 pi = (r, pi1, out)"
      using rd.hyps by (auto simp: piperead_def split: prod.splits)
    with piperead_copy_seg [of pi 0 wrf n r pi1 out] rd.IH show ?thesis by simp
  qed
next
  case (cl pi stored delivered writable pi1 ch freed)
  then show ?case by (auto simp: pipeclose_def pipe_ok_def pipe_bytes_def split: if_splits)
qed

section \<open>Properties\<close>

text \<open>C20. A pipe is a bounded first-in first-out channel: under every interleaving of reads, writes and
  closes, and across wrap-around of its 32-bit counters, the bytes stored so far are the bytes
  delivered so far followed by the bytes still in the buffer, and these never exceed 512.\<close>

theorem pipe_fifo_stream:
  assumes "pipe_reachable pi stored delivered"
  shows "stored = delivered @ pipe_bytes pi \<and> length (pipe_bytes pi) \<le> PIPESIZE"
  using pipe_reachable_inv [OF assms] pipe_queue.bound by blast

text \<open>A small pipe for the examples, filled through the queue operations.\<close>

definition demo_pipe :: "u8 list \<Rightarrow> pipe" where
  "demo_pipe xs = puts pipe_put xs (pipeinit (replicate PIPESIZE 0))"

lemma demo_pipe_ok: "length xs \<le> PIPESIZE \<Longrightarrow> pipe_ok (demo_pipe xs) \<and> pipe_bytes (demo_pipe xs) = xs"
  using pipe_queue.puts_abs [of "pipeinit (replicate PIPESIZE 0)" xs] pipeinit_ok [of "replicate PIPESIZE 0"]
  by (simp add: demo_pipe_def)

lemma puts_snoc: "puts put (xs @ [x]) s = put x (puts put xs s)"
  by (induction xs arbitrary: s) auto

lemma demo_pipe_put: "pipe_put x (demo_pipe xs) = demo_pipe (xs @ [x])"
  by (simp add: demo_pipe_def puts_snoc)

lemma demo_pipe_open [simp]: "pi_readopen (demo_pipe xs)" "pi_writeopen (demo_pipe xs)"
proof -
  have "pi_readopen (puts pipe_put xs p) = pi_readopen p \<and> pi_writeopen (puts pipe_put xs p) = pi_writeopen p" for p
    by (induction xs arbitrary: p) auto
  then show "pi_readopen (demo_pipe xs)" "pi_writeopen (demo_pipe xs)" by (simp_all add: demo_pipe_def pipeinit_def)
qed

lemma demo_pipe_room: "length xs < PIPESIZE \<Longrightarrow> \<not> pipe_full (demo_pipe xs)"
  using demo_pipe_ok [of xs] pipe_queue.full_iff [of "demo_pipe xs"] by auto

lemma demo_pipewrite_step:
  "i < n \<Longrightarrow> length xs < PIPESIZE \<Longrightarrow> \<not> killed i \<Longrightarrow> rd i = Some ch \<Longrightarrow>
   pipewrite killed rd n i (demo_pipe xs)
   = (case pipewrite killed rd n (i + 1) (demo_pipe (xs @ [ch])) of (s, pi1, st, wk) \<Rightarrow> (s, pi1, ch # st, wk))"
  by (subst pipewrite.simps) (simp add: demo_pipe_room demo_pipe_put Let_def)

lemma pipewrite_done: "n \<le> i \<Longrightarrow> pipewrite killed rd n i pi = (Returned i, pi, [], [NRead])"
  by (subst pipewrite.simps) simp

theorem pipe_fifo_stream_witness:
  "\<exists>pi. pipe_bytes pi = [2] \<and> pipe_reachable pi [1, 2] [1]"
proof -
  let ?rd = "\<lambda>i. if i = 0 then Some 1 else Some 2"
  have r0: "pipe_reachable (demo_pipe []) [] []" unfolding demo_pipe_def by (simp add: pipe_reachable.alloc)
  have "pipewrite (\<lambda>_. False) ?rd 2 0 (demo_pipe []) = (Returned 2, demo_pipe [1, 2], [1, 2], [NRead])"
    by (simp add: demo_pipewrite_step pipewrite_done PIPESIZE_def)
  from pipe_reachable.wr [OF r0 this] have r1: "pipe_reachable (demo_pipe [1, 2]) [1, 2] []" by simp
  obtain s pi1 out wk where rd: "piperead False (\<lambda>_. True) 1 (demo_pipe [1, 2]) = (s, pi1, out, wk)"
    by (cases "piperead False (\<lambda>_. True) 1 (demo_pipe [1, 2])")
  have ok: "pipe_ok (demo_pipe [1, 2])" "pipe_bytes (demo_pipe [1, 2]) = [1, 2]"
    using demo_pipe_ok [of "[1, 2]"] by (simp_all add: PIPESIZE_def)
  then have "\<not> pipe_empty (demo_pipe [1, 2])" by (simp add: pipe_queue.empty_iff)
  with rd obtain r where c: "piperead_copy (\<lambda>_. True) 1 0 (demo_pipe [1, 2]) = (r, pi1, out)"
    by (auto simp: piperead_def split: prod.splits)
  from piperead_copy_seg [OF ok(1) _ c] ok(2) have "out @ pipe_bytes pi1 = [1, 2]" "length out \<le> 1" "out \<noteq> []"
    by (auto simp: Let_def split: if_splits)
  then have "out = [1]" by (cases out) auto
  with pipe_reachable.rd [OF r1 rd] have r2: "pipe_reachable pi1 [1, 2] [1]" by simp
  from pipe_fifo_stream [OF r2] r2 show ?thesis by auto
qed

text \<open>A segment of \<open>pipewrite\<close> stores a prefix of the bytes still to be written, in order; it sleeps only
  on a full pipe and after waking the readers, and returns either all of \<open>n\<close>, the count before the
  first faulting address (-1 if none), or -1 because the read end is closed or the caller was killed.\<close>

theorem pipewrite_segment:
  assumes "pipe_ok pi" and "i \<le> n" and "pipewrite killed rd n i pi = (s, pi1, st, wk)"
  defines "j \<equiv> i + int (length st)"
  shows "pipe_ok pi1 \<and> pipe_bytes pi1 = pipe_bytes pi @ st \<and> map Some st = map rd [i..j - 1]
    \<and> (case s of
         Asleep ch m \<Rightarrow> ch = NWrite \<and> m = j \<and> j < n \<and> length (pipe_bytes pi1) = PIPESIZE \<and> wk = [NRead]
       | Returned r \<Rightarrow>
           (if j < n \<and> (\<not> pi_readopen pi \<or> killed j) then r = - 1
            else if j < n then rd j = None \<and> r = (if j = 0 then - 1 else j) \<and> wk = [NRead]
            else r = n \<and> wk = [NRead]))"
  using pipewrite_seg [OF assms(1), of killed rd n i] assms(2,3) pipe_queue.full_iff [of pi1]
  by (auto simp: write_seg_ok_def Let_def j_def split: seg.splits if_splits)

theorem pipewrite_segment_witness:
  "pipewrite (\<lambda>_. False) (\<lambda>i. if i = 2 then None else Some 7) 9 0 (demo_pipe [])
     = (Returned 2, demo_pipe [7, 7], [7, 7], [NRead])
   \<and> pipe_bytes (demo_pipe [7, 7]) = pipe_bytes (demo_pipe []) @ [7, 7]"
proof -
  let ?rd = "\<lambda>i :: int. if i = 2 then None else Some (7 :: u8)"
  have room: "\<not> pipe_full (demo_pipe [7, 7])" by (rule demo_pipe_room) (simp add: PIPESIZE_def)
  have "pipewrite (\<lambda>_. False) ?rd 9 2 (demo_pipe [7, 7]) = (Returned 2, demo_pipe [7, 7], [], [NRead])"
    by (subst pipewrite.simps) (simp add: room)
  then have r: "pipewrite (\<lambda>_. False) ?rd 9 0 (demo_pipe []) = (Returned 2, demo_pipe [7, 7], [7, 7], [NRead])"
    by (simp add: demo_pipewrite_step PIPESIZE_def)
  have "pipe_ok (demo_pipe [])" using demo_pipe_ok [of "[]"] by simp
  from pipewrite_segment [OF this _ r] r show ?thesis by simp
qed

text \<open>A reader of an open pipe sleeps only while the pipe is empty and a writer is left; otherwise, with
  writable user memory, it takes the first \<open>min n\<close> bytes of the pipe in order, wakes the writers and
  returns their number, which is 0 exactly at end of file or for \<open>n = 0\<close>.\<close>

theorem piperead_takes_prefix:
  assumes "pipe_ok pi" and "0 \<le> n"
  shows "piperead killed (\<lambda>_. True) n pi =
    (if pipe_bytes pi = [] \<and> pi_writeopen pi then (if killed then Returned (- 1) else Asleep NRead 0, pi, [], [])
     else (Returned (min n (int (length (pipe_bytes pi)))), fst (snd (piperead killed (\<lambda>_. True) n pi)),
           take (nat n) (pipe_bytes pi), [NWrite]))
    \<and> pipe_bytes (fst (snd (piperead killed (\<lambda>_. True) n pi))) =
       (if pipe_bytes pi = [] \<and> pi_writeopen pi then pipe_bytes pi else drop (nat n) (pipe_bytes pi))"
proof -
  obtain r pi1 out where c: "piperead_copy (\<lambda>_. True) n 0 pi = (r, pi1, out)"
    by (cases "piperead_copy (\<lambda>_. True) n 0 pi")
  from piperead_copy_seg [OF assms(1) _ c] assms(2)
  have q: "pipe_bytes pi = out @ pipe_bytes pi1" "int (length out) \<le> n" "r = int (length out)"
    "int (length out) < n \<Longrightarrow> pipe_bytes pi1 = []" by (auto simp: Let_def split: if_splits)
  have "out = take (nat n) (pipe_bytes pi) \<and> pipe_bytes pi1 = drop (nat n) (pipe_bytes pi) \<and> r = min n (int (length (pipe_bytes pi)))"
  proof (cases "int (length out) < n")
    case True
    with q show ?thesis by simp
  next
    case False
    with q(2) have "nat n = length out" "n = int (length out)" by simp_all
    with q show ?thesis by simp
  qed
  then show ?thesis using c pipe_queue.empty_iff [OF assms(1)] by (auto simp: piperead_def)
qed

theorem piperead_takes_prefix_witness:
  "pipe_bytes (fst (snd (piperead False (\<lambda>_. True) 1 (demo_pipe [7, 8])))) = [8]"
proof -
  have "pipe_ok (demo_pipe [7, 8])" "pipe_bytes (demo_pipe [7, 8]) = [7, 8]"
    using demo_pipe_ok [of "[7, 8]"] by (simp_all add: PIPESIZE_def)
  with piperead_takes_prefix [of "demo_pipe [7, 8]" 1 False] show ?thesis by simp
qed

lemma pipewrite_stopped:
  assumes "pipe_ok pi" "pi_readopen pi" "i \<le> j" "j < n" "killed j" "\<forall>k. i \<le> k \<longrightarrow> k < j \<longrightarrow> \<not> killed k \<and> rd k = Some (f k)"
    and "int (length (pipe_bytes pi)) + (j - i) \<le> int PIPESIZE"
  shows "\<exists>pi1. pipewrite killed rd n i pi = (Returned (- 1), pi1, map f [i..j - 1], []) \<and> pipe_bytes pi1 = pipe_bytes pi @ map f [i..j - 1]"
  using assms
proof (induction "nat (j - i)" arbitrary: i pi)
  case 0
  then have "i = j" by simp
  with 0 show ?case by (subst pipewrite.simps) simp
next
  case (Suc m)
  then have ij: "i < j" "i < n" by simp_all
  then have r: "\<not> killed i" "rd i = Some (f i)" using Suc.prems(6) by auto
  have room: "\<not> pipe_full pi" using pipe_queue.full_iff [OF Suc.prems(1)] Suc.prems(7) ij by simp
  note put = pipe_queue.put_inv [OF Suc.prems(1) room, of "f i"] pipe_queue.put_abs [OF Suc.prems(1) room, of "f i"]
  have m: "m = nat (j - (i + 1))" using Suc.hyps(2) by linarith
  obtain pi1 where "pipewrite killed rd n (i + 1) (pipe_put (f i) pi) = (Returned (- 1), pi1, map f [i + 1..j - 1], [])"
    "pipe_bytes pi1 = (pipe_bytes pi @ [f i]) @ map f [i + 1..j - 1]"
    using Suc.hyps(1) [OF m, of "pipe_put (f i) pi"] Suc.prems put ij by auto
  then show ?case using ij r room Suc.prems(2) by (subst pipewrite.simps) (simp add: upto_Cons)
qed

text \<open>C40. A writer that finds itself killed returns -1 without waking the readers. In any segment of \<open>pipewrite\<close> on any pipe, if the rounds
  before the one that sees the kill each store a byte and the pipe does not fill up before, all these bytes are in the pipe, the result is -1
  and this segment wakes nobody; so a reader that went to sleep because it found the pipe empty sleeps on although there are bytes to read.\<close>

theorem pipewrite_killed_wakes_nobody:
  assumes "pipe_ok pi" "pi_readopen pi" "i \<le> j" "j < n" "killed j" "\<forall>k. i \<le> k \<longrightarrow> k < j \<longrightarrow> \<not> killed k \<and> rd k = Some (f k)"
    and "int (length (pipe_bytes pi)) + (j - i) \<le> int PIPESIZE"
  shows "\<exists>pi1. pipewrite killed rd n i pi = (Returned (- 1), pi1, map f [i..j - 1], [])
    \<and> pipe_bytes pi1 = pipe_bytes pi @ map f [i..j - 1]
    \<and> (pipe_bytes pi = [] \<longrightarrow> pi_writeopen pi \<longrightarrow> piperead False wr m pi = (Asleep NRead 0, pi, [], []))"
proof -
  have "piperead False wr m pi = (Asleep NRead 0, pi, [], [])" if "pipe_bytes pi = []" "pi_writeopen pi"
    using that pipe_queue.empty_iff [OF assms(1)] by (simp add: piperead_def)
  with pipewrite_stopped [OF assms] show ?thesis by blast
qed

theorem pipewrite_killed_wakes_nobody_witness:
  "\<exists>pi1. pipewrite (\<lambda>i. i = 2) (\<lambda>i. Some (of_int (65 + i))) 5 0 (demo_pipe []) = (Returned (- 1), pi1, [65, 66], []) \<and> pipe_bytes pi1 = [65, 66]
    \<and> piperead False (\<lambda>_. True) 1 (demo_pipe []) = (Asleep NRead 0, demo_pipe [], [], [])"
proof -
  have d: "pipe_ok (demo_pipe [])" "pipe_bytes (demo_pipe []) = []" using demo_pipe_ok [of "[]"] by simp_all
  have "[0..2 - 1] = [0, 1 :: int]" by (simp add: upto.simps)
  then show ?thesis
    using pipewrite_killed_wakes_nobody [OF d(1), where i = 0 and j = 2 and n = 5 and killed = "\<lambda>i. i = 2" and rd = "\<lambda>i. Some (of_int (65 + i))"
        and f = "\<lambda>i. of_int (65 + i)" and wr = "\<lambda>_. True" and m = 1] d(2)
    by (auto simp: PIPESIZE_def)
qed

end
