(* ===== verification/File.thy ===== *)
theory File
  imports FsInv UserMem Pipe
begin

text \<open>
  Open files, \<open>xv6/kernel/file.c\<close> with \<open>pipealloc\<close> of \<open>pipe.c\<close>: the table of open files with its reference
  counts, and reading and writing through it between the file system and the memory of the
  calling process. A pipe lives in a page of the allocator; its contents are kept apart from the
  words of physical memory, under the address of the page.
\<close>

section \<open>State\<close>

datatype ftype = FD_NONE | FD_PIPE | FD_INODE | FD_DEVICE

record file_t =
  f_type :: ftype
  f_ref :: int
  f_readable :: bool
  f_writable :: bool
  f_pipe :: u64
  f_ip :: nat
  f_off :: u32
  f_major :: u16

record kstate =
  ks_file :: "file_t list"
  ks_fs :: fs
  ks_mem :: kmem
  ks_pipe :: "u64 \<Rightarrow> pipe"

abbreviation fil :: "kstate \<Rightarrow> nat \<Rightarrow> file_t" where "fil s f \<equiv> ks_file s ! f"

definition upd_file :: "nat \<Rightarrow> (file_t \<Rightarrow> file_t) \<Rightarrow> kstate \<Rightarrow> kstate" where
  "upd_file f g s = s\<lparr>ks_file := (ks_file s)[f := g (fil s f)]\<rparr>"

text \<open>What the calls need to know of the calling process.\<close>

record caller =
  c_pid :: int
  c_pagetable :: u64
  c_sz :: u64

definition CONSOLE :: nat where "CONSOLE = 1"

text \<open>The entries of \<open>devsw\<close> that have functions, as \<open>consoleinit\<close> sets them.\<close>

definition devsw :: "nat \<Rightarrow> bool" where
  "devsw m \<longleftrightarrow> m = CONSOLE"

text \<open>
  \<open>fileread\<close> and \<open>filewrite\<close> return a value, or end in a call of a pipe or device function whose result
  they return; those functions are modelled in \<open>Pipe\<close> and \<open>Console\<close>.
\<close>

datatype action = Return int | Call_piperead u64 u64 int | Call_pipewrite u64 u64 int
  | Call_devread nat u64 int | Call_devwrite nat u64 int

text \<open>The copies between a block and user memory at \<open>addr\<close>, as \<open>readi\<close> and \<open>writei\<close> call them.\<close>

definition ucopyout :: "caller \<Rightarrow> u64 \<Rightarrow> kmem copy_out" where
  "ucopyout p addr off bs k = copyout (c_pagetable p) (c_sz p) (addr + of_nat off) bs k"

definition ucopyin :: "caller \<Rightarrow> u64 \<Rightarrow> kmem copy_in" where
  "ucopyin p addr off n k = copyin (c_pagetable p) (c_sz p) (addr + of_nat off) n k"

section \<open>Operations\<close>

text \<open>
  A transaction at this level: no other operation is in progress, so the log is empty when \<open>begin_op\<close>
  returns and again when \<open>end_op\<close> has committed.
\<close>

definition tx :: "fs \<Rightarrow> fs" where
  "tx s = s\<lparr>fs_logged := []\<rparr>"

definition filealloc :: "kstate \<Rightarrow> nat option \<times> kstate" where
  "filealloc s =
     (case find (\<lambda>f. f_ref (fil s f) = 0) [0..<NFILE] of
        Some f \<Rightarrow> (Some f, upd_file f (\<lambda>x. x\<lparr>f_ref := 1\<rparr>) s)
      | None \<Rightarrow> (None, s))"

definition filedup :: "nat \<Rightarrow> kstate \<Rightarrow> kstate res" where
  "filedup f s =
     (if f_ref (fil s f) < 1 then Panic ''filedup''
      else Ok (upd_file f (\<lambda>x. x\<lparr>f_ref := f_ref x + 1\<rparr>) s))"

text \<open>The call of \<open>pipeclose\<close> on the pipe at address \<open>pi\<close>; nobody else is running, so the wakeup has no effect here.\<close>

definition close_pipe :: "u64 \<Rightarrow> bool \<Rightarrow> kstate \<Rightarrow> kstate res" where
  "close_pipe pi w s =
     (let (p1, _, free) = pipeclose (ks_pipe s pi) w;
          s1 = s\<lparr>ks_pipe := (ks_pipe s)(pi := p1)\<rparr>
      in if free then bind_res (kfree pi (ks_mem s1)) (\<lambda>k. Ok (s1\<lparr>ks_mem := k\<rparr>)) else Ok s1)"

definition fileclose :: "int \<Rightarrow> nat \<Rightarrow> kstate \<Rightarrow> kstate res" where
  "fileclose pid f s =
     (if f_ref (fil s f) < 1 then Panic ''fileclose''
      else if f_ref (fil s f) - 1 > 0 then Ok (upd_file f (\<lambda>x. x\<lparr>f_ref := f_ref x - 1\<rparr>) s)
      else
        (let ff = fil s f;
             s1 = upd_file f (\<lambda>x. x\<lparr>f_ref := 0, f_type := FD_NONE\<rparr>) s
         in if f_type ff = FD_PIPE then close_pipe (f_pipe ff) (f_writable ff) s1
            else if f_type ff = FD_INODE \<or> f_type ff = FD_DEVICE
              then bind_res (iput pid (f_ip ff) (tx (ks_fs s1))) (\<lambda>fs. Ok (s1\<lparr>ks_fs := tx fs\<rparr>))
            else Ok s1))"

text \<open>
  The bytes of a \<open>struct stat\<close>. The four bytes of padding before \<open>size\<close> are not written by \<open>stati\<close>; they are
  whatever the kernel stack holds.
\<close>

definition le64 :: "u64 \<Rightarrow> u8 list" where
  "le64 w = le32 (ucast w) @ le32 (ucast (drop_bit 32 w))"

definition stat_bytes :: "u8 list \<Rightarrow> stat \<Rightarrow> u8 list" where
  "stat_bytes pad st = le32 (st_dev st) @ le32 (st_ino st) @ le16 (st_type st) @ le16 (st_nlink st) @ pad @ le64 (st_size st)"

definition filestat :: "u8 list \<Rightarrow> caller \<Rightarrow> nat \<Rightarrow> u64 \<Rightarrow> kstate \<Rightarrow> (int \<times> kstate) res" where
  "filestat pad p f addr s =
     (let ff = fil s f in
      if f_type ff = FD_INODE \<or> f_type ff = FD_DEVICE then
        bind_res (ilock (c_pid p) (f_ip ff) (ks_fs s)) (\<lambda>fs1.
          (let st = stati (f_ip ff) fs1 in
           bind_res (iunlock (c_pid p) (f_ip ff) fs1) (\<lambda>fs2.
           bind_res (copyout (c_pagetable p) (c_sz p) addr (stat_bytes pad st) (ks_mem s)) (\<lambda>(r, k).
             Ok (if r < 0 then - 1 else 0, s\<lparr>ks_fs := fs2, ks_mem := k\<rparr>)))))
      else Ok (- 1, s))"

definition fileread :: "caller \<Rightarrow> nat \<Rightarrow> u64 \<Rightarrow> int \<Rightarrow> kstate \<Rightarrow> (action \<times> kstate) res" where
  "fileread p f addr n s =
     (let ff = fil s f in
      if \<not> f_readable ff \<or> n < 0 then Ok (Return (- 1), s)
      else
        (case f_type ff of
           FD_PIPE \<Rightarrow> Ok (Call_piperead (f_pipe ff) addr n, s)
         | FD_DEVICE \<Rightarrow>
             (let m = sint (f_major ff) in
              if m < 0 \<or> m \<ge> int NDEV \<or> \<not> devsw (nat m) then Ok (Return (- 1), s)
              else Ok (Call_devread (nat m) addr n, s))
         | FD_INODE \<Rightarrow>
             bind_res (ilock (c_pid p) (f_ip ff) (ks_fs s)) (\<lambda>fs1.
             bind_res (readi (ucopyout p addr) (f_ip ff) (f_off ff) (of_int n) fs1 (ks_mem s)) (\<lambda>(r, fs2, k).
             bind_res (iunlock (c_pid p) (f_ip ff) fs2) (\<lambda>fs3.
               Ok (Return r, upd_file f (\<lambda>x. if r > 0 then x\<lparr>f_off := f_off x + of_int r\<rparr> else x) (s\<lparr>ks_fs := fs3, ks_mem := k\<rparr>)))))
         | FD_NONE \<Rightarrow> Panic ''fileread''))"

definition write_max :: int where
  "write_max = int (((MAXOPBLOCKS - 1 - 1 - 2) div 2) * BSIZE)"

text \<open>One transaction of \<open>filewrite\<close>, between its \<open>begin_op\<close> and its \<open>end_op\<close>.\<close>

definition write_some :: "caller \<Rightarrow> nat \<Rightarrow> u64 \<Rightarrow> int \<Rightarrow> kstate \<Rightarrow> (int \<times> kstate) res" where
  "write_some p f addr n1 s =
     (let ff = fil s f in
      bind_res (ilock (c_pid p) (f_ip ff) (ks_fs s)) (\<lambda>fs1.
      bind_res (writei (ucopyin p addr) (f_ip ff) (f_off ff) (of_int n1) fs1 (ks_mem s)) (\<lambda>(r, fs2, k).
      bind_res (iunlock (c_pid p) (f_ip ff) fs2) (\<lambda>fs3.
        Ok (r, upd_file f (\<lambda>x. if r > 0 then x\<lparr>f_off := f_off x + of_int r\<rparr> else x) (s\<lparr>ks_fs := fs3, ks_mem := k\<rparr>))))))"

definition tx_state :: "kstate \<Rightarrow> kstate" where
  "tx_state s = s\<lparr>ks_fs := tx (ks_fs s)\<rparr>"

function filewrite_loop :: "caller \<Rightarrow> nat \<Rightarrow> u64 \<Rightarrow> int \<Rightarrow> int \<Rightarrow> kstate \<Rightarrow> (int \<times> kstate) res" where
  "filewrite_loop p f addr n i s =
     (if i < n then
        (let n1 = (if n - i > write_max then write_max else n - i) in
         bind_res (write_some p f (addr + of_int i) n1 (tx_state s)) (\<lambda>(r, s1).
           if r \<noteq> n1 then Ok (i, tx_state s1) else filewrite_loop p f addr n (i + r) (tx_state s1)))
      else Ok (i, s))"
  by pat_completeness auto
termination
  by (relation "measure (\<lambda>(p, f, addr, n, i, s). nat (n - i))") (auto simp: write_max_def MAXOPBLOCKS_def BSIZE_def split: if_splits)

definition filewrite :: "caller \<Rightarrow> nat \<Rightarrow> u64 \<Rightarrow> int \<Rightarrow> kstate \<Rightarrow> (action \<times> kstate) res" where
  "filewrite p f addr n s =
     (let ff = fil s f in
      if \<not> f_writable ff \<or> n < 0 then Ok (Return (- 1), s)
      else
        (case f_type ff of
           FD_PIPE \<Rightarrow> Ok (Call_pipewrite (f_pipe ff) addr n, s)
         | FD_DEVICE \<Rightarrow>
             (let m = sint (f_major ff) in
              if m < 0 \<or> m \<ge> int NDEV \<or> \<not> devsw (nat m) then Ok (Return (- 1), s)
              else Ok (Call_devwrite (nat m) addr n, s))
         | FD_INODE \<Rightarrow>
             bind_res (filewrite_loop p f addr n 0 s) (\<lambda>(i, s1). Ok (Return (if i = n then n else - 1), s1))
         | FD_NONE \<Rightarrow> Panic ''filewrite''))"

text \<open>
  \<open>pipealloc\<close> returns the two table entries, or \<open>None\<close>. The page comes from \<open>kalloc\<close>, which has filled it
  with the byte 5.
\<close>

definition pipealloc :: "int \<Rightarrow> kstate \<Rightarrow> ((nat \<times> nat) option \<times> kstate) res" where
  "pipealloc pid s =
     (case filealloc s of
        (None, s1) \<Rightarrow> Ok (None, s1)
      | (Some f0, s1) \<Rightarrow>
          (case filealloc s1 of
             (None, s2) \<Rightarrow> bind_res (fileclose pid f0 s2) (\<lambda>s3. Ok (None, s3))
           | (Some f1, s2) \<Rightarrow>
               (let (pi, k) = kalloc (ks_mem s2); s3 = s2\<lparr>ks_mem := k\<rparr> in
                if pi = 0 then
                  bind_res (fileclose pid f0 s3) (\<lambda>s4. bind_res (fileclose pid f1 s4) (\<lambda>s5. Ok (None, s5)))
                else
                  (let s4 = s3\<lparr>ks_pipe := (ks_pipe s3)(pi := pipeinit (replicate PIPESIZE 5))\<rparr>;
                       s5 = upd_file f0 (\<lambda>x. x\<lparr>f_type := FD_PIPE, f_readable := True, f_writable := False, f_pipe := pi\<rparr>) s4;
                       s6 = upd_file f1 (\<lambda>x. x\<lparr>f_type := FD_PIPE, f_readable := False, f_writable := True, f_pipe := pi\<rparr>) s5
                   in Ok (Some (f0, f1), s6)))))"

declare filewrite_loop.simps [simp del]

end
