(* ===== verification/FileInv.thy ===== *)
theory FileInv
  imports File
begin

text \<open>
  Reading and writing open files between the file system and user memory: user memory is a source
  and a sink of the transfers of \<open>FsInv\<close>, a write is a sequence of transactions that fit the log, and what
  one open file writes another reads.
\<close>

section \<open>User memory at the ends of a transfer\<close>

text \<open>The pages \<open>V\<close> of the process are its own and cover the \<open>n\<close> bytes at \<open>addr\<close>.\<close>

definition covers :: "nat set \<Rightarrow> u64 \<Rightarrow> nat \<Rightarrow> bool" where
  "covers V addr n \<longleftrightarrow> unat addr + n \<le> 2 ^ 38 \<and> (\<forall>A. unat addr \<le> A \<and> A < unat addr + n \<longrightarrow> A div 4096 \<in> V)"

definition space_ok :: "caller \<Rightarrow> nat set \<Rightarrow> kmem \<Rightarrow> bool" where
  "space_ok p V k \<longleftrightarrow> pt_inv (c_pagetable p) k \<and> owns (c_pagetable p) k V \<and> writable (c_pagetable p) k V"

definition user_bytes :: "caller \<Rightarrow> u64 \<Rightarrow> nat \<Rightarrow> kmem \<Rightarrow> u8 list" where
  "user_bytes p addr n k = map (ubyte (c_pagetable p) k) [unat addr..<unat addr + n]"

lemma length_user_bytes [simp]: "length (user_bytes p addr n k) = n"
  by (simp add: user_bytes_def)

lemma space_okD: "space_ok p V k \<Longrightarrow> pt_inv (c_pagetable p) k \<and> owns (c_pagetable p) k V \<and> writable (c_pagetable p) k V \<and> readable (c_pagetable p) k V"
  by (simp add: space_ok_def writable_readable)

lemma unat_plus: "unat (a :: u64) + n \<le> 2 ^ 38 \<Longrightarrow> unat (a + of_nat n) = unat a + n"
  by (subst unat_add_lem [THEN iffD1]) (simp_all add: unat_of_nat)

lemma ucopyin_ok:
  assumes "space_ok p V k" "covers V addr n" "off + m \<le> n"
  shows "ucopyin p addr off m k = Ok (0, take m (drop off (user_bytes p addr n k)), k)"
proof -
  have a: "unat (addr + of_nat off) = unat addr + off" using assms(2,3) by (intro unat_plus) (simp add: covers_def)
  have "copyin (c_pagetable p) (c_sz p) (addr + of_nat off) m k
      = Ok (0, map (ubyte (c_pagetable p) k) [unat (addr + of_nat off)..<unat (addr + of_nat off) + m], k)"
    using space_okD [OF assms(1)] assms(2,3) unfolding covers_def by (intro copyin_spec) (auto simp: a)
  moreover have "map (ubyte (c_pagetable p) k) [unat addr + off..<unat addr + off + m] = take m (drop off (user_bytes p addr n k))"
    using assms(3) by (intro nth_equalityI) (simp_all add: user_bytes_def add.assoc)
  ultimately show ?thesis by (simp add: ucopyin_def a)
qed

text \<open>The bytes \<open>got\<close> have arrived at \<open>addr\<close>, everything else is as in \<open>k0\<close>.\<close>

definition arrived :: "caller \<Rightarrow> nat set \<Rightarrow> u64 \<Rightarrow> kmem \<Rightarrow> u8 list \<Rightarrow> kmem \<Rightarrow> bool" where
  "arrived p V addr k0 got k \<longleftrightarrow> space_ok p V k \<and> pmap (c_pagetable p) k = pmap (c_pagetable p) k0 \<and> tables (c_pagetable p) k = tables (c_pagetable p) k0
     \<and> free_pages k = free_pages k0 \<and> km_end k = km_end k0
     \<and> (\<forall>A. A div 4096 \<in> V \<longrightarrow> ubyte (c_pagetable p) k A
          = (if unat addr \<le> A \<and> A < unat addr + length got then got ! (A - unat addr) else ubyte (c_pagetable p) k0 A))"

lemma arrived_start: "space_ok p V k \<Longrightarrow> arrived p V addr k [] k"
  by (auto simp: arrived_def)

lemma arrived_bytes:
  assumes "arrived p V addr k0 got k" "covers V addr (length got)"
  shows "user_bytes p addr (length got) k = got"
  using assms by (intro nth_equalityI) (auto simp: arrived_def covers_def user_bytes_def)

lemma ucopyout_ok:
  assumes "arrived p V addr k0 got k" "covers V addr n" "length got + length bs \<le> n"
  shows "\<exists>k'. ucopyout p addr (length got) bs k = Ok (0, k') \<and> arrived p V addr k0 (got @ bs) k'"
proof -
  let ?r = "c_pagetable p" let ?a = "addr + of_nat (length got)"
  have a: "unat ?a = unat addr + length got" using assms(2,3) by (intro unat_plus) (simp add: covers_def)
  have s: "space_ok p V k" using assms(1) by (simp add: arrived_def)
  note d = space_okD [OF s]
  have "\<exists>k'. copyout ?r (c_sz p) ?a bs k = Ok (0, k') \<and> pt_inv ?r k' \<and> pmap ?r k' = pmap ?r k
    \<and> tables ?r k' = tables ?r k \<and> free_pages k' = free_pages k \<and> km_end k' = km_end k
    \<and> (\<forall>A. A div 4096 \<in> V \<longrightarrow> ubyte ?r k' A = (if unat ?a \<le> A \<and> A < unat ?a + length bs then bs ! (A - unat ?a) else ubyte ?r k A))"
    using d assms(2,3) unfolding covers_def by (intro copyout_spec) (auto simp: a)
  then obtain k' where k': "copyout ?r (c_sz p) ?a bs k = Ok (0, k')" "pt_inv ?r k'" "pmap ?r k' = pmap ?r k"
    "tables ?r k' = tables ?r k" "free_pages k' = free_pages k" "km_end k' = km_end k"
    "\<And>A. A div 4096 \<in> V \<Longrightarrow> ubyte ?r k' A = (if unat ?a \<le> A \<and> A < unat ?a + length bs then bs ! (A - unat ?a) else ubyte ?r k A)"
    by blast
  have "owns ?r k' V" using d k'(3-6) owns_same by blast
  moreover have "writable ?r k' V" using d k'(3) by (simp add: writable_def)
  moreover have "ubyte ?r k' A = (if unat addr \<le> A \<and> A < unat addr + length (got @ bs) then (got @ bs) ! (A - unat addr) else ubyte ?r k0 A)"
    if "A div 4096 \<in> V" for A
    using k'(7) [OF that] assms(1) that by (auto simp: a arrived_def nth_append)
  ultimately show ?thesis using k' assms(1) by (intro exI [of _ k']) (simp add: ucopyout_def arrived_def space_ok_def)
qed

interpretation usource: source "ucopyin p addr" "\<lambda>k. k = k0 \<and> space_ok p V k \<and> covers V addr n" "user_bytes p addr n k0" for p addr k0 V n
  by unfold_locales (auto intro: ucopyin_ok)

interpretation usink: sink "ucopyout p addr" "\<lambda>got k. arrived p V addr k0 got k \<and> covers V addr n" n for p V addr k0 n
proof unfold_locales
  fix got bs :: "u8 list" and k assume "arrived p V addr k0 got k \<and> covers V addr n" "length got + length bs \<le> n"
  then show "\<exists>k'. ucopyout p addr (length got) bs k = Ok (0, k') \<and> arrived p V addr k0 (got @ bs) k' \<and> covers V addr n"
    using ucopyout_ok by blast
qed


section \<open>Locking an inode\<close>

text \<open>An inode that is open, loaded and not locked by anybody.\<close>

definition idle :: "fs \<Rightarrow> nat \<Rightarrow> bool" where
  "idle s i \<longleftrightarrow> i < length (fs_itable s) \<and> 1 \<le> ip_ref (ino s i) \<and> ip_valid (ino s i) \<and> \<not> sl_locked (ip_lock (ino s i))"

abbreviation set_lock :: "sleeplock \<Rightarrow> nat \<Rightarrow> fs \<Rightarrow> fs" where
  "set_lock lk i \<equiv> upd_ino i (\<lambda>ip. ip\<lparr>ip_lock := lk\<rparr>)"

lemma set_lock_same:
  assumes "i < length (fs_itable s)"
  shows "fblock (set_lock lk i s) j = fblock s j" "content (set_lock lk i s) j = content s j" "fsize (set_lock lk i s) j = fsize s j"
    "file_ok (set_lock lk i s) j = file_ok s j" "own (set_lock lk i s) j = own s j" "slot (set_lock lk i s) j = slot s j"
proof -
  let ?s = "set_lock lk i s"
  have e: "fs_blk ?s = fs_blk s" "fs_sb ?s = fs_sb s" "length (fs_itable ?s) = length (fs_itable s)" by (simp_all add: upd_ino_def)
  have a: "ip_addrs (ino ?s j) = ip_addrs (ino s j)" "ip_size (ino ?s j) = ip_size (ino s j)" "ip_inum (ino ?s j) = ip_inum (ino s j)"
    using assms by (cases "i = j"; simp add: upd_ino_def)+
  show fb: "fblock ?s j = fblock s j" by (simp add: fblock_def fun_eq_iff e a)
  show "content ?s j = content s j" by (simp add: content_def fun_eq_iff fb e Let_def)
  show "fsize ?s j = fsize s j" by (simp add: a)
  show sl: "slot ?s j = slot s j" by (simp add: slot_def fun_eq_iff fb a)
  then show ow: "own ?s j = own s j" by (simp add: own_def)
  have u: "used ?s = used s" "map_ok ?s = map_ok s" using used_cong map_ok_cong e(1,2) by (blast, metis)
  show "file_ok ?s j = file_ok s j" by (simp add: file_ok_def ino_ok_def u ow sl fb e a)
qed

lemma ilock_idle:
  assumes "idle s i"
  shows "ilock pid i s = Ok (set_lock \<lparr>sl_locked = True, sl_pid = pid\<rparr> i s)"
  using assms by (cases "ip_lock (ino s i)") (simp add: idle_def ilock_def acquiresleep_def upd_ino_def Let_def)

lemma iunlock_locked:
  assumes "ip_lock (ino s i) = \<lparr>sl_locked = True, sl_pid = pid\<rparr>" "1 \<le> ip_ref (ino s i)" "ip_valid (ino s i)" "i < length (fs_itable s)"
  shows "iunlock pid i s = Ok (set_lock initsleeplock i s)" "idle (set_lock initsleeplock i s) i"
  using assms by (simp_all add: iunlock_def holdingsleep_def releasesleep_def upd_ino_def idle_def initsleeplock_def)

text \<open>The inode keeps its lock, its reference count and its validity when its contents change.\<close>

lemma keeps_ino:
  assumes "keeps i s s'"
  shows "ip_lock (ino s' i) = ip_lock (ino s i)" "ip_ref (ino s' i) = ip_ref (ino s i)" "ip_valid (ino s' i) = ip_valid (ino s i)"
    "length (fs_itable s') = length (fs_itable s)" "ip_inum (ino s' i) = ip_inum (ino s i)"
  using assms unfolding keeps_def by auto


section \<open>One transaction of a write\<close>

text \<open>An open file of type \<open>FD_INODE\<close> on a well-formed, idle inode, with its offset inside the file.\<close>

definition open_ok :: "kstate \<Rightarrow> nat \<Rightarrow> bool" where
  "open_ok s f \<longleftrightarrow> f < length (ks_file s) \<and> f_type (fil s f) = FD_INODE \<and> file_ok (ks_fs s) (f_ip (fil s f)) \<and> idle (ks_fs s) (f_ip (fil s f))
     \<and> unat (f_off (fil s f)) \<le> fsize (ks_fs s) (f_ip (fil s f))"

abbreviation off_of :: "kstate \<Rightarrow> nat \<Rightarrow> nat" where "off_of s f \<equiv> unat (f_off (fil s f))"

text \<open>
  What writing \<open>t\<close> bytes of \<open>data\<close> through the open file \<open>f\<close> does: the bytes are in the file at the old offset,
  the offset has moved, and neither user memory nor another open file has changed.
\<close>

definition fwrote :: "nat \<Rightarrow> u8 list \<Rightarrow> nat \<Rightarrow> kstate \<Rightarrow> kstate \<Rightarrow> bool" where
  "fwrote f data t s s' \<longleftrightarrow> (let i = f_ip (fil s f) in
     open_ok s' f \<and> f_ip (fil s' f) = i \<and> off_of s' f = off_of s f + t \<and> ks_mem s' = ks_mem s
     \<and> fsize (ks_fs s') i = max (fsize (ks_fs s) i) (off_of s f + t)
     \<and> (\<forall>p < MAXFILE * BSIZE. content (ks_fs s') i p = (if off_of s f \<le> p \<and> p < off_of s f + t then data ! (p - off_of s f) else content (ks_fs s) i p))
     \<and> fs_sb (ks_fs s') = fs_sb (ks_fs s) \<and> (\<forall>g. g \<noteq> f \<longrightarrow> fil s' g = fil s g) \<and> length (ks_file s') = length (ks_file s))"

lemma write_some_ok:
  assumes "open_ok s f" "space_ok p V (ks_mem s)" "covers V addr n" "0 < n" "off_of s f + n \<le> MAXFILE * BSIZE"
  shows "\<exists>t s'. write_some p f addr (int n) s = Ok (int t, s') \<and> t \<le> n \<and> fwrote f (user_bytes p addr n (ks_mem s)) t s s' \<and> (t < n \<longrightarrow> full (ks_fs s'))
    \<and> set (fs_logged (ks_fs s')) \<subseteq> set (fs_logged (ks_fs s)) \<union> bitmap_area (fs_sb (ks_fs s))
        \<union> {0, slot (ks_fs s') (f_ip (fil s f)) MAXFILE, IBLOCK (unat (ip_inum (ino (ks_fs s) (f_ip (fil s f))))) (fs_sb (ks_fs s))}
        \<union> fblock (ks_fs s') (f_ip (fil s f)) ` {k. off_of s f div BSIZE \<le> k \<and> k * BSIZE < off_of s f + t}"
proof -
  define i where "i = f_ip (fil s f)"
  note o = assms(1) [unfolded open_ok_def, folded i_def]
  let ?lk = "\<lparr>sl_locked = True, sl_pid = c_pid p\<rparr>"
  define s1 where "s1 = set_lock ?lk i (ks_fs s)"
  let ?data = "user_bytes p addr n (ks_mem s)"
  have i: "i < length (fs_itable (ks_fs s))" using o by (simp add: idle_def)
  note same = set_lock_same [OF i, of ?lk, folded s1_def]
  have n: "unat (of_int (int n) :: u32) = length ?data" using assms(5) by (simp add: unat_of_nat32 MAXFILE_bytes)
  have lockd: "ip_lock (ino s1 i) = ?lk" "ip_ref (ino s1 i) = ip_ref (ino (ks_fs s) i)" "ip_valid (ino s1 i) = ip_valid (ino (ks_fs s) i)"
    "ip_inum (ino s1 i) = ip_inum (ino (ks_fs s) i)" "fs_sb s1 = fs_sb (ks_fs s)" "fs_logged s1 = fs_logged (ks_fs s)"
    using i by (simp_all add: s1_def upd_ino_def)
  have "\<exists>t s' mem'. writei (ucopyin p addr) i (f_off (fil s f)) (of_int (int n)) s1 (ks_mem s) = Ok (int t, s', mem') \<and> t \<le> length ?data \<and> file_ok s' i \<and> keeps i s1 s' \<and> (t < length ?data \<longrightarrow> full s')
    \<and> (mem' = ks_mem s \<and> space_ok p V mem' \<and> covers V addr n) \<and> fsize s' i = max (fsize s1 i) (off_of s f + t)
    \<and> (\<forall>p < MAXFILE * BSIZE. content s' i p = (if off_of s f \<le> p \<and> p < off_of s f + t then ?data ! (p - off_of s f) else content s1 i p))
    \<and> set (fs_logged s') \<subseteq> set (fs_logged s1) \<union> bitmap_area (fs_sb s1) \<union> {0, slot s' i MAXFILE, IBLOCK (unat (ip_inum (ino s1 i))) (fs_sb s1)}
        \<union> fblock s' i ` {k. off_of s f div BSIZE \<le> k \<and> k * BSIZE < off_of s f + t}"
    by (rule usource.writei_ok) (use o same assms n in auto)
  then obtain t s2 where w: "writei (ucopyin p addr) i (f_off (fil s f)) (of_int (int n)) s1 (ks_mem s) = Ok (int t, s2, ks_mem s)" "t \<le> n" "file_ok s2 i"
    "keeps i s1 s2" "t < n \<longrightarrow> full s2" "fsize s2 i = max (fsize (ks_fs s) i) (off_of s f + t)"
    "\<forall>p < MAXFILE * BSIZE. content s2 i p = (if off_of s f \<le> p \<and> p < off_of s f + t then ?data ! (p - off_of s f) else content (ks_fs s) i p)"
    "set (fs_logged s2) \<subseteq> set (fs_logged (ks_fs s)) \<union> bitmap_area (fs_sb (ks_fs s)) \<union> {0, slot s2 i MAXFILE, IBLOCK (unat (ip_inum (ino (ks_fs s) i))) (fs_sb (ks_fs s))}
        \<union> fblock s2 i ` {k. off_of s f div BSIZE \<le> k \<and> k * BSIZE < off_of s f + t}"
    unfolding same lockd length_user_bytes by blast
  note k = keeps_ino [OF w(4)]
  have i2: "i < length (fs_itable s2)" using k(4) i by (simp add: s1_def upd_ino_def)
  note un = iunlock_locked [of s2 i "c_pid p"]
  define s3 where "s3 = set_lock initsleeplock i s2"
  have u: "iunlock (c_pid p) i s2 = Ok s3" "idle s3 i" unfolding s3_def using un k lockd o i2 by (simp_all add: idle_def)
  note same3 = set_lock_same [OF i2, of initsleeplock, folded s3_def]
  define s' where "s' = upd_file f (\<lambda>x. if int t > 0 then x\<lparr>f_off := f_off x + of_int (int t)\<rparr> else x) (s\<lparr>ks_fs := s3, ks_mem := ks_mem s\<rparr>)"
  have eq: "write_some p f addr (int n) s = Ok (int t, s')"
    using ilock_idle [of "ks_fs s" i "c_pid p"] o w(1) u(1) by (simp add: write_some_def s'_def i_def [symmetric] s1_def Let_def)
  have off: "off_of s' f = off_of s f + t"
  proof -
    have "f_off (fil s' f) = f_off (fil s f) + of_nat t" using o by (auto simp: s'_def upd_file_def)
    moreover have "unat (f_off (fil s f) + of_nat t) = off_of s f + t"
      using w(2) assms(5) by (subst unat_add32) (simp_all add: unat_of_nat32 MAXFILE_bytes)
    ultimately show ?thesis by simp
  qed
  have ff: "f_ip (fil s' f) = i" "f_type (fil s' f) = FD_INODE" "ks_fs s' = s3" "ks_mem s' = ks_mem s" "\<forall>g. g \<noteq> f \<longrightarrow> fil s' g = fil s g"
    "length (ks_file s') = length (ks_file s)" using o by (auto simp: s'_def upd_file_def i_def)
  have sb: "fs_sb s3 = fs_sb (ks_fs s)" "fs_logged s3 = fs_logged s2" "full s3 = full s2"
    using keepsD(1) [OF w(4)] lockd(5) by (simp_all add: s3_def upd_ino_def full_def used_def)
  have "open_ok s' f" unfolding open_ok_def ff using o u(2) w(3,6) same3 off by simp
  then have "fwrote f ?data t s s'" unfolding fwrote_def Let_def i_def [symmetric] ff sb same3 using w(6,7) off ff(5,6) by simp
  moreover have "set (fs_logged s3) \<subseteq> set (fs_logged (ks_fs s)) \<union> bitmap_area (fs_sb (ks_fs s)) \<union> {0, slot s3 i MAXFILE, IBLOCK (unat (ip_inum (ino (ks_fs s) i))) (fs_sb (ks_fs s))}
        \<union> fblock s3 i ` {k. off_of s f div BSIZE \<le> k \<and> k * BSIZE < off_of s f + t}" unfolding sb same3 by (rule w(8))
  ultimately show ?thesis using eq w(2,5) sb(3) ff(3) by (intro exI [of _ t] exI [of _ s']) (simp add: i_def [symmetric])
qed


section \<open>Whole writes and reads\<close>

text \<open>The list of logged blocks does not matter to the files.\<close>

lemma tx_same [simp]:
  "fs_blk (tx s) = fs_blk s" "fs_sb (tx s) = fs_sb s" "fs_itable (tx s) = fs_itable s" "fs_logged (tx s) = []"
  "fblock (tx s) = fblock s" "content (tx s) = content s" "slot (tx s) = slot s" "own (tx s) = own s" "idle (tx s) = idle s" "full (tx s) = full s" "file_ok (tx s) = file_ok s"
proof -
  show b: "fs_blk (tx s) = fs_blk s" "fs_sb (tx s) = fs_sb s" "fs_itable (tx s) = fs_itable s" "fs_logged (tx s) = []" by (simp_all add: tx_def)
  show f: "fblock (tx s) = fblock s" by (simp add: fblock_def fun_eq_iff b)
  show "content (tx s) = content s" by (simp add: content_def fun_eq_iff f b Let_def)
  show sl: "slot (tx s) = slot s" by (simp add: slot_def fun_eq_iff f b)
  show ow: "own (tx s) = own s" by (simp add: own_def fun_eq_iff sl)
  show "idle (tx s) = idle s" by (simp add: idle_def fun_eq_iff b)
  have u: "used (tx s) = used s" "map_ok (tx s) = map_ok s" by (rule used_cong [OF b(1,2)], rule map_ok_cong [OF b(1,2)])
  show "full (tx s) = full s" by (simp add: full_def u b)
  show "file_ok (tx s) = file_ok s" by (simp add: file_ok_def ino_ok_def fun_eq_iff u ow sl f b)
qed

lemma tx_state_same [simp]: "ks_file (tx_state s) = ks_file s" "ks_mem (tx_state s) = ks_mem s" "ks_fs (tx_state s) = tx (ks_fs s)" "ks_pipe (tx_state s) = ks_pipe s"
  by (simp_all add: tx_state_def)

lemma open_ok_tx [simp]: "open_ok (tx_state s) f = open_ok s f"
  by (simp add: open_ok_def)

lemma wrote_tx [simp]: "fwrote f d t (tx_state s) s' = fwrote f d t s s'" "fwrote f d t s (tx_state s') = fwrote f d t s s'"
  by (simp_all add: fwrote_def)

lemma wrote_take:
  assumes "fwrote f (take m d) t s s'" "t \<le> m"
  shows "fwrote f d t s s'"
  using assms by (auto simp: fwrote_def Let_def)

lemma wrote_nothing: "open_ok s f \<Longrightarrow> fwrote f d 0 s s"
  by (auto simp: fwrote_def open_ok_def Let_def)

lemma wrote_more:
  assumes "fwrote f d t s s1" "fwrote f (drop t d) u s1 s2" "t \<le> length d"
  shows "fwrote f d (t + u) s s2"
proof -
  let ?i = "f_ip (fil s f)"
  note a = assms(1) [unfolded fwrote_def Let_def]
  have i: "f_ip (fil s1 f) = ?i" "off_of s1 f = off_of s f + t" using a by simp_all
  note b = assms(2) [unfolded fwrote_def Let_def i]
  have "content (ks_fs s2) ?i p = (if off_of s f \<le> p \<and> p < off_of s f + (t + u) then d ! (p - off_of s f) else content (ks_fs s) ?i p)" if "p < MAXFILE * BSIZE" for p
    using a b that assms(3) by (auto simp: add.commute)
  moreover have "fsize (ks_fs s2) ?i = max (fsize (ks_fs s) ?i) (off_of s f + (t + u))" using a b by simp
  ultimately show ?thesis using a b unfolding fwrote_def Let_def by simp
qed

lemma user_bytes_part:
  assumes "covers V addr n" "o' + m \<le> n"
  shows "user_bytes p (addr + of_nat o') m k = take m (drop o' (user_bytes p addr n k))" "covers V (addr + of_nat o') m"
proof -
  have a: "unat (addr + of_nat o') = unat addr + o'" using assms by (intro unat_plus) (simp add: covers_def)
  show "user_bytes p (addr + of_nat o') m k = take m (drop o' (user_bytes p addr n k))"
    using assms(2) by (intro nth_equalityI) (simp_all add: user_bytes_def a add.assoc)
  show "covers V (addr + of_nat o') m" using assms by (auto simp: covers_def a)
qed

lemma filewrite_loop_ok:
  assumes "open_ok s f" "space_ok p V (ks_mem s)" "covers V addr n" "u \<le> n" "off_of s f + (n - u) \<le> MAXFILE * BSIZE"
  shows "\<exists>t j s'. filewrite_loop p f addr (int n) (int u) s = Ok (int j, s') \<and> t \<le> n - u \<and> (j = n \<longleftrightarrow> t = n - u)
    \<and> fwrote f (drop u (user_bytes p addr n (ks_mem s))) t s s' \<and> (t < n - u \<longrightarrow> full (ks_fs s'))"
  using assms(1,2,4,5)
proof (induction "n - u" arbitrary: u s rule: less_induct)
  case less
  show ?case
  proof (cases "u < n")
    case False
    then show ?thesis using wrote_nothing [OF less.prems(1)] less.prems(3) by (subst filewrite_loop.simps) simp
  next
    case True
    define m where "m = min (n - u) (nat write_max)"
    have wm: "0 < nat write_max" "int (nat write_max) = write_max" by (simp_all add: write_max_def MAXOPBLOCKS_def BSIZE_def)
    have m: "0 < m" "m \<le> n - u" "(if int n - int u > write_max then write_max else int n - int u) = int m" using True wm by (auto simp: m_def)
    let ?d = "drop u (user_bytes p addr n (ks_mem s))"
    have um: "u + m \<le> n" using m(2) True by simp
    note part = user_bytes_part [OF assms(3) um]
    have le: "off_of (tx_state s) f + m \<le> MAXFILE * BSIZE" using less.prems(4) m(2) by simp
    have "open_ok (tx_state s) f" "space_ok p V (ks_mem (tx_state s))" using less.prems(1,2) by simp_all
    from write_some_ok [OF this part(2) m(1) le] obtain t s1 where w: "write_some p f (addr + of_nat u) (int m) (tx_state s) = Ok (int t, s1)" "t \<le> m"
      "fwrote f (take m ?d) t s s1" "t < m \<longrightarrow> full (ks_fs s1)" by (auto simp: part(1))
    have w1: "fwrote f ?d t s s1" by (rule wrote_take [OF w(3,2)])
    show ?thesis
    proof (cases "t = m")
      case False
      then have eq: "filewrite_loop p f addr (int n) (int u) s = Ok (int u, tx_state s1)"
        using True w(1) m(3) by (subst filewrite_loop.simps) (simp add: Let_def)
      show ?thesis by (rule exI [of _ t], rule exI [of _ u], rule exI [of _ "tx_state s1"]) (use False eq w(2,4) w1 m(2) True in auto)
    next
      case True
      have eq: "filewrite_loop p f addr (int n) (int u) s = filewrite_loop p f addr (int n) (int (u + m)) (tx_state s1)"
        using \<open>u < n\<close> True w(1) m(3) by (subst filewrite_loop.simps) (simp add: Let_def)
      have s1: "open_ok (tx_state s1) f" "ks_mem (tx_state s1) = ks_mem s" "off_of (tx_state s1) f = off_of s f + m"
        using w1 True by (simp_all add: fwrote_def Let_def)
      have "n - (u + m) < n - u" "space_ok p V (ks_mem (tx_state s1))" "u + m \<le> n" "off_of (tx_state s1) f + (n - (u + m)) \<le> MAXFILE * BSIZE"
        using m um s1 less.prems(2,4) by simp_all
      from less.hyps [OF this(1) s1(1) this(2-4)] obtain v j s2 where v: "filewrite_loop p f addr (int n) (int (u + m)) (tx_state s1) = Ok (int j, s2)" "v \<le> n - (u + m)"
        "j = n \<longleftrightarrow> v = n - (u + m)" "fwrote f (drop m ?d) v s1 s2" "v < n - (u + m) \<longrightarrow> full (ks_fs s2)" unfolding s1(2) by (auto simp: add.commute)
      have "fwrote f ?d (m + v) s s2" using wrote_more [OF w1] v(4) True m(2) by simp
      then show ?thesis using eq v um by (intro exI [of _ "m + v"] exI [of _ j] exI [of _ s2]) auto
    qed
  qed
qed


lemma fileread_ok:
  assumes "open_ok s g" "f_readable (fil s g)" "space_ok p V (ks_mem s)" "covers V addr n" "n < 2 ^ 31"
  defines "i \<equiv> f_ip (fil s g)"
  defines "m \<equiv> min n (fsize (ks_fs s) i - off_of s g)"
  shows "\<exists>s'. fileread p g addr (int n) s = Ok (Return (int m), s') \<and> off_of s' g = off_of s g + m \<and> open_ok s' g
    \<and> content (ks_fs s') = content (ks_fs s) \<and> arrived p V addr (ks_mem s) (map (content (ks_fs s) i) [off_of s g..<off_of s g + m]) (ks_mem s')"
proof -
  note o = assms(1) [unfolded open_ok_def, folded i_def]
  let ?lk = "\<lparr>sl_locked = True, sl_pid = c_pid p\<rparr>" and ?fs = "ks_fs s"
  define s1 where "s1 = set_lock ?lk i ?fs"
  have i: "i < length (fs_itable ?fs)" using o by (simp add: idle_def)
  note same = set_lock_same [OF i, of ?lk, folded s1_def]
  have n: "unat (of_int (int n) :: u32) = n" using assms(5) by (simp add: unat_of_nat32)
  have big: "off_of s g + unat (of_int (int n) :: u32) < 2 ^ 32" "off_of s g + m < 2 ^ 32"
    using o file_okD(3) [of ?fs i] assms(5) unfolding n by (auto simp: MAXFILE_bytes m_def)
  have "\<exists>k'. readi (ucopyout p addr) i (f_off (fil s g)) (of_int (int n)) s1 (ks_mem s) = Ok (int m, s1, k')
    \<and> arrived p V addr (ks_mem s) (map (content s1 i) [off_of s g..<off_of s g + m]) k' \<and> covers V addr n"
    using usink.readi_ok [of s1 i p V addr "ks_mem s" "ks_mem s" n "f_off (fil s g)" "of_int (int n)"] o same big(1) arrived_start [OF assms(3)] assms(4)
    unfolding n m_def by (simp add: min_def)
  then obtain k' where r: "readi (ucopyout p addr) i (f_off (fil s g)) (of_int (int n)) s1 (ks_mem s) = Ok (int m, s1, k')"
    "arrived p V addr (ks_mem s) (map (content ?fs i) [off_of s g..<off_of s g + m]) k'" unfolding same by blast
  define s2 where "s2 = set_lock initsleeplock i s1"
  have i1: "i < length (fs_itable s1)" using i by (simp add: s1_def upd_ino_def)
  have u: "iunlock (c_pid p) i s1 = Ok s2" "idle s2 i" unfolding s2_def
    using iunlock_locked [of s1 i "c_pid p"] o i by (simp_all add: idle_def s1_def upd_ino_def)
  note same2 = set_lock_same [OF i1, of initsleeplock, folded s2_def]
  define s' where "s' = upd_file g (\<lambda>x. if int m > 0 then x\<lparr>f_off := f_off x + of_int (int m)\<rparr> else x) (s\<lparr>ks_fs := s2, ks_mem := k'\<rparr>)"
  have eq: "fileread p g addr (int n) s = Ok (Return (int m), s')"
    using ilock_idle [of ?fs i "c_pid p"] o assms(2) r(1) u(1) by (simp add: fileread_def s'_def i_def [symmetric] s1_def Let_def)
  have "f_off (fil s' g) = f_off (fil s g) + of_nat m" using o by (auto simp: s'_def upd_file_def)
  then have off: "off_of s' g = off_of s g + m" using big(2) by (simp add: unat_add32 unat_of_nat32)
  have ff: "f_ip (fil s' g) = i" "f_type (fil s' g) = FD_INODE" "ks_fs s' = s2" "ks_mem s' = k'" "length (ks_file s') = length (ks_file s)"
    using o by (auto simp: s'_def upd_file_def i_def)
  have "off_of s g + m \<le> fsize ?fs i" using o by (auto simp: m_def min_def)
  then have "open_ok s' g" unfolding open_ok_def ff using o u(2) same same2 off by simp
  moreover have "content s2 = content ?fs" using same(2) same2(2) by (simp add: fun_eq_iff)
  ultimately show ?thesis using eq r(2) off ff by auto
qed


section \<open>Space in the log\<close>

lemma bitmap_one: "unat (sb_size sb) \<le> BPB \<Longrightarrow> bitmap_area sb \<subseteq> {BBLOCK 0 sb}"
  by (auto simp: bitmap_area_def BBLOCK_def)

lemma blocks_of_range:
  assumes "t \<le> 3 * BSIZE"
  shows "{k. off div BSIZE \<le> k \<and> k * BSIZE < off + t} \<subseteq> {off div BSIZE..<off div BSIZE + 4}"
proof
  fix k assume "k \<in> {k. off div BSIZE \<le> k \<and> k * BSIZE < off + t}"
  moreover have "off < (off div BSIZE + 1) * BSIZE" using div_mult_mod_eq [of off BSIZE] mod_less_divisor [of BSIZE off] by (simp add: BSIZE_def)
  ultimately have "off div BSIZE \<le> k" "k * BSIZE < (off div BSIZE + 4) * BSIZE" using assms by (auto simp: add_mult_distrib)
  then show "k \<in> {off div BSIZE..<off div BSIZE + 4}" by simp
qed

lemma card_logged:
  assumes "L \<subseteq> {} \<union> bitmap_area sb \<union> {a, b, c} \<union> g ` {k. off div BSIZE \<le> k \<and> k * BSIZE < off + t}" "t \<le> 3 * BSIZE" "unat (sb_size sb) \<le> BPB"
  shows "card L < MAXOPBLOCKS"
proof -
  let ?R = "g ` {off div BSIZE..<off div BSIZE + 4}"
  have "L \<subseteq> {BBLOCK 0 sb, a, b, c} \<union> ?R" using assms(1) bitmap_one [OF assms(3)] image_mono [OF blocks_of_range [OF assms(2), of off], of g] by blast
  then have "card L \<le> card ({BBLOCK 0 sb, a, b, c} \<union> ?R)" by (intro card_mono) simp_all
  also have "\<dots> \<le> card {BBLOCK 0 sb, a, b, c} + card ?R" by (rule card_Un_le)
  also have "\<dots> \<le> 4 + 4" using card_image_le [of "{off div BSIZE..<off div BSIZE + 4}" g] by (intro add_mono card_insert_le_m1) (simp_all add: card_insert_if)
  finally show ?thesis by (simp add: MAXOPBLOCKS_def)
qed

section \<open>Properties\<close>

text \<open>C7. Each transaction of \<open>filewrite\<close> fits the reservation of \<open>begin_op\<close>: writing at most \<open>max\<close> bytes, at any offset and with any
  number of blocks to allocate, logs fewer than \<open>MAXOPBLOCKS\<close> different blocks, on a disk whose bitmap is one block.\<close>

theorem write_transaction_fits:
  assumes "open_ok s f" and "space_ok p V (ks_mem s)" and "covers V addr n" and "0 < n" and "int n \<le> write_max"
    and "off_of s f + n \<le> MAXFILE * BSIZE" and "unat (sb_size (fs_sb (ks_fs s))) \<le> BPB"
  shows "\<exists>r s'. write_some p f addr (int n) (tx_state s) = Ok (r, s') \<and> card (set (fs_logged (ks_fs s'))) < MAXOPBLOCKS"
proof -
  have s: "open_ok (tx_state s) f" "space_ok p V (ks_mem (tx_state s))" "off_of (tx_state s) f + n \<le> MAXFILE * BSIZE" using assms by simp_all
  obtain t s' where w: "write_some p f addr (int n) (tx_state s) = Ok (int t, s')" "t \<le> n"
    "set (fs_logged (ks_fs s')) \<subseteq> {} \<union> bitmap_area (fs_sb (ks_fs s))
        \<union> {0, slot (ks_fs s') (f_ip (fil s f)) MAXFILE, IBLOCK (unat (ip_inum (ino (ks_fs s) (f_ip (fil s f))))) (fs_sb (ks_fs s))}
        \<union> fblock (ks_fs s') (f_ip (fil s f)) ` {k. off_of s f div BSIZE \<le> k \<and> k * BSIZE < off_of s f + t}"
    using write_some_ok [OF s(1,2) assms(3,4) s(3)] by auto
  have "t \<le> 3 * BSIZE" using w(2) assms(5) by (simp add: write_max_def MAXOPBLOCKS_def)
  from card_logged [OF w(3) this assms(7)] w(1) show ?thesis by blast
qed

text \<open>Two open files on the second inode of the small disk, one for writing and one for reading, and a process with one page.\<close>

definition demo_file :: "bool \<Rightarrow> file_t" where
  "demo_file w = \<lparr>f_type = FD_INODE, f_ref = 1, f_readable = \<not> w, f_writable = w, f_pipe = 0, f_ip = 1, f_off = 0, f_major = 0\<rparr>"

definition demo_state :: kstate where
  "demo_state = \<lparr>ks_file = [demo_file True, demo_file False], ks_fs = demo_fs, ks_mem = demo_space, ks_pipe = \<lambda>_. undefined\<rparr>"

definition demo_caller :: caller where
  "demo_caller = \<lparr>c_pid = 1, c_pagetable = 0x80001000, c_sz = 4096\<rparr>"

lemma demo_open: "f < 2 \<Longrightarrow> open_ok demo_state f"
  using demo_ino(2) [of 1] by (cases f) (auto simp: open_ok_def demo_state_def demo_file_def idle_def demo_fs_def demo_inode_def less_Suc_eq)

lemma demo_user: "space_ok demo_caller {0} (ks_mem demo_state)" "unat addr + n \<le> 4096 \<Longrightarrow> covers {0} addr n"
  using demo_inv demo_owns by (auto simp: space_ok_def demo_caller_def demo_state_def covers_def)

theorem write_transaction_fits_witness:
  "\<exists>r s'. write_some demo_caller 0 10 3000 (tx_state demo_state) = Ok (r, s') \<and> card (set (fs_logged (ks_fs s'))) < MAXOPBLOCKS"
proof -
  have "covers {0} 10 3000" by (rule demo_user(2)) simp
  from write_transaction_fits [OF demo_open [of 0] demo_user(1) this] show ?thesis
    by (simp add: write_max_def MAXOPBLOCKS_def BSIZE_def BPB_def MAXFILE_bytes [unfolded BSIZE_def] demo_state_def demo_file_def demo_fs_def)
qed

text \<open>C5. From one process's memory through a file and back. Writing \<open>n\<close> bytes at \<open>src\<close> through an open file, in as many transactions as it takes,
  either fills the disk and returns -1, or returns \<open>n\<close>; then reading \<open>n\<close> bytes through another open file
  on the same inode at the offset where the write began returns \<open>n\<close> and puts the same bytes at
  \<open>dst\<close>, changing no other byte of user memory.\<close>

theorem filewrite_fileread_roundtrip:
  assumes "open_ok s f" and "f_writable (fil s f)" and "open_ok s g" and "f_readable (fil s g)" and "f \<noteq> g" and "f_ip (fil s g) = f_ip (fil s f)"
    and "f_off (fil s g) = f_off (fil s f)" and "space_ok p V (ks_mem s)" and "covers V src n" and "covers V dst n"
    and "off_of s f + n \<le> MAXFILE * BSIZE"
  shows "\<exists>r s1. filewrite p f src (int n) s = Ok (Return r, s1) \<and> (r = - 1 \<and> full (ks_fs s1)
    \<or> r = int n \<and> (\<exists>s2. fileread p g dst (int n) s1 = Ok (Return (int n), s2)
        \<and> arrived p V dst (ks_mem s) (user_bytes p src n (ks_mem s)) (ks_mem s2)))"
proof -
  let ?i = "f_ip (fil s f)" and ?d = "user_bytes p src n (ks_mem s)"
  obtain t j s1 where w: "filewrite_loop p f src (int n) 0 s = Ok (int j, s1)" "t \<le> n" "j = n \<longleftrightarrow> t = n" "fwrote f ?d t s s1" "t < n \<longrightarrow> full (ks_fs s1)"
    using filewrite_loop_ok [OF assms(1,8,9), of 0] assms(11) by auto
  have fw: "filewrite p f src (int n) s = Ok (Return (if t = n then int n else - 1), s1)"
    using w(1,3) assms(1,2) by (simp add: filewrite_def open_ok_def Let_def)
  note a = w(4) [unfolded fwrote_def Let_def]
  show ?thesis
  proof (cases "t = n")
    case False
    then show ?thesis using fw w(2,5) by auto
  next
    case True
    have g: "fil s1 g = fil s g" using a assms(5) by simp
    have op: "open_ok s1 g" using a assms(3,6,7) g True unfolding open_ok_def by auto
    have m: "min n (fsize (ks_fs s1) (f_ip (fil s1 g)) - off_of s1 g) = n" using a g assms(6,7) True by auto
    have "map (content (ks_fs s1) ?i) [off_of s f..<off_of s f + n] = ?d"
      using a True assms(11) by (intro nth_equalityI) auto
    then have bytes: "map (content (ks_fs s1) (f_ip (fil s1 g))) [off_of s1 g..<off_of s1 g + n] = ?d" using g assms(6,7) by simp
    have "f_readable (fil s1 g)" "space_ok p V (ks_mem s1)" "ks_mem s1 = ks_mem s" "n < 2 ^ 31" using g assms(4,8,11) a by (simp_all add: MAXFILE_bytes)
    from fileread_ok [OF op this(1,2) assms(10) this(4), unfolded m bytes] this(3) show ?thesis using fw True by auto
  qed
qed

theorem filewrite_fileread_roundtrip_witness:
  "\<exists>r s1. filewrite demo_caller 0 10 2000 demo_state = Ok (Return r, s1) \<and> (r = - 1 \<and> full (ks_fs s1)
    \<or> (\<exists>s2. fileread demo_caller 1 2048 2000 s1 = Ok (Return 2000, s2)))"
proof -
  have "covers {0} 10 2000" "covers {0} 2048 2000" by (rule demo_user(2), simp)+
  note c = this
  have f: "f_writable (fil demo_state 0)" "f_readable (fil demo_state 1)" "f_ip (fil demo_state 1) = f_ip (fil demo_state 0)" "f_off (fil demo_state 1) = f_off (fil demo_state 0)"
    "off_of demo_state 0 + 2000 \<le> MAXFILE * BSIZE" by (simp_all add: demo_state_def demo_file_def MAXFILE_bytes)
  from filewrite_fileread_roundtrip [OF demo_open [of 0] f(1) demo_open [of 1] f(2) zero_neq_one f(3,4) demo_user(1) c f(5)] show ?thesis by auto
qed

end
