(* ===== verification/Trunc.thy ===== *)
theory Trunc
  imports FsInv
begin

text \<open>
  Releasing the blocks of a file: \<open>itrunc\<close> frees exactly the blocks of the inode, direct, indirect and the
  indirect block itself, and never a block twice. The inode written back to disk is read back unchanged.
\<close>

section \<open>Freeing blocks\<close>

definition freed :: "u32 set \<Rightarrow> fs \<Rightarrow> fs \<Rightarrow> bool" where
  "freed B s s' \<longleftrightarrow> map_ok s' \<and> fs_sb s' = fs_sb s \<and> (\<forall>c. c \<notin> bitmap_area (fs_sb s) \<longrightarrow> fs_blk s' c = fs_blk s c)
     \<and> (\<forall>c. unat c < size_of s \<longrightarrow> used s' c = (used s c \<and> c \<notin> B))"

lemma freed_refl: "map_ok s \<Longrightarrow> freed {} s s"
  by (simp add: freed_def)

lemma freed_trans: "freed B s s1 \<Longrightarrow> freed C s1 s2 \<Longrightarrow> freed (B \<union> C) s s2"
  by (simp add: freed_def)

lemma bfree_ok:
  assumes "map_ok s" "unat b < size_of s" "used s b" "b \<notin> meta (fs_sb s)"
  shows "\<exists>s'. bfree b s = Ok s' \<and> freed {b} s s' \<and> fs_itable s' = fs_itable s"
proof -
  let ?B = "BBLOCK (unat b) (fs_sb s)" let ?s = "put_block ?B (mark_free (unat b mod BPB)) s"
  have u: "used ?s c = (used s c \<and> c \<noteq> b)" for c
    using used_put_bitmap [of s b mark_free False c, OF map_okD(1) [OF assms(1)]] in_use_mark_free by auto
  have "map_ok ?s" using assms(1,4) u by (auto simp: map_ok_def)
  moreover have "fs_blk ?s c = fs_blk s c" if "c \<notin> bitmap_area (fs_sb s)" for c using that BBLOCK_area [OF assms(2)] by auto
  moreover have "bfree b s = Ok ?s" using assms(3) by (simp add: bfree_def used_def Let_def)
  ultimately show ?thesis using u by (auto simp: freed_def)
qed

definition direct_blocks :: "fs \<Rightarrow> nat \<Rightarrow> nat \<Rightarrow> u32 set" where
  "direct_blocks s i m = {a. a \<noteq> 0 \<and> (\<exists>k < m. ip_addrs (ino s i) ! k = a)}"

definition indirect_blocks :: "fs \<Rightarrow> u32 \<Rightarrow> nat \<Rightarrow> u32 set" where
  "indirect_blocks s ind m = {a. a \<noteq> 0 \<and> (\<exists>j < m. get32 (4 * j) (fs_blk s ind) = a)}"

lemma direct_Suc: "direct_blocks s i (Suc m) = direct_blocks s i m \<union> ({ip_addrs (ino s i) ! m} - {0})"
  by (auto simp: direct_blocks_def less_Suc_eq)

lemma indirect_Suc: "indirect_blocks s ind (Suc m) = indirect_blocks s ind m \<union> ({get32 (4 * m) (fs_blk s ind)} - {0})"
  by (auto simp: indirect_blocks_def less_Suc_eq)

text \<open>A block of the file is different from those in earlier slots.\<close>

lemma slot_new:
  assumes "ino_ok s i" "k \<le> MAXFILE" "slot s i k \<noteq> 0" "B \<subseteq> slot s i ` K" "K \<subseteq> {..MAXFILE}" "k \<notin> K"
  shows "used s (slot s i k)" "unat (slot s i k) < size_of s" "slot s i k \<notin> meta (fs_sb s)" "slot s i k \<notin> B"
proof -
  show "used s (slot s i k)" "unat (slot s i k) < size_of s" "slot s i k \<notin> meta (fs_sb s)"
    using ino_okD(4) [OF assms(1) slot_own [OF assms(2,3)]] by auto
  show "slot s i k \<notin> B"
  proof
    assume "slot s i k \<in> B"
    then obtain j where "j \<in> K" "slot s i k = slot s i j" using assms(4) by blast
    then show False using ino_okD(5) [OF assms(1,2), of j] assms(3,5,6) by auto
  qed
qed

lemma direct_slots: "m \<le> NDIRECT \<Longrightarrow> direct_blocks s i m \<subseteq> slot s i ` {..<m}"
  using indirect_range(2) by (fastforce simp: direct_blocks_def slot_def fblock_def)

lemma free_direct:
  assumes "map_ok s" "ino_ok s i" "m \<le> NDIRECT"
  shows "\<exists>s'. fold_res (\<lambda>k s. if ip_addrs (ino s i) ! k \<noteq> 0 then bind_res (bfree (ip_addrs (ino s i) ! k) s) (\<lambda>s1. Ok (set_addr i k 0 s1)) else Ok s) [0..<m] s = Ok s'
    \<and> freed (direct_blocks s i m) s s' \<and> fs_itable s' = (fs_itable s)[i := (ino s i)\<lparr>ip_addrs := replicate m 0 @ drop m (ip_addrs (ino s i))\<rparr>]"
  using assms(3)
proof (induction m)
  case 0
  then show ?case using freed_refl [OF assms(1)] by (simp add: direct_blocks_def)
next
  case (Suc m)
  let ?f = "\<lambda>k s. if ip_addrs (ino s i) ! k \<noteq> 0 then bind_res (bfree (ip_addrs (ino s i) ! k) s) (\<lambda>s1. Ok (set_addr i k 0 s1)) else Ok s"
  let ?as = "ip_addrs (ino s i)" let ?a = "?as ! m"
  obtain s1 where s1: "fold_res ?f [0..<m] s = Ok s1" "freed (direct_blocks s i m) s s1"
    "fs_itable s1 = (fs_itable s)[i := (ino s i)\<lparr>ip_addrs := replicate m 0 @ drop m ?as\<rparr>]" using Suc by auto
  have i: "i < length (fs_itable s)" "length ?as = NDIRECT + 1" by (rule ino_okD [OF assms(2)])+
  have a1: "ip_addrs (ino s1 i) = replicate m 0 @ drop m ?as" "ino s1 i = (ino s i)\<lparr>ip_addrs := replicate m 0 @ drop m ?as\<rparr>" using s1(3) i(1) by simp_all
  have am: "ip_addrs (ino s1 i) ! m = ?a" using i(2) Suc.prems unfolding a1 by (simp add: nth_append)
  have upd: "(replicate m 0 @ drop m ?as)[m := 0] = replicate (Suc m) 0 @ drop (Suc m) ?as"
    using i(2) Suc.prems by (simp add: list_update_append Cons_nth_drop_Suc [symmetric] replicate_append_same)
  show ?case
  proof (cases "?a = 0")
    case True
    have "replicate m 0 @ drop m ?as = replicate (Suc m) 0 @ drop (Suc m) ?as"
      using True i(2) Suc.prems by (simp add: Cons_nth_drop_Suc [symmetric] replicate_append_same)
    then show ?thesis using s1 True am by (simp add: fold_res_append direct_Suc)
  next
    case False
    have mk: "m \<le> MAXFILE" "m < NDIRECT" "m \<noteq> MAXFILE" using Suc.prems indirect_range(2) by simp_all
    then have sl: "slot s i m = ?a" by (simp add: slot_def fblock_def)
    have K: "{..<m} \<subseteq> {..MAXFILE}" "m \<notin> {..<m}" using mk(1) by auto
    note n' = slot_new [OF assms(2) mk(1) _ direct_slots [OF Suc_leD [OF Suc.prems]] K, unfolded sl, OF False]
    have f1: "map_ok s1" "unat ?a < size_of s1" "used s1 ?a" "?a \<notin> meta (fs_sb s1)" using s1(2) n' by (auto simp: freed_def)
    obtain s2 where s2: "bfree ?a s1 = Ok s2" "freed {?a} s1 s2" "fs_itable s2 = fs_itable s1" using bfree_ok [OF f1] by blast
    have t: "fs_itable (set_addr i m 0 s2) = (fs_itable s)[i := (ino s i)\<lparr>ip_addrs := replicate (Suc m) 0 @ drop (Suc m) ?as\<rparr>]"
      using s1(3) s2(3) i(1) upd by (simp add: set_addr_def upd_ino_def)
    have "freed {?a} s1 (set_addr i m 0 s2)" using s2(2) used_cong [of "set_addr i m 0 s2" s2] map_ok_cong [of "set_addr i m 0 s2" s2] by (simp add: freed_def)
    from freed_trans [OF s1(2) this] show ?thesis using s1(1) s2(1) am False t by (simp add: fold_res_append direct_Suc)
  qed
qed

lemma indirect_slots:
  assumes "ip_addrs (ino s i) ! NDIRECT = ind" "ind \<noteq> 0" "m \<le> NINDIRECT"
  shows "indirect_blocks s ind m \<subseteq> slot s i ` {NDIRECT..<NDIRECT + m}" "j < NINDIRECT \<Longrightarrow> slot s i (NDIRECT + j) = get32 (4 * j) (fs_blk s ind)"
proof -
  show e: "slot s i (NDIRECT + j) = get32 (4 * j) (fs_blk s ind)" if "j < NINDIRECT" for j
    using that assms(1,2) by (simp add: slot_def fblock_def MAXFILE_def)
  show "indirect_blocks s ind m \<subseteq> slot s i ` {NDIRECT..<NDIRECT + m}"
  proof
    fix a assume "a \<in> indirect_blocks s ind m"
    then obtain j where "j < m" "get32 (4 * j) (fs_blk s ind) = a" by (auto simp: indirect_blocks_def)
    then show "a \<in> slot s i ` {NDIRECT..<NDIRECT + m}" using e [of j] assms(3) by (auto intro!: image_eqI [of _ _ "NDIRECT + j"])
  qed
qed

lemma free_indirect:
  assumes "ino_ok s i" "ip_addrs (ino s i) ! NDIRECT = ind" "ind \<noteq> 0" "freed (direct_blocks s i NDIRECT) s s1" "m \<le> NINDIRECT"
  shows "\<exists>s'. fold_res (\<lambda>j s. let a = get32 (4 * j) (fs_blk s ind) in if a \<noteq> 0 then bfree a s else Ok s) [0..<m] s1 = Ok s'
    \<and> freed (direct_blocks s i NDIRECT \<union> indirect_blocks s ind m) s s' \<and> fs_itable s' = fs_itable s1"
  using assms(5)
proof (induction m)
  case 0
  then show ?case using assms(4) by (simp add: indirect_blocks_def)
next
  case (Suc m)
  let ?f = "\<lambda>j s. let a = get32 (4 * j) (fs_blk s ind) in if a \<noteq> 0 then bfree a s else Ok s"
  let ?D = "direct_blocks s i NDIRECT" let ?a = "get32 (4 * m) (fs_blk s ind)"
  obtain s2 where s2: "fold_res ?f [0..<m] s1 = Ok s2" "freed (?D \<union> indirect_blocks s ind m) s s2" "fs_itable s2 = fs_itable s1" using Suc by auto
  have "ind \<in> own s i" using slot_own [of MAXFILE s i] assms(2,3) by (simp add: slot_def)
  then have "ind \<notin> bitmap_area (fs_sb s)" using ino_okD(4) [OF assms(1)] area_meta(1) by blast
  then have b2: "fs_blk s2 ind = fs_blk s ind" using s2(2) by (simp add: freed_def)
  show ?case
  proof (cases "?a = 0")
    case True
    then show ?thesis using s2 b2 by (simp add: fold_res_append indirect_Suc)
  next
    case False
    have sl: "slot s i (NDIRECT + m) = ?a" "NDIRECT + m \<le> MAXFILE" using indirect_slots(2) [OF assms(2,3) order_refl] Suc.prems by (simp_all add: MAXFILE_def)
    have sub: "?D \<union> indirect_blocks s ind m \<subseteq> slot s i ` {..<NDIRECT + m}"
    proof -
      have "slot s i ` {..<NDIRECT} \<union> slot s i ` {NDIRECT..<NDIRECT + m} \<subseteq> slot s i ` {..<NDIRECT + m}" by auto
      with Un_mono [OF direct_slots [OF order_refl] indirect_slots(1) [OF assms(2,3) Suc_leD [OF Suc.prems]]] show ?thesis by (rule order_trans)
    qed
    have K: "{..<NDIRECT + m} \<subseteq> {..MAXFILE}" "NDIRECT + m \<notin> {..<NDIRECT + m}" using sl(2) by auto
    note n = slot_new [OF assms(1) sl(2) _ sub K, unfolded sl(1), OF False]
    have f2: "map_ok s2" "unat ?a < size_of s2" "used s2 ?a" "?a \<notin> meta (fs_sb s2)" using s2(2) n by (auto simp: freed_def)
    obtain s3 where s3: "bfree ?a s2 = Ok s3" "freed {?a} s2 s3" "fs_itable s3 = fs_itable s2" using bfree_ok [OF f2] by blast
    from freed_trans [OF s2(2) s3(2)] show ?thesis using s2(1,3) s3(1,3) b2 False by (simp add: fold_res_append indirect_Suc Un_assoc)
  qed
qed

lemma own_blocks:
  assumes "ip_addrs (ino s i) ! NDIRECT = ind"
  shows "own s i = direct_blocks s i NDIRECT \<union> (if ind = 0 then {} else indirect_blocks s ind NINDIRECT \<union> {ind})" (is "_ = ?R")
proof
  have sl: "slot s i k \<in> ?R" if k: "k \<le> MAXFILE" "slot s i k \<noteq> 0" for k
  proof -
    consider "k = MAXFILE" | "k < NDIRECT" | "NDIRECT \<le> k" "k < MAXFILE" using k(1) by linarith
    then show ?thesis
    proof cases
      case 1
      then show ?thesis using k(2) assms by (simp add: slot_def)
    next
      case 2
      then have "slot s i k = ip_addrs (ino s i) ! k" using indirect_range(2) by (simp add: slot_def fblock_def)
      then show ?thesis using 2 k(2) by (auto simp: direct_blocks_def)
    next
      case 3
      then have nz: "ind \<noteq> 0" using k(2) assms by (auto simp: slot_def fblock_def)
      have j: "k - NDIRECT < NINDIRECT" "NDIRECT + (k - NDIRECT) = k" using 3 by (simp_all add: MAXFILE_def)
      have "slot s i k = get32 (4 * (k - NDIRECT)) (fs_blk s ind)" using indirect_slots(2) [OF assms nz order_refl j(1)] j(2) by simp
      then show ?thesis using nz k(2) j(1) by (auto simp: indirect_blocks_def)
    qed
  qed
  show "own s i \<subseteq> ?R" unfolding own_def using sl by blast
  have "a \<noteq> 0 \<and> (\<exists>k \<le> MAXFILE. slot s i k = a)" if a: "a \<in> ?R" for a
  proof (cases "a \<in> direct_blocks s i NDIRECT")
    case True
    then obtain k where "k < NDIRECT" "ip_addrs (ino s i) ! k = a" "a \<noteq> 0" by (auto simp: direct_blocks_def)
    then show ?thesis using indirect_range(2) by (intro conjI exI [of _ k]) (simp_all add: slot_def fblock_def)
  next
    case False
    then have nz: "ind \<noteq> 0" "a \<in> indirect_blocks s ind NINDIRECT \<or> a = ind" using a by (auto split: if_splits)
    show ?thesis
    proof (cases "a = ind")
      case True
      then show ?thesis using nz(1) assms by (intro conjI exI [of _ MAXFILE]) (simp_all add: slot_def)
    next
      case False
      then obtain j where j: "j < NINDIRECT" "get32 (4 * j) (fs_blk s ind) = a" "a \<noteq> 0" using nz(2) by (auto simp: indirect_blocks_def)
      then show ?thesis using indirect_slots(2) [OF assms nz(1) order_refl j(1)] by (intro conjI exI [of _ "NDIRECT + j"]) (simp_all add: MAXFILE_def)
    qed
  qed
  then show "?R \<subseteq> own s i" unfolding own_def by blast
qed


lemma empty_inode:
  assumes "map_ok s" "i < length (fs_itable s)" "ip_addrs (ino s i) = replicate (NDIRECT + 1) 0" "ip_size (ino s i) = 0"
    "unat (ip_inum (ino s i)) < unat (sb_ninodes (fs_sb s))"
  shows "file_ok s i" "own s i = {}"
proof -
  have z: "replicate (NDIRECT + 1) (0 :: u32) ! k = 0" if "k \<le> NDIRECT" for k using that by (intro nth_replicate) simp
  have sl: "slot s i k = 0" for k unfolding slot_def fblock_def assms(3) using z by (simp del: replicate_Suc replicate.simps)
  then show o: "own s i = {}" by (simp add: own_def)
  have "ino_ok s i" unfolding ino_ok_def o using assms sl by simp
  then show "file_ok s i" using assms by (simp add: file_ok_def)
qed

text \<open>The two phases of \<open>itrunc\<close> before the inode is written back.\<close>

lemma itrunc_blocks:
  assumes "file_ok s i"
  shows "\<exists>s4. itrunc i s = Ok (iupdate i (upd_ino i (\<lambda>ip. ip\<lparr>ip_size := 0\<rparr>) s4)) \<and> freed (own s i) s s4
    \<and> fs_itable s4 = (fs_itable s)[i := (ino s i)\<lparr>ip_addrs := replicate (NDIRECT + 1) 0\<rparr>]"
proof -
  note f = file_okD(1,2) [OF assms]
  let ?as = "ip_addrs (ino s i)" let ?ind = "?as ! NDIRECT"
  have i: "i < length (fs_itable s)" "length ?as = NDIRECT + 1" by (rule ino_okD [OF f(2)])+
  obtain s1 where s1: "fold_res (\<lambda>k s. if ip_addrs (ino s i) ! k \<noteq> 0 then bind_res (bfree (ip_addrs (ino s i) ! k) s) (\<lambda>s1. Ok (set_addr i k 0 s1)) else Ok s) [0..<NDIRECT] s = Ok s1"
    "freed (direct_blocks s i NDIRECT) s s1" "fs_itable s1 = (fs_itable s)[i := (ino s i)\<lparr>ip_addrs := replicate NDIRECT 0 @ drop NDIRECT ?as\<rparr>]"
    using free_direct [OF f order_refl] by blast
  have dr: "drop NDIRECT ?as = [?ind]" using i(2) by (simp add: Cons_nth_drop_Suc [symmetric])
  have a1: "ip_addrs (ino s1 i) = replicate NDIRECT 0 @ [?ind]" using s1(3) i(1) dr by simp
  have ind1: "ip_addrs (ino s1 i) ! NDIRECT = ?ind" unfolding a1 by (simp add: nth_append)
  have rep: "replicate NDIRECT 0 @ [0] = replicate (NDIRECT + 1) (0 :: u32)" by (simp add: replicate_append_same)
  note ob = own_blocks [OF refl, of s i]
  show ?thesis
  proof (cases "?ind = 0")
    case True
    then show ?thesis using s1 ind1 ob dr rep by (intro exI [of _ s1]) (simp add: itrunc_def)
  next
    case False
    obtain s2 where s2: "fold_res (\<lambda>j s. let a = get32 (4 * j) (fs_blk s ?ind) in if a \<noteq> 0 then bfree a s else Ok s) [0..<NINDIRECT] s1 = Ok s2"
      "freed (direct_blocks s i NDIRECT \<union> indirect_blocks s ?ind NINDIRECT) s s2" "fs_itable s2 = fs_itable s1"
      using free_indirect [OF f(2) refl False s1(2) order_refl] by blast
    have sl: "slot s i MAXFILE = ?ind" by (simp add: slot_def)
    have sub: "direct_blocks s i NDIRECT \<union> indirect_blocks s ?ind NINDIRECT \<subseteq> slot s i ` {..<MAXFILE}"
    proof -
      have "slot s i ` {..<NDIRECT} \<union> slot s i ` {NDIRECT..<NDIRECT + NINDIRECT} \<subseteq> slot s i ` {..<MAXFILE}" by (auto simp: MAXFILE_def)
      with Un_mono [OF direct_slots [OF order_refl] indirect_slots(1) [OF refl False order_refl]] show ?thesis by (rule order_trans)
    qed
    have K: "{..<MAXFILE} \<subseteq> {..MAXFILE}" "MAXFILE \<notin> {..<MAXFILE}" by auto
    note n = slot_new [OF f(2) order_refl _ sub K, unfolded sl, OF False]
    have f2: "map_ok s2" "unat ?ind < size_of s2" "used s2 ?ind" "?ind \<notin> meta (fs_sb s2)" using s2(2) n by (auto simp: freed_def)
    obtain s3 where s3: "bfree ?ind s2 = Ok s3" "freed {?ind} s2 s3" "fs_itable s3 = fs_itable s2" using bfree_ok [OF f2] by blast
    let ?t = "set_addr i NDIRECT 0 s3"
    have "freed {?ind} s2 ?t" using s3(2) used_cong [of ?t s3] map_ok_cong [of ?t s3] by (simp add: freed_def)
    from freed_trans [OF s2(2) this] have fr: "freed (own s i) s ?t" using ob False by (simp add: Un_assoc)
    have "fs_itable ?t = (fs_itable s)[i := (ino s i)\<lparr>ip_addrs := (replicate NDIRECT 0 @ [?ind])[NDIRECT := 0]\<rparr>]"
      using s1(3) s2(3) s3(3) i(1) dr by (simp add: set_addr_def upd_ino_def)
    then have it: "fs_itable ?t = (fs_itable s)[i := (ino s i)\<lparr>ip_addrs := replicate (NDIRECT + 1) 0\<rparr>]" using rep by (simp add: list_update_append)
    have "itrunc i s = Ok (iupdate i (upd_ino i (\<lambda>ip. ip\<lparr>ip_size := 0\<rparr>) ?t))"
      using s1(1) ind1 False s2(1) s3(1) by (simp add: itrunc_def Let_def)
    then show ?thesis using fr it by blast
  qed
qed

section \<open>Inodes on disk\<close>

lemma put_dinode_fields:
  assumes "off + 64 \<le> length d"
  shows "get16 off (put_dinode off ip d) = ip_type ip" "get16 (off + 2) (put_dinode off ip d) = ip_major ip" "get16 (off + 4) (put_dinode off ip d) = ip_minor ip"
    "get16 (off + 6) (put_dinode off ip d) = ip_nlink ip" "get32 (off + 8) (put_dinode off ip d) = ip_size ip"
    "\<And>k. k \<le> NDIRECT \<Longrightarrow> get32 (off + 12 + 4 * k) (put_dinode off ip d) = ip_addrs ip ! k"
    "\<And>p. p < length d \<Longrightarrow> p < off \<or> off + 64 \<le> p \<Longrightarrow> put_dinode off ip d ! p = d ! p"
proof -
  let ?e = "put32 (off + 8) (ip_size ip) (put16 (off + 6) (ip_nlink ip) (put16 (off + 4) (ip_minor ip) (put16 (off + 2) (ip_major ip) (put16 off (ip_type ip) d))))"
  have l: "length ?e = length d" using assms by simp
  note p = put_addrs [where off = off and d = ?e and m = "NDIRECT + 1" and f = "\<lambda>k. ip_addrs ip ! k", unfolded l, OF assms order_refl, folded put_dinode_def]
  have low: "put_dinode off ip d ! q = ?e ! q" if "q < off + 12" for q using p(3) [of q] that assms by simp
  have g: "get16 o1 (put_dinode off ip d) = get16 o1 ?e" if "o1 + 2 \<le> off + 12" for o1 using that low by (simp add: get16_def)
  have o16: "get16 o1 (put16 o2 w bs) = get16 o1 bs" if "o1 + 2 \<le> o2 \<or> o2 + 2 \<le> o1" "o1 + 2 \<le> length bs" "o2 + 2 \<le> length bs" for o1 o2 w bs
    unfolding put16_def using that by (intro get16_splice) simp_all
  have o32: "get16 o1 (put32 o2 w bs) = get16 o1 bs" if "o1 + 2 \<le> o2 \<or> o2 + 4 \<le> o1" "o1 + 2 \<le> length bs" "o2 + 4 \<le> length bs" for o1 o2 w bs
    unfolding put32_def using that by (intro get16_splice) simp_all
  show "get16 off (put_dinode off ip d) = ip_type ip" "get16 (off + 2) (put_dinode off ip d) = ip_major ip" "get16 (off + 4) (put_dinode off ip d) = ip_minor ip"
    "get16 (off + 6) (put_dinode off ip d) = ip_nlink ip" using assms by (simp_all add: g o16 o32)
  have "get32 (off + 8) ?e = ip_size ip" using assms by (intro get32_put32) simp
  then show "get32 (off + 8) (put_dinode off ip d) = ip_size ip" using low by (simp add: get32_def)
  show "get32 (off + 12 + 4 * k) (put_dinode off ip d) = ip_addrs ip ! k" if "k \<le> NDIRECT" for k using p(2) [OF that] that by simp
  show "put_dinode off ip d ! q = d ! q" if "q < length d" "q < off \<or> off + 64 \<le> q" for q
    using p(3) [of q] that assms by (auto simp: put16_def put32_def nth_splice)
qed


section \<open>Properties\<close>

text \<open>C38. \<open>itrunc\<close> of a well-formed file succeeds and frees exactly its blocks: every block of the file is free afterwards and every
  other block is used or free as before, the file is empty and well formed, and outside the bitmap and
  the inode blocks nothing on disk changes.\<close>

theorem itrunc_frees_blocks:
  assumes "file_ok s i"
  shows "\<exists>s'. itrunc i s = Ok s' \<and> file_ok s' i \<and> fsize s' i = 0 \<and> own s' i = {}
    \<and> (\<forall>b. unat b < size_of s \<longrightarrow> used s' b = (used s b \<and> b \<notin> own s i))
    \<and> (\<forall>b. b \<notin> bitmap_area (fs_sb s) \<union> inode_area (fs_sb s) \<longrightarrow> fs_blk s' b = fs_blk s b) \<and> (\<forall>j. j \<noteq> i \<longrightarrow> ino s' j = ino s j)"
proof -
  note f = file_okD(1,2) [OF assms]
  obtain s4 where s4: "itrunc i s = Ok (iupdate i (upd_ino i (\<lambda>ip. ip\<lparr>ip_size := 0\<rparr>) s4))" "freed (own s i) s s4"
    "fs_itable s4 = (fs_itable s)[i := (ino s i)\<lparr>ip_addrs := replicate (NDIRECT + 1) 0\<rparr>]" using itrunc_blocks [OF assms] by blast
  define t where "t = upd_ino i (\<lambda>ip. ip\<lparr>ip_size := 0\<rparr>) s4"
  have i: "i < length (fs_itable s)" by (rule ino_okD [OF f(2)])
  have t: "fs_blk t = fs_blk s4" "fs_sb t = fs_sb s" "fs_itable t = (fs_itable s)[i := (ino s i)\<lparr>ip_addrs := replicate (NDIRECT + 1) 0, ip_size := 0\<rparr>]"
    using s4(2,3) i by (simp_all add: t_def upd_ino_def freed_def)
  have ft: "freed (own s i) s t" using s4(2) t(1,2) used_cong [of t s4] map_ok_cong [of t s4] by (simp add: freed_def)
  have e: "file_ok t i" "own t i = {}" using ft t i ino_okD(3) [OF f(2)] by (intro empty_inode; simp add: freed_def)+
  let ?s = "iupdate i t"
  note u = iupdate_ok [OF file_okD(1,2) [OF e(1)]]
  have it: "fs_itable ?s = fs_itable t" "fs_sb ?s = fs_sb s" using t(2) by (simp_all add: iupdate_def Let_def)
  have ino: "ip_addrs (ino ?s i) = replicate (NDIRECT + 1) 0" "ip_size (ino ?s i) = 0" "i < length (fs_itable ?s)" "unat (ip_inum (ino ?s i)) < unat (sb_ninodes (fs_sb ?s))"
    using it t(3) i ino_okD(3) [OF f(2)] by simp_all
  have I: "IBLOCK (unat (ip_inum (ino t i))) (fs_sb s) \<in> inode_area (fs_sb s)" using IBLOCK_area [OF ino_okD(3) [OF file_okD(2) [OF e(1)]]] t(2) by simp
  then have nb: "IBLOCK (unat (ip_inum (ino t i))) (fs_sb t) \<notin> bitmap_area (fs_sb t)" using map_okD(2) [OF f(1)] t(2) by auto
  have us: "used ?s b = used t b" if "unat b < size_of s" for b using used_put_other [OF nb, of b] that t(2) by (simp add: iupdate_def Let_def)
  have "fs_blk ?s b = fs_blk s b" if "b \<notin> bitmap_area (fs_sb s) \<union> inode_area (fs_sb s)" for b
    using that I ft t(2) by (auto simp: iupdate_def Let_def freed_def)
  moreover have "used ?s b = (used s b \<and> b \<notin> own s i)" if "unat b < size_of s" for b using us [OF that] ft that by (simp add: freed_def)
  moreover have "ino ?s j = ino s j" if "j \<noteq> i" for j using it(1) t(3) that by simp
  ultimately show ?thesis
    using s4(1) empty_inode [OF keepsD(2) [OF u(1)] ino(3,1,2,4)] ino(2) unfolding t_def by auto
qed

theorem itrunc_frees_blocks_witness:
  "used demo_dir_fs 1 \<and> (\<exists>s'. itrunc 0 demo_dir_fs = Ok s' \<and> file_ok s' 0 \<and> fsize s' 0 = 0 \<and> \<not> used s' 1)"
proof -
  have "unat (1 :: u32) < size_of demo_dir_fs" by (simp add: demo_dir_fs_def demo_fs_def)
  then show ?thesis using itrunc_frees_blocks [OF demo_dir_fs_file(1)] demo_dir_fs_file(2,3) by auto
qed

text \<open>The inode on disk: what \<open>iupdate\<close> writes for an inode is what \<open>ilock\<close> reads back, and the other inodes of the same
  disk block are untouched.\<close>

theorem iupdate_ilock_roundtrip:
  assumes "map_ok s" and "i < length (fs_itable s)" and "length (ip_addrs (ino s i)) = NDIRECT + 1" and "inum = unat (ip_inum (ino s i))"
  shows "get_dinode (dip_off inum) (fs_blk (iupdate i s) (IBLOCK inum (fs_sb s))) (ino s i) = ino s i
    \<and> (\<forall>p < BSIZE. p < dip_off inum \<or> dip_off inum + 64 \<le> p \<longrightarrow>
         fs_blk (iupdate i s) (IBLOCK inum (fs_sb s)) ! p = fs_blk s (IBLOCK inum (fs_sb s)) ! p)"
proof -
  let ?d = "fs_blk s (IBLOCK inum (fs_sb s))"
  have l: "dip_off inum + 64 \<le> length ?d" using dip_off_range map_okD(1) [OF assms(1)] by simp
  note p = put_dinode_fields [OF l, where ip = "ino s i"]
  have b: "fs_blk (iupdate i s) (IBLOCK inum (fs_sb s)) = put_dinode (dip_off inum) (ino s i) ?d" using assms(4) by (simp add: iupdate_def Let_def)
  have as: "map (\<lambda>k. get32 (dip_off inum + 12 + 4 * k) (put_dinode (dip_off inum) (ino s i) ?d)) [0..<NDIRECT + 1] = ip_addrs (ino s i)"
    using assms(3) p(6) by (intro nth_equalityI) (simp_all del: upt_Suc)
  have "get_dinode (dip_off inum) (put_dinode (dip_off inum) (ino s i) ?d) (ino s i) = ino s i"
    unfolding get_dinode_def p(1-5) as by simp
  then show ?thesis using b p(7) map_okD(1) [OF assms(1)] by simp
qed

theorem iupdate_ilock_roundtrip_witness:
  "get_dinode (dip_off 2) (fs_blk (iupdate 1 demo_fs) (IBLOCK 2 (fs_sb demo_fs))) (ino demo_fs 1) = ino demo_fs 1"
  using iupdate_ilock_roundtrip [OF demo_map, of 1 2] by (simp add: demo_fs_def demo_inode_def)

end
