(* ===== verification/Sysfile.thy ===== *)
theory Sysfile
  imports File Trunc
begin

text \<open>
  The system calls on files, \<open>xv6/kernel/sysfile.c\<close>, with the fetching of arguments of \<open>syscall.c\<close> and the parts of
  \<open>kfork\<close> and \<open>kexit\<close> that deal with open files. The calling process is a record of its own; a call returns
  its value, the process and the state of the kernel.
\<close>

section \<open>Arguments\<close>

record uproc =
  u_self :: caller
  u_ofile :: "nat option list"
  u_cwd :: nat
  u_arg :: "u64 list"

abbreviation pid_of :: "uproc \<Rightarrow> int" where "pid_of p \<equiv> c_pid (u_self p)"

text \<open>The registers \<open>a0\<close> to \<open>a5\<close> of the trap frame.\<close>

definition argraw :: "uproc \<Rightarrow> nat \<Rightarrow> u64 res" where
  "argraw p n = (if n \<le> 5 then Ok (u_arg p ! n) else Panic ''argraw'')"

definition argint :: "uproc \<Rightarrow> nat \<Rightarrow> int res" where
  "argint p n = bind_res (argraw p n) (\<lambda>w. Ok (sint (ucast w :: u32)))"

definition argaddr :: "uproc \<Rightarrow> nat \<Rightarrow> u64 res" where
  "argaddr p n = argraw p n"

definition fetchaddr :: "caller \<Rightarrow> u64 \<Rightarrow> kmem \<Rightarrow> (int \<times> u64 \<times> kmem) res" where
  "fetchaddr p addr k =
     (if addr \<ge> c_sz p \<or> addr + 8 > c_sz p then Ok (- 1, 0, k)
      else
        bind_res (copyin (c_pagetable p) (c_sz p) addr 8 k) (\<lambda>(r, bs, k1).
          if r \<noteq> 0 then Ok (- 1, 0, k1) else Ok (0, ucast (get32 0 bs) OR push_bit 32 (ucast (get32 4 bs)), k1)))"

text \<open>The result is the length, and the string without its NUL.\<close>

definition fetchstr :: "caller \<Rightarrow> u64 \<Rightarrow> nat \<Rightarrow> kmem \<Rightarrow> (int \<times> u8 list \<times> kmem) res" where
  "fetchstr p addr mx k =
     bind_res (copyinstr (c_pagetable p) (c_sz p) addr mx k) (\<lambda>(r, bs, k1).
       if r < 0 then Ok (- 1, [], k1) else Ok (int (strlen bs), cbytes bs, k1))"

definition argstr :: "uproc \<Rightarrow> nat \<Rightarrow> nat \<Rightarrow> kmem \<Rightarrow> (int \<times> u8 list \<times> kmem) res" where
  "argstr p n mx k = bind_res (argaddr p n) (\<lambda>addr. fetchstr (u_self p) addr mx k)"

section \<open>File descriptors\<close>

definition argfd :: "uproc \<Rightarrow> nat \<Rightarrow> (nat \<times> nat) option res" where
  "argfd p n =
     bind_res (argint p n) (\<lambda>fd.
       if fd < 0 \<or> fd \<ge> int NOFILE then Ok None
       else case u_ofile p ! nat fd of None \<Rightarrow> Ok None | Some f \<Rightarrow> Ok (Some (nat fd, f)))"

definition fdalloc :: "nat \<Rightarrow> uproc \<Rightarrow> nat option \<times> uproc" where
  "fdalloc f p =
     (case find (\<lambda>fd. u_ofile p ! fd = None) [0..<NOFILE] of
        Some fd \<Rightarrow> (Some fd, p\<lparr>u_ofile := (u_ofile p)[fd := Some f]\<rparr>)
      | None \<Rightarrow> (None, p))"

definition clear_fd :: "nat \<Rightarrow> uproc \<Rightarrow> uproc" where
  "clear_fd fd p = p\<lparr>u_ofile := (u_ofile p)[fd := None]\<rparr>"

type_synonym 'r call = "('r \<times> uproc \<times> kstate) res"

definition sys_dup :: "uproc \<Rightarrow> kstate \<Rightarrow> int call" where
  "sys_dup p s =
     bind_res (argfd p 0) (\<lambda>a.
       case a of
         None \<Rightarrow> Ok (- 1, p, s)
       | Some (_, f) \<Rightarrow>
           (case fdalloc f p of
              (None, p1) \<Rightarrow> Ok (- 1, p1, s)
            | (Some fd, p1) \<Rightarrow> bind_res (filedup f s) (\<lambda>s1. Ok (int fd, p1, s1))))"

definition sys_read :: "uproc \<Rightarrow> kstate \<Rightarrow> action call" where
  "sys_read p s =
     bind_res (argaddr p 1) (\<lambda>addr. bind_res (argint p 2) (\<lambda>n. bind_res (argfd p 0) (\<lambda>a.
       case a of
         None \<Rightarrow> Ok (Return (- 1), p, s)
       | Some (_, f) \<Rightarrow> bind_res (fileread (u_self p) f addr n s) (\<lambda>(r, s1). Ok (r, p, s1)))))"

definition sys_write :: "uproc \<Rightarrow> kstate \<Rightarrow> action call" where
  "sys_write p s =
     bind_res (argaddr p 1) (\<lambda>addr. bind_res (argint p 2) (\<lambda>n. bind_res (argfd p 0) (\<lambda>a.
       case a of
         None \<Rightarrow> Ok (Return (- 1), p, s)
       | Some (_, f) \<Rightarrow> bind_res (filewrite (u_self p) f addr n s) (\<lambda>(r, s1). Ok (r, p, s1)))))"

definition sys_close :: "uproc \<Rightarrow> kstate \<Rightarrow> int call" where
  "sys_close p s =
     bind_res (argfd p 0) (\<lambda>a.
       case a of
         None \<Rightarrow> Ok (- 1, p, s)
       | Some (fd, f) \<Rightarrow> bind_res (fileclose (pid_of p) f s) (\<lambda>s1. Ok (0, clear_fd fd p, s1)))"

definition sys_fstat :: "u8 list \<Rightarrow> uproc \<Rightarrow> kstate \<Rightarrow> int call" where
  "sys_fstat pad p s =
     bind_res (argaddr p 1) (\<lambda>st. bind_res (argfd p 0) (\<lambda>a.
       case a of
         None \<Rightarrow> Ok (- 1, p, s)
       | Some (_, f) \<Rightarrow> bind_res (filestat pad (u_self p) f st s) (\<lambda>(r, s1). Ok (r, p, s1))))"

section \<open>Links\<close>

text \<open>
  The body of a call between \<open>begin_op\<close> and \<open>end_op\<close> works on the file system alone; \<open>in_tx\<close> runs it as a
  transaction on the state of the kernel.
\<close>

definition in_tx :: "(fs \<Rightarrow> ('r \<times> fs) res) \<Rightarrow> kstate \<Rightarrow> ('r \<times> kstate) res" where
  "in_tx f s = bind_res (f (tx (ks_fs s))) (\<lambda>(r, fs). Ok (r, s\<lparr>ks_fs := tx fs\<rparr>))"

abbreviation name0 :: "u8 list" where "name0 \<equiv> replicate DIRSIZ 0"

definition NLINK_MAX :: int where "NLINK_MAX = 32767"

definition add_link :: "u16 \<Rightarrow> nat \<Rightarrow> fs \<Rightarrow> fs" where
  "add_link d i s = iupdate i (upd_ino i (\<lambda>ip. ip\<lparr>ip_nlink := ip_nlink ip + d\<rparr>) s)"

definition link_bad :: "int \<Rightarrow> nat \<Rightarrow> fs \<Rightarrow> (int \<times> fs) res" where
  "link_bad pid i s =
     bind_res (ilock pid i s) (\<lambda>s1. bind_res (iunlockput pid i (add_link (- 1) i s1)) (\<lambda>s2. Ok (- 1, s2)))"

definition link_tx :: "int \<Rightarrow> nat \<Rightarrow> u8 list \<Rightarrow> u8 list \<Rightarrow> fs \<Rightarrow> (int \<times> fs) res" where
  "link_tx pid cwd old new s =
     bind_res (namei pid cwd old s) (\<lambda>(r, s1).
       case r of
         None \<Rightarrow> Ok (- 1, s1)
       | Some i \<Rightarrow>
           bind_res (ilock pid i s1) (\<lambda>s2.
             if ip_type (ino s2 i) = T_DIR \<or> sint (ip_nlink (ino s2 i)) \<ge> NLINK_MAX
             then bind_res (iunlockput pid i s2) (\<lambda>s3. Ok (- 1, s3))
             else
               bind_res (iunlock pid i (add_link 1 i s2)) (\<lambda>s4.
               bind_res (nameiparent pid cwd new name0 s4) (\<lambda>(d, name, s5).
                 case d of
                   None \<Rightarrow> link_bad pid i s5
                 | Some j \<Rightarrow>
                     bind_res (ilock pid j s5) (\<lambda>s6.
                       if ip_nlink (ino s6 j) = 0 \<or> ip_dev (ino s6 j) \<noteq> ip_dev (ino s6 i)
                       then bind_res (iunlockput pid j s6) (link_bad pid i)
                       else
                         bind_res (dirlink pid j name (ip_inum (ino s6 i)) s6) (\<lambda>(r, s7).
                           if r < 0 then bind_res (iunlockput pid j s7) (link_bad pid i)
                           else
                             bind_res (iunlockput pid j s7) (\<lambda>s8.
                             bind_res (iput pid i s8) (\<lambda>s9. Ok (0, s9)))))))))"

definition sys_link :: "uproc \<Rightarrow> kstate \<Rightarrow> int call" where
  "sys_link p s =
     bind_res (argstr p 0 MAXPATH (ks_mem s)) (\<lambda>(r0, old, k0).
       if r0 < 0 then Ok (- 1, p, s\<lparr>ks_mem := k0\<rparr>)
       else
         bind_res (argstr p 1 MAXPATH k0) (\<lambda>(r1, new, k1).
           if r1 < 0 then Ok (- 1, p, s\<lparr>ks_mem := k1\<rparr>)
           else
             bind_res (in_tx (link_tx (pid_of p) (u_cwd p) old new) (s\<lparr>ks_mem := k1\<rparr>)) (\<lambda>(r, s1). Ok (r, p, s1))))"

function isdirempty_loop :: "nat \<Rightarrow> nat \<Rightarrow> nat \<Rightarrow> fs \<Rightarrow> (bool \<times> fs) res" where
  "isdirempty_loop i off sz s =
     (if off < sz then
        bind_res (readi kcopyout i (of_nat off) 16 s (replicate 16 0)) (\<lambda>(r, s1, de).
          if r \<noteq> 16 then Panic ''isdirempty: readi''
          else if de_inum de \<noteq> 0 then Ok (False, s1)
          else isdirempty_loop i (off + 16) sz s1)
      else Ok (True, s))"
  by pat_completeness auto
termination
  by (relation "measure (\<lambda>(i, off, sz, s). sz - off)") auto

definition isdirempty :: "nat \<Rightarrow> fs \<Rightarrow> (bool \<times> fs) res" where
  "isdirempty i s = isdirempty_loop i 32 (unat (ip_size (ino s i))) s"

definition DOT :: "u8 list" where "DOT = [46, 0]"
definition DOTDOT :: "u8 list" where "DOTDOT = [46, 46, 0]"

text \<open>The part of \<open>sys_unlink\<close> after the entry \<open>off\<close> of directory \<open>d\<close> with inode \<open>i\<close> has been found.\<close>

definition unlink_entry :: "int \<Rightarrow> nat \<Rightarrow> nat \<Rightarrow> nat \<Rightarrow> fs \<Rightarrow> (int \<times> fs) res" where
  "unlink_entry pid d i off s =
     bind_res (ilock pid i s) (\<lambda>s1.
       if sint (ip_nlink (ino s1 i)) < 1 then Panic ''unlink: nlink < 1''
       else
         bind_res (if ip_type (ino s1 i) = T_DIR then isdirempty i s1 else Ok (True, s1)) (\<lambda>(e, s2).
           if \<not> e then
             bind_res (iunlockput pid i s2) (\<lambda>s3. bind_res (iunlockput pid d s3) (\<lambda>s4. Ok (- 1, s4)))
           else
             bind_res (writei kcopyin d (of_nat off) 16 s2 (replicate 16 0)) (\<lambda>(r, s3, _).
               if r \<noteq> 16 then Panic ''unlink: writei''
               else
                 (let s4 = (if ip_type (ino s3 i) = T_DIR then add_link (- 1) d s3 else s3) in
                  bind_res (iunlockput pid d s4) (\<lambda>s5.
                  bind_res (iunlockput pid i (add_link (- 1) i s5)) (\<lambda>s6. Ok (0, s6)))))))"

definition unlink_tx :: "int \<Rightarrow> nat \<Rightarrow> u8 list \<Rightarrow> fs \<Rightarrow> (int \<times> fs) res" where
  "unlink_tx pid cwd path s =
     bind_res (nameiparent pid cwd path name0 s) (\<lambda>(r, name, s1).
       case r of
         None \<Rightarrow> Ok (- 1, s1)
       | Some d \<Rightarrow>
           bind_res (ilock pid d s1) (\<lambda>s2.
             if namecmp name DOT = 0 \<or> namecmp name DOTDOT = 0
             then bind_res (iunlockput pid d s2) (\<lambda>s3. Ok (- 1, s3))
             else
               bind_res (dirlookup d name s2) (\<lambda>(e, s3).
                 case e of
                   None \<Rightarrow> bind_res (iunlockput pid d s3) (\<lambda>s4. Ok (- 1, s4))
                 | Some (i, off) \<Rightarrow> unlink_entry pid d i off s3)))"

definition sys_unlink :: "uproc \<Rightarrow> kstate \<Rightarrow> int call" where
  "sys_unlink p s =
     bind_res (argstr p 0 MAXPATH (ks_mem s)) (\<lambda>(r0, path, k0).
       if r0 < 0 then Ok (- 1, p, s\<lparr>ks_mem := k0\<rparr>)
       else bind_res (in_tx (unlink_tx (pid_of p) (u_cwd p) path) (s\<lparr>ks_mem := k0\<rparr>)) (\<lambda>(r, s1). Ok (r, p, s1)))"


section \<open>Creating and opening\<close>

text \<open>The label \<open>fail\<close> of \<open>create\<close>, and the part from \<open>ialloc\<close> on.\<close>

definition create_fail :: "int \<Rightarrow> nat \<Rightarrow> nat \<Rightarrow> fs \<Rightarrow> (nat option \<times> fs) res" where
  "create_fail pid d i s =
     bind_res (iunlockput pid i (iupdate i (upd_ino i (\<lambda>ip. ip\<lparr>ip_nlink := 0\<rparr>) s))) (\<lambda>s1.
     bind_res (iunlockput pid d s1) (\<lambda>s2. Ok (None, s2)))"

definition create_new :: "int \<Rightarrow> nat \<Rightarrow> u8 list \<Rightarrow> u16 \<Rightarrow> u16 \<Rightarrow> u16 \<Rightarrow> fs \<Rightarrow> (nat option \<times> fs) res" where
  "create_new pid d name type major minor s =
     bind_res (ialloc (ip_dev (ino s d)) type s) (\<lambda>(r, s1).
       case r of
         None \<Rightarrow> bind_res (iunlockput pid d s1) (\<lambda>s2. Ok (None, s2))
       | Some i \<Rightarrow>
           bind_res (ilock pid i s1) (\<lambda>s2.
             (let s3 = iupdate i (upd_ino i (\<lambda>ip. ip\<lparr>ip_major := major, ip_minor := minor, ip_nlink := 1\<rparr>) s2) in
              bind_res
                (if type = T_DIR then
                   bind_res (dirlink pid i DOT (ip_inum (ino s3 i)) s3) (\<lambda>(r1, s4).
                     if r1 < 0 then Ok (r1, s4) else dirlink pid i DOTDOT (ip_inum (ino s4 d)) s4)
                 else Ok (0, s3))
                (\<lambda>(r1, s5).
                  if r1 < 0 then create_fail pid d i s5
                  else
                    bind_res (dirlink pid d name (ip_inum (ino s5 i)) s5) (\<lambda>(r2, s6).
                      if r2 < 0 then create_fail pid d i s6
                      else
                        bind_res (iunlockput pid d (if type = T_DIR then add_link 1 d s6 else s6)) (\<lambda>s7.
                          Ok (Some i, s7)))))))"

definition create :: "int \<Rightarrow> nat \<Rightarrow> u8 list \<Rightarrow> u16 \<Rightarrow> u16 \<Rightarrow> u16 \<Rightarrow> fs \<Rightarrow> (nat option \<times> fs) res" where
  "create pid cwd path type major minor s =
     bind_res (nameiparent pid cwd path name0 s) (\<lambda>(r, name, s1).
       case r of
         None \<Rightarrow> Ok (None, s1)
       | Some d \<Rightarrow>
           bind_res (ilock pid d s1) (\<lambda>s2.
             if ip_nlink (ino s2 d) = 0 \<or> type = T_DIR \<and> sint (ip_nlink (ino s2 d)) \<ge> NLINK_MAX
             then bind_res (iunlockput pid d s2) (\<lambda>s3. Ok (None, s3))
             else
               bind_res (dirlookup d name s2) (\<lambda>(e, s3).
                 case e of
                   Some (i, _) \<Rightarrow>
                     bind_res (iunlockput pid d s3) (\<lambda>s4.
                     bind_res (ilock pid i s4) (\<lambda>s5.
                       if type = T_FILE \<and> (ip_type (ino s5 i) = T_FILE \<or> ip_type (ino s5 i) = T_DEVICE)
                       then Ok (Some i, s5)
                       else bind_res (iunlockput pid i s5) (\<lambda>s6. Ok (None, s6))))
                 | None \<Rightarrow> create_new pid d name type major minor s3)))"

definition O_RDONLY :: u32 where "O_RDONLY = 0x000"
definition O_WRONLY :: u32 where "O_WRONLY = 0x001"
definition O_RDWR :: u32 where "O_RDWR = 0x002"
definition O_CREATE :: u32 where "O_CREATE = 0x200"
definition O_TRUNC :: u32 where "O_TRUNC = 0x400"

text \<open>The locked inode \<open>sys_open\<close> goes on with, \<open>None\<close> where it has released it and returns -1.\<close>

definition open_inode :: "int \<Rightarrow> nat \<Rightarrow> u8 list \<Rightarrow> u32 \<Rightarrow> fs \<Rightarrow> (nat option \<times> fs) res" where
  "open_inode pid cwd path omode s =
     bind_res
       (if omode AND O_CREATE \<noteq> 0 then create pid cwd path T_FILE 0 0 s
        else
          bind_res (namei pid cwd path s) (\<lambda>(r, s1).
            case r of
              None \<Rightarrow> Ok (None, s1)
            | Some i \<Rightarrow>
                bind_res (ilock pid i s1) (\<lambda>s2.
                  if ip_type (ino s2 i) = T_DIR \<and> omode \<noteq> O_RDONLY
                  then bind_res (iunlockput pid i s2) (\<lambda>s3. Ok (None, s3))
                  else Ok (Some i, s2))))
       (\<lambda>(r, s1).
         case r of
           None \<Rightarrow> Ok (None, s1)
         | Some i \<Rightarrow>
             if ip_type (ino s1 i) = T_DEVICE \<and> (sint (ip_major (ino s1 i)) < 0 \<or> sint (ip_major (ino s1 i)) \<ge> int NDEV)
             then bind_res (iunlockput pid i s1) (\<lambda>s2. Ok (None, s2))
             else Ok (Some i, s1))"

text \<open>The fields \<open>sys_open\<close> sets in the new table entry.\<close>

definition opened :: "inode \<Rightarrow> nat \<Rightarrow> u32 \<Rightarrow> file_t \<Rightarrow> file_t" where
  "opened ip i omode x =
     (if ip_type ip = T_DEVICE then x\<lparr>f_type := FD_DEVICE, f_major := ip_major ip\<rparr> else x\<lparr>f_type := FD_INODE, f_off := 0\<rparr>)
     \<lparr>f_ip := i, f_readable := (omode AND O_WRONLY = 0), f_writable := (omode AND O_WRONLY \<noteq> 0 \<or> omode AND O_RDWR \<noteq> 0)\<rparr>"

definition open_file :: "uproc \<Rightarrow> nat \<Rightarrow> u32 \<Rightarrow> kstate \<Rightarrow> int call" where
  "open_file p i omode s =
     (case filealloc s of
        (None, s1) \<Rightarrow> bind_res (iunlockput (pid_of p) i (ks_fs s1)) (\<lambda>fs. Ok (- 1, p, s1\<lparr>ks_fs := fs\<rparr>))
      | (Some f, s1) \<Rightarrow>
          (case fdalloc f p of
             (None, p1) \<Rightarrow>
               bind_res (fileclose (pid_of p) f s1) (\<lambda>s2.
               bind_res (iunlockput (pid_of p) i (ks_fs s2)) (\<lambda>fs. Ok (- 1, p1, s2\<lparr>ks_fs := fs\<rparr>)))
           | (Some fd, p1) \<Rightarrow>
               (let ip = ino (ks_fs s1) i; s2 = upd_file f (opened ip i omode) s1 in
                bind_res (if omode AND O_TRUNC \<noteq> 0 \<and> ip_type ip = T_FILE then itrunc i (ks_fs s2) else Ok (ks_fs s2)) (\<lambda>fs1.
                bind_res (iunlock (pid_of p) i fs1) (\<lambda>fs2. Ok (int fd, p1, s2\<lparr>ks_fs := fs2\<rparr>))))))"

definition sys_open :: "uproc \<Rightarrow> kstate \<Rightarrow> int call" where
  "sys_open p s =
     bind_res (argint p 1) (\<lambda>m. bind_res (argstr p 0 MAXPATH (ks_mem s)) (\<lambda>(r0, path, k0).
       if r0 < 0 then Ok (- 1, p, s\<lparr>ks_mem := k0\<rparr>)
       else
         bind_res (open_inode (pid_of p) (u_cwd p) path (of_int m) (tx (ks_fs s))) (\<lambda>(r, fs).
           (let s1 = s\<lparr>ks_mem := k0, ks_fs := fs\<rparr> in
            case r of
              None \<Rightarrow> Ok (- 1, p, tx_state s1)
            | Some i \<Rightarrow> bind_res (open_file p i (of_int m) s1) (\<lambda>(fd, p1, s2). Ok (fd, p1, tx_state s2))))))"

text \<open>\<open>sys_mkdir\<close> and \<open>sys_mknod\<close> differ in what they create.\<close>

definition create_call :: "u16 \<Rightarrow> u16 \<Rightarrow> u16 \<Rightarrow> uproc \<Rightarrow> kstate \<Rightarrow> int call" where
  "create_call type major minor p s =
     bind_res (argstr p 0 MAXPATH (ks_mem s)) (\<lambda>(r0, path, k0).
       if r0 < 0 then Ok (- 1, p, tx_state (s\<lparr>ks_mem := k0\<rparr>))
       else
         bind_res
           (in_tx (\<lambda>fs. bind_res (create (pid_of p) (u_cwd p) path type major minor fs) (\<lambda>(r, fs1).
              case r of
                None \<Rightarrow> Ok (- 1, fs1)
              | Some i \<Rightarrow> bind_res (iunlockput (pid_of p) i fs1) (\<lambda>fs2. Ok (0, fs2)))) (s\<lparr>ks_mem := k0\<rparr>))
           (\<lambda>(r, s1). Ok (r, p, s1)))"

definition sys_mkdir :: "uproc \<Rightarrow> kstate \<Rightarrow> int call" where
  "sys_mkdir p s = create_call T_DIR 0 0 p s"

definition sys_mknod :: "uproc \<Rightarrow> kstate \<Rightarrow> int call" where
  "sys_mknod p s =
     bind_res (argint p 1) (\<lambda>major. bind_res (argint p 2) (\<lambda>minor. create_call T_DEVICE (of_int major) (of_int minor) p s))"

text \<open>The body of \<open>sys_chdir\<close>: the new current directory, if there is one.\<close>

definition chdir_tx :: "int \<Rightarrow> nat \<Rightarrow> u8 list \<Rightarrow> fs \<Rightarrow> (nat option \<times> fs) res" where
  "chdir_tx pid cwd path s =
     bind_res (namei pid cwd path s) (\<lambda>(r, s1).
       case r of
         None \<Rightarrow> Ok (None, s1)
       | Some i \<Rightarrow>
           bind_res (ilock pid i s1) (\<lambda>s2.
             if ip_type (ino s2 i) \<noteq> T_DIR then bind_res (iunlockput pid i s2) (\<lambda>s3. Ok (None, s3))
             else bind_res (iunlock pid i s2) (\<lambda>s3. bind_res (iput pid cwd s3) (\<lambda>s4. Ok (Some i, s4)))))"

definition sys_chdir :: "uproc \<Rightarrow> kstate \<Rightarrow> int call" where
  "sys_chdir p s =
     bind_res (argstr p 0 MAXPATH (ks_mem s)) (\<lambda>(r0, path, k0).
       if r0 < 0 then Ok (- 1, p, tx_state (s\<lparr>ks_mem := k0\<rparr>))
       else
         bind_res (in_tx (chdir_tx (pid_of p) (u_cwd p) path) (s\<lparr>ks_mem := k0\<rparr>)) (\<lambda>(r, s1).
           case r of None \<Rightarrow> Ok (- 1, p, s1) | Some i \<Rightarrow> Ok (0, p\<lparr>u_cwd := i\<rparr>, s1)))"

section \<open>Pipes\<close>

definition close_both :: "int \<Rightarrow> nat \<Rightarrow> nat \<Rightarrow> kstate \<Rightarrow> kstate res" where
  "close_both pid rfile wfile s = bind_res (fileclose pid rfile s) (fileclose pid wfile)"

definition sys_pipe :: "uproc \<Rightarrow> kstate \<Rightarrow> int call" where
  "sys_pipe p s =
     bind_res (argaddr p 0) (\<lambda>fdarray. bind_res (pipealloc (pid_of p) s) (\<lambda>(r, s1).
       case r of
         None \<Rightarrow> Ok (- 1, p, s1)
       | Some (rfile, wfile) \<Rightarrow>
           (case fdalloc rfile p of
              (None, p1) \<Rightarrow> bind_res (close_both (pid_of p) rfile wfile s1) (\<lambda>s2. Ok (- 1, p1, s2))
            | (Some fd0, p1) \<Rightarrow>
                (case fdalloc wfile p1 of
                   (None, p2) \<Rightarrow> bind_res (close_both (pid_of p) rfile wfile s1) (\<lambda>s2. Ok (- 1, clear_fd fd0 p2, s2))
                 | (Some fd1, p2) \<Rightarrow>
                     bind_res (copyout (c_pagetable (u_self p)) (c_sz (u_self p)) fdarray (le32 (of_nat fd0)) (ks_mem s1)) (\<lambda>(r0, k0).
                     bind_res (if r0 < 0 then Ok (r0, k0)
                               else copyout (c_pagetable (u_self p)) (c_sz (u_self p)) (fdarray + 4) (le32 (of_nat fd1)) k0) (\<lambda>(r1, k1).
                       (let s2 = s1\<lparr>ks_mem := k1\<rparr> in
                        if r1 < 0 then
                          bind_res (close_both (pid_of p) rfile wfile s2) (\<lambda>s3. Ok (- 1, clear_fd fd1 (clear_fd fd0 p2), s3))
                        else Ok (0, p2, s2))))))))"

section \<open>Open files over fork and exit\<close>

text \<open>The loop of \<open>kfork\<close> over the descriptors: the child \<open>np\<close>, whose table is empty, gets a reference to each open file.\<close>

definition fork_files :: "uproc \<Rightarrow> uproc \<Rightarrow> kstate \<Rightarrow> (uproc \<times> kstate) res" where
  "fork_files p np s =
     bind_res
       (fold_res (\<lambda>i (q, s). case u_ofile p ! i of
            None \<Rightarrow> Ok (q, s)
          | Some f \<Rightarrow> bind_res (filedup f s) (\<lambda>s1. Ok (q\<lparr>u_ofile := (u_ofile q)[i := Some f]\<rparr>, s1))) [0..<NOFILE] (np, s))
       (\<lambda>(q, s1). Ok (q\<lparr>u_cwd := u_cwd p\<rparr>, s1\<lparr>ks_fs := idup (u_cwd p) (ks_fs s1)\<rparr>))"

definition exit_files :: "uproc \<Rightarrow> kstate \<Rightarrow> (uproc \<times> kstate) res" where
  "exit_files p s =
     bind_res
       (fold_res (\<lambda>fd (q, s). case u_ofile q ! fd of
            None \<Rightarrow> Ok (q, s)
          | Some f \<Rightarrow> bind_res (fileclose (pid_of p) f s) (\<lambda>s1. Ok (clear_fd fd q, s1))) [0..<NOFILE] (p, s))
       (\<lambda>(q, s1). bind_res (in_tx (\<lambda>fs. bind_res (iput (pid_of p) (u_cwd q) fs) (\<lambda>fs1. Ok ((), fs1))) s1) (\<lambda>(_, s2). Ok (q, s2)))"

declare isdirempty_loop.simps [simp del]

end
