(* ===== verification/SysfileInv.thy ===== *)
theory SysfileInv
  imports Sysfile
begin

text \<open>
  Open files under any sequence of system calls of any number of processes: the reference count of a table entry is the
  number of descriptors that refer to it.
\<close>

section \<open>Counting references\<close>

text \<open>
  The references to table entry \<open>f\<close>: those in the descriptor tables \<open>os\<close>, and those in \<open>xs\<close>, which a call in
  progress holds in its local variables.
\<close>

definition refs :: "nat option list list \<Rightarrow> nat list \<Rightarrow> nat \<Rightarrow> nat" where
  "refs os xs f = count_list (concat os) (Some f) + count_list xs f"

definition refs_ok :: "nat option list list \<Rightarrow> nat list \<Rightarrow> kstate \<Rightarrow> bool" where
  "refs_ok os xs s \<longleftrightarrow> length (ks_file s) = NFILE \<and> (\<forall>f. 0 < refs os xs f \<longrightarrow> f < NFILE)
     \<and> (\<forall>f < NFILE. f_ref (fil s f) = int (refs os xs f) \<and> (refs os xs f = 0 \<longrightarrow> f_type (fil s f) = FD_NONE))"

lemma refs_simps [simp]: "refs os (x # xs) f = (if x = f then 1 else 0) + refs os xs f"
  by (simp add: refs_def)

lemma count_list_update:
  "i < length xs \<Longrightarrow> count_list (xs[i := y]) z + (if xs ! i = z then 1 else 0) = count_list xs z + (if y = z then 1 else 0)"
proof (induction xs arbitrary: i)
  case (Cons x xs)
  show ?case
  proof (cases i)
    case (Suc j)
    then show ?thesis using Cons.IH [of j] Cons.prems by (auto split: if_splits)
  qed simp
qed simp

lemma count_concat_update:
  "i < length os \<Longrightarrow> count_list (concat (os[i := o'])) z + count_list (os ! i) z = count_list (concat os) z + count_list o' z"
  by (induction os arbitrary: i) (auto split: nat.splits)

text \<open>A reference moves between a free descriptor and a local variable.\<close>

lemma refs_fd:
  assumes "i < length os" "fd < length (os ! i)" "os ! i ! fd = None"
  shows "refs (os[i := (os ! i)[fd := Some f]]) xs g = refs os (f # xs) g"
proof -
  have "count_list ((os ! i)[fd := Some f]) (Some g) = count_list (os ! i) (Some g) + (if f = g then 1 else 0)"
    using count_list_update [OF assms(2), of "Some f" "Some g"] assms(3) by simp
  then show ?thesis using count_concat_update [OF assms(1), of "(os ! i)[fd := Some f]" "Some g"] by (simp add: refs_def)
qed

lemma refs_clear:
  assumes "i < length os" "fd < length (os ! i)" "os ! i ! fd = Some f"
  shows "refs (os[i := (os ! i)[fd := None]]) (f # xs) g = refs os xs g"
proof -
  have "count_list ((os ! i)[fd := None]) (Some g) + (if f = g then 1 else 0) = count_list (os ! i) (Some g)"
    using count_list_update [OF assms(2), of None "Some g"] assms(3) by simp
  then show ?thesis using count_concat_update [OF assms(1), of "(os ! i)[fd := None]" "Some g"] by (auto simp: refs_def split: if_splits)
qed

lemma refs_pos: "i < length os \<Longrightarrow> fd < length (os ! i) \<Longrightarrow> os ! i ! fd = Some f \<Longrightarrow> 0 < refs os xs f"
  using count_list_0_iff [of "concat os" "Some f"] by (auto simp: refs_def) (metis nth_mem)

lemma refs_ok_cong: "refs_ok os xs s \<Longrightarrow> (\<And>f. refs os' xs' f = refs os xs f) \<Longrightarrow> refs_ok os' xs' s"
  by (simp add: refs_ok_def)

section \<open>Operations on the table\<close>

text \<open>A change that touches neither the reference counts nor the types of files in use.\<close>

definition same_refs :: "kstate \<Rightarrow> kstate \<Rightarrow> bool" where
  "same_refs s s' \<longleftrightarrow> length (ks_file s') = length (ks_file s) \<and> (\<forall>f. f_ref (fil s' f) = f_ref (fil s f))
     \<and> (\<forall>f. f_ref (fil s f) = 0 \<longrightarrow> f_type (fil s' f) = f_type (fil s f))"

lemma same_refs_refl [simp]: "same_refs s s"
  by (simp add: same_refs_def)

lemma same_refs_trans: "same_refs s s1 \<Longrightarrow> same_refs s1 s2 \<Longrightarrow> same_refs s s2"
  by (simp add: same_refs_def)

lemma same_refs_table: "ks_file s' = ks_file s \<Longrightarrow> same_refs s s'"
  by (simp add: same_refs_def)

lemma refs_ok_same: "refs_ok os xs s \<Longrightarrow> same_refs s s' \<Longrightarrow> refs_ok os xs s'"
  unfolding refs_ok_def same_refs_def by (metis of_nat_eq_0_iff)

lemma same_refs_upd:
  assumes "f_ref (g (fil s f)) = f_ref (fil s f)" "f_ref (fil s f) = 0 \<Longrightarrow> f_type (g (fil s f)) = f_type (fil s f)"
  shows "same_refs s (upd_file f g s)"
  unfolding same_refs_def upd_file_def
proof (intro conjI allI impI)
  fix x
  show "f_ref (fil (s\<lparr>ks_file := (ks_file s)[f := g (fil s f)]\<rparr>) x) = f_ref (fil s x)"
    using assms(1) by (cases "x = f"; cases "f < length (ks_file s)") (auto simp: list_update_beyond)
  show "f_type (fil (s\<lparr>ks_file := (ks_file s)[f := g (fil s f)]\<rparr>) x) = f_type (fil s x)" if "f_ref (fil s x) = 0"
    using assms(2) that by (cases "x = f"; cases "f < length (ks_file s)") (auto simp: list_update_beyond)
qed simp

lemma filealloc_refs:
  assumes "refs_ok os xs s" "filealloc s = (r, s')"
  obtains "r = None" "s' = s" | f where "r = Some f" "refs_ok os (f # xs) s'" "refs os xs f = 0" "f < NFILE" "f_type (fil s' f) = FD_NONE"
proof (cases "find (\<lambda>f. f_ref (fil s f) = 0) [0..<NFILE]")
  case None
  then show thesis using assms(2) that(1) by (simp add: filealloc_def)
next
  case (Some f)
  then have f: "f < NFILE" "f_ref (fil s f) = 0" by (auto simp: find_Some_iff)
  then have z: "refs os xs f = 0" "f_type (fil s f) = FD_NONE" "length (ks_file s) = NFILE" using assms(1) by (auto simp: refs_ok_def)
  have s': "s' = upd_file f (\<lambda>x. x\<lparr>f_ref := 1\<rparr>) s" "r = Some f" using Some assms(2) by (simp_all add: filealloc_def)
  have "refs_ok os (f # xs) s'" using assms(1) f z unfolding refs_ok_def s'(1) upd_file_def by (auto simp: nth_list_update)
  then show thesis using that(2) s'(2) z f by (simp add: s'(1) upd_file_def)
qed

lemma filedup_refs:
  assumes "refs_ok os xs s" "0 < refs os xs f"
  shows "\<exists>s'. filedup f s = Ok s' \<and> refs_ok os (f # xs) s'"
proof -
  have f: "f < NFILE" "f_ref (fil s f) = int (refs os xs f)" "length (ks_file s) = NFILE" using assms by (auto simp: refs_ok_def)
  let ?s = "upd_file f (\<lambda>x. x\<lparr>f_ref := f_ref x + 1\<rparr>) s"
  have "refs_ok os (f # xs) ?s" using assms f unfolding refs_ok_def upd_file_def by (auto simp: nth_list_update)
  then show ?thesis using f(2) assms(2) by (simp add: filedup_def)
qed

lemma close_pipe_same: "close_pipe pi w s = Ok s' \<Longrightarrow> ks_file s' = ks_file s"
  by (auto simp: close_pipe_def Let_def split: prod.splits if_splits)

lemma fileclose_refs:
  assumes "refs_ok os (f # xs) s" "fileclose pid f s = Ok s'"
  shows "refs_ok os xs s'"
proof -
  have f: "f < NFILE" "f_ref (fil s f) = int (refs os xs f) + 1" "length (ks_file s) = NFILE" using assms(1) by (auto simp: refs_ok_def)
  show ?thesis
  proof (cases "refs os xs f = 0")
    case False
    then have "s' = upd_file f (\<lambda>x. x\<lparr>f_ref := f_ref x - 1\<rparr>) s" using assms(2) f(2) by (simp add: fileclose_def)
    then show ?thesis using assms(1) f False unfolding refs_ok_def upd_file_def by (auto simp: nth_list_update)
  next
    case True
    let ?s = "upd_file f (\<lambda>x. x\<lparr>f_ref := 0, f_type := FD_NONE\<rparr>) s"
    have "refs_ok os xs ?s" using assms(1) f True unfolding refs_ok_def upd_file_def by (auto simp: nth_list_update)
    moreover have "ks_file s' = ks_file ?s"
      using assms(2) f(2) True close_pipe_same [of _ _ ?s s'] by (auto simp: fileclose_def Let_def split: if_splits)
    ultimately show ?thesis using refs_ok_same same_refs_table by blast
  qed
qed

lemma pipealloc_refs:
  assumes "refs_ok os xs s" "pipealloc pid s = Ok (r, s')"
  shows "case r of None \<Rightarrow> refs_ok os xs s' | Some (f, g) \<Rightarrow> refs_ok os (f # g # xs) s'"
proof -
  obtain r0 s1 where a: "filealloc s = (r0, s1)" by fastforce
  from assms(1) a show ?thesis
  proof (cases rule: filealloc_refs)
    case 1
    then show ?thesis using assms a by (simp add: pipealloc_def)
  next
    case (2 f)
    obtain r1 s2 where b: "filealloc s1 = (r1, s2)" by fastforce
    from 2(2) b show ?thesis
    proof (cases rule: filealloc_refs)
      case 1
      then show ?thesis using assms(2) a b 2 fileclose_refs by (auto simp: pipealloc_def)
    next
      case g: (2 g)
      obtain pi k where k: "kalloc (ks_mem s2) = (pi, k)" by fastforce
      have s3: "refs_ok os (g # f # xs) (s2\<lparr>ks_mem := k\<rparr>)" using g(2) by (rule refs_ok_same) (simp add: same_refs_table)
      show ?thesis
      proof (cases "pi = 0")
        case True
        then obtain s4 where "fileclose pid f (s2\<lparr>ks_mem := k\<rparr>) = Ok s4" "fileclose pid g s4 = Ok s'" "r = None"
          using assms(2) a b k 2(1) g(1) by (auto simp: pipealloc_def)
        moreover have "refs_ok os (f # g # xs) (s2\<lparr>ks_mem := k\<rparr>)" using s3 by (rule refs_ok_cong) simp
        ultimately show ?thesis using fileclose_refs [of os g xs s4 pid s'] fileclose_refs [of os f "g # xs" _ pid s4] by auto
      next
        case False
        let ?s4 = "s2\<lparr>ks_mem := k, ks_pipe := (ks_pipe s2)(pi := pipeinit (replicate PIPESIZE 5))\<rparr>"
        let ?s5 = "upd_file f (\<lambda>x. x\<lparr>f_type := FD_PIPE, f_readable := True, f_writable := False, f_pipe := pi\<rparr>) ?s4"
        have r: "r = Some (f, g)" "s' = upd_file g (\<lambda>x. x\<lparr>f_type := FD_PIPE, f_readable := False, f_writable := True, f_pipe := pi\<rparr>) ?s5"
          using assms(2) a b k 2(1) g(1) False by (auto simp: pipealloc_def Let_def)
        have nz: "f_ref (fil s2 f) \<noteq> 0" "f_ref (fil s2 g) \<noteq> 0" using g(2,4) 2(4) by (auto simp: refs_ok_def)
        then have "same_refs ?s4 ?s5" by (intro same_refs_upd) simp_all
        moreover have "same_refs ?s5 s'" unfolding r(2)
          using nz(2) \<open>same_refs ?s4 ?s5\<close> by (intro same_refs_upd) (simp_all add: same_refs_def)
        moreover have "same_refs s2 ?s4" by (simp add: same_refs_table)
        ultimately have "same_refs s2 s'" using same_refs_trans by blast
        then have "refs_ok os (g # f # xs) s'" using g(2) refs_ok_same by blast
        then show ?thesis unfolding r(1) prod.case option.case by (rule refs_ok_cong) simp
      qed
    qed
  qed
qed


section \<open>System calls\<close>

text \<open>
  A call of the process with descriptor table number \<open>i\<close> keeps the counts right, whatever references other calls in
  progress hold.
\<close>

definition counted :: "uproc \<Rightarrow> kstate \<Rightarrow> uproc \<Rightarrow> kstate \<Rightarrow> bool" where
  "counted p s p' s' \<longleftrightarrow> length (u_ofile p') = length (u_ofile p)
     \<and> (\<forall>os i xs. i < length os \<longrightarrow> os ! i = u_ofile p \<longrightarrow> refs_ok os xs s \<longrightarrow> refs_ok (os[i := u_ofile p']) xs s')"

lemma counted_same: "u_ofile p' = u_ofile p \<Longrightarrow> same_refs s s' \<Longrightarrow> counted p s p' s'"
  unfolding counted_def using refs_ok_same by (metis list_update_id)

lemma countedI:
  assumes "length (u_ofile p') = length (u_ofile p)"
    and "\<And>os i xs. i < length os \<Longrightarrow> os ! i = u_ofile p \<Longrightarrow> refs_ok os xs s \<Longrightarrow> refs_ok (os[i := u_ofile p']) xs s'"
  shows "counted p s p' s'"
  using assms by (simp add: counted_def)

lemma counted_trans:
  assumes "counted p s p1 s1" "counted p1 s1 p2 s2"
  shows "counted p s p2 s2"
proof (rule countedI)
  fix os i xs assume "i < length os" "os ! i = u_ofile p" "refs_ok os xs s"
  moreover from this have "refs_ok (os[i := u_ofile p1]) xs s1" using assms(1) by (simp add: counted_def)
  ultimately have "refs_ok ((os[i := u_ofile p1])[i := u_ofile p2]) xs s2" using assms(2) unfolding counted_def by (metis length_list_update nth_list_update_eq)
  then show "refs_ok (os[i := u_ofile p2]) xs s2" by simp
qed (use assms in \<open>simp add: counted_def\<close>)

lemma argfd_Some:
  assumes "argfd p n = Ok (Some (fd, f))"
  shows "fd < NOFILE" "u_ofile p ! fd = Some f"
  using assms by (auto simp: argfd_def split: if_splits option.splits)

lemma fdalloc_cases:
  assumes "fdalloc f p = (r, p')" "length (u_ofile p) = NOFILE"
  obtains "r = None" "p' = p" | fd where "r = Some fd" "p' = p\<lparr>u_ofile := (u_ofile p)[fd := Some f]\<rparr>" "fd < NOFILE" "u_ofile p ! fd = None"
proof (cases "find (\<lambda>fd. u_ofile p ! fd = None) [0..<NOFILE]")
  case (Some fd)
  then have "fd < NOFILE" "u_ofile p ! fd = None" by (auto simp: find_Some_iff)
  then show thesis using that(2) [of fd] assms(1) Some by (auto simp: fdalloc_def)
qed (use that(1) assms(1) in \<open>simp add: fdalloc_def\<close>)

text \<open>Installing a reference held by the call, and taking one out of the table.\<close>

lemma refs_ok_install:
  assumes "refs_ok os (f # xs) s" "i < length os" "os ! i = o'" "fd < length o'" "o' ! fd = None"
  shows "refs_ok (os[i := o'[fd := Some f]]) xs s"
  using assms(1) by (rule refs_ok_cong) (use refs_fd [of i os fd f xs] assms(2-5) in simp)

lemma refs_ok_take:
  assumes "refs_ok os xs s" "i < length os" "os ! i = o'" "fd < length o'" "o' ! fd = Some f"
  shows "refs_ok (os[i := o'[fd := None]]) (f # xs) s"
  using assms(1) by (rule refs_ok_cong) (use refs_clear [of i os fd f xs] assms(2-5) in simp)

lemma sys_dup_counted:
  assumes "sys_dup p s = Ok (r, p', s')" "length (u_ofile p) = NOFILE"
  shows "counted p s p' s'"
proof (cases "argfd p 0")
  case (Ok a)
  show ?thesis
  proof (cases a)
    case None
    then show ?thesis using assms Ok by (simp add: sys_dup_def counted_same)
  next
    case (Some b)
    obtain fd0 f where b: "b = (fd0, f)" by fastforce
    note a = argfd_Some [OF Ok [unfolded Some b]]
    obtain r1 p1 where "fdalloc f p = (r1, p1)" by fastforce
    then show ?thesis using assms(2)
    proof (cases rule: fdalloc_cases)
      case 1
      then show ?thesis using assms Ok Some b \<open>fdalloc f p = (r1, p1)\<close> by (simp add: sys_dup_def counted_same)
    next
      case (2 fd)
      have d: "filedup f s = Ok s'" "p' = p1" using assms(1) Ok Some b \<open>fdalloc f p = (r1, p1)\<close> 2 by (auto simp: sys_dup_def)
      show ?thesis unfolding d(2)
      proof (rule countedI)
        fix os i xs assume o: "i < length os" "os ! i = u_ofile p" "refs_ok os xs s"
        have "0 < refs os xs f" using refs_pos [OF o(1), of fd0 f xs] a assms(2) o(2) by simp
        then have "refs_ok os (f # xs) s'" using filedup_refs [OF o(3), of f] d(1) by simp
        then show "refs_ok (os[i := u_ofile p1]) xs s'" using refs_ok_install [OF _ o(1,2)] 2 assms(2) by simp
      qed (simp add: 2)
    qed
  qed
qed (use assms in \<open>simp add: sys_dup_def\<close>)

lemma close_fd_counted:
  assumes "fileclose pid f s = Ok s'" "fd < length (u_ofile p)" "u_ofile p ! fd = Some f"
  shows "counted p s (clear_fd fd p) s'"
proof (rule countedI)
  fix os i xs assume o: "i < length os" "os ! i = u_ofile p" "refs_ok os xs s"
  have "refs_ok (os[i := (u_ofile p)[fd := None]]) (f # xs) s" by (rule refs_ok_take [OF o(3,1,2) assms(2,3)])
  then show "refs_ok (os[i := u_ofile (clear_fd fd p)]) xs s'" using fileclose_refs assms(1) by (fastforce simp: clear_fd_def)
qed (simp add: clear_fd_def)

lemma sys_close_counted:
  assumes "sys_close p s = Ok (r, p', s')" "length (u_ofile p) = NOFILE"
  shows "counted p s p' s'"
  using assms argfd_Some [of p 0] close_fd_counted [of "pid_of p" _ s s' _ p]
  by (auto simp: sys_close_def counted_same split: option.splits prod.splits)

lemma upd_off_same: "same_refs s (upd_file f (\<lambda>x. if b then x\<lparr>f_off := h x\<rparr> else x) s)"
  by (rule same_refs_upd) simp_all

lemma fileread_same: "fileread p f addr n s = Ok (r, s') \<Longrightarrow> same_refs s s'"
  using same_refs_trans [OF same_refs_table upd_off_same]
  by (auto simp: fileread_def Let_def split: ftype.splits if_splits)

lemma write_some_same: "write_some p f addr n s = Ok (r, s') \<Longrightarrow> same_refs s s'"
  using same_refs_trans [OF same_refs_table upd_off_same] by (auto simp: write_some_def Let_def)

lemma filewrite_loop_same: "filewrite_loop p f addr n i s = Ok (r, s') \<Longrightarrow> same_refs s s'"
proof (induction p f addr n i s rule: filewrite_loop.induct)
  case (1 p f addr n i s)
  show ?case
  proof (cases "i < n")
    case False
    then show ?thesis using 1(2) by (subst (asm) filewrite_loop.simps) simp
  next
    case True
    let ?n1 = "if n - i > write_max then write_max else n - i"
    obtain t s1 where w: "write_some p f (addr + of_int i) ?n1 (tx_state s) = Ok (t, s1)"
      "(if t \<noteq> ?n1 then Ok (i, tx_state s1) else filewrite_loop p f addr n (i + t) (tx_state s1)) = Ok (r, s')"
      using 1(2) True by (subst (asm) filewrite_loop.simps) (auto simp: Let_def)
    have t: "same_refs s (tx_state s)" "same_refs s1 (tx_state s1)" by (simp_all add: same_refs_table tx_state_def)
    have s1: "same_refs s (tx_state s1)" by (rule same_refs_trans [OF same_refs_trans [OF t(1) write_some_same [OF w(1)]] t(2)])
    show ?thesis
    proof (cases "t = ?n1")
      case False
      then show ?thesis using w(2) s1 by simp
    next
      case t: True
      have "same_refs (tx_state s1) s'" using 1(1) [OF True refl, of t s1] t w(2) by simp
      with s1 show ?thesis by (rule same_refs_trans)
    qed
  qed
qed

lemma filewrite_same: "filewrite p f addr n s = Ok (r, s') \<Longrightarrow> same_refs s s'"
  using filewrite_loop_same [of p f addr n 0 s] by (auto simp: filewrite_def Let_def split: ftype.splits if_splits)

lemma filestat_same: "filestat pad p f addr s = Ok (r, s') \<Longrightarrow> same_refs s s'"
  by (auto simp: filestat_def Let_def same_refs_table split: if_splits)


lemma open_file_counted:
  assumes "open_file p j omode s = Ok (r, p', s')" "length (u_ofile p) = NOFILE"
  shows "counted p s p' s'"
proof -
  obtain r0 s1 where a: "filealloc s = (r0, s1)" by fastforce
  show ?thesis
  proof (cases r0)
    case None
    then have s1: "s1 = s" using a by (auto simp: filealloc_def split: option.splits)
    obtain fs where "p' = p" "s' = s1\<lparr>ks_fs := fs\<rparr>" using assms(1) a None by (auto simp: open_file_def)
    then show ?thesis using s1 by (simp add: counted_same same_refs_table)
  next
    case r0: (Some f)
    obtain r1 p1 where b: "fdalloc f p = (r1, p1)" by fastforce
    from b assms(2) show ?thesis
    proof (cases rule: fdalloc_cases)
      case 1
      then obtain s2 fs where c: "fileclose (pid_of p) f s1 = Ok s2" "p' = p" "s' = s2\<lparr>ks_fs := fs\<rparr>"
        using assms(1) a b r0 by (auto simp: open_file_def)
      show ?thesis unfolding c(2)
      proof (rule countedI)
        fix os i xs assume o: "refs_ok os xs s"
        from o a have "refs_ok os (f # xs) s1" by (cases rule: filealloc_refs) (use r0 in auto)
        then have "refs_ok os xs s2" using c(1) fileclose_refs by blast
        then have "refs_ok os xs s'" by (rule refs_ok_same) (simp add: c(3) same_refs_table)
        then show "refs_ok (os[i := u_ofile p]) xs s'" if "os ! i = u_ofile p" using that by (metis list_update_id)
      qed simp
    next
      case (2 fd)
      let ?s2 = "upd_file f (opened (ino (ks_fs s1) j) j omode) s1"
      obtain fs where c: "p' = p1" "s' = ?s2\<lparr>ks_fs := fs\<rparr>" using assms(1) a b r0 2(1) by (auto simp: open_file_def Let_def)
      show ?thesis unfolding c(1)
      proof (rule countedI)
        fix os i xs assume o: "refs_ok os xs s" "i < length os" "os ! i = u_ofile p"
        from o(1) a have s1: "refs_ok os (f # xs) s1" "f < NFILE" by (cases rule: filealloc_refs; use r0 in auto)+
        then have "f_ref (fil s1 f) \<noteq> 0" by (auto simp: refs_ok_def)
        then have "same_refs s1 ?s2" by (intro same_refs_upd) (simp_all add: opened_def)
        then have "same_refs s1 s'" using same_refs_trans [OF _ same_refs_table] by (simp add: c(2))
        then have "refs_ok os (f # xs) s'" using s1(1) refs_ok_same by blast
        then show "refs_ok (os[i := u_ofile p1]) xs s'" using refs_ok_install [OF _ o(2,3)] 2 assms(2) by simp
      qed (simp add: 2)
    qed
  qed
qed

lemma counted_same_trans: "same_refs s s1 \<Longrightarrow> counted p s1 p' s2 \<Longrightarrow> same_refs s2 s3 \<Longrightarrow> counted p s p' s3"
  using counted_trans [OF counted_trans [OF counted_same [of p p]] counted_same [of p' p']] by blast

lemma tx_state_refs: "same_refs s (tx_state s)" "same_refs s (tx_state (s\<lparr>ks_mem := k\<rparr>))" "same_refs s (tx_state (s\<lparr>ks_mem := k, ks_fs := fs\<rparr>))"
  by (simp_all add: same_refs_table tx_state_def)

lemma in_tx_same: "in_tx f s = Ok (r, s') \<Longrightarrow> same_refs s s'"
  by (auto simp: in_tx_def same_refs_table)

lemma sys_open_counted:
  assumes "sys_open p s = Ok (r, p', s')" "length (u_ofile p) = NOFILE"
  shows "counted p s p' s'"
proof -
  obtain m r0 path k0 where a: "argint p 1 = Ok m" "argstr p 0 MAXPATH (ks_mem s) = Ok (r0, path, k0)" using assms(1) by (auto simp: sys_open_def)
  show ?thesis
  proof (cases "r0 < 0")
    case True
    then show ?thesis using assms(1) a by (auto simp: sys_open_def intro!: counted_same same_refs_table)
  next
    case False
    then obtain o' fs where b: "open_inode (pid_of p) (u_cwd p) path (of_int m) (tx (ks_fs s)) = Ok (o', fs)" using assms(1) a by (auto simp: sys_open_def)
    let ?s1 = "s\<lparr>ks_mem := k0, ks_fs := fs\<rparr>"
    show ?thesis
    proof (cases o')
      case None
      then show ?thesis using assms(1) a b False tx_state_refs(3) by (auto simp: sys_open_def Let_def intro!: counted_same)
    next
      case (Some j)
      then obtain s2 where c: "open_file p j (of_int m) ?s1 = Ok (r, p', s2)" "s' = tx_state s2" using assms(1) a b False by (auto simp: sys_open_def Let_def)
      show ?thesis unfolding c(2)
        by (rule counted_same_trans [OF _ open_file_counted [OF c(1) assms(2)] tx_state_refs(1)]) (simp add: same_refs_table)
    qed
  qed
qed

lemma other_calls_counted:
  "sys_read p s = Ok (a, p', s') \<Longrightarrow> counted p s p' s'" "sys_write p s = Ok (a, p', s') \<Longrightarrow> counted p s p' s'" "sys_fstat pad p s = Ok (r, p', s') \<Longrightarrow> counted p s p' s'"
  "sys_link p s = Ok (r, p', s') \<Longrightarrow> counted p s p' s'" "sys_unlink p s = Ok (r, p', s') \<Longrightarrow> counted p s p' s'" "create_call ty ma mi p s = Ok (r, p', s') \<Longrightarrow> counted p s p' s'"
  "sys_chdir p s = Ok (r, p', s') \<Longrightarrow> counted p s p' s'"
proof -
  have m: "same_refs s (s\<lparr>ks_mem := k\<rparr>)" for k by (simp add: same_refs_table)
  have t: "same_refs (s\<lparr>ks_mem := k\<rparr>) s2 \<Longrightarrow> same_refs s s2" for k s2 using same_refs_trans [OF m] .
  show "sys_read p s = Ok (a, p', s') \<Longrightarrow> counted p s p' s'"
    using fileread_same by (fastforce simp: sys_read_def intro!: counted_same split: option.splits)
  show "sys_write p s = Ok (a, p', s') \<Longrightarrow> counted p s p' s'"
    using filewrite_same by (fastforce simp: sys_write_def intro!: counted_same split: option.splits)
  show "sys_fstat pad p s = Ok (r, p', s') \<Longrightarrow> counted p s p' s'"
    using filestat_same by (fastforce simp: sys_fstat_def intro!: counted_same split: option.splits)
  show "sys_link p s = Ok (r, p', s') \<Longrightarrow> counted p s p' s'" unfolding sys_link_def
    by (auto intro!: counted_same m dest!: in_tx_same t split: if_splits)
  show "sys_unlink p s = Ok (r, p', s') \<Longrightarrow> counted p s p' s'" unfolding sys_unlink_def
    by (auto intro!: counted_same m dest!: in_tx_same t split: if_splits)
  show "create_call ty ma mi p s = Ok (r, p', s') \<Longrightarrow> counted p s p' s'" unfolding create_call_def
    by (auto intro!: counted_same tx_state_refs dest!: in_tx_same t split: if_splits)
  show "sys_chdir p s = Ok (r, p', s') \<Longrightarrow> counted p s p' s'" unfolding sys_chdir_def
    by (auto intro!: counted_same tx_state_refs dest!: in_tx_same t split: if_splits option.splits)
qed


lemma close_both_refs: "refs_ok os (f # g # xs) s \<Longrightarrow> close_both pid f g s = Ok s' \<Longrightarrow> refs_ok os xs s'"
  using fileclose_refs [of os f "g # xs" s pid] fileclose_refs [of os g xs _ pid s'] by (auto simp: close_both_def)

text \<open>What the call does once the two table entries \<open>f\<close> and \<open>g\<close> are allocated.\<close>

lemma fdalloc_length: "fdalloc f p = (r, p') \<Longrightarrow> length (u_ofile p') = length (u_ofile p)"
  by (auto simp: fdalloc_def split: option.splits)

lemma pipe_tail_counted:
  assumes "sys_pipe p s = Ok (r, p', s')" "length (u_ofile p) = NOFILE" "pipealloc (pid_of p) s = Ok (Some (f, g), s1)"
    "refs_ok os (f # g # xs) s1" "i < length os" "os ! i = u_ofile p"
  shows "refs_ok (os[i := u_ofile p']) xs s'"
proof -
  have drop: "refs_ok (os[i := u_ofile p]) xs s2" if "close_both (pid_of p) f g s1' = Ok s2" "same_refs s1 s1'" for s1' s2
    using close_both_refs [OF refs_ok_same [OF assms(4) that(2)] that(1)] assms(6) by (metis list_update_id)
  obtain r1 p1 where a: "fdalloc f p = (r1, p1)" by fastforce
  from a assms(2) show ?thesis
  proof (cases rule: fdalloc_cases)
    case 1
    then have "close_both (pid_of p) f g s1 = Ok s'" "p' = p" using assms(1,3) a by (auto simp: sys_pipe_def)
    then show ?thesis using drop by simp
  next
    case fd0: (2 fd0)
    obtain r2 p2 where b: "fdalloc g p1 = (r2, p2)" by fastforce
    have l1: "length (u_ofile p1) = NOFILE" using fd0(2) assms(2) by simp
    from b l1 show ?thesis
    proof (cases rule: fdalloc_cases)
      case 1
      then have c: "close_both (pid_of p) f g s1 = Ok s'" "p' = clear_fd fd0 p1" using assms(1,3) a b fd0(1) by (auto simp: sys_pipe_def)
      have "u_ofile p' = u_ofile p" using fd0(2,4) assms(2) by (simp add: c(2) clear_fd_def) (metis list_update_id)
      then show ?thesis using drop [OF c(1)] by simp
    next
      case fd1: (2 fd1)
      have ne: "fd0 \<noteq> fd1" using fd1(4) fd0 assms(2) by auto
      obtain q1 k1 where c: "(if q1 < (0 :: int) then bind_res (close_both (pid_of p) f g (s1\<lparr>ks_mem := k1\<rparr>)) (\<lambda>s3. Ok (- 1, clear_fd fd1 (clear_fd fd0 p2), s3))
          else Ok (0, p2, s1\<lparr>ks_mem := k1\<rparr>)) = Ok (r, p', s')"
        using assms(1,3) a b fd0(1) fd1(1) by (auto simp: sys_pipe_def Let_def)
      have m: "same_refs s1 (s1\<lparr>ks_mem := k1\<rparr>)" by (simp add: same_refs_table)
      show ?thesis
      proof (cases "q1 < 0")
        case True
        then have d: "close_both (pid_of p) f g (s1\<lparr>ks_mem := k1\<rparr>) = Ok s'" "p' = clear_fd fd1 (clear_fd fd0 p2)" using c by (auto split: if_splits)
        have "u_ofile p' = (u_ofile p)[fd0 := None, fd1 := None]" using ne by (simp add: d(2) clear_fd_def fd1(2) fd0(2) list_update_swap)
        also have "\<dots> = u_ofile p"
        proof -
          have "u_ofile p ! fd1 = None" using fd1(4) fd0(2) ne by simp
          then show ?thesis using list_update_id [of "u_ofile p" fd0] list_update_id [of "u_ofile p" fd1] fd0(4) by simp
        qed
        finally show ?thesis using drop [OF d(1) m] by simp
      next
        case False
        then have d: "p' = p2" "s' = s1\<lparr>ks_mem := k1\<rparr>" using c by (auto split: if_splits)
        have "refs_ok os (f # g # xs) s'" unfolding d(2) by (rule refs_ok_same [OF assms(4) m])
        then have "refs_ok (os[i := u_ofile p1]) (g # xs) s'" using refs_ok_install [OF _ assms(5,6), of f "g # xs" s' fd0] fd0 assms(2) by simp
        then have "refs_ok ((os[i := u_ofile p1])[i := (u_ofile p1)[fd1 := Some g]]) xs s'"
          by (rule refs_ok_install) (use assms(5) fd1 l1 in simp_all)
        then show ?thesis using fd1(2) fd0(2) d(1) by simp
      qed
    qed
  qed
qed

lemma sys_pipe_counted:
  assumes "sys_pipe p s = Ok (r, p', s')" "length (u_ofile p) = NOFILE"
  shows "counted p s p' s'"
proof -
  obtain r0 s1 where a: "pipealloc (pid_of p) s = Ok (r0, s1)" using assms(1) by (auto simp: sys_pipe_def)
  show ?thesis
  proof (cases r0)
    case None
    then have c: "p' = p" "s' = s1" using assms(1) a by (auto simp: sys_pipe_def)
    show ?thesis unfolding c using pipealloc_refs [OF _ a] None by (intro countedI) (simp_all, metis list_update_id)
  next
    case (Some fg)
    obtain f g where fg: "fg = (f, g)" by fastforce
    note a = a [unfolded Some fg]
    have "refs_ok (os[i := u_ofile p']) xs s'" if "i < length os" "os ! i = u_ofile p" "refs_ok os xs s" for os i xs
      using pipe_tail_counted [OF assms a _ that(1,2)] pipealloc_refs [OF that(3) a] by simp
    moreover have "length (u_ofile p') = length (u_ofile p)"
    proof -
      obtain r1 p1 r2 p2 where "fdalloc f p = (r1, p1)" "fdalloc g p1 = (r2, p2)" by (meson surj_pair)
      note b = this this [THEN fdalloc_length]
      show ?thesis using assms(1) a b by (cases r1; cases r2) (auto simp: sys_pipe_def Let_def clear_fd_def split: if_split_asm)
    qed
    ultimately show ?thesis by (intro countedI) simp_all
  qed
qed


section \<open>Fork and exit\<close>

lemma refs_append: "refs (os @ [o']) xs f = refs os xs f + count_list o' (Some f)"
  by (simp add: refs_def)

lemma fork_loop_refs:
  assumes "refs_ok (os @ [replicate NOFILE None]) xs s" "u_ofile p \<in> set os" "length (u_ofile p) = NOFILE" "u_ofile np = replicate NOFILE None" "m \<le> NOFILE"
    and "fold_res (\<lambda>i (q, s). case u_ofile p ! i of
            None \<Rightarrow> Ok (q, s)
          | Some f \<Rightarrow> bind_res (filedup f s) (\<lambda>s1. Ok (q\<lparr>u_ofile := (u_ofile q)[i := Some f]\<rparr>, s1))) [0..<m] (np, s) = Ok (q, s')"
  shows "refs_ok (os @ [u_ofile q]) xs s' \<and> u_ofile q = take m (u_ofile p) @ replicate (NOFILE - m) None"
  using assms(5,6)
proof (induction m arbitrary: q s')
  case 0
  then show ?case using assms(1,4) by simp
next
  case (Suc m)
  let ?F = "\<lambda>i (q, s). case u_ofile p ! i of
            None \<Rightarrow> Ok (q, s)
          | Some f \<Rightarrow> bind_res (filedup f s) (\<lambda>s1. Ok (q\<lparr>u_ofile := (u_ofile q)[i := Some f]\<rparr>, s1))"
  obtain q1 s1 where a: "fold_res ?F [0..<m] (np, s) = Ok (q1, s1)" "?F m (q1, s1) = Ok (q, s')"
    using Suc.prems(2) by (auto simp: fold_res_append)
  have IH: "refs_ok (os @ [u_ofile q1]) xs s1" "u_ofile q1 = take m (u_ofile p) @ replicate (NOFILE - m) None" using Suc.IH [OF _ a(1)] Suc.prems(1) by auto
  have rep: "replicate (NOFILE - m) (None :: nat option) = None # replicate (NOFILE - Suc m) None" using Suc.prems(1) by (cases "NOFILE - m") auto
  have tk: "take (Suc m) (u_ofile p) = take m (u_ofile p) @ [u_ofile p ! m]" using Suc.prems(1) assms(3) by (simp add: take_Suc_conv_app_nth)
  show ?case
  proof (cases "u_ofile p ! m")
    case None
    then show ?thesis using a(2) IH tk rep by simp
  next
    case (Some f)
    have "u_ofile p ! m \<in> set (u_ofile p)" using Suc.prems(1) assms(3) by (intro nth_mem) simp
    then have "Some f \<in> set (concat os)" using Some assms(2) by auto
    then have "0 < refs (os @ [u_ofile q1]) xs f" using count_list_0_iff [of "concat os" "Some f"] by (auto simp: refs_def)
    from filedup_refs [OF IH(1) this] obtain s2 where d: "filedup f s1 = Ok s2" "refs_ok (os @ [u_ofile q1]) (f # xs) s2" by blast
    have q: "q = q1\<lparr>u_ofile := (u_ofile q1)[m := Some f]\<rparr>" "s' = s2" using a(2) Some d(1) by auto
    have l: "length (u_ofile q1) = NOFILE" "u_ofile q1 ! m = None" using IH(2) Suc.prems(1) assms(3) by (simp_all add: nth_append)
    have "refs_ok ((os @ [u_ofile q1])[length os := (u_ofile q1)[m := Some f]]) xs s2"
      by (rule refs_ok_install [OF d(2)]) (use l Suc.prems(1) in simp_all)
    moreover have "(u_ofile q1)[m := Some f] = take (Suc m) (u_ofile p) @ replicate (NOFILE - Suc m) None"
      using IH(2) rep tk Some Suc.prems(1) assms(3) by (simp add: list_update_append)
    ultimately show ?thesis using q by simp
  qed
qed

lemma fork_files_refs:
  assumes "refs_ok os xs s" "u_ofile p \<in> set os" "length (u_ofile p) = NOFILE" "u_ofile np = replicate NOFILE None" "fork_files p np s = Ok (q, s')"
  shows "refs_ok (os @ [u_ofile q]) xs s' \<and> u_ofile q = u_ofile p"
proof -
  have "refs_ok (os @ [replicate NOFILE None]) xs s" using assms(1) by (rule refs_ok_cong) (simp add: refs_append)
  note l = fork_loop_refs [OF this assms(2-4) order_refl]
  obtain q1 s1 where f: "fold_res (\<lambda>i (q, s). case u_ofile p ! i of None \<Rightarrow> Ok (q, s)
          | Some f \<Rightarrow> bind_res (filedup f s) (\<lambda>s1. Ok (q\<lparr>u_ofile := (u_ofile q)[i := Some f]\<rparr>, s1))) [0..<NOFILE] (np, s) = Ok (q1, s1)"
    and q: "q = q1\<lparr>u_cwd := u_cwd p\<rparr>" "s' = s1\<lparr>ks_fs := idup (u_cwd p) (ks_fs s1)\<rparr>" using assms(5) by (auto simp: fork_files_def)
  have a: "refs_ok (os @ [u_ofile q1]) xs s1" "u_ofile q1 = u_ofile p" using l [OF f] assms(3) by auto
  have "refs_ok (os @ [u_ofile q1]) xs s'" using a(1) by (rule refs_ok_same) (simp add: q(2) same_refs_table)
  then show ?thesis using a(2) q(1) by simp
qed

lemma exit_files_counted:
  assumes "exit_files p s = Ok (p', s')" "length (u_ofile p) = NOFILE"
  shows "counted p s p' s'"
proof -
  let ?F = "\<lambda>fd (q, s). case u_ofile q ! fd of
            None \<Rightarrow> Ok (q, s)
          | Some f \<Rightarrow> bind_res (fileclose (pid_of p) f s) (\<lambda>s1. Ok (clear_fd fd q, s1))"
  have loop: "counted p s q s1" if "m \<le> NOFILE" "fold_res ?F [0..<m] (p, s) = Ok (q, s1)" for m q s1
    using that
  proof (induction m arbitrary: q s1)
    case 0
    then show ?case by (simp add: counted_same)
  next
    case (Suc m)
    obtain q0 s0 where a: "fold_res ?F [0..<m] (p, s) = Ok (q0, s0)" "?F m (q0, s0) = Ok (q, s1)"
      using Suc.prems(2) by (auto simp: fold_res_append)
    have c: "counted p s q0 s0" using Suc.IH [OF _ a(1)] Suc.prems(1) by simp
    have "counted q0 s0 q s1"
    proof (cases "u_ofile q0 ! m")
      case None
      then show ?thesis using a(2) by (simp add: counted_same)
    next
      case (Some f)
      then have "fileclose (pid_of p) f s0 = Ok s1" "q = clear_fd m q0" using a(2) by auto
      then show ?thesis using close_fd_counted [of "pid_of p" f s0 s1 m q0] Some c Suc.prems(1) assms(2) by (simp add: counted_def)
    qed
    with c show ?case by (rule counted_trans)
  qed
  obtain s1 where "fold_res ?F [0..<NOFILE] (p, s) = Ok (p', s1)" "same_refs s1 s'" using assms(1) in_tx_same by (fastforce simp: exit_files_def)
  then show ?thesis using counted_trans [OF loop [OF order_refl] counted_same] by blast
qed

section \<open>Any sequence of calls\<close>

text \<open>A process sets its argument registers and calls; forking adds a process; a process that exits keeps its empty table.\<close>

inductive file_step :: "uproc list \<times> kstate \<Rightarrow> uproc list \<times> kstate \<Rightarrow> bool" where
  do_args: "i < length ps \<Longrightarrow> file_step (ps, s) (ps[i := (ps ! i)\<lparr>u_arg := a\<rparr>], s)"
| do_dup: "i < length ps \<Longrightarrow> sys_dup (ps ! i) s = Ok (r, p, s') \<Longrightarrow> file_step (ps, s) (ps[i := p], s')"
| do_close: "i < length ps \<Longrightarrow> sys_close (ps ! i) s = Ok (r, p, s') \<Longrightarrow> file_step (ps, s) (ps[i := p], s')"
| do_open: "i < length ps \<Longrightarrow> sys_open (ps ! i) s = Ok (r, p, s') \<Longrightarrow> file_step (ps, s) (ps[i := p], s')"
| do_pipe: "i < length ps \<Longrightarrow> sys_pipe (ps ! i) s = Ok (r, p, s') \<Longrightarrow> file_step (ps, s) (ps[i := p], s')"
| do_read: "i < length ps \<Longrightarrow> sys_read (ps ! i) s = Ok (act, p, s') \<Longrightarrow> file_step (ps, s) (ps[i := p], s')"
| do_write: "i < length ps \<Longrightarrow> sys_write (ps ! i) s = Ok (act, p, s') \<Longrightarrow> file_step (ps, s) (ps[i := p], s')"
| do_fstat: "i < length ps \<Longrightarrow> sys_fstat pad (ps ! i) s = Ok (r, p, s') \<Longrightarrow> file_step (ps, s) (ps[i := p], s')"
| do_link: "i < length ps \<Longrightarrow> sys_link (ps ! i) s = Ok (r, p, s') \<Longrightarrow> file_step (ps, s) (ps[i := p], s')"
| do_unlink: "i < length ps \<Longrightarrow> sys_unlink (ps ! i) s = Ok (r, p, s') \<Longrightarrow> file_step (ps, s) (ps[i := p], s')"
| do_mkdir: "i < length ps \<Longrightarrow> sys_mkdir (ps ! i) s = Ok (r, p, s') \<Longrightarrow> file_step (ps, s) (ps[i := p], s')"
| do_mknod: "i < length ps \<Longrightarrow> sys_mknod (ps ! i) s = Ok (r, p, s') \<Longrightarrow> file_step (ps, s) (ps[i := p], s')"
| do_chdir: "i < length ps \<Longrightarrow> sys_chdir (ps ! i) s = Ok (r, p, s') \<Longrightarrow> file_step (ps, s) (ps[i := p], s')"
| do_fork: "i < length ps \<Longrightarrow> u_ofile np = replicate NOFILE None \<Longrightarrow> fork_files (ps ! i) np s = Ok (q, s') \<Longrightarrow> file_step (ps, s) (ps @ [q], s')"
| do_exit: "i < length ps \<Longrightarrow> exit_files (ps ! i) s = Ok (p, s') \<Longrightarrow> file_step (ps, s) (ps[i := p], s')"

definition table_ok :: "uproc list \<times> kstate \<Rightarrow> bool" where
  "table_ok c \<longleftrightarrow> (\<forall>p \<in> set (fst c). length (u_ofile p) = NOFILE) \<and> refs_ok (map u_ofile (fst c)) [] (snd c)"

lemma table_ok_counted:
  assumes "table_ok (ps, s)" "i < length ps" "counted (ps ! i) s p s'"
  shows "table_ok (ps[i := p], s')"
proof -
  have l: "length (u_ofile p) = NOFILE" using assms by (auto simp: table_ok_def counted_def)
  have "refs_ok ((map u_ofile ps)[i := u_ofile p]) [] s'" using assms unfolding table_ok_def counted_def by (metis fst_conv length_map nth_map snd_conv)
  moreover have "\<forall>q \<in> set (ps[i := p]). length (u_ofile q) = NOFILE" using assms(1) l set_update_subset_insert [of ps i p] by (auto simp: table_ok_def)
  ultimately show ?thesis by (simp add: table_ok_def map_update)
qed

lemma mk_calls_counted: "sys_mkdir p s = Ok (r, p', s') \<Longrightarrow> counted p s p' s'" "sys_mknod p s = Ok (r, p', s') \<Longrightarrow> counted p s p' s'"
  using other_calls_counted(6) by (auto simp: sys_mkdir_def sys_mknod_def)

lemma file_step_ok: "file_step c c' \<Longrightarrow> table_ok c \<Longrightarrow> table_ok c'"
proof (induction rule: file_step.induct)
  case (do_fork i ps np s q s')
  have "refs_ok (map u_ofile ps @ [u_ofile q]) [] s' \<and> u_ofile q = u_ofile (ps ! i)"
    by (rule fork_files_refs [OF _ _ _ do_fork(2,3)]) (use do_fork in \<open>auto simp: table_ok_def\<close>)
  then show ?case using do_fork by (auto simp: table_ok_def)
next
  case (do_args i ps s a)
  show ?case by (rule table_ok_counted [OF do_args(2,1) counted_same]) simp_all
qed (rule table_ok_counted, assumption, assumption,
    (erule other_calls_counted mk_calls_counted |
     (erule sys_dup_counted sys_close_counted sys_open_counted sys_pipe_counted exit_files_counted, simp add: table_ok_def)))+

lemma file_steps_ok: "file_step\<^sup>*\<^sup>* c c' \<Longrightarrow> table_ok c \<Longrightarrow> table_ok c'"
  by (induction rule: rtranclp_induct) (auto intro: file_step_ok)


section \<open>Properties\<close>

text \<open>C6. The open-file table never loses count: in every state reached by any sequence of system calls, forks and exits of any number of processes from
  an empty table, the reference count of each entry is the number of descriptors, over all processes,
  that refer to it; an entry without references is free; so every descriptor names an entry that
  \<open>filedup\<close> accepts, and duplicating it counts exactly one more.\<close>

theorem file_references_exact:
  assumes "file_step\<^sup>*\<^sup>* (ps0, s0) (ps, s)"
    and "\<forall>p \<in> set ps0. u_ofile p = replicate NOFILE None" and "ks_file s0 = replicate NFILE x" and "f_ref x = 0" and "f_type x = FD_NONE"
  shows "length (ks_file s) = NFILE
    \<and> (\<forall>f < NFILE. f_ref (fil s f) = int (count_list (concat (map u_ofile ps)) (Some f)) \<and> (f_ref (fil s f) = 0 \<longrightarrow> f_type (fil s f) = FD_NONE))
    \<and> (\<forall>p \<in> set ps. \<forall>f. Some f \<in> set (u_ofile p) \<longrightarrow> f < NFILE \<and> 1 \<le> f_ref (fil s f) \<and> is_ok (filedup f s))"
proof -
  have z: "count_list (concat (map u_ofile ps0)) (Some f) = 0" for f
    using assms(2) by (auto simp: count_list_0_iff)
  have "table_ok (ps0, s0)" using assms(2-5) z by (auto simp: table_ok_def refs_ok_def refs_def)
  with assms(1) have "table_ok (ps, s)" by (rule file_steps_ok)
  then have r: "refs_ok (map u_ofile ps) [] s" by (simp add: table_ok_def)
  have "f < NFILE \<and> 1 \<le> f_ref (fil s f) \<and> is_ok (filedup f s)" if f: "p \<in> set ps" "Some f \<in> set (u_ofile p)" for p f
  proof -
    have "Some f \<in> set (concat (map u_ofile ps))" using f by auto
    then have "0 < refs (map u_ofile ps) [] f" using count_list_0_iff [of "concat (map u_ofile ps)" "Some f"] by (auto simp: refs_def)
    then show ?thesis using r by (auto simp: refs_ok_def filedup_def)
  qed
  moreover have "length (ks_file s) = NFILE
    \<and> (\<forall>f < NFILE. f_ref (fil s f) = int (count_list (concat (map u_ofile ps)) (Some f)) \<and> (f_ref (fil s f) = 0 \<longrightarrow> f_type (fil s f) = FD_NONE))"
    using r by (auto simp: refs_ok_def refs_def)
  ultimately show ?thesis by blast
qed


text \<open>An attempt to make a pipe when no memory is left: both table entries are taken and given back.\<close>

definition free_entry :: file_t where
  "free_entry = \<lparr>f_type = FD_NONE, f_ref = 0, f_readable = False, f_writable = False, f_pipe = 0, f_ip = 0, f_off = 0, f_major = 0\<rparr>"

definition empty_state :: kstate where
  "empty_state = \<lparr>ks_file = replicate NFILE free_entry, ks_fs = demo_fs, ks_mem = \<lparr>km_freelist = 0, km_cells = \<lambda>_ _. 0, km_end = 0\<rparr>, ks_pipe = \<lambda>_. pipeinit []\<rparr>"

definition first_proc :: uproc where
  "first_proc = \<lparr>u_self = \<lparr>c_pid = 1, c_pagetable = 0, c_sz = 0\<rparr>, u_ofile = replicate NOFILE None, u_cwd = 0, u_arg = [0, 0, 0, 0, 0, 0]\<rparr>"

lemma find_upt: "0 < n \<Longrightarrow> P 0 \<Longrightarrow> find P [0..<n] = Some 0" "1 < n \<Longrightarrow> \<not> P 0 \<Longrightarrow> P 1 \<Longrightarrow> find P [0..<n] = Some 1"
  by (simp_all add: upt_rec)

lemma pipe_without_memory: "\<exists>s'. sys_pipe first_proc empty_state = Ok (- 1, first_proc, s')"
proof -
  have n: "0 < NFILE" "1 < NFILE" by (simp_all add: NFILE_def)
  let ?s1 = "upd_file 0 (\<lambda>x. x\<lparr>f_ref := 1\<rparr>) empty_state"
  let ?s2 = "upd_file 1 (\<lambda>x. x\<lparr>f_ref := 1\<rparr>) ?s1"
  have f0: "filealloc empty_state = (Some 0, ?s1)"
    using find_upt(1) [OF n(1), of "\<lambda>f. f_ref (fil empty_state f) = 0"] n by (simp add: filealloc_def empty_state_def free_entry_def)
  have f1: "filealloc ?s1 = (Some 1, ?s2)"
    using find_upt(2) [OF n(2), of "\<lambda>f. f_ref (fil ?s1 f) = 0"] n by (simp add: filealloc_def upd_file_def empty_state_def free_entry_def)
  have k: "kalloc (ks_mem ?s2) = (0, ks_mem ?s2)" by (simp add: kalloc_def upd_file_def empty_state_def)
  obtain s3 where s3: "fileclose 1 0 ?s2 = Ok s3" "fil s3 1 = free_entry\<lparr>f_ref := 1\<rparr>"
    using n by (simp add: fileclose_def upd_file_def empty_state_def free_entry_def Let_def)
  have s4: "\<exists>s'. fileclose 1 1 s3 = Ok s'" using s3(2) by (simp add: fileclose_def free_entry_def Let_def)
  show ?thesis using f0 f1 k s3(1) s4 by (auto simp: sys_pipe_def argaddr_def argraw_def pipealloc_def first_proc_def)
qed

theorem file_references_exact_witness:
  "\<exists>s. sys_pipe first_proc empty_state = Ok (- 1, first_proc, s) \<and> length (ks_file s) = NFILE \<and> f_ref (fil s 0) = 0 \<and> f_type (fil s 0) = FD_NONE"
proof -
  obtain s where s: "sys_pipe first_proc empty_state = Ok (- 1, first_proc, s)" using pipe_without_memory by blast
  have "file_step ([first_proc], empty_state) ([first_proc], s)" using do_pipe [of 0 "[first_proc]"] s by fastforce
  then have "file_step\<^sup>*\<^sup>* ([first_proc], empty_state) ([first_proc], s)" by blast
  from file_references_exact [OF this, of free_entry] s show ?thesis
    by (auto simp: first_proc_def empty_state_def free_entry_def NFILE_def count_list_0_iff)
qed

end
