(* ===== verification/Spec2Isabelle.thy ===== *)
theory Spec2Isabelle
  imports Parser Peek Jobs SchedInv Console CString Dir FsLog FileInv SysfileInv
begin

text \<open>
  This development verifies the two programs of the repository: \<open>c-shell\<close>, a command shell in C, and
  \<open>xv6\<close>, a RISC-V teaching kernel with three schedulers, among them a multi-level feedback queue.

  \<^bold>\<open>Conventions.\<close> A C \<open>int\<close> that cannot overflow is an \<open>int\<close> or a \<open>nat\<close>; the counter of process ids, which can, wraps
  at 32 bits (\<open>int32\<close>). A \<open>uint\<close>, \<open>uint64\<close> or \<open>short\<close> is a word of its width with its wrap-around. A structure is a record
  whose fields carry the prefix of the structure, a pointer to an element of a table is its index. A panic is the
  value \<open>Panic\<close> of the type \<open>res\<close>. Whether an allocation of the host succeeds is an argument (\<open>alloc_oracle\<close>).
  A section under a spin lock is one atomic step, and so is one pass of a scheduler over the process table; on the way to and
  from a switch of context the locks of the processes and \<open>wait_lock\<close> are part of the state, with the checks of \<open>sched\<close>.
  A call that sleeps is cut into segments at its sleeps (\<open>sleep\<close>, pipes, console), or returns the panic value \<open>asleep\<close> at a sleep
  lock that is held. Loops are terminating recursive functions. Two of them carry a bound that the C code has not:
  \<open>freewalk\<close> of \<open>Vm\<close> the depth of the table below its page, which is at most 3 levels in Sv39, and \<open>scan\<close> of \<open>Bio\<close> the number of steps around
  the list, which is \<open>NBUF + 1\<close> and enough for a list of \<open>NBUF\<close> buffers and its head; to exhaust either is a \<open>Panic\<close>, which the
  invariants of \<open>PageTable\<close> and \<open>Bio\<close> exclude. In the same way \<open>read_head\<close> of \<open>Log\<close> panics with \<open>overrun\<close> where the C code would write past the
  array of block numbers; the header blocks that a commit writes never lead there.

  \<^bold>\<open>The shell.\<close> \<open>Lexer\<close> models \<open>lexer.c\<close> with its growing buffers and failing allocations, and shows that
  it refines a character automaton, inverts quoting and rejects exactly the unfinished lines.
  \<open>Parser\<close> models \<open>parser.c\<close> and the command splitting of \<open>d1d2.c\<close>; the check is equivalent to a grammar.
  \<open>Decimal\<close> holds the conversions of decimal numbers that the built-in commands use. \<open>Peek\<close> models \<open>peek\<close> of \<open>func.c\<close>: what
  the command prints of its operands in both directions, and where the two ways of reversing a file differ. \<open>Jobs\<close> models the
  job table and the handler of \<open>SIGCHLD\<close> in \<open>d1d2.c\<close> with \<open>resume.c\<close>, \<open>ping.c\<close> and \<open>activities.c\<close>: the table stays well formed and an exit
  is reported at most once.

  \<^bold>\<open>Processes.\<close> \<open>Spinlock\<close> models \<open>spinlock.c\<close> (mutual exclusion over interleavings of CPUs). \<open>Sched\<close> models
  the process table, the three schedulers, \<open>sleep\<close>, \<open>wakeup\<close>, \<open>kkill\<close> and the tick accounting of \<open>proc.c\<close> and
  \<open>trap.c\<close>; \<open>SchedInv\<close> interleaves them over CPUs (\<open>pstep\<close>, and \<open>kstep\<close> with the clock) and proves the invariant of the table, the absence of
  lost wakeups and panics, the order in which the schedulers choose, the demotion schedule and the boost. Facts about
  process ids hold until the counter wraps, after \<open>2 ^ 31 - 2\<close> births.

  \<^bold>\<open>Memory.\<close> \<open>Memlayout\<close> holds the constants, \<open>Kalloc\<close> the page allocator with its interface
  \<open>page_allocator\<close>, \<open>Vm\<close> the operations of \<open>vm.c\<close> on page tables held in physical pages. \<open>PageTable\<close> reads a
  table as a partial map and shows that mapping, growing, shrinking and freeing act on that map and
  return every page. \<open>UserMem\<close> shows that the copies between kernel and user see one flat sequence of bytes.

  \<^bold>\<open>Buffers between processes.\<close> \<open>Ring\<close> holds circular buffers with free-running counters and the interface
  \<open>bounded_queue\<close>; \<open>Pipe\<close> (\<open>pipe.c\<close>) and \<open>Console\<close> (\<open>console.c\<close>) are instances of it.

  \<^bold>\<open>Disk and file system.\<close> \<open>Bio\<close> models sleep locks and the buffer cache (\<open>sleeplock.c\<close>, \<open>bio.c\<close>) over a disk that
  records the history of its writes, and states its contract as the locale \<open>block_cache\<close>. \<open>Log\<close> models \<open>log.c\<close> on
  top of it: a crash after any prefix of the writes of a commit, followed by recovery, leaves all or
  nothing of the transaction. \<open>Bytes\<close> and \<open>CString\<close> hold the byte encodings and the routines of \<open>string.c\<close>.
  \<open>Fs\<close> models \<open>fs.c\<close> over the current contents of the blocks; \<open>FsLog\<close> shows that a change of a block there is
  the sequence \<open>bread\<close>, change, \<open>log_write\<close>, \<open>brelse\<close> below. \<open>FsInv\<close> proves block allocation, block maps,
  reading and writing correct, \<open>Trunc\<close> truncation and the inode on disk, \<open>Dir\<close> directories as
  maps from names to inode numbers, and paths.

  \<^bold>\<open>Open files.\<close> \<open>File\<close> models \<open>file.c\<close> over the file system, the memory of the caller and the pipes; \<open>FileInv\<close> shows that
  what one open file writes another reads, in transactions that fit the log. \<open>Sysfile\<close> models the system calls of
  \<open>sysfile.c\<close>, the fetching of arguments of \<open>syscall.c\<close>, and what \<open>kfork\<close> and \<open>kexit\<close> do to descriptors; \<open>SysfileInv\<close> shows that
  reference counts are exact under any sequence of calls.

  \<^bold>\<open>Not modelled.\<close> Assembly and device registers (\<open>trampoline.S\<close>, \<open>kernelvec.S\<close>, \<open>swtch.S\<close>, \<open>entry.S\<close>, \<open>start.c\<close>,
  \<open>plic.c\<close>, \<open>uart.c\<close>, \<open>virtio_disk.c\<close>): their effect is hardware state. Of \<open>trap.c\<close> only the clock interrupt; \<open>exec.c\<close>, \<open>sysproc.c\<close>,
  \<open>printk.c\<close> and \<open>main.c\<close> of the kernel; the dispatch of \<open>syscall.c\<close>; \<open>kwait\<close> and \<open>growproc\<close> of \<open>proc.c\<close> as whole calls; \<open>mkfs\<close> and the
  programs under \<open>xv6/user\<close>. Of the shell, starting programs, pipelines and redirections (\<open>execute.c\<close>, \<open>c3c4.c\<close>, \<open>redirection.c\<close>) and the
  commands \<open>hop\<close>, \<open>locate\<close>, \<open>reveal\<close>, \<open>spy\<close> and \<open>snoop\<close>, which consist mainly of calls to the host's kernel.
\<close>

end
